(* ===== verification/Prelude.thy ===== *)
theory Prelude
  imports Main "HOL-Library.Word"
begin

text \<open>
  Shared vocabulary of the development: the machine integer types, the result type of
  code that may panic, Rust's checked and saturating arithmetic, slices that are read with a
  bounds check, and the little/big-endian conversions of the integer types.
\<close>

unbundle bit_operations_syntax

subsection \<open>Machine integers\<close>

type_synonym u8 = "8 word"
type_synonym u16 = "16 word"
type_synonym u32 = "32 word"
type_synonym u64 = "64 word"
type_synonym u128 = "128 word"

named_theorems rust_arith \<open>characteristic facts of Rust's integer operations\<close>
named_theorems panic_simps \<open>rewriting of computations that may panic\<close>

subsection \<open>Computations that may panic\<close>

text \<open>
  Every crate is built with \<open>panic = "abort"\<close>, so a panic ends the run of the core: it is a
  value without a state. The payload is the message of the failing assertion or
  expectation.
\<close>

datatype 'a res = Panic string | Ok 'a

definition bindR :: "'a res \<Rightarrow> ('a \<Rightarrow> 'b res) \<Rightarrow> 'b res" where
  "bindR m f = (case m of Panic e \<Rightarrow> Panic e | Ok x \<Rightarrow> f x)"

lemma bindR_simps [simp, panic_simps]:
  "bindR (Panic e) f = Panic e"
  "bindR (Ok x) f = f x"
  by (simp_all add: bindR_def)

lemma bindR_eq_Ok: "bindR m f = Ok y \<longleftrightarrow> (\<exists>x. m = Ok x \<and> f x = Ok y)"
  by (cases m) simp_all

lemma bindR_OkE [elim!]:
  assumes "bindR m f = Ok y"
  obtains x where "m = Ok x" "f x = Ok y"
  using assms by (auto simp: bindR_eq_Ok)

lemma bindR_assoc: "bindR (bindR m f) g = bindR m (\<lambda>x. bindR (f x) g)"
  by (cases m) simp_all

lemma bindR_cong [fundef_cong]:
  "m = m' \<Longrightarrow> (\<And>x. m' = Ok x \<Longrightarrow> f x = g x) \<Longrightarrow> bindR m f = bindR m' g"
  by (cases m') simp_all

text \<open>\<open>Option::expect\<close> and \<open>Option::unwrap\<close>.\<close>

definition expectR :: "string \<Rightarrow> 'a option \<Rightarrow> 'a res" where
  "expectR msg v = (case v of None \<Rightarrow> Panic msg | Some x \<Rightarrow> Ok x)"

lemma expectR_simps [simp, panic_simps]:
  "expectR msg None = Panic msg"
  "expectR msg (Some x) = Ok x"
  by (simp_all add: expectR_def)

lemma expectR_eq_Ok [simp]: "expectR msg v = Ok x \<longleftrightarrow> v = Some x"
  by (cases v) simp_all

text \<open>A \<open>for\<close> loop whose body may panic.\<close>

fun foldR :: "('s \<Rightarrow> 'a \<Rightarrow> 's res) \<Rightarrow> 's \<Rightarrow> 'a list \<Rightarrow> 's res" where
  "foldR f s [] = Ok s"
| "foldR f s (x # xs) = bindR (f s x) (\<lambda>s'. foldR f s' xs)"

lemma foldR_append: "foldR f s (xs @ ys) = bindR (foldR f s xs) (\<lambda>s'. foldR f s' ys)"
  by (induction xs arbitrary: s) (simp_all add: bindR_assoc)

text \<open>The invariant rule for such a loop: it also shows that the loop does not panic.\<close>

lemma foldR_invariant:
  assumes "I s" and "\<And>s x. I s \<Longrightarrow> x \<in> set xs \<Longrightarrow> \<exists>s'. f s x = Ok s' \<and> I s'"
  shows "\<exists>s'. foldR f s xs = Ok s' \<and> I s'"
  using assms
proof (induction xs arbitrary: s)
  case Nil
  then show ?case by simp
next
  case (Cons x xs)
  then obtain s' where "f s x = Ok s'" "I s'" by (metis list.set_intros(1))
  moreover from Cons have "\<exists>s''. foldR f s' xs = Ok s'' \<and> I s''"
    using \<open>I s'\<close> by (metis list.set_intros(2))
  ultimately show ?case by simp
qed

subsection \<open>Array accesses with a bounds check\<close>

definition nthR :: "'a list \<Rightarrow> nat \<Rightarrow> 'a res" where
  "nthR xs i = (if i < length xs then Ok (xs ! i) else Panic ''index out of bounds'')"

definition updR :: "'a list \<Rightarrow> nat \<Rightarrow> 'a \<Rightarrow> 'a list res" where
  "updR xs i v = (if i < length xs then Ok (xs[i := v]) else Panic ''index out of bounds'')"

definition swapR :: "'a list \<Rightarrow> nat \<Rightarrow> nat \<Rightarrow> 'a list res" where
  "swapR xs i j = (if i < length xs \<and> j < length xs
     then Ok (xs[i := xs ! j, j := xs ! i]) else Panic ''index out of bounds'')"

lemma nthR_Ok [simp]: "i < length xs \<Longrightarrow> nthR xs i = Ok (xs ! i)"
  by (simp add: nthR_def)

lemma updR_Ok [simp]: "i < length xs \<Longrightarrow> updR xs i v = Ok (xs[i := v])"
  by (simp add: updR_def)

lemma nthR_OkD: "nthR xs i = Ok x \<Longrightarrow> i < length xs \<and> x = xs ! i"
  by (simp add: nthR_def split: if_splits)

lemma updR_OkD: "updR xs i v = Ok ys \<Longrightarrow> i < length xs \<and> ys = xs[i := v]"
  by (auto simp: updR_def split: if_splits)

subsection \<open>Checked and saturating arithmetic\<close>

definition checked_add :: "'a::len word \<Rightarrow> 'a word \<Rightarrow> 'a word option" where
  "checked_add a b = (if unat a + unat b < 2 ^ LENGTH('a) then Some (a + b) else None)"

definition checked_sub :: "'a::len word \<Rightarrow> 'a word \<Rightarrow> 'a word option" where
  "checked_sub a b = (if b \<le> a then Some (a - b) else None)"

definition saturating_add :: "'a::len word \<Rightarrow> 'a word \<Rightarrow> 'a word" where
  "saturating_add a b = (if unat a + unat b < 2 ^ LENGTH('a) then a + b else - 1)"

definition saturating_sub :: "'a::len word \<Rightarrow> 'a word \<Rightarrow> 'a word" where
  "saturating_sub a b = (if b \<le> a then a - b else 0)"

lemma checked_add_SomeD [rust_arith]:
  "checked_add a b = Some c \<Longrightarrow> c = a + b \<and> unat c = unat a + unat b"
  by (auto simp: checked_add_def unat_word_ariths split: if_splits)

text \<open>A sum overflows iff it is below its first operand; this form evaluates on the words.\<close>

lemma no_overflow_iff: "unat a + unat b < 2 ^ LENGTH('a) \<longleftrightarrow> a \<le> a + (b :: 'a::len word)"
proof (cases "unat a + unat b < 2 ^ LENGTH('a)")
  case True
  then have "unat (a + b) = unat a + unat b" by (simp add: unat_word_ariths)
  with True show ?thesis by (simp add: word_le_nat_alt)
next
  case False
  have lt: "unat a < 2 ^ LENGTH('a)" "unat b < 2 ^ LENGTH('a)" by simp_all
  have "unat (a + b) = (unat a + unat b) mod 2 ^ LENGTH('a)" by (simp add: unat_word_ariths)
  also have "\<dots> = (unat a + unat b - 2 ^ LENGTH('a)) mod 2 ^ LENGTH('a)"
    using False by (intro le_mod_geq) simp
  also have "\<dots> = unat a + unat b - 2 ^ LENGTH('a)" using lt by (intro mod_less) linarith
  also have "\<dots> < unat a" using False lt by linarith
  finally show ?thesis using False by (simp add: word_le_nat_alt)
qed

lemma checked_add_code [code]: "checked_add a b = (if a \<le> a + b then Some (a + b) else None)"
  by (simp add: checked_add_def no_overflow_iff)

lemma saturating_add_code [code]: "saturating_add a b = (if a \<le> a + b then a + b else - 1)"
  by (simp add: saturating_add_def no_overflow_iff)

lemma checked_sub_SomeD [rust_arith]:
  "checked_sub a b = Some c \<Longrightarrow> c = a - b \<and> b \<le> a \<and> unat c = unat a - unat b"
  by (auto simp: checked_sub_def unat_sub split: if_splits)

subsection \<open>Successor and predecessor of a word\<close>

lemma unat_succ: "a \<noteq> - 1 \<Longrightarrow> unat (a + 1 :: 'a::len word) = unat a + 1"
  by (metis Suc_eq_plus1 add.commute add_eq_0_iff unatSuc)

lemma unat_pred: "a \<noteq> 0 \<Longrightarrow> unat (a - 1 :: 'a::len word) = unat a - 1"
  by (simp add: unat_minus_one)

lemma word_succ_le: "a \<noteq> - 1 \<Longrightarrow> a + 1 \<le> x \<longleftrightarrow> a < (x :: 'a::len word)"
  by (auto simp: word_less_nat_alt word_le_nat_alt unat_succ)

lemma word_less_succ: "a \<noteq> - 1 \<Longrightarrow> x < a + 1 \<longleftrightarrow> x \<le> (a :: 'a::len word)"
  by (auto simp: word_less_nat_alt word_le_nat_alt unat_succ)

lemma word_le_pred: "a \<noteq> 0 \<Longrightarrow> x \<le> a - 1 \<longleftrightarrow> x < (a :: 'a::len word)"
  by (auto simp: word_less_nat_alt word_le_nat_alt unat_pred simp flip: unat_gt_0)

lemma less_imp_neq_max: "a < b \<Longrightarrow> a \<noteq> (- 1 :: 'a::len word)"
  using word_order.extremum_strict by blast

lemma less_imp_neq_zero: "a < b \<Longrightarrow> b \<noteq> (0 :: 'a::len word)"
  by auto

lemma saturating_add_1 [rust_arith]:
  "saturating_add a (1 :: 'a::len word) = (if a = - 1 then - 1 else a + 1)"
proof (cases "a = - 1")
  case True
  then have "\<not> unat a + unat (1 :: 'a word) < 2 ^ LENGTH('a)"
    by (simp add: unsigned_minus_1_eq_mask mask_eq_exp_minus_1)
  with True show ?thesis by (simp add: saturating_add_def)
next
  case False
  then have "unat a + 1 < 2 ^ LENGTH('a)"
    by (metis unat_succ unsigned_less)
  with False show ?thesis by (simp add: saturating_add_def)
qed

lemma saturating_sub_1 [rust_arith]:
  "saturating_sub a (1 :: 'a::len word) = (if a = 0 then 0 else a - 1)"
  by (auto simp: saturating_sub_def word_le_nat_alt simp flip: unat_gt_0)

lemma word_less_plus_1: "a \<noteq> - 1 \<Longrightarrow> a < (a + 1 :: 'a::len word)"
  by (simp add: word_less_succ)

lemma le_saturating_succ:
  "x \<le> saturating_add y (1 :: 'a::len word) \<longleftrightarrow> x \<le> y \<or> y \<noteq> - 1 \<and> x = y + 1"
  by (auto simp: saturating_add_1 order_le_less [of x "y + 1"] word_less_succ)

lemma saturating_succ_ge: "x \<le> saturating_add x (1 :: 'a::len word)"
  by (simp add: le_saturating_succ)

lemma less_saturating_succ: "x < saturating_add y (1 :: 'a::len word) \<Longrightarrow> x \<le> y"
  by (auto simp: saturating_add_1 word_less_succ split: if_splits)

lemma saturating_succ_mono:
  "x \<le> y \<Longrightarrow> saturating_add x 1 \<le> saturating_add y (1 :: 'a::len word)"
  by (auto simp: saturating_add_1 word_succ_le word_less_succ word_order.extremum_unique)

subsection \<open>Conversions between widths\<close>

lemma le_mask_take_bit:
  assumes "w \<le> mask n"
  shows "take_bit n w = (w :: 'a::len word)"
proof -
  have "uint w \<le> mask (min LENGTH('a) n)" using assms by (simp add: word_le_def uint_mask_eq)
  also have "\<dots> < 2 ^ min LENGTH('a) n" by (simp add: mask_eq_exp_minus_1)
  also have "\<dots> \<le> 2 ^ n" by (simp add: power_increasing)
  finally have "take_bit n (uint w) = uint w" by (simp add: take_bit_int_eq_self_iff)
  then show ?thesis by (simp add: word_uint_eq_iff unsigned_take_bit_eq)
qed

lemma unat_ucast_up:
  assumes "LENGTH('a) \<le> LENGTH('b)"
  shows "unat (ucast (w :: 'a::len word) :: 'b::len word) = unat w"
proof -
  have "unat w < 2 ^ LENGTH('a)" by simp
  also have "\<dots> \<le> 2 ^ LENGTH('b)" using assms by (simp add: power_increasing)
  finally have "take_bit LENGTH('b) (unat w) = unat w" by (simp add: take_bit_nat_eq_self_iff)
  then show ?thesis by (simp add: unsigned_ucast_eq)
qed

lemma le_mask_unat:
  assumes "(w :: 'a::len word) \<le> mask n"
  shows "unat w < 2 ^ n"
proof -
  have "take_bit n (unat w) = unat w" using le_mask_take_bit [OF assms] by (metis unsigned_take_bit_eq)
  then show ?thesis by (metis take_bit_nat_less_exp)
qed

lemma unat_le_mask:
  assumes "unat (w :: 'a::len word) < 2 ^ n"
  shows "w \<le> mask n"
proof -
  have "take_bit n w = w" using assms by (simp add: word_unat_eq_iff unsigned_take_bit_eq take_bit_nat_eq_self_iff)
  then have "w = take_bit n w" by simp
  also have "\<dots> \<le> mask n" by (simp add: take_bit_eq_mask word_and_le1)
  finally show ?thesis .
qed

lemma unat_ucast_down:
  assumes "(w :: 'a::len word) \<le> mask LENGTH('b)"
  shows "unat (ucast w :: 'b::len word) = unat w"
proof -
  have "take_bit LENGTH('b) (unat w) = unat (take_bit LENGTH('b) w)" by (simp add: unsigned_take_bit_eq)
  with le_mask_take_bit [OF assms] show ?thesis by (simp add: unsigned_ucast_eq)
qed

end
