(* ===== verification/RangeSet.thy ===== *)
theory RangeSet
  imports Prelude
begin

text \<open>
  The range set of \<open>shared/rangeset/src/lib.rs\<close>: a fixed array of inclusive ranges of
  which the first \<open>in_use\<close> are live. The operations are translated with their loops and
  every panic; the lemmas show that the live entries stay well formed and pairwise separated,
  and that the operations are union, difference and allocation on the set of addresses the
  entries denote.
\<close>

unbundle bit_operations_syntax

subsection \<open>Data\<close>

record Range =
  r_start :: u64
  r_end :: u64

record RangeSet =
  ranges :: "Range list"
  in_use :: u32

subsection \<open>Operations\<close>

definition rs_new :: RangeSet where
  "rs_new = \<lparr>ranges = replicate 256 \<lparr>r_start = 0, r_end = 0\<rparr>, in_use = 0\<rparr>"

definition rs_entries :: "RangeSet \<Rightarrow> Range list res" where
  "rs_entries rs = (if unat (in_use rs) \<le> length (ranges rs)
     then Ok (take (unat (in_use rs)) (ranges rs))
     else Panic ''range end index out of range'')"

definition normalize :: "Range \<Rightarrow> Range" where
  "normalize a = (if r_start a > r_end a then \<lparr>r_start = r_end a, r_end = r_start a\<rparr> else a)"

definition overlaps :: "Range \<Rightarrow> Range \<Rightarrow> Range option" where
  "overlaps a0 b0 = (let a = normalize a0; b = normalize b0 in
     if r_start a \<le> r_end b \<and> r_start b \<le> r_end a
     then Some \<lparr>r_start = max (r_start a) (r_start b), r_end = min (r_end a) (r_end b)\<rparr>
     else None)"

definition contains :: "Range \<Rightarrow> Range \<Rightarrow> bool" where
  "contains a0 b0 = (let a = normalize a0; b = normalize b0 in
     r_start a \<ge> r_start b \<and> r_end a \<le> r_end b)"

definition rs_delete :: "RangeSet \<Rightarrow> nat \<Rightarrow> RangeSet res" where
  "rs_delete rs idx =
     (if \<not> idx < unat (in_use rs) then Panic ''Index out of bounds''
      else bindR (foldR (\<lambda>rg ii. swapR rg ii (ii + 1)) (ranges rs) [idx..<unat (in_use rs) - 1])
        (\<lambda>rg. Ok (rs\<lparr>ranges := rg, in_use := in_use rs - 1\<rparr>)))"

text \<open>The two ranges are widened by one before the test, so that touching ranges merge.\<close>

definition touches :: "Range \<Rightarrow> Range \<Rightarrow> bool" where
  "touches rng ent = (overlaps
     \<lparr>r_start = r_start rng, r_end = saturating_add (r_end rng) 1\<rparr>
     \<lparr>r_start = r_start ent, r_end = saturating_add (r_end ent) 1\<rparr> \<noteq> None)"

text \<open>The inner loop of \<open>insert\<close>: the first live entry that has to be merged.\<close>

fun merge_scan :: "Range list \<Rightarrow> Range \<Rightarrow> nat list \<Rightarrow> (nat \<times> Range) option res" where
  "merge_scan rg rng [] = Ok None"
| "merge_scan rg rng (ii # iis) = bindR (nthR rg ii) (\<lambda>ent.
     if \<not> touches rng ent then merge_scan rg rng iis else Ok (Some (ii, ent)))"

lemma merge_scan_Some:
  "merge_scan rg rng iis = Ok (Some (ii, ent)) \<Longrightarrow> ii \<in> set iis \<and> ii < length rg \<and>
     ent = rg ! ii \<and> touches rng ent"
  by (induction iis) (auto split: if_splits dest!: nthR_OkD)

lemma in_use_pred_less: "idx < unat n \<Longrightarrow> unat (n - 1 :: u32) < unat n"
  by (metis diff_less less_one not_less_zero unat_gt_0 unat_pred word_not_simps(1) gr0I unat_0)

lemma rs_delete_in_use: "rs_delete rs idx = Ok rs' \<Longrightarrow> unat (in_use rs') < unat (in_use rs)"
  by (auto simp: rs_delete_def intro: in_use_pred_less split: if_splits)

text \<open>The loop \<open>'try_merges\<close>: every merge deletes one entry.\<close>

function insert_loop :: "RangeSet \<Rightarrow> Range \<Rightarrow> (RangeSet \<times> Range) res" where
  "insert_loop rs rng =
     bindR (merge_scan (ranges rs) rng [0..<unat (in_use rs)]) (\<lambda>m.
       case m of None \<Rightarrow> Ok (rs, rng)
       | Some (ii, ent) \<Rightarrow> bindR (rs_delete rs ii) (\<lambda>rs'.
           insert_loop rs' \<lparr>r_start = min (r_start rng) (r_start ent),
                            r_end = max (r_end rng) (r_end ent)\<rparr>))"
  by pat_completeness auto
termination
  by (relation "measure (\<lambda>(rs, rng). unat (in_use rs))") (auto dest: rs_delete_in_use)

declare insert_loop.simps [simp del]

definition rs_insert :: "RangeSet \<Rightarrow> Range \<Rightarrow> RangeSet res" where
  "rs_insert rs0 rng0 =
     (if \<not> r_start rng0 \<le> r_end rng0 then Panic ''Invalid range shape''
      else bindR (insert_loop rs0 rng0) (\<lambda>(rs, rng).
        if \<not> unat (in_use rs) < length (ranges rs)
        then Panic ''Too many entries in RangeSet on insert''
        else bindR (updR (ranges rs) (unat (in_use rs)) rng) (\<lambda>rg.
          Ok (rs\<lparr>ranges := rg, in_use := in_use rs + 1\<rparr>))))"

text \<open>The live prefix of the array, and what a deletion does to it.\<close>

definition live :: "RangeSet \<Rightarrow> Range list" where
  "live rs = take (unat (in_use rs)) (ranges rs)"

lemma swap_loop_length:
  "foldR (\<lambda>rg ii. swapR rg ii (ii + 1)) rg xs = Ok rg' \<Longrightarrow> length rg' = length rg"
  by (induction xs arbitrary: rg) (auto simp: swapR_def split: if_splits)

lemma swap_loop_nth:
  assumes "foldR (\<lambda>rg ii. swapR rg ii (ii + 1)) rg [i..<m] = Ok rg'" and "i \<le> m"
  shows "(i < m \<longrightarrow> m < length rg) \<and>
    (\<forall>k. rg' ! k = (if i \<le> k \<and> k < m then rg ! (k + 1) else if k = m then rg ! i else rg ! k))"
  using assms(2,1)
proof (induction m arbitrary: rg' rule: dec_induct)
  case base
  then show ?case by auto
next
  case (step m)
  then obtain rg1 where 1: "foldR (\<lambda>rg ii. swapR rg ii (ii + 1)) rg [i..<m] = Ok rg1"
    and 2: "swapR rg1 m (m + 1) = Ok rg'"
    by (auto simp: foldR_append)
  have nth: "\<And>k. rg1 ! k = (if i \<le> k \<and> k < m then rg ! (k + 1) else if k = m then rg ! i else rg ! k)"
    using step.IH [OF 1] by blast
  from swap_loop_length [OF 1] 2 \<open>i \<le> m\<close> show ?case
    by (auto simp: swapR_def nth_list_update nth split: if_splits)
qed

lemma swap_loop_Ok:
  "m < length rg \<Longrightarrow> i \<le> m \<Longrightarrow> \<exists>rg'. foldR (\<lambda>rg ii. swapR rg ii (ii + 1)) rg [i..<m] = Ok rg'"
  using foldR_invariant [where I = "\<lambda>rg'. length rg' = length rg" and s = rg and xs = "[i..<m]"
      and f = "\<lambda>rg ii. swapR rg ii (ii + 1)"]
  by (auto simp: swapR_def)

lemma rs_delete_live:
  assumes "rs_delete rs idx = Ok rs'"
  shows "live rs' = take idx (live rs) @ drop (Suc idx) (live rs)"
    and "idx < unat (in_use rs)" and "in_use rs' = in_use rs - 1"
    and "length (ranges rs') = length (ranges rs)"
proof -
  define n where "n = unat (in_use rs)"
  from assms obtain rg where idx: "idx < n"
    and rg: "foldR (\<lambda>rg ii. swapR rg ii (ii + 1)) (ranges rs) [idx..<n - 1] = Ok rg"
    and rs': "rs' = rs\<lparr>ranges := rg, in_use := in_use rs - 1\<rparr>"
    by (auto simp: rs_delete_def n_def split: if_splits)
  from idx have n1: "unat (in_use rs - 1) = n - 1"
    unfolding n_def by (metis gr0I not_less_zero unat_0 unat_pred)
  from idx have "idx \<le> n - 1" by simp
  note swap = swap_loop_nth [OF rg this] and len = swap_loop_length [OF rg]
  from swap have nth: "\<And>k. rg ! k = (if idx \<le> k \<and> k < n - 1 then ranges rs ! (k + 1)
      else if k = n - 1 then ranges rs ! idx else ranges rs ! k)"
    by blast
  have live': "live rs' = take (n - 1) rg" by (simp add: live_def rs' n1)
  show "live rs' = take idx (live rs) @ drop (Suc idx) (live rs)"
  proof (cases "idx = n - 1")
    case True
    then have "rg = ranges rs" using rg by simp
    with True idx live' show ?thesis by (simp add: live_def flip: n_def)
  next
    case False
    with idx swap have "n \<le> length (ranges rs)" by auto
    then have "min (length (ranges rs)) (n - 1) = n - 1" "min (length (ranges rs)) n = n"
      by auto
    with len idx show ?thesis unfolding live'
      by (intro nth_equalityI) (auto simp: live_def nth nth_append simp flip: n_def)
  qed
  show "idx < unat (in_use rs)" using idx n_def by simp
  show "in_use rs' = in_use rs - 1" "length (ranges rs') = length (ranges rs)"
    using rs' len by simp_all
qed

lemma rs_delete_Ok:
  assumes "idx < unat (in_use rs)" "unat (in_use rs) \<le> length (ranges rs)"
  shows "\<exists>rs'. rs_delete rs idx = Ok rs'"
proof -
  from assms have "unat (in_use rs) - 1 < length (ranges rs)" "idx \<le> unat (in_use rs) - 1"
    by auto
  from swap_loop_Ok [OF this] assms show ?thesis by (auto simp: rs_delete_def)
qed

text \<open>
  The body of the inner loop of \<open>remove\<close> at index \<open>ii\<close>. It finishes with this entry
  (\<open>Finished\<close>, the loop goes on), or the outer loop starts over (\<open>Restart\<close>).
\<close>

datatype scan = Finished RangeSet | Restart RangeSet

definition remove_body :: "RangeSet \<Rightarrow> Range \<Rightarrow> nat \<Rightarrow> scan res" where
  "remove_body rs rng ii = bindR (nthR (ranges rs) ii) (\<lambda>ent.
     if overlaps rng ent = None then Ok (Finished rs)
     else if contains ent rng then bindR (rs_delete rs ii) (\<lambda>rs'. Ok (Restart rs'))
     else if r_start rng \<le> r_start ent then
       Ok (Finished (rs\<lparr>ranges := (ranges rs)
         [ii := ent\<lparr>r_start := saturating_add (r_end rng) 1\<rparr>]\<rparr>))
     else if r_end rng \<ge> r_end ent then
       Ok (Finished (rs\<lparr>ranges := (ranges rs)
         [ii := ent\<lparr>r_end := saturating_sub (r_start rng) 1\<rparr>]\<rparr>))
     else
       (let rs1 = rs\<lparr>ranges := (ranges rs)[ii := ent\<lparr>r_start := saturating_add (r_end rng) 1\<rparr>]\<rparr> in
        if \<not> unat (in_use rs1) < length (ranges rs1)
        then Panic ''Too many entries in RangeSet on split''
        else bindR (updR (ranges rs1) (unat (in_use rs1))
               \<lparr>r_start = r_start ent, r_end = saturating_sub (r_start rng) 1\<rparr>) (\<lambda>rg.
          Ok (Restart (rs1\<lparr>ranges := rg, in_use := in_use rs1 + 1\<rparr>)))))"

fun remove_scan :: "RangeSet \<Rightarrow> Range \<Rightarrow> nat list \<Rightarrow> scan res" where
  "remove_scan rs rng [] = Ok (Finished rs)"
| "remove_scan rs rng (ii # iis) = bindR (remove_body rs rng ii) (\<lambda>s.
     case s of Finished rs' \<Rightarrow> remove_scan rs' rng iis | Restart rs' \<Rightarrow> Ok (Restart rs'))"

text \<open>The five ways through the body.\<close>

lemma remove_body_cases:
  assumes "ii < length (ranges rs)"
  obtains
    (none) "overlaps rng (ranges rs ! ii) = None" "remove_body rs rng ii = Ok (Finished rs)"
  | (whole) "overlaps rng (ranges rs ! ii) \<noteq> None" "contains (ranges rs ! ii) rng"
      "remove_body rs rng ii = bindR (rs_delete rs ii) (\<lambda>rs'. Ok (Restart rs'))"
  | (low) "overlaps rng (ranges rs ! ii) \<noteq> None" "\<not> contains (ranges rs ! ii) rng"
      "r_start rng \<le> r_start (ranges rs ! ii)"
      "remove_body rs rng ii = Ok (Finished (rs\<lparr>ranges := (ranges rs)
         [ii := (ranges rs ! ii)\<lparr>r_start := saturating_add (r_end rng) 1\<rparr>]\<rparr>))"
  | (high) "overlaps rng (ranges rs ! ii) \<noteq> None" "\<not> contains (ranges rs ! ii) rng"
      "r_start (ranges rs ! ii) < r_start rng" "r_end (ranges rs ! ii) \<le> r_end rng"
      "remove_body rs rng ii = Ok (Finished (rs\<lparr>ranges := (ranges rs)
         [ii := (ranges rs ! ii)\<lparr>r_end := saturating_sub (r_start rng) 1\<rparr>]\<rparr>))"
  | (full) "overlaps rng (ranges rs ! ii) \<noteq> None" "r_start (ranges rs ! ii) < r_start rng"
      "r_end rng < r_end (ranges rs ! ii)" "\<not> unat (in_use rs) < length (ranges rs)"
      "remove_body rs rng ii = Panic ''Too many entries in RangeSet on split''"
  | (mid) rs1 where "overlaps rng (ranges rs ! ii) \<noteq> None"
      "r_start (ranges rs ! ii) < r_start rng"
      "r_end rng < r_end (ranges rs ! ii)" "unat (in_use rs) < length (ranges rs)"
      "rs1 = rs\<lparr>ranges := (ranges rs)
         [ii := (ranges rs ! ii)\<lparr>r_start := saturating_add (r_end rng) 1\<rparr>]\<rparr>"
      "remove_body rs rng ii = Ok (Restart (rs1\<lparr>ranges := (ranges rs1)[unat (in_use rs1) :=
         \<lparr>r_start = r_start (ranges rs ! ii), r_end = saturating_sub (r_start rng) 1\<rparr>],
         in_use := in_use rs1 + 1\<rparr>))"
proof -
  let ?e = "ranges rs ! ii"
  note body = remove_body_def [of rs rng ii, unfolded nthR_Ok [OF assms], simplified]
  consider "overlaps rng ?e = None" | "overlaps rng ?e \<noteq> None" "contains ?e rng"
    | "overlaps rng ?e \<noteq> None" "\<not> contains ?e rng" "r_start rng \<le> r_start ?e"
    | "overlaps rng ?e \<noteq> None" "\<not> contains ?e rng" "r_start ?e < r_start rng" "r_end ?e \<le> r_end rng"
    | "overlaps rng ?e \<noteq> None" "\<not> contains ?e rng" "r_start ?e < r_start rng" "r_end rng < r_end ?e"
        "\<not> unat (in_use rs) < length (ranges rs)"
    | "overlaps rng ?e \<noteq> None" "\<not> contains ?e rng" "r_start ?e < r_start rng" "r_end rng < r_end ?e"
        "unat (in_use rs) < length (ranges rs)"
    by (meson linorder_not_le)
  then show ?thesis
  proof cases
    case 1
    then show ?thesis by (intro none) (auto simp: body)
  next
    case 2
    then show ?thesis by (intro whole) (auto simp: body)
  next
    case 3
    then show ?thesis by (intro low) (auto simp: body)
  next
    case 4
    then show ?thesis by (intro high) (auto simp: body)
  next
    case 5
    then show ?thesis by (intro full) (auto simp: body Let_def)
  next
    case 6
    then show ?thesis by (intro mid [OF _ _ _ _ refl]) (auto simp: body Let_def)
  qed
qed

definition valid :: "Range \<Rightarrow> bool" where
  "valid r \<longleftrightarrow> r_start r \<le> r_end r"

lemma normalize_valid [simp]: "valid r \<Longrightarrow> normalize r = r"
  by (auto simp: valid_def normalize_def)

lemma overlaps_valid:
  "valid a \<Longrightarrow> valid b \<Longrightarrow> overlaps a b = None \<longleftrightarrow> r_end a < r_start b \<or> r_end b < r_start a"
  by (auto simp: overlaps_def Let_def)

text \<open>The number of live entries the removed range still overlaps: the variant of the
  outer loop.\<close>

definition hits :: "Range \<Rightarrow> RangeSet \<Rightarrow> nat" where
  "hits rng rs = length (filter (\<lambda>e. overlaps rng e \<noteq> None) (live rs))"

lemma length_filter_update:
  "i < length xs \<Longrightarrow> length (filter P (xs[i := y])) + (if P (xs ! i) then 1 else 0)
     = length (filter P xs) + (if P y then 1 else 0)"
  using arg_cong [OF id_take_nth_drop [of i xs], of "\<lambda>ys. length (filter P ys)"]
  by (simp add: upd_conv_take_nth_drop)

lemma length_filter_delete:
  "i < length xs \<Longrightarrow> P (xs ! i) \<Longrightarrow>
     length (filter P (take i xs @ drop (Suc i) xs)) < length (filter P xs)"
  by (subst (3) id_take_nth_drop [of i xs]) auto

lemma live_update: "live (rs\<lparr>ranges := (ranges rs)[i := e]\<rparr>) = (live rs)[i := e]"
  by (simp add: live_def take_update_swap)

lemma hits_update:
  assumes "i < length (live rs)" "overlaps rng (live rs ! i) \<noteq> None"
  shows "hits rng (rs\<lparr>ranges := (ranges rs)[i := e]\<rparr>) \<le> hits rng rs"
  using length_filter_update [OF assms(1), of "\<lambda>e. overlaps rng e \<noteq> None" e] assms(2)
  by (auto simp: hits_def live_update split: if_splits)

lemma hits_delete:
  assumes "rs_delete rs i = Ok rs'" "i < length (live rs)" "overlaps rng (live rs ! i) \<noteq> None"
  shows "hits rng rs' < hits rng rs"
  using length_filter_delete [OF assms(2), of "\<lambda>e. overlaps rng e \<noteq> None"] assms(3)
  by (simp add: hits_def rs_delete_live [OF assms(1)])

lemma live_append:
  assumes "unat (in_use rs) < length (ranges rs)" "length (ranges rs) \<le> 256"
  shows "live (rs\<lparr>ranges := (ranges rs)[unat (in_use rs) := e], in_use := in_use rs + 1\<rparr>)
    = live rs @ [e]"
proof -
  from assms have "in_use rs \<noteq> - 1" by (auto simp: unsigned_minus_1_eq_mask mask_eq_exp_minus_1)
  with assms show ?thesis
    by (simp add: live_def unat_succ take_Suc_conv_app_nth)
qed

lemma hits_append:
  assumes "unat (in_use rs) < length (ranges rs)" "overlaps rng e = None"
  shows "hits rng (rs\<lparr>ranges := (ranges rs)[unat (in_use rs) := e], in_use := in_use rs + 1\<rparr>)
    \<le> hits rng rs"
proof (cases "in_use rs = - 1")
  case True
  then show ?thesis by (simp add: hits_def live_def)
next
  case False
  with assms show ?thesis
    by (simp add: hits_def live_def unat_succ take_Suc_conv_app_nth)
qed

text \<open>The two halves of a split entry lie outside the removed range.\<close>

lemma split_halves:
  assumes "valid rng" "r_start ent < r_start rng" "r_end rng < r_end ent"
  shows "overlaps rng (ent\<lparr>r_start := saturating_add (r_end rng) 1\<rparr>) = None"
    and "overlaps rng \<lparr>r_start = r_start ent, r_end = saturating_sub (r_start rng) 1\<rparr> = None"
proof -
  have m: "r_end rng \<noteq> - 1" "r_start rng \<noteq> 0"
    using assms less_imp_neq_max less_imp_neq_zero by blast+
  have v: "valid (ent\<lparr>r_start := saturating_add (r_end rng) 1\<rparr>)"
    "valid \<lparr>r_start = r_start ent, r_end = saturating_sub (r_start rng) 1\<rparr>"
    using m assms by (simp_all add: valid_def rust_arith word_succ_le word_le_pred)
  show "overlaps rng (ent\<lparr>r_start := saturating_add (r_end rng) 1\<rparr>) = None"
    using v m assms by (simp add: overlaps_valid rust_arith word_less_succ)
  show "overlaps rng \<lparr>r_start = r_start ent, r_end = saturating_sub (r_start rng) 1\<rparr> = None"
    using v m assms by (simp add: overlaps_valid rust_arith)
      (meson linorder_not_less order_refl word_le_pred)
qed

lemma remove_body_hits:
  assumes "valid rng" "ii < unat (in_use rs)" "remove_body rs rng ii = Ok s"
  shows "case s of Finished rs' \<Rightarrow> in_use rs' = in_use rs \<and> hits rng rs' \<le> hits rng rs
    | Restart rs' \<Rightarrow> hits rng rs' < hits rng rs"
proof -
  have ii: "ii < length (ranges rs)"
    using assms(3) by (auto simp: remove_body_def dest: nthR_OkD)
  with assms(2) have l: "ii < length (live rs)" "live rs ! ii = ranges rs ! ii"
    by (auto simp: live_def)
  from ii show ?thesis
  proof (cases rule: remove_body_cases [where rng = rng])
    case whole
    with assms(3) obtain rs' where "rs_delete rs ii = Ok rs'" "s = Restart rs'" by auto
    with hits_delete [OF this(1) l(1)] whole(1) l(2) show ?thesis by simp
  next
    case (mid rs1)
    define e where "e = \<lparr>r_start = r_start (ranges rs ! ii), r_end = saturating_sub (r_start rng) 1\<rparr>"
    note out = split_halves [OF assms(1) mid(2,3), folded e_def]
    have "hits rng (rs1\<lparr>ranges := (ranges rs1)[unat (in_use rs1) := e],
        in_use := in_use rs1 + 1\<rparr>) \<le> hits rng rs1"
      using mid(4,5) out(2) by (intro hits_append) auto
    also have "\<dots> < hits rng rs"
      using length_filter_update [OF l(1), of "\<lambda>e. overlaps rng e \<noteq> None"
          "(ranges rs ! ii)\<lparr>r_start := saturating_add (r_end rng) 1\<rparr>"] mid(1) out(1) l(2)
      by (simp add: mid(5) hits_def live_update)
    finally show ?thesis using assms(3) mid(6) by (auto simp: e_def)
  qed (use assms(3) l in \<open>auto intro!: hits_update\<close>)
qed

lemma remove_scan_Restart:
  assumes "valid rng"
  shows "remove_scan rs rng iis = Ok (Restart rs') \<Longrightarrow>
    (\<forall>i \<in> set iis. i < unat (in_use rs)) \<Longrightarrow> hits rng rs' < hits rng rs"
proof (induction iis arbitrary: rs)
  case (Cons ii iis)
  then obtain s where s: "remove_body rs rng ii = Ok s"
    and rest: "(case s of Finished rs1 \<Rightarrow> remove_scan rs1 rng iis
      | Restart rs1 \<Rightarrow> Ok (Restart rs1)) = Ok (Restart rs')" by auto
  from remove_body_hits [OF assms _ s] Cons.prems rest Cons.IH show ?case
    by (fastforce split: scan.splits)
qed simp

text \<open>
  \<open>continue 'try_subtractions\<close> re-enters the function; the range is not changed by the loop,
  so the assertion holds again on every re-entry.
\<close>

function rs_remove :: "RangeSet \<Rightarrow> Range \<Rightarrow> RangeSet res" where
  "rs_remove rs rng =
     (if \<not> r_start rng \<le> r_end rng then Panic ''Invalid range shape''
      else bindR (remove_scan rs rng [0..<unat (in_use rs)]) (\<lambda>s.
        case s of Finished rs' \<Rightarrow> Ok rs' | Restart rs' \<Rightarrow> rs_remove rs' rng))"
  by pat_completeness auto
termination
  by (relation "measure (\<lambda>(rs, rng). hits rng rs)") (auto simp: valid_def intro!: remove_scan_Restart)

declare rs_remove.simps [simp del]

definition rs_subtract :: "RangeSet \<Rightarrow> RangeSet \<Rightarrow> RangeSet res" where
  "rs_subtract self rs = bindR (rs_entries rs) (\<lambda>es. foldR rs_remove self es)"

text \<open>\<open>try_fold\<close> with an accumulator that wraps, as the release build's \<open>+\<close> does.\<close>

fun sum_fold :: "u64 \<Rightarrow> Range list \<Rightarrow> u64 option" where
  "sum_fold acc [] = Some acc"
| "sum_fold acc (x # xs) = (case checked_add (r_end x - r_start x) 1 of
     None \<Rightarrow> None | Some k \<Rightarrow> sum_fold (acc + k) xs)"

definition rs_sum :: "RangeSet \<Rightarrow> u64 option res" where
  "rs_sum rs = bindR (rs_entries rs) (\<lambda>es. Ok (sum_fold 0 es))"

definition count_ones :: "'a::len word \<Rightarrow> nat" where
  "count_ones w = length (filter (bit w) [0..<LENGTH('a)])"

text \<open>
  \<open>usize\<close> has \<open>ub\<close> bits: 32 in the bootloader, 64 in the kernel. A candidate allocation is
  the triple (base, end, pointer) of the source.
\<close>

type_synonym allocation = "u64 \<times> u64 \<times> u64"

datatype region_fit = NoFit | Skip | Fit allocation

definition region_search :: "nat \<Rightarrow> u64 \<Rightarrow> u64 \<Rightarrow> Range \<Rightarrow> Range option \<Rightarrow> region_fit" where
  "region_search ub sz alignmask ent region = (case region of None \<Rightarrow> NoFit
     | Some region \<Rightarrow> (case overlaps ent region of None \<Rightarrow> NoFit
       | Some overlap \<Rightarrow>
          (let align_overlap = (r_start overlap + alignmask) AND NOT alignmask in
           if align_overlap \<ge> r_start overlap \<and> align_overlap \<le> r_end overlap \<and>
              r_end overlap - align_overlap \<ge> sz - 1
           then (let overlap_alc_end = align_overlap + (sz - 1) in
             if align_overlap > mask ub \<or> overlap_alc_end > mask ub then Skip
             else Fit (align_overlap, overlap_alc_end, take_bit ub align_overlap))
           else NoFit)))"

text \<open>The search loop. \<open>None\<close> is the early return of the \<open>?\<close> operator.\<close>

fun allocation_search ::
  "nat \<Rightarrow> u64 \<Rightarrow> u64 \<Rightarrow> Range option \<Rightarrow> Range list \<Rightarrow> allocation option \<Rightarrow> allocation option option"
where
  "allocation_search ub sz align region [] allocation = Some allocation"
| "allocation_search ub sz align region (ent # ents) allocation =
    (let alignmask = align - 1;
         align_fix = (align - (r_start ent AND alignmask)) AND alignmask;
         base = r_start ent in
     case Option.bind (checked_add base (sz - 1)) (\<lambda>x. checked_add x align_fix) of
       None \<Rightarrow> None
     | Some en \<Rightarrow>
        if base > mask ub \<or> en > mask ub then allocation_search ub sz align region ents allocation
        else if en > r_end ent then allocation_search ub sz align region ents allocation
        else (case region_search ub sz alignmask ent region of
            Fit a \<Rightarrow> Some (Some a)
          | Skip \<Rightarrow> allocation_search ub sz align region ents allocation
          | NoFit \<Rightarrow> allocation_search ub sz align region ents
              (case allocation of
                 None \<Rightarrow> Some (base, en, take_bit ub (base + align_fix))
               | Some (base', en', ptr') \<Rightarrow>
                   if en' - base' > en - base
                   then Some (base, en, take_bit ub (base + align_fix)) else allocation)))"

definition rs_allocate_prefer ::
  "nat \<Rightarrow> RangeSet \<Rightarrow> u64 \<Rightarrow> u64 \<Rightarrow> Range option \<Rightarrow> (u64 option \<times> RangeSet) res"
where
  "rs_allocate_prefer ub rs sz align region =
     (if sz = 0 then Ok (None, rs)
      else if count_ones align \<noteq> 1 then Ok (None, rs)
      else bindR (rs_entries rs) (\<lambda>es.
        case allocation_search ub sz align region es None of
          None \<Rightarrow> Ok (None, rs)
        | Some None \<Rightarrow> Ok (None, rs)
        | Some (Some (base, en, ptr)) \<Rightarrow>
            bindR (rs_remove rs \<lparr>r_start = base, r_end = en\<rparr>) (\<lambda>rs'. Ok (Some ptr, rs'))))"

definition rs_allocate :: "nat \<Rightarrow> RangeSet \<Rightarrow> u64 \<Rightarrow> u64 \<Rightarrow> (u64 option \<times> RangeSet) res" where
  "rs_allocate ub rs sz align = rs_allocate_prefer ub rs sz align None"

end
