(* ===== verification/RangeSet_Correct.thy ===== *)
theory RangeSet_Correct
  imports RangeSet
begin

text \<open>
  What insertion and removal promise: the live entries stay well formed and pairwise
  separated, and the operations act on the set of addresses the entries denote as union and
  difference. Each operation is total up to the panics of the source, which are
  characterised exactly.
\<close>

unbundle bit_operations_syntax

subsection \<open>The set of addresses\<close>

definition span :: "Range \<Rightarrow> u64 set" where
  "span r = {r_start r..r_end r}"

definition addrs :: "Range list \<Rightarrow> u64 set" where
  "addrs es = (\<Union>e \<in> set es. span e)"

definition rs_addrs :: "RangeSet \<Rightarrow> u64 set" where
  "rs_addrs rs = addrs (live rs)"

definition rs_inv :: "RangeSet \<Rightarrow> bool" where
  "rs_inv rs \<longleftrightarrow> length (ranges rs) = 256 \<and> unat (in_use rs) \<le> 256 \<and>
     list_all valid (live rs) \<and> sorted_wrt (\<lambda>a b. \<not> touches a b) (live rs)"

lemma addrs_simps [simp]:
  "addrs [] = {}" "addrs (e # es) = span e \<union> addrs es" "addrs (xs @ ys) = addrs xs \<union> addrs ys"
  by (auto simp: addrs_def)

lemma span_nonempty: "valid r \<Longrightarrow> span r \<noteq> {}"
  by (simp add: valid_def span_def)

lemma overlaps_None_iff: "valid a \<Longrightarrow> valid b \<Longrightarrow> overlaps a b = None \<longleftrightarrow> span a \<inter> span b = {}"
  by (auto simp: overlaps_valid span_def valid_def disjoint_iff not_le)

lemma contains_iff: "valid a \<Longrightarrow> valid b \<Longrightarrow> contains a b \<longleftrightarrow> span a \<subseteq> span b"
  by (auto simp: contains_def span_def valid_def Let_def)

lemma valid_widen: "valid r \<Longrightarrow> valid \<lparr>r_start = r_start r, r_end = saturating_add (r_end r) 1\<rparr>"
  by (simp add: valid_def le_saturating_succ)

lemma touches_iff: "valid a \<Longrightarrow> valid b \<Longrightarrow>
  touches a b \<longleftrightarrow> r_start a \<le> saturating_add (r_end b) 1 \<and> r_start b \<le> saturating_add (r_end a) 1"
  using valid_widen [of a] valid_widen [of b]
  by (auto simp: touches_def overlaps_valid)

lemma touches_sym: "touches a b = touches b a"
  by (auto simp: touches_def overlaps_def Let_def)

lemma not_touches_disjoint: "valid a \<Longrightarrow> valid b \<Longrightarrow> \<not> touches a b \<Longrightarrow> span a \<inter> span b = {}"
  by (auto simp: touches_iff span_def not_le) (meson linorder_not_le order_trans saturating_succ_ge)+

text \<open>Merging two touching ranges covers exactly their union.\<close>

lemma merge_span:
  assumes "valid a" "valid b" "touches a b"
  defines "m \<equiv> \<lparr>r_start = min (r_start a) (r_start b), r_end = max (r_end a) (r_end b)\<rparr>"
  shows "valid m" "span m = span a \<union> span b"
proof -
  show "valid m" using assms by (auto simp: valid_def min_def max_def)
  have gap: "x < r_start a \<Longrightarrow> x \<le> r_end b" "x < r_start b \<Longrightarrow> x \<le> r_end a" for x
    using assms(1-3) by (auto simp: touches_iff intro: less_saturating_succ order_less_le_trans)
  show "span m = span a \<union> span b"
  proof (intro equalityI subsetI)
    fix x assume "x \<in> span m"
    then show "x \<in> span a \<union> span b"
      using gap [of x] by (cases "x < r_start a"; cases "x < r_start b")
        (auto simp: m_def span_def min_le_iff_disj le_max_iff_disj not_less)
  qed (auto simp: m_def span_def min_le_iff_disj le_max_iff_disj)
qed

text \<open>A part of a range touches nothing that the range does not touch.\<close>

lemma shrink_not_touches:
  assumes "valid a" "valid b" "\<not> touches a b" "valid a'" "r_start a \<le> r_start a'" "r_end a' \<le> r_end a"
  shows "\<not> touches a' b"
  using assms
  by (simp add: touches_iff) (meson order_trans saturating_succ_mono)

subsection \<open>Deleting and replacing entries\<close>

lemma rs_invD:
  assumes "rs_inv rs"
  shows "length (ranges rs) = 256" "unat (in_use rs) \<le> 256" "length (live rs) = unat (in_use rs)"
    "\<And>e. e \<in> set (live rs) \<Longrightarrow> valid e" "rs_entries rs = Ok (live rs)"
  using assms by (auto simp: rs_inv_def live_def list_all_iff rs_entries_def)

lemma live_nth: "i < unat (in_use rs) \<Longrightarrow> live rs ! i = ranges rs ! i"
  by (simp add: live_def)

text \<open>The entries other than the one at index \<open>i\<close>.\<close>

definition others :: "nat \<Rightarrow> 'a list \<Rightarrow> 'a list" where
  "others i xs = take i xs @ drop (Suc i) xs"

lemma addrs_nth: "i < length es \<Longrightarrow> addrs es = span (es ! i) \<union> addrs (others i es)"
  using arg_cong [OF id_take_nth_drop [of i es], of addrs] by (auto simp: others_def)

lemma addrs_update: "i < length es \<Longrightarrow> addrs (es[i := e]) = span e \<union> addrs (others i es)"
  by (auto simp: upd_conv_take_nth_drop others_def)

lemma set_others: "set (others i es) \<subseteq> set es"
  by (auto simp: others_def dest: in_set_takeD in_set_dropD)

lemma sorted_wrt_others:
  assumes "i < length es" "\<And>a b. P a b = P b a"
  shows "sorted_wrt P es \<longleftrightarrow> sorted_wrt P (others i es) \<and> (\<forall>e \<in> set (others i es). P (es ! i) e)"
proof -
  have "sorted_wrt P es \<longleftrightarrow> sorted_wrt P (take i es @ es ! i # drop (Suc i) es)"
    by (subst id_take_nth_drop [OF assms(1)]) (rule refl)
  also have "\<dots> \<longleftrightarrow> sorted_wrt P (others i es) \<and>
      (\<forall>e \<in> set (take i es). P e (es ! i)) \<and> (\<forall>e \<in> set (drop (Suc i) es). P (es ! i) e)"
    unfolding others_def by (simp only: sorted_wrt_append sorted_wrt.simps list.simps ball_simps) blast
  also have "\<dots> \<longleftrightarrow> sorted_wrt P (others i es) \<and> (\<forall>e \<in> set (others i es). P (es ! i) e)"
    using assms(2) unfolding others_def by auto
  finally show ?thesis .
qed

lemma sorted_wrt_update:
  assumes "i < length es" "\<And>a b. P a b = P b a"
  shows "sorted_wrt P (es[i := e]) \<longleftrightarrow> sorted_wrt P (others i es) \<and> (\<forall>x \<in> set (others i es). P e x)"
proof -
  have "others i (es[i := e]) = others i es" by (simp add: others_def)
  with sorted_wrt_others [of i "es[i := e]" P] assms show ?thesis by simp
qed

lemma rs_inv_others:
  assumes "rs_inv rs" "i < length (live rs)"
  shows "sorted_wrt (\<lambda>a b. \<not> touches a b) (others i (live rs))"
    "\<And>e. e \<in> set (others i (live rs)) \<Longrightarrow> valid e \<and> \<not> touches (live rs ! i) e"
  using assms sorted_wrt_others [OF assms(2), of "\<lambda>a b. \<not> touches a b"] set_others [of i "live rs"]
  by (auto simp: rs_inv_def list_all_iff touches_sym)

lemma rs_delete_correct:
  assumes "rs_inv rs" "i < unat (in_use rs)"
  obtains rs' where "rs_delete rs i = Ok rs'" "rs_inv rs'" "live rs' = others i (live rs)"
    "rs_addrs rs = span (live rs ! i) \<union> rs_addrs rs'" "unat (in_use rs') + 1 = unat (in_use rs)"
proof -
  note I = rs_invD [OF assms(1)]
  from rs_delete_Ok [OF assms(2)] I(1,2) obtain rs' where rs': "rs_delete rs i = Ok rs'" by auto
  note D = rs_delete_live [OF rs', folded others_def]
  have n: "unat (in_use rs') + 1 = unat (in_use rs)"
    using assms(2) unat_pred [of "in_use rs"] by (cases "in_use rs = 0") (simp_all add: D(3))
  have i: "i < length (live rs)" using assms(2) I(3) by simp
  have "rs_inv rs'"
    using n I(1,2) rs_inv_others [OF assms(1) i] D(4)
    by (simp add: rs_inv_def list_all_iff D(1))
  moreover have "rs_addrs rs = span (live rs ! i) \<union> rs_addrs rs'"
    using addrs_nth [OF i] by (simp add: rs_addrs_def D(1))
  ultimately show thesis using that [OF rs'] D(1) n by simp
qed

subsection \<open>Insertion\<close>

lemma merge_scan_None:
  "merge_scan rg rng iis = Ok None \<Longrightarrow> \<forall>i \<in> set iis. \<not> touches rng (rg ! i)"
  by (induction iis) (auto split: if_splits dest!: nthR_OkD)

lemma merge_scan_Ok: "\<forall>i \<in> set iis. i < length rg \<Longrightarrow> \<exists>m. merge_scan rg rng iis = Ok m"
  by (induction iis) auto

lemma insert_loop_correct:
  assumes "rs_inv rs" "valid rng"
  shows "\<exists>rs' rng'. insert_loop rs rng = Ok (rs', rng') \<and> rs_inv rs' \<and> valid rng' \<and>
    (\<forall>e \<in> set (live rs'). \<not> touches rng' e) \<and>
    span rng' \<union> rs_addrs rs' = span rng \<union> rs_addrs rs \<and>
    unat (in_use rs') \<le> unat (in_use rs) \<and>
    ((\<exists>e \<in> set (live rs). touches rng e) \<longrightarrow> unat (in_use rs') < unat (in_use rs)) \<and>
    ((\<forall>e \<in> set (live rs). \<not> touches rng e) \<longrightarrow> rs' = rs)"
  using assms
proof (induction rs rng rule: insert_loop.induct)
  case (1 rs rng)
  note I = rs_invD [OF 1(2)]
  obtain m where m: "merge_scan (ranges rs) rng [0..<unat (in_use rs)] = Ok m"
    using merge_scan_Ok [of "[0..<unat (in_use rs)]" "ranges rs" rng] I(1,2) by auto
  show ?case
  proof (cases m)
    case None
    from merge_scan_None [OF m [unfolded None]] I(3)
    have "\<forall>e \<in> set (live rs). \<not> touches rng e"
      by (auto simp: in_set_conv_nth live_nth)
    with m None 1(2,3) show ?thesis by (simp add: insert_loop.simps [of rs rng])
  next
    case (Some p)
    obtain ii ent where p: "p = (ii, ent)" by (cases p)
    from merge_scan_Some [OF m [unfolded Some p]] have
      ii: "ii < unat (in_use rs)" "ent = live rs ! ii" and t: "touches rng ent"
      by (auto simp: live_nth)
    then have ent: "ent \<in> set (live rs)" using I(3) by simp
    from 1(2) ii(1) obtain rs1 where d: "rs_delete rs ii = Ok rs1" "rs_inv rs1"
      "rs_addrs rs = span ent \<union> rs_addrs rs1" "unat (in_use rs1) + 1 = unat (in_use rs)"
      unfolding ii(2) by (rule rs_delete_correct)
    define mr where "mr = \<lparr>r_start = min (r_start rng) (r_start ent), r_end = max (r_end rng) (r_end ent)\<rparr>"
    note mg = merge_span [OF 1(3) I(4) [OF ent] t, folded mr_def]
    from 1(1) [OF m Some [unfolded p] refl d(1,2), folded mr_def, OF mg(1)]
    obtain rs2 rng2 where r: "insert_loop rs1 mr = Ok (rs2, rng2)" "rs_inv rs2" "valid rng2"
      "\<forall>e \<in> set (live rs2). \<not> touches rng2 e" "unat (in_use rs2) \<le> unat (in_use rs1)"
      and a: "span rng2 \<union> rs_addrs rs2 = span mr \<union> rs_addrs rs1" by blast
    have "insert_loop rs rng = Ok (rs2, rng2)"
      using r(1) by (simp add: insert_loop.simps [of rs rng] m Some p d(1) mr_def)
    moreover have "span rng2 \<union> rs_addrs rs2 = span rng \<union> rs_addrs rs"
      using a mg(2) d(3) by auto
    moreover have "unat (in_use rs2) < unat (in_use rs)" using d(4) r(5) by simp
    ultimately show ?thesis using r ent t by (intro exI [of _ rs2] exI [of _ rng2]) auto
  qed
qed

lemma rs_inv_append:
  assumes "rs_inv rs" "valid e" "\<forall>x \<in> set (live rs). \<not> touches e x" "unat (in_use rs) < 256"
  defines "rs' \<equiv> rs\<lparr>ranges := (ranges rs)[unat (in_use rs) := e], in_use := in_use rs + 1\<rparr>"
  shows "rs_inv rs'" "rs_addrs rs' = rs_addrs rs \<union> span e" "live rs' = live rs @ [e]"
proof -
  note I = rs_invD [OF assms(1)]
  show live: "live rs' = live rs @ [e]"
    unfolding rs'_def using I(1,2) assms(4) by (intro live_append) auto
  have "in_use rs \<noteq> - 1"
    using assms(4) by (auto simp: unsigned_minus_1_eq_mask mask_eq_exp_minus_1)
  then have n: "unat (in_use rs') = unat (in_use rs) + 1"
    unfolding rs'_def by (simp add: unat_succ)
  have "\<forall>x \<in> set (live rs). \<not> touches x e" using assms(3) touches_sym by blast
  with live n assms(1,2,4) I(1) show "rs_inv rs'"
    by (simp add: rs_inv_def sorted_wrt_append) (simp add: rs'_def)
  show "rs_addrs rs' = rs_addrs rs \<union> span e"
    using live by (simp add: rs_addrs_def)
qed

text \<open>Insertion adds exactly the given range, and panics exactly when the array is full and the
  range merges with nothing.\<close>

lemma rs_insert_correct:
  assumes "rs_inv rs" "valid rng"
  shows "if unat (in_use rs) = 256 \<and> (\<forall>e \<in> set (live rs). \<not> touches rng e)
    then rs_insert rs rng = Panic ''Too many entries in RangeSet on insert''
    else \<exists>rs'. rs_insert rs rng = Ok rs' \<and> rs_inv rs' \<and> rs_addrs rs' = rs_addrs rs \<union> span rng \<and>
      unat (in_use rs') \<le> unat (in_use rs) + 1"
proof -
  obtain rs1 r where l: "insert_loop rs rng = Ok (rs1, r)" and i: "rs_inv rs1" and v: "valid r"
    and sep: "\<forall>e \<in> set (live rs1). \<not> touches r e"
    and a: "span r \<union> rs_addrs rs1 = span rng \<union> rs_addrs rs"
    and n: "unat (in_use rs1) \<le> unat (in_use rs)"
    and lt: "(\<exists>e \<in> set (live rs). touches rng e) \<longrightarrow> unat (in_use rs1) < unat (in_use rs)"
    and same: "(\<forall>e \<in> set (live rs). \<not> touches rng e) \<longrightarrow> rs1 = rs"
    using insert_loop_correct [OF assms] by blast
  note I = rs_invD [OF i] and I0 = rs_invD [OF assms(1)]
  show ?thesis
  proof (cases "unat (in_use rs1) = 256")
    case True
    with n lt I0(2) have "unat (in_use rs) = 256 \<and> (\<forall>e \<in> set (live rs). \<not> touches rng e)" by auto
    with True I(1) l assms(2) show ?thesis by (simp add: rs_insert_def valid_def)
  next
    case False
    with I(2) have lt256: "unat (in_use rs1) < 256" by simp
    from False same have "\<not> (unat (in_use rs) = 256 \<and> (\<forall>e \<in> set (live rs). \<not> touches rng e))" by auto
    moreover have "unat (in_use rs1 + 1) \<le> unat (in_use rs) + 1"
      using n lt256 by (simp add: unat_word_ariths)
    ultimately show ?thesis
      using rs_inv_append [OF i v sep lt256] I(1) lt256 l assms(2) a
      by (auto simp: rs_insert_def valid_def)
  qed
qed

subsection \<open>Removal\<close>

lemma rs_inv_shrink:
  assumes "rs_inv rs" "i < unat (in_use rs)" "valid e"
    "r_start (live rs ! i) \<le> r_start e" "r_end e \<le> r_end (live rs ! i)"
  defines "rs' \<equiv> rs\<lparr>ranges := (ranges rs)[i := e]\<rparr>"
  shows "rs_inv rs'" "rs_addrs rs' = span e \<union> addrs (others i (live rs))"
proof -
  note I = rs_invD [OF assms(1)]
  have i: "i < length (live rs)" using assms(2) I(3) by simp
  note O = rs_inv_others [OF assms(1) i]
  have ent: "valid (live rs ! i)" using I(4) i by simp
  have live: "live rs' = (live rs)[i := e]" by (simp add: rs'_def live_update)
  have "\<forall>x \<in> set (others i (live rs)). \<not> touches e x"
    using O(2) shrink_not_touches [OF ent _ _ assms(3-5)] by blast
  then have "sorted_wrt (\<lambda>a b. \<not> touches a b) (live rs')"
    using O(1) sorted_wrt_update [OF i, of "\<lambda>a b. \<not> touches a b" e] touches_sym by (simp add: live)
  moreover have "list_all valid (live rs')"
    using I(4) assms(3) set_update_subset_insert [of "live rs" i e] by (auto simp: live list_all_iff)
  ultimately show "rs_inv rs'" using I(1,2) by (simp add: rs_inv_def) (simp add: rs'_def)
  show "rs_addrs rs' = span e \<union> addrs (others i (live rs))"
    using addrs_update [OF i] by (simp add: rs_addrs_def live)
qed

lemma trim_low:
  assumes "valid rng" "valid ent" "overlaps rng ent \<noteq> None" "\<not> contains ent rng"
    "r_start rng \<le> r_start ent"
  defines "e \<equiv> ent\<lparr>r_start := saturating_add (r_end rng) 1\<rparr>"
  shows "valid e" "r_start ent \<le> r_start e" "r_end e \<le> r_end ent" "span e = span ent - span rng"
proof -
  from assms have le: "r_start ent \<le> r_end rng" "r_end rng < r_end ent"
    by (auto simp: overlaps_valid contains_def Let_def)
  then have m: "r_end rng \<noteq> - 1" using less_imp_neq_max by blast
  show "valid e" "r_end e \<le> r_end ent" using le m by (simp_all add: e_def valid_def rust_arith word_succ_le)
  show "r_start ent \<le> r_start e" using le by (simp add: e_def le_saturating_succ)
  show "span e = span ent - span rng"
    using le m assms(5) by (auto simp: e_def span_def rust_arith word_succ_le)
qed

lemma trim_high:
  assumes "valid rng" "valid ent" "overlaps rng ent \<noteq> None" "r_start ent < r_start rng"
    "r_end ent \<le> r_end rng"
  defines "e \<equiv> ent\<lparr>r_end := saturating_sub (r_start rng) 1\<rparr>"
  shows "valid e" "r_start ent \<le> r_start e" "r_end e \<le> r_end ent" "span e = span ent - span rng"
proof -
  from assms have le: "r_start rng \<le> r_end ent" by (auto simp: overlaps_valid)
  have m: "r_start rng \<noteq> 0" using assms(4) less_imp_neq_zero by blast
  show "valid e" "r_start ent \<le> r_start e" using assms(4) m by (simp_all add: e_def valid_def rust_arith word_le_pred)
  show "r_end e \<le> r_end ent" using le m
    by (simp add: e_def rust_arith) (meson order_trans word_le_pred order_refl less_imp_le)
  show "span e = span ent - span rng"
    using le m assms(4,5) by (auto simp: e_def span_def rust_arith word_le_pred)
qed

lemma trim_mid:
  assumes "valid rng" "r_start ent < r_start rng" "r_end rng < r_end ent"
  defines "hi \<equiv> ent\<lparr>r_start := saturating_add (r_end rng) 1\<rparr>"
    and "lo \<equiv> \<lparr>r_start = r_start ent, r_end = saturating_sub (r_start rng) 1\<rparr>"
  shows "valid hi" "valid lo" "r_start ent \<le> r_start hi" "r_end hi \<le> r_end ent" "r_end lo \<le> r_end ent"
    "\<not> touches lo hi" "span lo \<union> span hi = span ent - span rng"
proof -
  have m: "r_end rng \<noteq> - 1" "r_start rng \<noteq> 0"
    using assms(2,3) less_imp_neq_max less_imp_neq_zero by blast+
  have le: "r_start rng \<le> r_end rng" using assms(1) by (simp add: valid_def)
  show v: "valid hi" "valid lo"
    using assms(2,3) m by (simp_all add: hi_def lo_def valid_def rust_arith word_succ_le word_le_pred)
  show "r_start ent \<le> r_start hi" "r_end hi \<le> r_end ent"
    using order_trans [OF less_imp_le [OF assms(2)] le] by (simp_all add: hi_def le_saturating_succ)
  have "r_start rng - 1 < r_start rng" using word_le_pred [OF m(2), of "r_start rng - 1"] by simp
  then show "r_end lo \<le> r_end ent" using assms(3) le m by (simp add: lo_def rust_arith)
  have "\<not> saturating_add (r_end rng) 1 \<le> saturating_add (saturating_sub (r_start rng) 1) 1"
    using le m by (auto simp: rust_arith word_succ_le)
  then show "\<not> touches lo hi" using v by (simp add: touches_iff) (simp add: lo_def hi_def)
  show "span lo \<union> span hi = span ent - span rng"
    using m le assms(2,3) by (auto simp: hi_def lo_def span_def rust_arith word_succ_le word_le_pred)
qed

text \<open>There is room for the removal: the array has a free slot or no entry has to be split.\<close>

definition splits :: "Range \<Rightarrow> Range \<Rightarrow> bool" where
  "splits rng e \<longleftrightarrow> r_start e < r_start rng \<and> r_end rng < r_end e"

definition slots :: "Range \<Rightarrow> RangeSet \<Rightarrow> nat" where
  "slots rng rs = unat (in_use rs) + (if \<exists>e \<in> set (live rs). splits rng e then 1 else 0)"

definition room :: "Range \<Rightarrow> RangeSet \<Rightarrow> bool" where
  "room rng rs \<longleftrightarrow> slots rng rs \<le> 256"

lemma room_iff:
  "unat (in_use rs) \<le> 256 \<Longrightarrow>
    room rng rs \<longleftrightarrow> unat (in_use rs) < 256 \<or> (\<forall>e \<in> set (live rs). \<not> splits rng e)"
  by (auto simp: room_def slots_def)

lemma splits_unique:
  assumes "rs_inv rs" "valid rng" "i < length (live rs)" "splits rng (live rs ! i)"
    "e \<in> set (others i (live rs))"
  shows "\<not> splits rng e"
proof
  assume "splits rng e"
  with assms(2,4) have "r_start rng \<in> span (live rs ! i) \<inter> span e"
    by (auto simp: splits_def valid_def span_def)
  moreover have "valid (live rs ! i)" using rs_invD(4) [OF assms(1)] assms(3) by simp
  ultimately show False
    using rs_inv_others(2) [OF assms(1,3,5)] not_touches_disjoint by blast
qed

lemma remove_body_split:
  assumes "rs_inv rs" "valid rng" "ii < unat (in_use rs)" "splits rng (ranges rs ! ii)"
    "unat (in_use rs) < 256"
    and rs1: "rs1 = rs\<lparr>ranges := (ranges rs)[ii := (ranges rs ! ii)\<lparr>r_start := saturating_add (r_end rng) 1\<rparr>]\<rparr>"
    and rs': "rs' = rs1\<lparr>ranges := (ranges rs1)[unat (in_use rs1) :=
         \<lparr>r_start = r_start (ranges rs ! ii), r_end = saturating_sub (r_start rng) 1\<rparr>],
         in_use := in_use rs1 + 1\<rparr>"
  shows "rs_inv rs'" "rs_addrs rs' - span rng = rs_addrs rs - span rng"
    "slots rng rs' \<le> slots rng rs"
proof -
  note I = rs_invD [OF assms(1)]
  have i: "ii < length (live rs)" "live rs ! ii = ranges rs ! ii"
    using assms(3) I(3) live_nth by auto
  define hi lo where "hi = (ranges rs ! ii)\<lparr>r_start := saturating_add (r_end rng) 1\<rparr>"
    and "lo = \<lparr>r_start = r_start (ranges rs ! ii), r_end = saturating_sub (r_start rng) 1\<rparr>"
  note T = trim_mid [OF assms(2) assms(4) [unfolded splits_def, THEN conjunct1]
      assms(4) [unfolded splits_def, THEN conjunct2], folded hi_def lo_def]
  have ent: "valid (live rs ! ii)" by (intro I(4) nth_mem i)
  note S = rs_inv_shrink [OF assms(1,3) T(1), unfolded i(2), OF T(3,4), folded rs1 [folded hi_def]]
  have live1: "live rs1 = (live rs)[ii := hi]" by (simp add: rs1 hi_def live_update)
  have "\<forall>x \<in> set (others ii (live rs)). \<not> touches lo x"
    using rs_inv_others(2) [OF assms(1) i(1)] shrink_not_touches [OF ent _ _ T(2)] T(5) i(2)
    by (auto simp: lo_def)
  with T(6) have sep: "\<forall>x \<in> set (live rs1). \<not> touches lo x"
    by (auto simp: live1 upd_conv_take_nth_drop [OF i(1)] others_def)
  have u: "unat (in_use rs1) < 256" using assms(5) by (simp add: rs1)
  note A = rs_inv_append [OF S(1) T(2) sep u, folded rs' [folded lo_def]]
  show "rs_inv rs'" by (rule A(1))
  show "rs_addrs rs' - span rng = rs_addrs rs - span rng"
    using T(7) A(2) S(2) addrs_nth [OF i(1)] i(2) by (auto simp: rs_addrs_def)
  have "r_start rng \<notin> span lo" "r_start rng \<notin> span hi"
    using T(7) assms(2) by (auto simp: span_def valid_def)
  then have "\<not> splits rng lo" "\<not> splits rng hi"
    using assms(2) by (auto simp: splits_def span_def valid_def)
  then have "\<not> (\<exists>e \<in> set (live rs'). splits rng e)"
    using splits_unique [OF assms(1,2) i(1)] i(2) assms(4) A(3)
    by (auto simp: live1 upd_conv_take_nth_drop [OF i(1)] others_def)
  moreover have "\<exists>e \<in> set (live rs). splits rng e" using assms(4) i nth_mem by metis
  moreover have "unat (in_use rs') \<le> unat (in_use rs) + 1" by (simp add: rs' rs1 unat_word_ariths)
  ultimately show "slots rng rs' \<le> slots rng rs" by (simp add: slots_def)
qed

text \<open>One step of the scan keeps the invariant and everything outside the removed range.\<close>

lemma slots_update:
  assumes "i < length (live rs)" "\<not> splits rng e"
  shows "slots rng (rs\<lparr>ranges := (ranges rs)[i := e]\<rparr>) \<le> slots rng rs"
  using assms set_update_subset_insert [of "live rs" i e]
  by (auto simp: slots_def live_update)

lemma remove_body_trim:
  assumes "rs_inv rs" "valid rng" "ii < unat (in_use rs)" "valid e"
    "r_start (live rs ! ii) \<le> r_start e" "r_end e \<le> r_end (live rs ! ii)"
    "span e = span (live rs ! ii) - span rng"
  defines "rs' \<equiv> rs\<lparr>ranges := (ranges rs)[ii := e]\<rparr>"
  shows "rs_inv rs' \<and> rs_addrs rs' - span rng = rs_addrs rs - span rng \<and> slots rng rs' \<le> slots rng rs \<and>
    in_use rs' = in_use rs \<and> live rs' = (live rs)[ii := e] \<and> span e \<inter> span rng = {}"
proof -
  note I = rs_invD [OF assms(1)]
  have i: "ii < length (live rs)" using assms(3) I(3) by simp
  note S = rs_inv_shrink [OF assms(1,3,4-6), folded rs'_def]
  have "r_start rng \<notin> span e" using assms(2,7) by (auto simp: span_def valid_def)
  then have "\<not> splits rng e" using assms(2) by (auto simp: splits_def span_def valid_def)
  then have "slots rng rs' \<le> slots rng rs" unfolding rs'_def by (rule slots_update [OF i])
  moreover have "rs_addrs rs' - span rng = rs_addrs rs - span rng"
    using S(2) assms(7) addrs_nth [OF i] by (auto simp: rs_addrs_def)
  ultimately show ?thesis using S(1) assms(7) by (auto simp: rs'_def live_update)
qed

definition body_ok :: "Range \<Rightarrow> RangeSet \<Rightarrow> nat \<Rightarrow> scan \<Rightarrow> bool" where
  "body_ok rng rs ii s \<longleftrightarrow> (case s of
     Finished rs' \<Rightarrow> rs_inv rs' \<and> rs_addrs rs' - span rng = rs_addrs rs - span rng \<and>
       slots rng rs' \<le> slots rng rs \<and> in_use rs' = in_use rs \<and>
       (\<exists>e. live rs' = (live rs)[ii := e] \<and> span e \<inter> span rng = {})
   | Restart rs' \<Rightarrow> rs_inv rs' \<and> rs_addrs rs' - span rng = rs_addrs rs - span rng \<and>
       slots rng rs' \<le> slots rng rs)"

lemma remove_body_correct:
  assumes "rs_inv rs" "valid rng" "ii < unat (in_use rs)" "room rng rs"
  shows "\<exists>s. remove_body rs rng ii = Ok s \<and> body_ok rng rs ii s"
proof -
  note I = rs_invD [OF assms(1)]
  have ii: "ii < length (ranges rs)" "ii < length (live rs)" using assms(3) I(1-3) by auto
  have ent: "valid (live rs ! ii)" by (intro I(4) nth_mem ii)
  note n = live_nth [OF assms(3)]
  note trim = remove_body_trim [OF assms(1-3)]
  from ii(1) show ?thesis
  proof (cases rule: remove_body_cases [where rng = rng])
    case none
    then have "span (live rs ! ii) \<inter> span rng = {}"
      using overlaps_None_iff [OF assms(2) ent] n by auto
    then have "\<exists>e. live rs = (live rs)[ii := e] \<and> span e \<inter> span rng = {}"
      by (intro exI [of _ "live rs ! ii"]) simp
    with none(2) assms(1) show ?thesis by (simp add: body_ok_def)
  next
    case whole
    obtain rs' where d: "rs_delete rs ii = Ok rs'" "rs_inv rs'" "live rs' = others ii (live rs)"
      "rs_addrs rs = span (live rs ! ii) \<union> rs_addrs rs'" "unat (in_use rs') + 1 = unat (in_use rs)"
      by (rule rs_delete_correct [OF assms(1,3)])
    have "span (live rs ! ii) \<subseteq> span rng" using whole(2) contains_iff [OF ent assms(2)] n by simp
    moreover have "slots rng rs' \<le> slots rng rs" using d(5) by (simp add: slots_def)
    ultimately show ?thesis using d(1,2,4) whole(3) by (auto simp: body_ok_def)
  next
    case low
    note T = trim_low [OF assms(2) ent, unfolded n, OF low(1-3)]
    from trim [OF T(1), unfolded n, OF T(2-4)] low(4) show ?thesis by (auto simp: body_ok_def)
  next
    case high
    note T = trim_high [OF assms(2) ent, unfolded n, OF high(1,3,4)]
    from trim [OF T(1), unfolded n, OF T(2-4)] high(5) show ?thesis by (auto simp: body_ok_def)
  next
    case full
    then have "splits rng (live rs ! ii)" by (simp add: splits_def n)
    with full(4) assms(4) I(1,2) ii(2) have False by (auto simp: room_iff)
    then show ?thesis ..
  next
    case (mid rs1)
    then have "splits rng (ranges rs ! ii)" "unat (in_use rs) < 256" using I(1) by (simp_all add: splits_def)
    from remove_body_split [OF assms(1-3) this mid(5) refl] mid(6) show ?thesis
      by (auto simp: body_ok_def)
  qed
qed

lemma remove_scan_correct:
  assumes "valid rng"
  shows "rs_inv rs \<Longrightarrow> room rng rs \<Longrightarrow> distinct iis \<Longrightarrow> \<forall>i \<in> set iis. i < unat (in_use rs) \<Longrightarrow>
    \<exists>s. remove_scan rs rng iis = Ok s \<and> (case s of
      Finished rs' \<Rightarrow> rs_inv rs' \<and> rs_addrs rs' - span rng = rs_addrs rs - span rng \<and>
        in_use rs' = in_use rs \<and> (\<forall>i < unat (in_use rs).
          if i \<in> set iis then span (live rs' ! i) \<inter> span rng = {} else live rs' ! i = live rs ! i)
    | Restart rs' \<Rightarrow> rs_inv rs' \<and> rs_addrs rs' - span rng = rs_addrs rs - span rng \<and>
        slots rng rs' \<le> slots rng rs)"
proof (induction iis arbitrary: rs)
  case (Cons ii iis)
  from Cons.prems have ii: "ii < unat (in_use rs)" by simp
  obtain s where s: "remove_body rs rng ii = Ok s" "body_ok rng rs ii s"
    using remove_body_correct [OF Cons.prems(1) assms ii Cons.prems(2)] by blast
  show ?case
  proof (cases s)
    case (Restart rs1)
    with s show ?thesis by (simp add: body_ok_def)
  next
    case (Finished rs1)
    with s(2) obtain e where b: "rs_inv rs1" "slots rng rs1 \<le> slots rng rs" "in_use rs1 = in_use rs"
      "rs_addrs rs1 - span rng = rs_addrs rs - span rng"
      "live rs1 = (live rs)[ii := e]" "span e \<inter> span rng = {}" by (auto simp: body_ok_def)
    have len: "length (live rs) = unat (in_use rs)" by (rule rs_invD(3) [OF Cons.prems(1)])
    have "room rng rs1" using Cons.prems(2) b(2) by (simp add: room_def)
    from Cons.IH [OF b(1) this] Cons.prems(3,4) b(3) obtain s' where
      s': "remove_scan rs1 rng iis = Ok s'" and sp: "case s' of
        Finished rs' \<Rightarrow> rs_inv rs' \<and> rs_addrs rs' - span rng = rs_addrs rs1 - span rng \<and>
        in_use rs' = in_use rs1 \<and> (\<forall>i < unat (in_use rs1).
          if i \<in> set iis then span (live rs' ! i) \<inter> span rng = {} else live rs' ! i = live rs1 ! i)
      | Restart rs' \<Rightarrow> rs_inv rs' \<and> rs_addrs rs' - span rng = rs_addrs rs1 - span rng \<and>
          slots rng rs' \<le> slots rng rs1"
      by auto
    from s(1) Finished s' have eq: "remove_scan rs rng (ii # iis) = Ok s'" by simp
    show ?thesis
    proof (cases s')
      case Restart
      with sp b(2,4) eq show ?thesis by simp
    next
      case (Finished rs')
      with sp have f: "rs_inv rs'" "rs_addrs rs' - span rng = rs_addrs rs1 - span rng"
        "in_use rs' = in_use rs1" "\<And>i. i < unat (in_use rs1) \<Longrightarrow>
          if i \<in> set iis then span (live rs' ! i) \<inter> span rng = {} else live rs' ! i = live rs1 ! i"
        by auto
      have "if i \<in> set (ii # iis) then span (live rs' ! i) \<inter> span rng = {} else live rs' ! i = live rs ! i"
        if "i < unat (in_use rs)" for i
        using f(4) [of i] that b(3,5,6) len Cons.prems(3) by (cases "i = ii") (auto split: if_splits)
      with f(1-3) b(3,4) eq Finished show ?thesis by simp
    qed
  qed
qed simp

text \<open>Removal takes exactly the range away; it panics exactly when the array is full and an
  entry has to be split.\<close>

lemma rs_remove_correct:
  "rs_inv rs \<Longrightarrow> valid rng \<Longrightarrow> room rng rs \<Longrightarrow>
    \<exists>rs'. rs_remove rs rng = Ok rs' \<and> rs_inv rs' \<and> rs_addrs rs' = rs_addrs rs - span rng \<and>
      unat (in_use rs') \<le> slots rng rs"
proof (induction rs rng rule: rs_remove.induct)
  case (1 rs rng)
  have v: "r_start rng \<le> r_end rng" using 1(3) by (simp add: valid_def)
  obtain s where s: "remove_scan rs rng [0..<unat (in_use rs)] = Ok s" and sp: "case s of
      Finished rs' \<Rightarrow> rs_inv rs' \<and> rs_addrs rs' - span rng = rs_addrs rs - span rng \<and>
        in_use rs' = in_use rs \<and> (\<forall>i < unat (in_use rs).
          if i \<in> set [0..<unat (in_use rs)] then span (live rs' ! i) \<inter> span rng = {}
          else live rs' ! i = live rs ! i)
    | Restart rs' \<Rightarrow> rs_inv rs' \<and> rs_addrs rs' - span rng = rs_addrs rs - span rng \<and>
        slots rng rs' \<le> slots rng rs"
    using remove_scan_correct [OF 1(3,2,4), of "[0..<unat (in_use rs)]"] by auto
  show ?case
  proof (cases s)
    case (Restart rs1)
    with sp have r: "rs_inv rs1" "rs_addrs rs1 - span rng = rs_addrs rs - span rng"
      "slots rng rs1 \<le> slots rng rs" "room rng rs1" using 1(4) by (auto simp: room_def)
    from 1(1) [OF _ s Restart r(1) 1(3) r(4)] v obtain rs' where
      "rs_remove rs1 rng = Ok rs'" "rs_inv rs'" "rs_addrs rs' = rs_addrs rs1 - span rng"
      "unat (in_use rs') \<le> slots rng rs1" by auto
    with r(2,3) v s Restart show ?thesis by (simp add: rs_remove.simps [of rs])
  next
    case (Finished rs1)
    with sp have f: "rs_inv rs1" "rs_addrs rs1 - span rng = rs_addrs rs - span rng"
      "in_use rs1 = in_use rs" "\<And>i. i < unat (in_use rs) \<Longrightarrow> span (live rs1 ! i) \<inter> span rng = {}" by auto
    have "rs_addrs rs1 \<inter> span rng = {}"
      using f(3,4) rs_invD(3) [OF f(1)] by (fastforce simp: rs_addrs_def addrs_def in_set_conv_nth)
    moreover have "unat (in_use rs1) \<le> slots rng rs" using f(3) by (simp add: slots_def)
    ultimately show ?thesis using f(1,2) v s Finished
      by (auto simp: rs_remove.simps [of rs])
  qed
qed

lemma nth_in_others:
  assumes "j < length xs" "j \<noteq> i"
  shows "xs ! j \<in> set (others i xs)"
proof (cases "j < i")
  case True
  then have "xs ! j \<in> set (take i xs)" using assms(1) by (auto simp: in_set_conv_nth)
  then show ?thesis by (simp add: others_def)
next
  case False
  then have "xs ! j = drop (Suc i) xs ! (j - Suc i)" "j - Suc i < length (drop (Suc i) xs)"
    using assms by auto
  then have "xs ! j \<in> set (drop (Suc i) xs)" by (metis nth_mem)
  then show ?thesis by (simp add: others_def)
qed

lemma remove_scan_append:
  "remove_scan rs rng (xs @ ys) = bindR (remove_scan rs rng xs)
    (\<lambda>s. case s of Finished rs' \<Rightarrow> remove_scan rs' rng ys | Restart rs' \<Rightarrow> Ok (Restart rs'))"
  by (induction xs arbitrary: rs) (auto simp: bindR_assoc split: scan.splits intro!: bindR_cong)

lemma remove_scan_full:
  assumes "valid rng" "\<not> room rng rs" "rs_inv rs" 
  shows "remove_scan rs rng [0..<unat (in_use rs)] = Panic ''Too many entries in RangeSet on split''"
proof -
  note I = rs_invD [OF assms(3)]
  from assms(2) I(2,3) obtain i where u: "unat (in_use rs) = 256"
    and i: "i < length (live rs)" "splits rng (live rs ! i)"
    by (auto simp: room_iff in_set_conv_nth)
  have other: "remove_body rs rng j = Ok (Finished rs)" if "j < length (live rs)" "j \<noteq> i" for j
  proof -
    from nth_in_others [OF that] rs_inv_others(2) [OF assms(3) i(1)] have "valid (live rs ! j)" "\<not> touches (live rs ! i) (live rs ! j)"
      by auto
    with i I(4) have "span (live rs ! i) \<inter> span (live rs ! j) = {}" "valid (live rs ! j)"
      using not_touches_disjoint nth_mem by blast+
    moreover have "span rng \<subseteq> span (live rs ! i)" using i(2) by (auto simp: splits_def span_def)
    ultimately have "overlaps rng (live rs ! j) = None"
      using overlaps_None_iff [OF assms(1)] by blast
    with that I(1-3) show ?thesis by (simp add: remove_body_def live_nth)
  qed
  have "remove_scan rs rng [j..<i] = Ok (Finished rs)" if "j \<le> i" for j
    using that
  proof (induction rule: inc_induct)
    case (step n)
    then show ?case using other [of n] i(1) by (simp add: upt_conv_Cons)
  qed simp
  moreover have "remove_body rs rng i = Panic ''Too many entries in RangeSet on split''"
  proof -
    have "i < length (ranges rs)" using i(1) I(1,3) u by simp
    moreover have "ranges rs ! i = live rs ! i" using i(1) I(3) by (simp add: live_nth)
    ultimately show ?thesis
      using i(2) u I(1) assms(1)
      by (auto simp: remove_body_def splits_def overlaps_def contains_def Let_def valid_def)
  qed
  moreover have "[0..<unat (in_use rs)] = [0..<i] @ i # [Suc i..<unat (in_use rs)]"
    using i(1) I(3) by (simp add: upt_conv_Cons [symmetric]) (metis upt_add_eq_append le0 less_imp_le le_Suc_ex add_0)
  ultimately show ?thesis by (simp add: remove_scan_append)
qed

lemma rs_remove_Ok:
  assumes "rs_inv rs" "valid rng" "rs_remove rs rng = Ok rs'"
  shows "rs_inv rs'" "rs_addrs rs' = rs_addrs rs - span rng"
proof -
  have "room rng rs"
  proof (rule ccontr)
    assume "\<not> room rng rs"
    from remove_scan_full [OF assms(2) this assms(1)] assms(2,3) show False
      by (simp add: rs_remove.simps [of rs] valid_def)
  qed
  from rs_remove_correct [OF assms(1,2) this] assms(3)
  show "rs_inv rs'" "rs_addrs rs' = rs_addrs rs - span rng" by auto
qed

subsection \<open>Properties\<close>

lemma rs_subtract_correct:
  assumes "rs_inv rs"
  shows "list_all valid es \<Longrightarrow> foldR rs_remove rs es = Ok rs' \<Longrightarrow>
    rs_inv rs' \<and> rs_addrs rs' = rs_addrs rs - addrs es"
  using assms
proof (induction es arbitrary: rs)
  case (Cons e es)
  from Cons.prems(2) obtain rs1 where r: "rs_remove rs e = Ok rs1" "foldR rs_remove rs1 es = Ok rs'" by auto
  note R = rs_remove_Ok [OF Cons.prems(3) _ r(1)]
  from Cons.IH [OF _ r(2) R(1)] R(2) Cons.prems(1) show ?case by auto
qed simp

text \<open>C1: inserting a range into a well-formed set gives a well-formed set denoting exactly the
  union of the old addresses and the range; the only other outcome is the panic for a full
  array, which occurs exactly when all 256 slots are in use and no entry merges.\<close>

theorem rs_insert_union:
  assumes "rs_inv rs" "valid rng"
  shows "if unat (in_use rs) = 256 \<and> (\<forall>e \<in> set (live rs). \<not> touches rng e)
    then rs_insert rs rng = Panic ''Too many entries in RangeSet on insert''
    else \<exists>rs'. rs_insert rs rng = Ok rs' \<and> rs_inv rs' \<and> rs_addrs rs' = rs_addrs rs \<union> span rng"
  using rs_insert_correct [OF assms] by (auto split: if_splits)

text \<open>Witness: the empty set.\<close>

lemma rs_inv_new: "rs_inv rs_new" "rs_addrs rs_new = {}" "live rs_new = []" "in_use rs_new = 0"
  by (simp_all add: rs_inv_def rs_new_def live_def rs_addrs_def)

theorem rs_insert_union_witness:
  "\<exists>rs'. rs_insert rs_new \<lparr>r_start = 0x1000, r_end = 0x1fff\<rparr> = Ok rs' \<and> rs_inv rs' \<and>
    rs_addrs rs' = {0x1000..0x1fff}"
  using rs_insert_union [OF rs_inv_new(1), of "\<lparr>r_start = 0x1000, r_end = 0x1fff\<rparr>"] rs_inv_new
  by (simp add: valid_def span_def)

text \<open>C2: removing a range from a well-formed set gives a well-formed set denoting exactly the
  difference; the only other outcome is the panic for a full array, which occurs exactly when
  all 256 slots are in use and an entry has to be split in two.\<close>

theorem rs_remove_difference:
  assumes "rs_inv rs" "valid rng"
  shows "if room rng rs
    then \<exists>rs'. rs_remove rs rng = Ok rs' \<and> rs_inv rs' \<and> rs_addrs rs' = rs_addrs rs - span rng
    else rs_remove rs rng = Panic ''Too many entries in RangeSet on split''"
proof (cases "room rng rs")
  case True
  with rs_remove_correct [OF assms True] show ?thesis by auto
next
  case False
  with remove_scan_full [OF assms(2) False assms(1)] assms(2) show ?thesis
    by (simp add: rs_remove.simps [of rs] valid_def)
qed

text \<open>Witness: a hole is cut out of a set of one entry.\<close>

definition one_entry :: RangeSet where
  "one_entry = rs_new\<lparr>ranges := (ranges rs_new)[0 := \<lparr>r_start = 0, r_end = 0xffff\<rparr>], in_use := 1\<rparr>"

lemma one_entry: "rs_inv one_entry" "live one_entry = [\<lparr>r_start = 0, r_end = 0xffff\<rparr>]"
  "in_use one_entry = 1"
proof -
  have "ranges rs_new = \<lparr>r_start = 0, r_end = 0\<rparr> # replicate 255 \<lparr>r_start = 0, r_end = 0\<rparr>"
    by (simp add: rs_new_def numeral_eq_Suc)
  then show live: "live one_entry = [\<lparr>r_start = 0, r_end = 0xffff\<rparr>]"
    by (simp add: one_entry_def live_def)
  show "rs_inv one_entry"
    by (simp add: rs_inv_def live) (simp add: one_entry_def rs_new_def valid_def)
  show "in_use one_entry = 1" by (simp add: one_entry_def)
qed

theorem rs_remove_difference_witness:
  "\<exists>rs'. rs_remove one_entry \<lparr>r_start = 0x1000, r_end = 0x1fff\<rparr> = Ok rs' \<and> rs_inv rs' \<and>
    rs_addrs rs' = {0..0xffff} - {0x1000..0x1fff}"
  using rs_remove_difference [OF one_entry(1), of "\<lparr>r_start = 0x1000, r_end = 0x1fff\<rparr>"] one_entry
  by (simp add: valid_def span_def room_iff rs_addrs_def)

text \<open>Subtracting a well-formed set, when it returns, removes exactly its addresses and
  keeps the invariant.\<close>

theorem rs_subtract_difference:
  assumes "rs_inv self" "rs_inv rs" "rs_subtract self rs = Ok rs'"
  shows "rs_inv rs' \<and> rs_addrs rs' = rs_addrs self - rs_addrs rs"
  using rs_subtract_correct [OF assms(1), of "live rs" rs'] rs_invD(4,5) [OF assms(2)] assms(3)
  by (simp add: rs_subtract_def rs_addrs_def list_all_iff)

theorem rs_subtract_difference_witness:
  "\<exists>rs'. rs_subtract one_entry one_entry = Ok rs' \<and> rs_inv rs' \<and> rs_addrs rs' = {}"
proof -
  have "room \<lparr>r_start = 0, r_end = 0xffff\<rparr> one_entry" by (simp add: room_iff one_entry(3))
  from rs_remove_correct [OF one_entry(1) _ this] obtain rs' where
    "rs_subtract one_entry one_entry = Ok rs'"
    by (auto simp: rs_subtract_def rs_invD(5) [OF one_entry(1)] one_entry(2) valid_def)
  with rs_subtract_difference [OF one_entry(1,1) this] show ?thesis by simp
qed

end
