(* ===== verification/RangeSet_Alloc.thy ===== *)
theory RangeSet_Alloc
  imports RangeSet_Correct
begin

text \<open>
  Allocation from a range set: soundness (aligned, addressable, inside the set, taken out of
  it), totality without a preferred region, and completeness. The contract of an address
  allocator is a locale; traces of allocations and releases hand out disjoint blocks.
\<close>

unbundle bit_operations_syntax

subsection \<open>Allocation\<close>

definition pow2 :: "u64 \<Rightarrow> bool" where
  "pow2 w \<longleftrightarrow> (\<exists>n < 64. w = 2 ^ n)"

lemma count_ones_1: "count_ones (w :: u64) = 1 \<longleftrightarrow> pow2 w"
proof
  assume "count_ones w = 1"
  then obtain n where n: "filter (bit w) [0..<64] = [n]"
    by (auto simp: count_ones_def length_Suc_conv)
  have set: "{i. i < 64 \<and> bit w i} = {n}"
    using arg_cong [OF n, of set] by (simp add: set_eq_iff)
  then have "w = 2 ^ n"
    by (intro bit_word_eqI) (auto simp: bit_exp_iff)
  with set show "pow2 w" unfolding pow2_def by blast
next
  assume "pow2 w"
  then obtain n where n: "n < 64" "w = 2 ^ n" by (auto simp: pow2_def)
  then have "filter (bit w) [0..<64] = filter (\<lambda>i. i = n) [0..<64]"
    by (intro filter_cong) (auto simp: bit_exp_iff possible_bit_def)
  also have "length \<dots> = card {i. i = n \<and> i < 64}"
    by (subst distinct_card [symmetric]) (auto intro: arg_cong [of _ _ card])
  also have "{i. i = n \<and> i < 64} = {n}" using n(1) by auto
  finally show "count_ones w = 1" by (simp add: count_ones_def)
qed

text \<open>Rounding up with a power of two: both forms of the source give an aligned address.\<close>

lemma take_bit_align_fix:
  "take_bit n (x + ((2 ^ n - (x AND (2 ^ n - 1))) AND (2 ^ n - 1)) :: u64) = 0"
proof -
  have m: "2 ^ n - 1 = (mask n :: u64)" by (simp add: mask_eq_exp_minus_1)
  define y where "y = 2 ^ n - take_bit n x"
  define q r t where "q = x div 2 ^ n" and "r = take_bit n x" and "t = y div 2 ^ n"
  have "x = q * 2 ^ n + r" "y = 2 ^ n - r" "take_bit n y = y - t * 2 ^ n"
    using div_mult_mod_eq [of x "2 ^ n"] div_mult_mod_eq [of y "2 ^ n"]
    by (simp_all add: take_bit_eq_mod eq_diff_eq add.commute q_def r_def t_def y_def)
  then have "x + take_bit n y = (q + 1 - t) * 2 ^ n"
    by (simp add: algebra_simps)
  then have "2 ^ n dvd x + take_bit n y" by simp
  then show ?thesis by (simp add: m take_bit_eq_0_iff y_def flip: take_bit_eq_mask)
qed

definition align_fix :: "u64 \<Rightarrow> u64 \<Rightarrow> u64" where
  "align_fix align base = (align - (base AND (align - 1))) AND (align - 1)"

lemma align_fix_aligned: "pow2 align \<Longrightarrow> (base + align_fix align base) AND (align - 1) = 0"
  using take_bit_align_fix by (auto simp: pow2_def align_fix_def take_bit_eq_mask mask_eq_exp_minus_1)

lemma checked_add2_SomeD:
  assumes "Option.bind (checked_add (a :: 'a::len word) b) (\<lambda>x. checked_add x c) = Some d"
  shows "d = a + c + b" "a \<le> a + c" "a + c \<le> d" "unat d = unat a + unat b + unat c"
proof -
  from assms have u: "d = a + b + c" "unat d = unat a + unat b + unat c"
    by (auto simp: bind_eq_Some_conv dest!: checked_add_SomeD)
  then show "d = a + c + b" by simp
  have "unat d < 2 ^ LENGTH('a)" by simp
  with u(2) have "unat (a + c) = unat a + unat c" by (simp add: unat_word_ariths)
  then show "a \<le> a + c" "a + c \<le> d" using u(2) by (auto simp: word_le_nat_alt)
  show "unat d = unat a + unat b + unat c" by (rule u(2))
qed

text \<open>A candidate lies in one entry, is aligned, is as long as asked for and is addressable.\<close>

definition fits :: "nat \<Rightarrow> u64 \<Rightarrow> u64 \<Rightarrow> Range list \<Rightarrow> allocation \<Rightarrow> bool" where
  "fits ub sz align es a \<longleftrightarrow> (case a of (base, en, ptr) \<Rightarrow>
     (\<exists>e \<in> set es. r_start e \<le> base \<and> en \<le> r_end e) \<and> base \<le> ptr \<and> ptr \<le> en \<and>
     en = ptr + (sz - 1) \<and> ptr AND (align - 1) = 0 \<and> en \<le> mask ub)"

lemma region_search_Fit:
  assumes "valid ent" "region_search ub sz (align - 1) ent region = Fit a"
  shows "fits ub sz align [ent] a"
proof -
  from assms(2) obtain rg ov where o: "region = Some rg" "overlaps ent rg = Some ov"
    by (auto simp: region_search_def split: option.splits)
  define p where "p = (r_start ov + (align - 1)) AND NOT (align - 1)"
  from assms(2) o have p: "r_start ov \<le> p" "p \<le> r_end ov" "sz - 1 \<le> r_end ov - p" "p \<le> mask ub"
    "p + (sz - 1) \<le> mask ub" "a = (p, p + (sz - 1), take_bit ub p)"
    by (auto simp: region_search_def p_def Let_def not_less split: if_splits)
  have "r_start ent \<le> r_start ov" "r_end ov \<le> r_end ent"
    using o(2) assms(1) by (auto simp: overlaps_def Let_def valid_def split: if_splits)
  moreover have "p + (sz - 1) \<le> r_end ov" "p \<le> p + (sz - 1)"
  proof -
    have "unat p + unat (sz - 1) \<le> unat (r_end ov)" using p(2,3) by (simp add: word_le_nat_alt unat_sub)
    moreover from this have "unat (p + (sz - 1)) = unat p + unat (sz - 1)"
      using unsigned_less [of "r_end ov", where 'a = nat] by (simp add: unat_word_ariths)
    ultimately show "p + (sz - 1) \<le> r_end ov" "p \<le> p + (sz - 1)" by (simp_all add: word_le_nat_alt)
  qed
  moreover have "p AND (align - 1) = 0" by (simp add: p_def and.assoc)
  ultimately show ?thesis using p by (auto simp: fits_def le_mask_take_bit)
qed

lemma fits_Cons: "fits ub sz align es a \<Longrightarrow> fits ub sz align (e # es) a"
  by (auto simp: fits_def)

lemma fits_front:
  assumes "pow2 align"
    "Option.bind (checked_add (r_start ent) (sz - 1)) (\<lambda>x. checked_add x (align_fix align (r_start ent))) = Some en"
    "en \<le> mask ub" "en \<le> r_end ent"
  shows "fits ub sz align (ent # es) (r_start ent, en, take_bit ub (r_start ent + align_fix align (r_start ent)))"
proof -
  note c = checked_add2_SomeD [OF assms(2)]
  have "take_bit ub (r_start ent + align_fix align (r_start ent)) = r_start ent + align_fix align (r_start ent)"
    using c(3) assms(3) by (intro le_mask_take_bit) (rule order_trans)
  with c assms(3,4) align_fix_aligned [OF assms(1)] show ?thesis by (auto simp: fits_def)
qed

lemma fits_mono: "set es \<subseteq> set es' \<Longrightarrow> fits ub sz align es a \<Longrightarrow> fits ub sz align es' a"
  by (auto simp: fits_def)

lemma allocation_search_fits:
  assumes "pow2 align"
  shows "allocation_search ub sz align region es alloc = Some (Some a) \<Longrightarrow> list_all valid es \<Longrightarrow>
    set es \<subseteq> set all \<Longrightarrow> (\<forall>b. alloc = Some b \<longrightarrow> fits ub sz align all b) \<Longrightarrow> fits ub sz align all a"
proof (induction es arbitrary: alloc)
  case (Cons ent es)
  let ?fix = "align_fix align (r_start ent)"
  from Cons.prems(1) obtain en where
    en: "Option.bind (checked_add (r_start ent) (sz - 1)) (\<lambda>x. checked_add x ?fix) = Some en"
    by (auto simp: align_fix_def Let_def split: option.splits)
  have tl: "list_all valid es" "set es \<subseteq> set all" "valid ent" "set [ent] \<subseteq> set all"
    using Cons.prems(2,3) by auto
  consider "mask ub < r_start ent \<or> mask ub < en \<or> r_end ent < en"
    | "en \<le> mask ub" "en \<le> r_end ent" "r_start ent \<le> mask ub" by (meson not_less)
  then show ?case
  proof cases
    case 1
    with Cons.prems(1) en have "allocation_search ub sz align region es alloc = Some (Some a)"
      by (auto simp: align_fix_def Let_def split: if_splits)
    from Cons.IH [OF this tl(1,2) Cons.prems(4)] show ?thesis .
  next
    case 2
    note new = fits_mono [OF tl(4) fits_front [OF assms en 2(1,2), of "[]"]]
    define al where "al = (case alloc of
                 None \<Rightarrow> Some (r_start ent, en, take_bit ub (r_start ent + ?fix))
               | Some (base', en', ptr') \<Rightarrow>
                   if en' - base' > en - r_start ent
                   then Some (r_start ent, en, take_bit ub (r_start ent + ?fix)) else alloc)"
    have al: "\<forall>b. al = Some b \<longrightarrow> fits ub sz align all b"
      using new Cons.prems(4) by (auto simp: al_def split: option.splits if_splits)
    have eq: "allocation_search ub sz align region (ent # es) alloc =
        (case region_search ub sz (align - 1) ent region of Fit a \<Rightarrow> Some (Some a)
          | Skip \<Rightarrow> allocation_search ub sz align region es alloc
          | NoFit \<Rightarrow> allocation_search ub sz align region es al)"
      using 2 [THEN leD] en unfolding al_def align_fix_def by (simp add: Let_def)
    show ?thesis
    proof (cases "region_search ub sz (align - 1) ent region")
      case NoFit
      with eq Cons.prems(1) show ?thesis by (intro Cons.IH [OF _ tl(1,2) al]) simp
    next
      case Skip
      with eq Cons.prems(1) show ?thesis by (intro Cons.IH [OF _ tl(1,2) Cons.prems(4)]) simp
    next
      case (Fit b)
      with eq Cons.prems(1) fits_mono [OF tl(4) region_search_Fit [OF tl(3) Fit]] show ?thesis by simp
    qed
  qed
qed simp

definition block :: "u64 \<Rightarrow> u64 \<Rightarrow> u64 set" where
  "block p sz = {p..p + (sz - 1)}"

lemma allocate_prefer_fits:
  assumes "rs_inv rs" "rs_allocate_prefer ub rs sz align region = Ok (Some p, rs')"
  obtains base en where "fits ub sz align (live rs) (base, en, p)" "sz \<noteq> 0" "pow2 align"
    "rs_remove rs \<lparr>r_start = base, r_end = en\<rparr> = Ok rs'"
proof -
  note I = rs_invD [OF assms(1)]
  from assms(2) I(5) obtain base en where a: "sz \<noteq> 0" "count_ones align = 1"
    "allocation_search ub sz align region (live rs) None = Some (Some (base, en, p))"
    "rs_remove rs \<lparr>r_start = base, r_end = en\<rparr> = Ok rs'"
    by (auto simp: rs_allocate_prefer_def split: if_splits option.splits)
  have al: "pow2 align" by (rule iffD1 [OF count_ones_1 a(2)])
  have "fits ub sz align (live rs) (base, en, p)"
    using allocation_search_fits [OF al a(3), of "live rs"] I(4) by (simp add: list_all_iff)
  with that a(1,4) al show ?thesis by blast
qed

lemma fits_block:
  assumes "fits ub sz align (live rs) (base, en, p)"
  defines "rng \<equiv> \<lparr>r_start = base, r_end = en\<rparr>"
  shows "valid rng" "block p sz \<subseteq> span rng" "span rng \<subseteq> rs_addrs rs" "p \<le> p + (sz - 1)"
    "p + (sz - 1) \<le> mask ub" "p AND (align - 1) = 0"
proof -
  from assms obtain e where "e \<in> set (live rs)" "r_start e \<le> base" "en \<le> r_end e"
    and b: "base \<le> p" "p \<le> en" "en = p + (sz - 1)"
    by (auto simp: fits_def)
  then have "span rng \<subseteq> span e" "span e \<subseteq> rs_addrs rs"
    by (auto simp: rng_def span_def rs_addrs_def addrs_def)
  then show "span rng \<subseteq> rs_addrs rs" by blast
  show "valid rng" "block p sz \<subseteq> span rng" "p \<le> p + (sz - 1)"
    using b by (auto simp: rng_def valid_def block_def span_def)
  show "p + (sz - 1) \<le> mask ub" "p AND (align - 1) = 0"
    using assms(1) by (auto simp: fits_def)
qed

lemma allocate_prefer_sound:
  assumes "rs_inv rs" "rs_allocate_prefer ub rs sz align region = Ok (Some p, rs')"
  shows "rs_inv rs'" "sz \<noteq> 0" "p \<le> p + (sz - 1)" "p + (sz - 1) \<le> mask ub" "p AND (align - 1) = 0"
    "block p sz \<subseteq> rs_addrs rs" "rs_addrs rs' \<subseteq> rs_addrs rs - block p sz"
proof -
  obtain base en where f: "fits ub sz align (live rs) (base, en, p)" "sz \<noteq> 0"
    "rs_remove rs \<lparr>r_start = base, r_end = en\<rparr> = Ok rs'"
    by (rule allocate_prefer_fits [OF assms])
  note b = fits_block [OF f(1)] and r = rs_remove_Ok [OF assms(1) fits_block(1) [OF f(1)] f(3)]
  show "rs_inv rs'" by (rule r(1))
  show "sz \<noteq> 0" by (rule f(2))
  show "p \<le> p + (sz - 1)" "p + (sz - 1) \<le> mask ub" "p AND (align - 1) = 0" by (rule b(4-6))+
  show "block p sz \<subseteq> rs_addrs rs" using b(2,3) by blast
  show "rs_addrs rs' \<subseteq> rs_addrs rs - block p sz" using r(2) b(2) by blast
qed

lemma allocate_prefer_None:
  assumes "rs_allocate_prefer ub rs sz align region = Ok (None, rs')"
  shows "rs' = rs"
  using assms by (auto simp: rs_allocate_prefer_def elim!: bindR_OkE split: if_splits option.splits)

text \<open>Without a preferred region a candidate starts at the start of an entry, so no entry is
  split and the allocation cannot panic.\<close>

lemma allocation_search_front:
  "allocation_search ub sz align None es alloc = Some (Some (base, en, p)) \<Longrightarrow> set es \<subseteq> set all \<Longrightarrow>
    (\<forall>b e q. alloc = Some (b, e, q) \<longrightarrow> b \<in> r_start ` set all) \<Longrightarrow> base \<in> r_start ` set all"
proof (induction es arbitrary: alloc)
  case (Cons ent es)
  from Cons.prems(1) obtain alloc' where al: "allocation_search ub sz align None es alloc' = Some (Some (base, en, p))"
    "\<forall>b e q. alloc' = Some (b, e, q) \<longrightarrow> alloc = alloc' \<or> b = r_start ent"
    by (auto simp: Let_def region_search_def split: option.splits if_splits)
  from al(2) Cons.prems(2,3) have "\<forall>b e q. alloc' = Some (b, e, q) \<longrightarrow> b \<in> r_start ` set all" by fastforce
  with Cons.IH [OF al(1)] Cons.prems(2) show ?case by auto
qed auto

lemma allocate_total:
  assumes "rs_inv rs"
  shows "\<exists>r rs'. rs_allocate ub rs sz align = Ok (r, rs')"
proof -
  note I = rs_invD [OF assms]
  have "\<exists>rs'. rs_remove rs \<lparr>r_start = base, r_end = en\<rparr> = Ok rs'"
    if s: "allocation_search ub sz align None (live rs) None = Some (Some (base, en, p))"
      and al: "count_ones align = 1" for base en p
  proof -
    let ?rng = "\<lparr>r_start = base, r_end = en\<rparr>"
    have "fits ub sz align (live rs) (base, en, p)"
      using allocation_search_fits [OF iffD1 [OF count_ones_1 al] s, of "live rs"] I(4)
      by (simp add: list_all_iff)
    note b = fits_block [OF this]
    from allocation_search_front [OF s, of "live rs"] obtain i where
      i: "i < length (live rs)" "base = r_start (live rs ! i)" by (auto simp: in_set_conv_nth)
    have "\<not> splits ?rng e" if "e \<in> set (live rs)" for e
    proof
      assume sp: "splits ?rng e"
      with that obtain j where j: "j < length (live rs)" "e = live rs ! j" by (auto simp: in_set_conv_nth)
      with sp i have "j \<noteq> i" by (auto simp: splits_def)
      with j have "e \<in> set (others i (live rs))" by (auto intro: nth_in_others)
      from rs_inv_others(2) [OF assms i(1) this] have "span (live rs ! i) \<inter> span e = {}"
        using not_touches_disjoint I(4) i(1) nth_mem by blast
      moreover have "base \<in> span (live rs ! i)"
        using I(4) [OF nth_mem [OF i(1)]] i(2) by (simp add: span_def valid_def)
      moreover have "base \<in> span e" using sp b(1) by (auto simp: splits_def span_def valid_def)
      ultimately show False by blast
    qed
    then have "room ?rng rs" using I(2) by (simp add: room_iff)
    from rs_remove_correct [OF assms b(1) this] show ?thesis by blast
  qed
  with I(5) show ?thesis
    by (fastforce simp: rs_allocate_def rs_allocate_prefer_def split: option.splits)
qed

text \<open>The end of the candidate at the start of an entry, when it does not wrap.\<close>

definition no_wrap :: "u64 \<Rightarrow> u64 \<Rightarrow> Range \<Rightarrow> bool" where
  "no_wrap sz align e \<longleftrightarrow>
     unat (r_start e) + unat (sz - 1) + unat (align_fix align (r_start e)) < 2 ^ 64"

definition suits :: "nat \<Rightarrow> u64 \<Rightarrow> u64 \<Rightarrow> Range \<Rightarrow> bool" where
  "suits ub sz align e \<longleftrightarrow> no_wrap sz align e \<and>
     r_start e + align_fix align (r_start e) + (sz - 1) \<le> min (r_end e) (mask ub)"

lemma no_wrap_checked:
  "Option.bind (checked_add (r_start e) (sz - 1)) (\<lambda>x. checked_add x (align_fix align (r_start e))) =
     (if no_wrap sz align e then Some (r_start e + align_fix align (r_start e) + (sz - 1)) else None)"
proof (cases "unat (r_start e) + unat (sz - 1) < 2 ^ 64")
  case True
  then have "unat (r_start e + (sz - 1)) = unat (r_start e) + unat (sz - 1)" by (simp add: unat_word_ariths)
  moreover have "r_start e + align_fix align (r_start e) + (sz - 1) =
      r_start e + (sz - 1) + align_fix align (r_start e)" by (simp only: ac_simps)
  ultimately show ?thesis using True by (simp only: checked_add_def no_wrap_def) simp
qed (simp add: checked_add_def no_wrap_def)

lemma no_wrap_code [code]:
  "no_wrap sz align e \<longleftrightarrow>
    Option.bind (checked_add (r_start e) (sz - 1)) (\<lambda>x. checked_add x (align_fix align (r_start e))) \<noteq> None"
  by (simp add: no_wrap_checked)

lemma allocation_search_complete:
  "list_all (no_wrap sz align) es \<Longrightarrow> alloc \<noteq> None \<or> (\<exists>e \<in> set es. suits ub sz align e) \<Longrightarrow>
    \<exists>a. allocation_search ub sz align None es alloc = Some (Some a)"
proof (induction es arbitrary: alloc)
  case (Cons e es)
  let ?en = "r_start e + align_fix align (r_start e) + (sz - 1)"
  note c = no_wrap_checked [of e sz align, unfolded align_fix_def]
  have nw: "no_wrap sz align e" using Cons.prems(1) by simp
  from checked_add2_SomeD(2,3) [of "r_start e" "sz - 1" "align_fix align (r_start e)" ?en] nw
  have le: "r_start e \<le> ?en" by (simp add: no_wrap_checked)
  show ?case
  proof (cases "suits ub sz align e")
    case True
    then have fit: "?en \<le> r_end e" "?en \<le> mask ub" by (simp_all add: suits_def)
    let ?new = "(r_start e, ?en, take_bit ub (r_start e + align_fix align (r_start e)))"
    have "allocation_search ub sz align None (e # es) alloc = allocation_search ub sz align None es
        (case alloc of None \<Rightarrow> Some ?new | Some (base', en', ptr') \<Rightarrow>
           if en' - base' > ?en - r_start e then Some ?new else alloc)"
      using fit [THEN leD] order_trans [OF le fit(2), THEN leD] nw
      unfolding align_fix_def by (simp add: Let_def c [unfolded align_fix_def] region_search_def)
    moreover have "(case alloc of None \<Rightarrow> Some ?new | Some (base', en', ptr') \<Rightarrow>
           if en' - base' > ?en - r_start e then Some ?new else alloc) \<noteq> None"
      by (cases alloc) auto
    ultimately show ?thesis using Cons.IH Cons.prems(1) by simp
  next
    case False
    with nw have "r_end e < ?en \<or> mask ub < ?en" by (auto simp: suits_def not_le)
    then have "allocation_search ub sz align None (e # es) alloc = allocation_search ub sz align None es alloc"
      using nw unfolding align_fix_def by (elim disjE) (simp_all add: Let_def c [unfolded align_fix_def])
    with Cons.IH [of alloc] Cons.prems False show ?thesis by auto
  qed
qed simp

lemma allocate_complete:
  assumes "rs_inv rs" "sz \<noteq> 0" "count_ones align = 1" "list_all (no_wrap sz align) (live rs)"
    "\<exists>e \<in> set (live rs). suits ub sz align e"
  shows "\<exists>p rs'. rs_allocate ub rs sz align = Ok (Some p, rs')"
proof -
  obtain a where s: "allocation_search ub sz align None (live rs) None = Some (Some a)"
    using allocation_search_complete [OF assms(4)] assms(5) by blast
  obtain r rs' where "rs_allocate ub rs sz align = Ok (r, rs')" using allocate_total [OF assms(1)] by blast
  with s assms(2,3) rs_invD(5) [OF assms(1)] show ?thesis
    by (cases a) (auto simp: rs_allocate_def rs_allocate_prefer_def)
qed


subsection \<open>The contract of an address allocator\<close>

text \<open>A run of a client: blocks are handed out by \<open>al\<close> and given back by \<open>fr\<close>, in any order.\<close>

inductive heap_run ::
  "('s \<Rightarrow> u64 \<Rightarrow> u64 \<Rightarrow> (u64 option \<times> 's) res) \<Rightarrow> ('s \<Rightarrow> u64 \<Rightarrow> u64 \<Rightarrow> 's res) \<Rightarrow>
    's \<Rightarrow> 's \<Rightarrow> (u64 \<times> u64) list \<Rightarrow> bool"
  for al fr s0 where
  start: "heap_run al fr s0 s0 []"
| alloc: "heap_run al fr s0 s bs \<Longrightarrow> al s sz a = Ok (Some p, s') \<Longrightarrow> heap_run al fr s0 s' ((p, sz) # bs)"
| fail: "heap_run al fr s0 s bs \<Longrightarrow> al s sz a = Ok (None, s') \<Longrightarrow> heap_run al fr s0 s' bs"
| free: "heap_run al fr s0 s (xs @ (p, sz) # ys) \<Longrightarrow> fr s p sz = Ok s' \<Longrightarrow> heap_run al fr s0 s' (xs @ ys)"

definition blocks :: "(u64 \<times> u64) list \<Rightarrow> u64 set" where
  "blocks bs = (\<Union>(p, sz) \<in> set bs. block p sz)"

definition separate :: "(u64 \<times> u64) list \<Rightarrow> bool" where
  "separate bs \<longleftrightarrow> sorted_wrt (\<lambda>(p, sz) (q, tz). block p sz \<inter> block q tz = {}) bs"

lemma blocks_simps [simp]:
  "blocks [] = {}" "blocks ((p, sz) # bs) = block p sz \<union> blocks bs" "blocks (xs @ ys) = blocks xs \<union> blocks ys"
  by (auto simp: blocks_def)

lemma separate_Cons: "separate ((p, sz) # bs) \<longleftrightarrow> block p sz \<inter> blocks bs = {} \<and> separate bs"
  by (fastforce simp: separate_def blocks_def)

lemma separate_remove:
  assumes "separate (xs @ (p, sz) # ys)"
  shows "separate (xs @ ys)" "block p sz \<inter> blocks (xs @ ys) = {}"
  using assms by (fastforce simp: separate_def sorted_wrt_append blocks_def)+

locale address_allocator =
  fixes inv :: "'s \<Rightarrow> bool"
    and free :: "'s \<Rightarrow> u64 set"
    and al :: "'s \<Rightarrow> u64 \<Rightarrow> u64 \<Rightarrow> (u64 option \<times> 's) res"
    and fr :: "'s \<Rightarrow> u64 \<Rightarrow> u64 \<Rightarrow> 's res"
    and good :: "u64 \<Rightarrow> u64 \<Rightarrow> bool"
  assumes al_Some: "inv s \<Longrightarrow> al s sz a = Ok (Some p, s') \<Longrightarrow>
      inv s' \<and> good p sz \<and> block p sz \<subseteq> free s \<and> free s' \<subseteq> free s - block p sz"
    and al_None: "inv s \<Longrightarrow> al s sz a = Ok (None, s') \<Longrightarrow> s' = s"
    and fr_Ok: "inv s \<Longrightarrow> good p sz \<Longrightarrow> fr s p sz = Ok s' \<Longrightarrow>
      inv s' \<and> free s' = free s \<union> block p sz"
begin

lemma heap_run_inv:
  assumes "inv s0" "heap_run al fr s0 s bs"
  shows "inv s \<and> separate bs \<and> blocks bs \<inter> free s = {} \<and> blocks bs \<subseteq> free s0 \<and> free s \<subseteq> free s0 \<and>
    (\<forall>(p, sz) \<in> set bs. good p sz)"
  using assms(2)
proof induction
  case start
  then show ?case using assms(1) by (simp add: separate_def)
next
  case (alloc s bs sz a p s')
  from al_Some [OF _ alloc(2)] alloc.IH show ?case by (auto simp: separate_Cons)
next
  case (fail s bs sz a s')
  with al_None [OF _ fail(2)] show ?case by simp
next
  case (free s xs p sz ys s')
  from separate_remove [of xs p sz ys] fr_Ok [OF _ _ free(2)] free.IH show ?case by auto
qed

end

definition rs_release :: "RangeSet \<Rightarrow> u64 \<Rightarrow> u64 \<Rightarrow> RangeSet res" where
  "rs_release rs p sz = rs_insert rs \<lparr>r_start = p, r_end = p + (sz - 1)\<rparr>"

lemma rs_insert_Ok:
  assumes "rs_inv rs" "valid rng" "rs_insert rs rng = Ok rs'"
  shows "rs_inv rs'" "rs_addrs rs' = rs_addrs rs \<union> span rng"
  using rs_insert_correct [OF assms(1,2)] assms(3) by (auto split: if_splits)

definition sane_block :: "u64 \<Rightarrow> u64 \<Rightarrow> bool" where
  "sane_block p sz \<longleftrightarrow> sz \<noteq> 0 \<and> p \<le> p + (sz - 1)"

interpretation rs: address_allocator rs_inv rs_addrs "rs_allocate ub" rs_release sane_block for ub
proof
  show "rs_inv s' \<and> sane_block p sz \<and> block p sz \<subseteq> rs_addrs s \<and> rs_addrs s' \<subseteq> rs_addrs s - block p sz"
    if "rs_inv s" "rs_allocate ub s sz a = Ok (Some p, s')" for s sz a p s'
    using allocate_prefer_sound [OF that(1) that(2) [unfolded rs_allocate_def]] by (simp add: sane_block_def)
  show "s' = s" if "rs_inv s" "rs_allocate ub s sz a = Ok (None, s')" for s sz a s'
    using allocate_prefer_None that(2) by (simp add: rs_allocate_def)
  show "rs_inv s' \<and> rs_addrs s' = rs_addrs s \<union> block p sz"
    if "rs_inv s" "sane_block p sz" "rs_release s p sz = Ok s'" for s p sz s'
    using rs_insert_Ok [OF that(1) _ that(3) [unfolded rs_release_def]] that(2)
    by (simp add: valid_def span_def block_def sane_block_def)
qed

subsection \<open>Size of the set\<close>

lemma card_word_interval: "card {a..b :: u64} = (if a \<le> b then unat b - unat a + 1 else 0)"
proof -
  have "unat ` {a..b} = {unat a..unat b}"
  proof (intro equalityI subsetI)
    fix n assume n: "n \<in> {unat a..unat b}"
    then have "n < 2 ^ 64" using unsigned_less [of b, where 'a = nat] by simp
    then have "unat (of_nat n :: u64) = n" by (simp add: unat_of_nat take_bit_nat_eq_self_iff)
    with n show "n \<in> unat ` {a..b}"
      by (intro image_eqI [of _ _ "of_nat n"]) (auto simp: word_le_nat_alt)
  qed (auto simp: word_le_nat_alt)
  moreover have "inj_on unat {a..b}" by (auto intro!: inj_onI simp: word_unat_eq_iff)
  ultimately have "card {a..b} = card {unat a..unat b}" by (metis card_image)
  then show ?thesis by (auto simp: word_le_nat_alt)
qed

text \<open>The set is everything only if one entry is everything: two entries never touch.\<close>

lemma rs_addrs_UNIV:
  assumes "rs_inv rs" "rs_addrs rs = UNIV"
  shows "\<exists>e \<in> set (live rs). r_start e = 0 \<and> r_end e = - 1"
proof -
  note I = rs_invD [OF assms(1)]
  have nt: "e = e'" if "e \<in> set (live rs)" "e' \<in> set (live rs)" "touches e e'" for e e'
  proof (rule ccontr)
    assume "e \<noteq> e'"
    from that(1,2) obtain i j where "i < length (live rs)" "live rs ! i = e" "j < length (live rs)" "live rs ! j = e'"
      by (metis in_set_conv_nth)
    moreover from this \<open>e \<noteq> e'\<close> have "e' \<in> set (others i (live rs))" using nth_in_others by metis
    ultimately show False using rs_inv_others(2) [OF assms(1)] that(3) by blast
  qed
  have ex: "\<exists>e \<in> set (live rs). x \<in> span e" for x using assms(2) by (auto simp: rs_addrs_def addrs_def)
  from ex [of 0] obtain e where e: "e \<in> set (live rs)" "r_start e = 0" by (auto simp: span_def)
  have "r_end e = - 1"
  proof (rule ccontr)
    assume m: "r_end e \<noteq> - 1"
    from ex [of "r_end e + 1"] obtain e' where
      e': "e' \<in> set (live rs)" "r_start e' \<le> r_end e + 1" "r_end e + 1 \<le> r_end e'" by (auto simp: span_def)
    then have "touches e e'" using I(4) e m by (simp add: touches_iff rust_arith)
    with nt e(1) e'(1) have "e = e'" by blast
    with e'(3) m show False using word_succ_le by blast
  qed
  with e show ?thesis by blast
qed

lemma sum_fold_correct:
  "list_all valid es \<Longrightarrow> sorted_wrt (\<lambda>a b. \<not> touches a b) es \<Longrightarrow>
    sum_fold acc es = (if \<exists>e \<in> set es. r_start e = 0 \<and> r_end e = - 1 then None
      else Some (acc + of_nat (card (addrs es))))"
proof (induction es arbitrary: acc)
  case (Cons e es)
  have v: "valid e" using Cons.prems(1) by simp
  then have len: "unat (r_end e - r_start e) = unat (r_end e) - unat (r_start e)" "r_start e \<le> r_end e"
    by (simp_all add: valid_def unat_sub)
  have full: "unat (r_end e) - unat (r_start e) + 1 < 2 ^ 64 \<longleftrightarrow> \<not> (r_start e = 0 \<and> r_end e = - 1)"
  proof -
    have "unat (r_end e) < 2 ^ 64" using unsigned_less [of "r_end e", where 'a = nat] by simp
    moreover have "r_end e = - 1 \<longleftrightarrow> unat (r_end e) = 2 ^ 64 - 1" "r_start e = 0 \<longleftrightarrow> unat (r_start e) = 0"
      by (simp_all add: unsigned_minus_1_eq_mask mask_eq_exp_minus_1 word_unat_eq_iff)
    ultimately show ?thesis by auto
  qed
  have disj: "span e \<inter> addrs es = {}"
    using Cons.prems v not_touches_disjoint by (fastforce simp: addrs_def list_all_iff)
  have c: "card (addrs (e # es)) = (unat (r_end e) - unat (r_start e) + 1) + card (addrs es)"
    using disj len(2) by (simp add: card_Un_disjoint span_def card_word_interval)
  have w: "of_nat (unat (r_end e) - unat (r_start e) + 1) = r_end e - r_start e + 1"
    using len by (simp flip: len(1))
  show ?case
  proof (cases "r_start e = 0 \<and> r_end e = - 1")
    case True
    then show ?thesis by (simp add: checked_add_def unsigned_minus_1_eq_mask mask_eq_exp_minus_1)
  next
    case False
    with full len have "checked_add (r_end e - r_start e) 1 = Some (r_end e - r_start e + 1)"
      by (simp add: checked_add_def)
    with Cons.IH [of "acc + (r_end e - r_start e + 1)"] Cons.prems False show ?thesis
      unfolding c of_nat_add [of "_ + 1"] w by (auto simp: add.assoc)
  qed
qed simp

lemma card_u64: "card (UNIV :: u64 set) = 2 ^ 64"
proof -
  have "(UNIV :: u64 set) = {0..- 1}" by auto
  with card_word_interval [of 0 "- 1"] show ?thesis
    by (simp add: unsigned_minus_1_eq_mask mask_eq_exp_minus_1)
qed

subsection \<open>Properties\<close>

text \<open>C3: an allocation from a well-formed set, with or without a preferred region, has the
  size and the alignment asked for, does not wrap, is addressable by the processor, consists
  of free addresses only, and none of it is free afterwards; the set stays well formed. A
  failed allocation leaves the set as it was.\<close>

theorem allocate_prefer_correct:
  assumes "rs_inv rs" "rs_allocate_prefer ub rs sz align region = Ok (r, rs')"
  shows "case r of None \<Rightarrow> rs' = rs
    | Some p \<Rightarrow> rs_inv rs' \<and> sz \<noteq> 0 \<and> p \<le> p + (sz - 1) \<and> p + (sz - 1) \<le> mask ub \<and>
        p AND (align - 1) = 0 \<and> block p sz \<subseteq> rs_addrs rs \<and> rs_addrs rs' \<subseteq> rs_addrs rs - block p sz"
proof (cases r)
  case None
  with allocate_prefer_None assms(2) show ?thesis by simp
next
  case (Some p)
  with allocate_prefer_sound [OF assms(1) assms(2) [unfolded Some]] show ?thesis by simp
qed

theorem allocate_prefer_correct_witness:
  "\<exists>rs'. rs_allocate_prefer 32 one_entry 0x1000 0x1000 (Some \<lparr>r_start = 0x4800, r_end = 0x8fff\<rparr>) =
      Ok (Some 0x5000, rs') \<and> rs_inv rs' \<and> block 0x5000 0x1000 \<subseteq> rs_addrs one_entry"
proof -
  have "room \<lparr>r_start = 0x5000, r_end = 0x5fff\<rparr> one_entry" by (simp add: room_iff one_entry(3))
  from rs_remove_correct [OF one_entry(1) _ this] obtain rs' where
    "rs_remove one_entry \<lparr>r_start = 0x5000, r_end = 0x5fff\<rparr> = Ok rs'" by (auto simp: valid_def)
  moreover have "allocation_search 32 0x1000 0x1000 (Some \<lparr>r_start = 0x4800, r_end = 0x8fff\<rparr>)
      (live one_entry) None = Some (Some (0x5000, 0x5fff, 0x5000))" "count_ones (0x1000 :: u64) = 1"
    unfolding one_entry(2) by code_simp+
  ultimately have r: "rs_allocate_prefer 32 one_entry 0x1000 0x1000
      (Some \<lparr>r_start = 0x4800, r_end = 0x8fff\<rparr>) = Ok (Some 0x5000, rs')"
    by (simp add: rs_allocate_prefer_def rs_invD(5) [OF one_entry(1)])
  with allocate_prefer_correct [OF one_entry(1) r] show ?thesis by simp
qed

text \<open>C4: allocation without a preferred region always returns, and it succeeds when some
  entry has room for the aligned block and no entry's candidate runs over the end of the
  64-bit address space.\<close>

theorem allocate_succeeds:
  assumes "rs_inv rs"
  shows "(\<exists>r rs'. rs_allocate ub rs sz align = Ok (r, rs')) \<and>
    (sz \<noteq> 0 \<and> count_ones align = 1 \<and> list_all (no_wrap sz align) (live rs) \<and>
       (\<exists>e \<in> set (live rs). suits ub sz align e) \<longrightarrow>
     (\<exists>p rs'. rs_allocate ub rs sz align = Ok (Some p, rs')))"
  using allocate_total [OF assms] allocate_complete [OF assms] by blast

theorem allocate_succeeds_witness:
  "\<exists>p rs'. rs_allocate 64 one_entry 0x2000 0x1000 = Ok (Some p, rs')"
proof -
  have "list_all (no_wrap 0x2000 0x1000) (live one_entry)"
    "suits 64 0x2000 0x1000 \<lparr>r_start = 0, r_end = 0xffff\<rparr>" "count_ones (0x1000 :: u64) = 1"
    unfolding one_entry(2) by code_simp+
  with allocate_succeeds [OF one_entry(1), where ub = 64 and sz = "0x2000" and align = "0x1000"] show ?thesis
    by (auto simp: one_entry(2))
qed

text \<open>An entry whose candidate would run over the end of the address space ends the whole
  search: with such an entry first, no allocation succeeds, whatever the entries after it
  offer.\<close>

theorem allocate_gives_up:
  assumes "rs_inv rs" "live rs = e # es" "sz \<noteq> 0" "count_ones align = 1" "\<not> no_wrap sz align e"
  shows "rs_allocate ub rs sz align = Ok (None, rs)"
  using assms rs_invD(5) [OF assms(1)] no_wrap_checked [of e sz align]
  by (simp add: rs_allocate_def rs_allocate_prefer_def align_fix_def Let_def)

definition top_entry :: RangeSet where
  "top_entry = rs_new\<lparr>ranges := (ranges rs_new)[0 := \<lparr>r_start = - 0x1000, r_end = - 1\<rparr>,
     1 := \<lparr>r_start = 0, r_end = 0xffff\<rparr>], in_use := 2\<rparr>"

theorem allocate_gives_up_witness:
  "rs_allocate 64 top_entry 0x2000 0x1000 = Ok (None, top_entry) \<and>
    (\<exists>e \<in> set (live top_entry). suits 64 0x2000 0x1000 e)"
proof -
  have live: "live top_entry = [\<lparr>r_start = - 0x1000, r_end = - 1\<rparr>, \<lparr>r_start = 0, r_end = 0xffff\<rparr>]"
    "rs_inv top_entry" by code_simp+
  have "\<not> no_wrap 0x2000 0x1000 \<lparr>r_start = - 0x1000, r_end = - 1\<rparr>" "count_ones (0x1000 :: u64) = 1"
    "suits 64 0x2000 0x1000 \<lparr>r_start = 0, r_end = 0xffff\<rparr>" by code_simp+
  with allocate_gives_up [OF live(2,1), where ub = 64 and sz = "0x2000" and align = "0x1000"] live(1) show ?thesis by simp
qed

text \<open>The size computed for a well-formed set is the number of addresses in it, except for
  the set of all addresses, whose size does not fit in 64 bits and is reported as none.\<close>

theorem rs_sum_card:
  assumes "rs_inv rs"
  shows "if rs_addrs rs = UNIV then rs_sum rs = Ok None
    else \<exists>n. rs_sum rs = Ok (Some n) \<and> unat n = card (rs_addrs rs)"
proof -
  have s: "rs_sum rs = Ok (if \<exists>e \<in> set (live rs). r_start e = 0 \<and> r_end e = - 1 then None
      else Some (of_nat (card (rs_addrs rs))))"
    using sum_fold_correct [of "live rs" 0] assms rs_invD(5) [OF assms]
    by (simp add: rs_sum_def rs_inv_def rs_addrs_def)
  show ?thesis
  proof (cases "rs_addrs rs = UNIV")
    case True
    with rs_addrs_UNIV [OF assms] s show ?thesis by simp
  next
    case False
    then have "card (rs_addrs rs) < 2 ^ 64"
      using psubset_card_mono [of UNIV "rs_addrs rs"] by (simp add: card_u64 psubset_eq)
    moreover have "\<not> (\<exists>e \<in> set (live rs). r_start e = 0 \<and> r_end e = - 1)"
      using False by (auto simp: rs_addrs_def addrs_def span_def)
    ultimately show ?thesis using s False by (simp add: unat_of_nat take_bit_nat_eq_self_iff)
  qed
qed

theorem rs_sum_card_witness: "\<exists>n. rs_sum one_entry = Ok (Some n) \<and> unat n = card {0 :: u64..0xffff}"
proof -
  have a: "rs_addrs one_entry = {0..0xffff}" by (simp add: rs_addrs_def one_entry(2) span_def)
  have "(0x10000 :: u64) \<notin> {0..0xffff}" by simp
  then have "rs_addrs one_entry \<noteq> UNIV" unfolding a by blast
  with rs_sum_card [OF one_entry(1)] a show ?thesis by simp
qed

end
