(* ===== verification/BootMm.thy ===== *)
theory BootMm
  imports RangeSet_Alloc
begin

text \<open>
  The bootloader's memory manager, \<open>bootloader/src/mm.rs\<close>: the physical memory behind the
  page tables, the global allocator, and the construction of the free memory from the BIOS
  memory map. The BIOS is a parameter: a function from the interrupt number, the registers
  and the entry buffer to the registers and the buffer after the call, with a state of its
  own. The lock around the free memory is the subject of the lock theory; here the guarded
  value is passed as state.
\<close>

unbundle bit_operations_syntax

subsection \<open>Layouts and physical memory\<close>

text \<open>\<open>core::alloc::Layout\<close>; a \<open>usize\<close> is held zero-extended to 64 bits.\<close>

record Layout =
  l_size :: u64
  l_align :: u64

definition boot_translate :: "u64 \<Rightarrow> u64 \<Rightarrow> u64 res" where
  "boot_translate paddr sz =
     (if \<not> sz > 0 then Panic ''Attempted to translate zero size memory''
      else if paddr > mask 32 then Panic ''Physical address outside of addressible range''
      else case checked_add (ucast paddr :: u32) (ucast (sz - 1)) of
        None \<Rightarrow> Panic ''Integer overflow on physical address translation''
      | Some _ \<Rightarrow> Ok paddr)"

definition boot_alloc_phys :: "RangeSet \<Rightarrow> Layout \<Rightarrow> (u64 \<times> RangeSet) res" where
  "boot_alloc_phys rs layout = bindR (rs_allocate 32 rs (l_size layout) (l_align layout)) (\<lambda>(r, rs').
     bindR (expectR ''Failed to allocate physical memory'' r) (\<lambda>p. Ok (p, rs')))"

definition boot_free_phys :: "RangeSet \<Rightarrow> u64 \<Rightarrow> u64 \<Rightarrow> RangeSet res" where
  "boot_free_phys rs addr sz =
     bindR (expectR ''Integer overflow on free''
         (Option.bind (checked_sub sz 1) (\<lambda>x. checked_add x addr))) (\<lambda>en.
       rs_insert rs \<lparr>r_start = addr, r_end = en\<rparr>)"

subsection \<open>The global allocator\<close>

text \<open>The state is the guarded \<open>Option<RangeSet>\<close>; the null pointer is the address 0.\<close>

definition boot_alloc :: "RangeSet option \<Rightarrow> Layout \<Rightarrow> (u64 \<times> RangeSet option) res" where
  "boot_alloc pmem layout = (case pmem of None \<Rightarrow> Ok (0, None)
     | Some x \<Rightarrow> bindR (rs_allocate 32 x (l_size layout) (l_align layout)) (\<lambda>(r, x').
         Ok (case r of None \<Rightarrow> 0 | Some p \<Rightarrow> p, Some x')))"

definition boot_dealloc :: "RangeSet option \<Rightarrow> u64 \<Rightarrow> Layout \<Rightarrow> RangeSet option res" where
  "boot_dealloc pmem ptr layout = (case pmem of
       None \<Rightarrow> Panic ''Cannot free memory without initialized MM''
     | Some x \<Rightarrow> (case Option.bind (checked_sub (l_size layout) 1) (\<lambda>n. checked_add ptr n) of
         None \<Rightarrow> Panic ''Cannot free memory without initialized MM''
       | Some en \<Rightarrow> bindR (rs_insert x \<lparr>r_start = ptr, r_end = en\<rparr>) (\<lambda>x'. Ok (Some x'))))"

subsection \<open>The BIOS memory map\<close>

record RegisterState =
  eax :: u32
  ecx :: u32
  edx :: u32
  ebx :: u32
  esp :: u32
  ebp :: u32
  esi :: u32
  edi :: u32
  efl :: u32
  reg_es :: u16
  reg_ds :: u16
  reg_fs :: u16
  reg_gs :: u16
  reg_ss :: u16

definition regs_default :: RegisterState where
  "regs_default = \<lparr>eax = 0, ecx = 0, edx = 0, ebx = 0, esp = 0, ebp = 0, esi = 0, edi = 0, efl = 0,
     reg_es = 0, reg_ds = 0, reg_fs = 0, reg_gs = 0, reg_ss = 0\<rparr>"

record E820Entry =
  e_base :: u64
  e_size :: u64
  e_typ :: u32

type_synonym 'b realmode =
  "u8 \<Rightarrow> RegisterState \<Rightarrow> E820Entry \<Rightarrow> 'b \<Rightarrow> RegisterState \<times> E820Entry \<times> 'b"

text \<open>The arguments of the call; \<open>ptr\<close> is the address of the entry buffer, whose size is 24
  bytes, and \<open>0x534d4150\<close> is \<open>SMAP\<close> in big-endian order.\<close>

definition e820_args :: "u32 \<Rightarrow> RegisterState \<Rightarrow> RegisterState" where
  "e820_args ptr regs = regs\<lparr>eax := 0xe820, edi := ptr, ecx := 24, edx := 0x534d4150\<rparr>"

definition e820_entry_default :: E820Entry where
  "e820_entry_default = \<lparr>e_base = 0, e_size = 0, e_typ = 0\<rparr>"

text \<open>What one entry does to the free memory in each of the two passes.\<close>

definition e820_apply :: "bool \<Rightarrow> RangeSet \<Rightarrow> E820Entry \<Rightarrow> RangeSet res" where
  "e820_apply add_free_mem free_memory entry =
     (if add_free_mem \<and> e_typ entry = 1 \<and> e_size entry > 0 then
        bindR (expectR ''unwrap'' (checked_add (e_base entry) (e_size entry - 1))) (\<lambda>en.
          rs_insert free_memory \<lparr>r_start = e_base entry, r_end = en\<rparr>)
      else if \<not> add_free_mem \<and> e_typ entry \<noteq> 1 \<and> e_size entry > 0 then
        bindR (expectR ''unwrap'' (checked_add (e_base entry) (e_size entry - 1))) (\<lambda>en.
          rs_remove free_memory \<lparr>r_start = e_base entry, r_end = en\<rparr>)
      else Ok free_memory)"

text \<open>The inner loop ends when the BIOS reports the last entry; a BIOS that never does makes it
  run forever, which is the value \<open>None\<close>.\<close>

partial_function (option) e820_loop ::
  "'b realmode \<Rightarrow> u32 \<Rightarrow> bool \<Rightarrow> RegisterState \<Rightarrow> RangeSet \<Rightarrow> 'b \<Rightarrow> (RangeSet \<times> 'b) res option"
where
  "e820_loop rm ptr add_free_mem regs free_memory b =
     (case rm 0x15 (e820_args ptr regs) e820_entry_default b of (regs', entry, b') \<Rightarrow>
        if efl regs' AND 1 \<noteq> 0 then Some (Panic ''Error reported by BIOS on E820'')
        else (case e820_apply add_free_mem free_memory entry of
            Panic msg \<Rightarrow> Some (Panic msg)
          | Ok free_memory' \<Rightarrow>
              if ebx regs' = 0 then Some (Ok (free_memory', b'))
              else e820_loop rm ptr add_free_mem regs' free_memory' b'))"

fun e820_passes ::
  "'b realmode \<Rightarrow> u32 \<Rightarrow> bool list \<Rightarrow> RangeSet \<Rightarrow> 'b \<Rightarrow> (RangeSet \<times> 'b) res option"
where
  "e820_passes rm ptr [] free_memory b = Some (Ok (free_memory, b))"
| "e820_passes rm ptr (add_free_mem # ps) free_memory b =
     (case e820_loop rm ptr add_free_mem (regs_default\<lparr>ebx := 0\<rparr>) free_memory b of
        None \<Rightarrow> None
      | Some (Panic msg) \<Rightarrow> Some (Panic msg)
      | Some (Ok (free_memory', b')) \<Rightarrow> e820_passes rm ptr ps free_memory' b')"

definition mm_init :: "'b realmode \<Rightarrow> u32 \<Rightarrow> RangeSet option \<Rightarrow> 'b \<Rightarrow> (RangeSet option \<times> 'b) res option" where
  "mm_init rm ptr pmem b =
     (if pmem \<noteq> None then Some (Ok (pmem, b))
      else (case e820_passes rm ptr [True, False] rs_new b of
          None \<Rightarrow> None
        | Some (Panic msg) \<Rightarrow> Some (Panic msg)
        | Some (Ok (free_memory, b')) \<Rightarrow>
            Some (bindR (rs_remove free_memory \<lparr>r_start = 0, r_end = 1024 * 1024 - 1\<rparr>)
              (\<lambda>free_memory'. Ok (Some free_memory', b')))))"

subsection \<open>A BIOS that enumerates a memory map\<close>

text \<open>The BIOS answers the calls of one pass with the entries of \<open>es\<close> in order, without error,
  and sets the continuation to zero with the last one.\<close>

fun serves :: "'b realmode \<Rightarrow> u32 \<Rightarrow> E820Entry list \<Rightarrow> RegisterState \<Rightarrow> 'b \<Rightarrow> 'b \<Rightarrow> bool" where
  "serves rm ptr [] regs b b' \<longleftrightarrow> False"
| "serves rm ptr (e # es) regs b b' \<longleftrightarrow>
     (case rm 0x15 (e820_args ptr regs) e820_entry_default b of (regs', e', b1) \<Rightarrow>
        efl regs' AND 1 = 0 \<and> e' = e \<and>
        (if es = [] then ebx regs' = 0 \<and> b1 = b' else ebx regs' \<noteq> 0 \<and> serves rm ptr es regs' b1 b'))"

lemma e820_loop_serves:
  "serves rm ptr es regs b b' \<Longrightarrow>
    e820_loop rm ptr add regs fm b = Some (bindR (foldR (e820_apply add) fm es) (\<lambda>fm'. Ok (fm', b')))"
proof (induction es arbitrary: regs b fm)
  case (Cons e es)
  obtain regs' e' b1 where rm: "rm 0x15 (e820_args ptr regs) e820_entry_default b = (regs', e', b1)"
    by (cases "rm 0x15 (e820_args ptr regs) e820_entry_default b")
  with Cons.prems have s: "efl regs' AND 1 = 0" "e' = e"
    "if es = [] then ebx regs' = 0 \<and> b1 = b' else ebx regs' \<noteq> 0 \<and> serves rm ptr es regs' b1 b'"
    by auto
  show ?case
  proof (cases "e820_apply add fm e")
    case (Panic m)
    with rm s(1,2) show ?thesis by (subst e820_loop.simps) simp
  next
    case (Ok fm')
    with rm s Cons.IH [of regs' b1 fm'] show ?thesis
      by (subst e820_loop.simps) (auto split: if_splits)
  qed
qed simp

definition sane_entry :: "E820Entry \<Rightarrow> bool" where
  "sane_entry e \<longleftrightarrow> (e_size e > 0 \<longrightarrow> e_base e \<le> e_base e + (e_size e - 1))"

definition entry_span :: "E820Entry \<Rightarrow> u64 set" where
  "entry_span e = (if e_size e = 0 then {} else block (e_base e) (e_size e))"

definition free_entries :: "E820Entry list \<Rightarrow> u64 set" where
  "free_entries es = (\<Union>e \<in> {e \<in> set es. e_typ e = 1}. entry_span e)"

definition used_entries :: "E820Entry list \<Rightarrow> u64 set" where
  "used_entries es = (\<Union>e \<in> {e \<in> set es. e_typ e \<noteq> 1}. entry_span e)"

lemma entries_Cons [simp]:
  "free_entries [] = {}" "used_entries [] = {}"
  "free_entries (e # es) = (if e_typ e = 1 then entry_span e else {}) \<union> free_entries es"
  "used_entries (e # es) = (if e_typ e = 1 then {} else entry_span e) \<union> used_entries es"
  by (auto simp: free_entries_def used_entries_def)

lemma e820_add:
  "rs_inv fm \<Longrightarrow> list_all sane_entry es \<Longrightarrow>
    unat (in_use fm) + length (filter (\<lambda>e. e_typ e = 1) es) \<le> 256 \<Longrightarrow>
    \<exists>fm'. foldR (e820_apply True) fm es = Ok fm' \<and> rs_inv fm' \<and>
      rs_addrs fm' = rs_addrs fm \<union> free_entries es \<and>
      unat (in_use fm') \<le> unat (in_use fm) + length (filter (\<lambda>e. e_typ e = 1) es)"
proof (induction es arbitrary: fm)
  case (Cons e es)
  show ?case
  proof (cases "e_typ e = 1 \<and> e_size e > 0")
    case False
    then have "e820_apply True fm e = Ok fm" "free_entries (e # es) = free_entries es"
      by (auto simp: e820_apply_def entry_span_def word_gt_0)
    moreover have "unat (in_use fm) + length (filter (\<lambda>e. e_typ e = 1) es) \<le> 256"
      using Cons.prems(3) by (auto split: if_splits)
    ultimately show ?thesis using Cons.IH [of fm] Cons.prems by auto
  next
    case True
    let ?r = "\<lparr>r_start = e_base e, r_end = e_base e + (e_size e - 1)\<rparr>"
    have v: "valid ?r" using Cons.prems(2) True by (simp add: sane_entry_def valid_def)
    have "e820_apply True fm e = rs_insert fm ?r"
      using Cons.prems(2) True by (simp add: e820_apply_def sane_entry_def checked_add_code)
    with rs_insert_correct [OF Cons.prems(1) v] Cons.prems(3) True
    obtain fm1 where f: "e820_apply True fm e = Ok fm1" "rs_inv fm1"
      "rs_addrs fm1 = rs_addrs fm \<union> span ?r" "unat (in_use fm1) \<le> unat (in_use fm) + 1"
      by (auto split: if_splits)
    have "free_entries (e # es) = span ?r \<union> free_entries es"
      using True by (simp add: entry_span_def block_def span_def word_gt_0)
    with Cons.IH [OF f(2)] Cons.prems(2,3) True f show ?thesis by fastforce
  qed
qed simp

lemma e820_remove:
  "rs_inv fm \<Longrightarrow> list_all sane_entry es \<Longrightarrow>
    unat (in_use fm) + length (filter (\<lambda>e. e_typ e \<noteq> 1) es) \<le> 256 \<Longrightarrow>
    \<exists>fm'. foldR (e820_apply False) fm es = Ok fm' \<and> rs_inv fm' \<and>
      rs_addrs fm' = rs_addrs fm - used_entries es \<and>
      unat (in_use fm') \<le> unat (in_use fm) + length (filter (\<lambda>e. e_typ e \<noteq> 1) es)"
proof (induction es arbitrary: fm)
  case (Cons e es)
  show ?case
  proof (cases "e_typ e \<noteq> 1 \<and> e_size e > 0")
    case False
    then have "e820_apply False fm e = Ok fm" "used_entries (e # es) = used_entries es"
      by (auto simp: e820_apply_def entry_span_def word_gt_0)
    moreover have "unat (in_use fm) + length (filter (\<lambda>e. e_typ e \<noteq> 1) es) \<le> 256"
      using Cons.prems(3) by (auto split: if_splits)
    ultimately show ?thesis using Cons.IH [of fm] Cons.prems by auto
  next
    case True
    let ?r = "\<lparr>r_start = e_base e, r_end = e_base e + (e_size e - 1)\<rparr>"
    have v: "valid ?r" using Cons.prems(2) True by (simp add: sane_entry_def valid_def)
    have n: "slots ?r fm \<le> unat (in_use fm) + 1" by (simp add: slots_def)
    then have room: "room ?r fm" using Cons.prems(3) True by (simp add: room_def)
    have "e820_apply False fm e = rs_remove fm ?r"
      using Cons.prems(2) True by (simp add: e820_apply_def sane_entry_def checked_add_code)
    with rs_remove_correct [OF Cons.prems(1) v room] n
    obtain fm1 where f: "e820_apply False fm e = Ok fm1" "rs_inv fm1"
      "rs_addrs fm1 = rs_addrs fm - span ?r" "unat (in_use fm1) \<le> unat (in_use fm) + 1" by auto
    have "used_entries (e # es) = span ?r \<union> used_entries es"
      using True by (simp add: entry_span_def block_def span_def word_gt_0)
    with Cons.IH [OF f(2)] Cons.prems(2,3) True f show ?thesis by fastforce
  qed
qed simp

subsection \<open>Properties\<close>

text \<open>C5: with a BIOS that enumerates a memory map of at most 255 entries, none of which runs
  over the end of the address space, in both passes, initialisation returns and the free
  memory is exactly the memory some entry marks free, no entry marks otherwise, and that lies
  above the first MiB.\<close>

theorem mm_init_free_memory:
  assumes "serves rm ptr es regs_default b b1" "serves rm ptr es regs_default b1 b2"
    and "length es \<le> 255" "list_all sane_entry es"
  shows "\<exists>fm. mm_init rm ptr None b = Some (Ok (Some fm, b2)) \<and> rs_inv fm \<and>
    rs_addrs fm = free_entries es - used_entries es - {0..0xfffff}"
proof -
  have d: "regs_default\<lparr>ebx := 0\<rparr> = regs_default" by (simp add: regs_default_def)
  have len: "length (filter (\<lambda>e. e_typ e = 1) es) + length (filter (\<lambda>e. e_typ e \<noteq> 1) es) \<le> 255"
    using assms(3) sum_length_filter_compl [of "\<lambda>e. e_typ e = 1" es] by simp
  from e820_add [OF rs_inv_new(1) assms(4)] rs_inv_new len obtain f1 where
    f1: "foldR (e820_apply True) rs_new es = Ok f1" "rs_inv f1" "rs_addrs f1 = free_entries es"
      "unat (in_use f1) \<le> length (filter (\<lambda>e. e_typ e = 1) es)" by auto
  from e820_remove [OF f1(2) assms(4)] f1(4) len obtain f2 where
    f2: "foldR (e820_apply False) f1 es = Ok f2" "rs_inv f2"
      "rs_addrs f2 = rs_addrs f1 - used_entries es" "unat (in_use f2) \<le> 255" by fastforce
  let ?low = "\<lparr>r_start = 0, r_end = 0xfffff\<rparr>"
  have "valid ?low" "room ?low f2" using f2(4) by (auto simp: valid_def room_def slots_def)
  from rs_remove_correct [OF f2(2) this] obtain f3 where
    f3: "rs_remove f2 ?low = Ok f3" "rs_inv f3" "rs_addrs f3 = rs_addrs f2 - span ?low" by auto
  have "e820_passes rm ptr [True, False] rs_new b = Some (Ok (f2, b2))"
    using e820_loop_serves [OF assms(1), of True rs_new] e820_loop_serves [OF assms(2), of False f1]
    by (simp add: d f1(1) f2(1))
  with f3 f1(3) f2(3) show ?thesis by (simp add: mm_init_def span_def)
qed

text \<open>Witness: a BIOS that keeps the index of the next entry in the continuation register.\<close>

definition table_bios :: "E820Entry list \<Rightarrow> unit realmode" where
  "table_bios es n regs e b = (let i = unat (ebx regs) in
     (regs\<lparr>ebx := if i + 1 < length es then of_nat (i + 1) else 0, efl := 0\<rparr>, es ! i, b))"

definition sample_map :: "E820Entry list" where
  "sample_map = [\<lparr>e_base = 0, e_size = 0xa0000, e_typ = 1\<rparr>,
     \<lparr>e_base = 0x100000, e_size = 0x100000, e_typ = 1\<rparr>,
     \<lparr>e_base = 0x180000, e_size = 0x1000, e_typ = 2\<rparr>]"

theorem mm_init_free_memory_witness:
  "\<exists>fm. mm_init (table_bios sample_map) 0x7000 None () = Some (Ok (Some fm, ())) \<and> rs_inv fm \<and>
    rs_addrs fm = {0x100000..0x1fffff} - {0x180000..0x180fff}"
proof -
  have s: "serves (table_bios sample_map) 0x7000 sample_map regs_default () ()"
    by (simp add: sample_map_def table_bios_def regs_default_def e820_args_def)
  have "list_all sane_entry sample_map" "length sample_map \<le> 255"
    by (simp_all add: sample_map_def sane_entry_def)
  with mm_init_free_memory [OF s s] obtain fm where
    fm: "mm_init (table_bios sample_map) 0x7000 None () = Some (Ok (Some fm, ()))" "rs_inv fm"
      "rs_addrs fm = free_entries sample_map - used_entries sample_map - {0..0xfffff}" by blast
  have e: "free_entries sample_map = {0..0x9ffff} \<union> {0x100000..0x1fffff}"
    "used_entries sample_map = {0x180000..0x180fff}"
    by (simp_all add: sample_map_def entries_Cons entry_span_def block_def)
  have "{0..0x9ffff} \<subseteq> {0 :: u64..0xfffff}" "{0x100000..0x1fffff} \<inter> {0 :: u64..0xfffff} = {}" by simp_all
  then have "rs_addrs fm = {0x100000..0x1fffff} - {0x180000..0x180fff}" unfolding fm(3) e by blast
  with fm show ?thesis by blast
qed

subsection \<open>The allocator never hands out a block twice\<close>

definition boot_inv :: "RangeSet option \<Rightarrow> bool" where
  "boot_inv s \<longleftrightarrow> (case s of None \<Rightarrow> False | Some rs \<Rightarrow> rs_inv rs \<and> 0 \<notin> rs_addrs rs)"

definition boot_free :: "RangeSet option \<Rightarrow> u64 set" where
  "boot_free s = (case s of None \<Rightarrow> {} | Some rs \<Rightarrow> rs_addrs rs)"

text \<open>The Rust allocation interface as the runtime uses it: a null pointer is a failure.\<close>

definition boot_heap_alloc :: "RangeSet option \<Rightarrow> u64 \<Rightarrow> u64 \<Rightarrow> (u64 option \<times> RangeSet option) res" where
  "boot_heap_alloc s sz align = bindR (boot_alloc s \<lparr>l_size = sz, l_align = align\<rparr>) (\<lambda>(p, s').
     Ok (if p = 0 then None else Some p, s'))"

definition boot_heap_free :: "RangeSet option \<Rightarrow> u64 \<Rightarrow> u64 \<Rightarrow> RangeSet option res" where
  "boot_heap_free s p sz = boot_dealloc s p \<lparr>l_size = sz, l_align = 1\<rparr>"

definition nonnull_block :: "u64 \<Rightarrow> u64 \<Rightarrow> bool" where
  "nonnull_block p sz \<longleftrightarrow> sane_block p sz \<and> p \<noteq> 0"

lemma nonnull_block: "nonnull_block p sz \<Longrightarrow> 0 \<notin> block p sz"
  by (auto simp: nonnull_block_def block_def)

lemma boot_heap_allocD:
  assumes "boot_inv s" "boot_heap_alloc s sz a = Ok (r, s')"
  obtains rs rs' r' where "s = Some rs" "rs_inv rs" "0 \<notin> rs_addrs rs" "s' = Some rs'"
    "rs_allocate 32 rs sz a = Ok (r', rs')" "r = (if r' = Some 0 then None else r')"
  using assms
  by (cases s; force simp: boot_inv_def boot_heap_alloc_def boot_alloc_def split: option.splits prod.splits)

lemma checked_end: "sane_block p sz \<Longrightarrow> Option.bind (checked_sub sz 1) (checked_add p) = Some (p + (sz - 1))"
  by (auto simp: sane_block_def checked_sub_def checked_add_code word_le_sub1 split: option.splits)

interpretation boot_heap: address_allocator boot_inv boot_free boot_heap_alloc boot_heap_free nonnull_block
proof
  show "boot_inv s' \<and> nonnull_block p sz \<and> block p sz \<subseteq> boot_free s \<and> boot_free s' \<subseteq> boot_free s - block p sz"
    if inv: "boot_inv s" and a: "boot_heap_alloc s sz al = Ok (Some p, s')" for s sz al p s'
  proof -
    from boot_heap_allocD [OF inv a] obtain rs rs' r' where d: "s = Some rs" "rs_inv rs" "0 \<notin> rs_addrs rs"
      "s' = Some rs'" "rs_allocate 32 rs sz al = Ok (r', rs')" "Some p = (if r' = Some 0 then None else r')"
      by blast
    then have r': "r' = Some p" "p \<noteq> 0" by (auto split: if_splits)
    from rs.al_Some [OF d(2) d(5) [unfolded r'(1)]] d(1,3,4) r'(2) show ?thesis
      by (auto simp: boot_inv_def boot_free_def nonnull_block_def)
  qed
  show "s' = s" if inv: "boot_inv s" and a: "boot_heap_alloc s sz al = Ok (None, s')" for s sz al s'
  proof -
    from boot_heap_allocD [OF inv a] obtain rs rs' r' where d: "s = Some rs" "rs_inv rs" "0 \<notin> rs_addrs rs"
      "s' = Some rs'" "rs_allocate 32 rs sz al = Ok (r', rs')" "None = (if r' = Some 0 then None else r')"
      by blast
    have "r' \<noteq> Some 0"
    proof
      assume "r' = Some 0"
      from rs.al_Some [OF d(2) d(5) [unfolded this]] have "block 0 sz \<subseteq> rs_addrs rs" by blast
      moreover have "0 \<in> block 0 sz" by (simp add: block_def)
      ultimately show False using d(3) by blast
    qed
    with d(6) have "r' = None" by (auto split: if_splits)
    with rs.al_None [OF d(2)] d(1,4,5) show ?thesis by simp
  qed
  show "boot_inv s' \<and> boot_free s' = boot_free s \<union> block p sz"
    if inv: "boot_inv s" and g: "nonnull_block p sz" and f: "boot_heap_free s p sz = Ok s'" for s p sz s'
  proof -
    from inv obtain rs where rs: "s = Some rs" "rs_inv rs" "0 \<notin> rs_addrs rs"
      by (auto simp: boot_inv_def split: option.splits)
    have "sane_block p sz" using g by (simp add: nonnull_block_def)
    with f rs(1) obtain rs' where "rs_release rs p sz = Ok rs'" "s' = Some rs'"
      by (auto simp: boot_heap_free_def boot_dealloc_def checked_end rs_release_def)
    with rs.fr_Ok [OF rs(2) \<open>sane_block p sz\<close>] nonnull_block [OF g] rs show ?thesis
      by (auto simp: boot_inv_def boot_free_def)
  qed
qed

text \<open>C6: in every run of the bootloader's heap, however allocations, failures and releases are
  interleaved, the blocks in use are pairwise disjoint, disjoint from the free memory, never
  null and part of the memory that was free at the start.\<close>

theorem boot_heap_separate:
  assumes "rs_inv rs" "0 \<notin> rs_addrs rs"
    and "heap_run boot_heap_alloc boot_heap_free (Some rs) (Some rs') bs"
  shows "rs_inv rs' \<and> separate bs \<and> blocks bs \<inter> rs_addrs rs' = {} \<and> blocks bs \<subseteq> rs_addrs rs \<and>
    (\<forall>(p, sz) \<in> set bs. p \<noteq> 0)"
proof -
  have "boot_inv (Some rs)" using assms(1,2) by (simp add: boot_inv_def)
  from boot_heap.heap_run_inv [OF this assms(3)] show ?thesis
    by (auto simp: boot_inv_def boot_free_def nonnull_block_def)
qed

definition high_entry :: RangeSet where
  "high_entry = rs_new\<lparr>ranges := (ranges rs_new)[0 := \<lparr>r_start = 0x100000, r_end = 0x1fffff\<rparr>], in_use := 1\<rparr>"

lemma high_entry: "rs_inv high_entry" "live high_entry = [\<lparr>r_start = 0x100000, r_end = 0x1fffff\<rparr>]"
  "in_use high_entry = 1" "0 \<notin> rs_addrs high_entry"
proof -
  show live: "live high_entry = [\<lparr>r_start = 0x100000, r_end = 0x1fffff\<rparr>]" "rs_inv high_entry"
    by code_simp+
  show "in_use high_entry = 1" by (simp add: high_entry_def)
  show "0 \<notin> rs_addrs high_entry" by (simp add: rs_addrs_def live span_def)
qed

theorem boot_heap_separate_witness:
  "\<exists>rs'. heap_run boot_heap_alloc boot_heap_free (Some high_entry) (Some rs') [(0x100000, 0x1000)] \<and>
    rs_inv rs' \<and> block 0x100000 0x1000 \<inter> rs_addrs rs' = {}"
proof -
  let ?r = "\<lparr>r_start = 0x100000, r_end = 0x100fff\<rparr>"
  have "room ?r high_entry" by (simp add: room_iff high_entry(2,3) splits_def)
  from rs_remove_correct [OF high_entry(1) _ this] obtain rs' where "rs_remove high_entry ?r = Ok rs'"
    by (auto simp: valid_def)
  moreover have "allocation_search 32 0x1000 0x1000 None (live high_entry) None =
      Some (Some (0x100000, 0x100fff, 0x100000))" "count_ones (0x1000 :: u64) = 1"
    unfolding high_entry(2) by code_simp+
  ultimately have "boot_heap_alloc (Some high_entry) 0x1000 0x1000 = Ok (Some 0x100000, Some rs')"
    by (simp add: boot_heap_alloc_def boot_alloc_def rs_allocate_def rs_allocate_prefer_def
        rs_invD(5) [OF high_entry(1)])
  then have run: "heap_run boot_heap_alloc boot_heap_free (Some high_entry) (Some rs') [(0x100000, 0x1000)]"
    by (intro heap_run.alloc [OF heap_run.start])
  from boot_heap_separate [OF high_entry(1,4) run] run show ?thesis by auto
qed

end
