(* ===== verification/Bytes.thy ===== *)
theory Bytes
  imports Prelude
begin

text \<open>
  Slices of bytes and the conversions between bytes and integers: \<open>get(a..b)\<close> and the
  panicking index \<open>[a..b]\<close>, \<open>from_le_bytes\<close>, \<open>to_le_bytes\<close> and their big-endian versions,
  arithmetic on \<open>usize\<close> values held as natural numbers, and the operators that thread an
  option through fallible code.
\<close>

unbundle bit_operations_syntax

subsection \<open>Options inside fallible code\<close>

definition bindO :: "'a option res \<Rightarrow> ('a \<Rightarrow> 'b option res) \<Rightarrow> 'b option res" where
  "bindO m f = bindR m (\<lambda>x. case x of None \<Rightarrow> Ok None | Some y \<Rightarrow> f y)"

definition someR :: "'a res \<Rightarrow> 'a option res" where
  "someR m = bindR m (\<lambda>x. Ok (Some x))"

lemma bindO_simps [simp]:
  "bindO (Ok None) f = Ok None" "bindO (Ok (Some x)) f = f x" "bindO (Panic msg) f = Panic msg"
  by (simp_all add: bindO_def)

lemma bindO_Some: "bindO m f = Ok (Some y) \<longleftrightarrow> (\<exists>x. m = Ok (Some x) \<and> f x = Ok (Some y))"
  by (cases m) (auto simp: bindO_def split: option.splits)

lemma bindO_cong [fundef_cong]:
  "m = m' \<Longrightarrow> (\<And>x. m' = Ok (Some x) \<Longrightarrow> f x = g x) \<Longrightarrow> bindO m f = bindO m' g"
  by (cases m') (auto simp: bindO_def split: option.splits)

lemma someR_simps [simp]: "someR (Ok x) = Ok (Some x)" "someR (Panic msg) = Panic msg"
  by (simp_all add: someR_def)

subsection \<open>Computations that may also run forever\<close>

text \<open>\<open>None\<close> is the result of a computation that never returns.\<close>

definition bindD :: "'a res option \<Rightarrow> ('a \<Rightarrow> 'b res option) \<Rightarrow> 'b res option" where
  "bindD m f = Option.bind m (\<lambda>r. case r of Panic e \<Rightarrow> Some (Panic e) | Ok x \<Rightarrow> f x)"

lemma bindD_simps [simp]:
  "bindD None f = None" "bindD (Some (Panic e)) f = Some (Panic e)" "bindD (Some (Ok x)) f = f x"
  by (simp_all add: bindD_def)

lemma bindD_mono [partial_function_mono]:
  assumes "mono_option m" "\<And>x. mono_option (\<lambda>g. f x g)"
  shows "mono_option (\<lambda>g. bindD (m g) (\<lambda>x. f x g))"
proof -
  have "mono_option (\<lambda>g. case r of Panic e \<Rightarrow> Some (Panic e) | Ok x \<Rightarrow> f x g)" for r
    using assms(2) by (cases r) (auto intro: option.const_mono)
  then show ?thesis unfolding bindD_def by (intro bind_mono assms(1)) auto
qed

lemma bindD_eq_Some_Ok: "bindD m f = Some (Ok y) \<longleftrightarrow> (\<exists>x. m = Some (Ok x) \<and> f x = Some (Ok y))"
  by (cases m) (auto simp: bindD_def split: res.splits)

lemma bindD_OkE [elim!]:
  assumes "bindD m f = Some (Ok y)"
  obtains x where "m = Some (Ok x)" "f x = Some (Ok y)"
  using assms by (auto simp: bindD_eq_Some_Ok)

text \<open>A \<open>for\<close> loop whose body may panic or not return.\<close>

fun foldD :: "('s \<Rightarrow> 'a \<Rightarrow> 's res option) \<Rightarrow> 's \<Rightarrow> 'a list \<Rightarrow> 's res option" where
  "foldD f s [] = Some (Ok s)"
| "foldD f s (x # xs) = bindD (f s x) (\<lambda>s'. foldD f s' xs)"

lemma foldD_invariant:
  assumes "I s" and "\<And>s x. I s \<Longrightarrow> x \<in> set xs \<Longrightarrow> \<exists>s'. f s x = Some (Ok s') \<and> I s'"
  shows "\<exists>s'. foldD f s xs = Some (Ok s') \<and> I s'"
  using assms
proof (induction xs arbitrary: s)
  case (Cons x xs)
  then obtain s' where "f s x = Some (Ok s')" "I s'" by (metis list.set_intros(1))
  moreover from Cons have "\<exists>s''. foldD f s' xs = Some (Ok s'') \<and> I s''"
    using \<open>I s'\<close> by (metis list.set_intros(2))
  ultimately show ?case by simp
qed simp

subsection \<open>usize arithmetic\<close>

text \<open>A \<open>usize\<close> of \<open>ub\<close> bits: plain addition wraps, the checked operations fail.\<close>

definition uadd :: "nat \<Rightarrow> nat \<Rightarrow> nat \<Rightarrow> nat" where
  "uadd ub a b = (a + b) mod 2 ^ ub"

definition cadd :: "nat \<Rightarrow> nat \<Rightarrow> nat \<Rightarrow> nat option" where
  "cadd ub a b = (if a + b < 2 ^ ub then Some (a + b) else None)"

definition cmul :: "nat \<Rightarrow> nat \<Rightarrow> nat \<Rightarrow> nat option" where
  "cmul ub a b = (if a * b < 2 ^ ub then Some (a * b) else None)"

lemma nat_less_pow_int: "n < 2 ^ k \<longleftrightarrow> int n < 2 ^ k"
  by (metis of_nat_less_iff of_nat_numeral of_nat_power)

text \<open>The test of a conversion into a type of \<open>k\<close> bits.\<close>

definition fits_in :: "nat \<Rightarrow> nat \<Rightarrow> bool" where
  "fits_in k n \<longleftrightarrow> n < 2 ^ k"

lemma fits_in_code [code]: "fits_in k n \<longleftrightarrow> int n < 2 ^ k"
  unfolding fits_in_def by (rule nat_less_pow_int)

lemma usize_code [code]:
  "cadd ub a b = (if int a + int b < 2 ^ ub then Some (a + b) else None)"
  "cmul ub a b = (if int a * int b < 2 ^ ub then Some (a * b) else None)"
  "uadd ub a b = (if int a + int b < 2 ^ ub then a + b else nat ((int a + int b) mod 2 ^ ub))"
  by (simp_all add: cadd_def cmul_def uadd_def nat_less_pow_int nat_mod_distrib nat_add_distrib nat_power_eq)

lemma uadd_simp [simp]: "a + b < 2 ^ ub \<Longrightarrow> uadd ub a b = a + b"
  by (simp add: uadd_def)

lemma cadd_Some [simp]: "cadd ub a b = Some c \<longleftrightarrow> c = a + b \<and> a + b < 2 ^ ub"
  by (auto simp: cadd_def)

lemma cmul_Some [simp]: "cmul ub a b = Some c \<longleftrightarrow> c = a * b \<and> a * b < 2 ^ ub"
  by (auto simp: cmul_def)

subsection \<open>Slices\<close>

type_synonym bytes = "u8 list"

definition get_range :: "'a list \<Rightarrow> nat \<Rightarrow> nat \<Rightarrow> 'a list option" where
  "get_range xs a b = (if a \<le> b \<and> b \<le> length xs then Some (take (b - a) (drop a xs)) else None)"

definition slice :: "'a list \<Rightarrow> nat \<Rightarrow> nat \<Rightarrow> 'a list res" where
  "slice xs a b = expectR ''slice index out of range'' (get_range xs a b)"

lemma get_range_Some:
  "get_range xs a b = Some ys \<longleftrightarrow> a \<le> b \<and> b \<le> length xs \<and> ys = take (b - a) (drop a xs)"
  by (auto simp: get_range_def)

lemma slice_Ok [simp]: "a \<le> b \<Longrightarrow> b \<le> length xs \<Longrightarrow> slice xs a b = Ok (take (b - a) (drop a xs))"
  by (simp add: slice_def get_range_def)

lemma slice_OkD: "slice xs a b = Ok ys \<Longrightarrow> a \<le> b \<and> b \<le> length xs \<and> ys = take (b - a) (drop a xs)"
  by (auto simp: slice_def get_range_def split: if_splits)

lemma length_get_range: "get_range xs a b = Some ys \<Longrightarrow> length ys = b - a"
  by (auto simp: get_range_Some)

text \<open>\<open>dst[off..off + n].copy_from_slice(src)\<close>\<close>

definition copy_into :: "'a list \<Rightarrow> nat \<Rightarrow> nat \<Rightarrow> 'a list \<Rightarrow> 'a list res" where
  "copy_into dst a b src =
     (if \<not> (a \<le> b \<and> b \<le> length dst) then Panic ''slice index out of range''
      else if length src \<noteq> b - a then Panic ''source slice length does not match destination slice length''
      else Ok (take a dst @ src @ drop b dst))"

lemma copy_into_Ok:
  assumes "a + length src \<le> length dst" "b = a + length src"
  shows "\<exists>dst'. copy_into dst a b src = Ok dst' \<and> length dst' = length dst \<and>
    (\<forall>i < length dst. dst' ! i = (if a \<le> i \<and> i < b then src ! (i - a) else dst ! i))"
  using assms by (auto simp: copy_into_def nth_append)

subsection \<open>Integers and bytes\<close>

fun from_le :: "bytes \<Rightarrow> 'a::len word" where
  "from_le [] = 0"
| "from_le (b # bs) = ucast b OR push_bit 8 (from_le bs)"

definition to_le :: "nat \<Rightarrow> 'a::len word \<Rightarrow> bytes" where
  "to_le n w = map (\<lambda>i. ucast (drop_bit (8 * i) w)) [0..<n]"

definition from_be :: "bytes \<Rightarrow> 'a::len word" where
  "from_be bs = from_le (rev bs)"

definition to_be :: "nat \<Rightarrow> 'a::len word \<Rightarrow> bytes" where
  "to_be n w = rev (to_le n w)"

lemma length_to_le [simp]: "length (to_le n w) = n" "length (to_be n w) = n"
  by (simp_all add: to_le_def to_be_def)

lemma bit_from_le: "bit (from_le bs :: 'a::len word) i \<longleftrightarrow>
  i < LENGTH('a) \<and> i div 8 < length bs \<and> bit (bs ! (i div 8)) (i mod 8)"
proof (induction bs arbitrary: i)
  case (Cons b bs)
  show ?case
  proof (cases "i < 8")
    case True
    then show ?thesis by (simp add: bit_or_iff bit_ucast_iff bit_push_bit_iff)
  next
    case False
    then have i: "i div 8 = Suc ((i - 8) div 8)" "i mod 8 = (i - 8) mod 8"
      by (simp_all add: div_if mod_if)
    have "\<not> bit b i" using False bit_imp_le_length [of b i] by auto
    with False i Cons.IH [of "i - 8"] show ?thesis
      by (auto simp: bit_or_iff bit_ucast_iff bit_push_bit_iff)
  qed
qed simp

lemma bit_to_le_nth: "i < n \<Longrightarrow> bit (to_le n w ! i) j \<longleftrightarrow> j < 8 \<and> bit w (8 * i + j)"
  by (auto simp: to_le_def bit_ucast_iff bit_drop_bit_eq)

text \<open>Round trips: bytes to integer to bytes, and integer to bytes to integer.\<close>

lemma from_le_to_le: "LENGTH('a) \<le> 8 * n \<Longrightarrow> from_le (to_le n w) = (w :: 'a::len word)"
  by (rule bit_word_eqI) (auto simp: bit_from_le bit_to_le_nth)

lemma to_le_from_le:
  assumes "length bs = n" "8 * n \<le> LENGTH('a)"
  shows "to_le n (from_le bs :: 'a::len word) = bs"
proof (rule nth_equalityI)
  fix i assume "i < length (to_le n (from_le bs :: 'a word))"
  then have i: "i < n" by simp
  then show "to_le n (from_le bs :: 'a word) ! i = bs ! i"
    using assms by (intro bit_word_eqI) (auto simp: bit_to_le_nth bit_from_le)
qed (simp add: assms)

lemma from_be_to_be: "LENGTH('a) \<le> 8 * n \<Longrightarrow> from_be (to_be n w) = (w :: 'a::len word)"
  by (simp add: from_be_def to_be_def from_le_to_le)

lemma to_be_from_be: "length bs = n \<Longrightarrow> 8 * n \<le> LENGTH('a) \<Longrightarrow> to_be n (from_be bs :: 'a::len word) = bs"
  by (simp add: from_be_def to_be_def to_le_from_le)

end
