(* ===== verification/Cpu.thy ===== *)
theory Cpu
  imports Bytes
begin

text \<open>
  The processor routines of \<open>shared/cpu\<close> that compute something: canonical addresses, the two
  halves of model specific registers, the feature bits reported by \<open>cpuid\<close>; and the ports of
  the machine. What the hardware answers is a parameter: \<open>cpuid\<close> is a function, and a port is
  read from an environment that may depend on everything that was written before.
\<close>

unbundle bit_operations_syntax

subsection \<open>Ports\<close>

text \<open>The number of reads so far and the bytes written so far, each with its port.\<close>

record Io =
  io_clock :: nat
  io_log :: "(u16 \<times> u8) list"

type_synonym io_env = "nat \<Rightarrow> (u16 \<times> u8) list \<Rightarrow> u16 \<Rightarrow> u8"

definition in8 :: "io_env \<Rightarrow> Io \<Rightarrow> u16 \<Rightarrow> u8 \<times> Io" where
  "in8 env io port = (env (io_clock io) (io_log io) port, io\<lparr>io_clock := io_clock io + 1\<rparr>)"

definition out8 :: "Io \<Rightarrow> u16 \<Rightarrow> u8 \<Rightarrow> Io" where
  "out8 io port val = io\<lparr>io_log := io_log io @ [(port, val)]\<rparr>"

lemma in8_simps [simp]:
  "fst (in8 env io port) = env (io_clock io) (io_log io) port"
  "io_clock (snd (in8 env io port)) = io_clock io + 1" "io_log (snd (in8 env io port)) = io_log io"
  by (simp_all add: in8_def)

lemma out8_simps [simp]:
  "io_log (out8 io port val) = io_log io @ [(port, val)]" "io_clock (out8 io port val) = io_clock io"
  by (simp_all add: out8_def)

subsection \<open>Registers\<close>

text \<open>\<open>rdmsr\<close> and \<open>rdtsc\<close> combine the halves in edx and eax, \<open>wrmsr\<close> splits the value.\<close>

definition rdmsr_value :: "u32 \<Rightarrow> u32 \<Rightarrow> u64" where
  "rdmsr_value val_hi val_lo = push_bit 32 (ucast val_hi) OR ucast val_lo"

definition wrmsr_halves :: "u64 \<Rightarrow> u32 \<times> u32" where
  "wrmsr_halves val = (ucast (drop_bit 32 val), ucast (drop_bit 0 val))"

lemma wrmsr_rdmsr: "case wrmsr_halves v of (hi, lo) \<Rightarrow> rdmsr_value hi lo = v"
  unfolding wrmsr_halves_def rdmsr_value_def prod.case
  by (rule bit_word_eqI) (auto simp: bit_or_iff bit_push_bit_iff bit_ucast_iff bit_drop_bit_eq)

subsection \<open>Canonical addresses\<close>

definition canonicalize_address :: "u64 \<Rightarrow> u64" where
  "canonicalize_address addr = signed_drop_bit 16 (push_bit 16 addr)"

lemma bit_canonicalize:
  "bit (canonicalize_address a) i \<longleftrightarrow> i < 64 \<and> bit a (min i 47)"
  unfolding canonicalize_address_def bit_signed_drop_bit_iff bit_push_bit_iff
  by (auto simp: min_def)

lemma canonicalize_idem [simp]: "canonicalize_address (canonicalize_address a) = canonicalize_address a"
  by (rule bit_word_eqI) (auto simp: bit_canonicalize min_def)

text \<open>An address is canonical iff bits 47 to 63 agree.\<close>

lemma canonical_iff: "canonicalize_address a = a \<longleftrightarrow> (\<forall>i. 47 < i \<and> i < 64 \<longrightarrow> bit a i = bit a 47)"
proof
  assume e: "canonicalize_address a = a"
  show "\<forall>i. 47 < i \<and> i < 64 \<longrightarrow> bit a i = bit a 47"
  proof (intro allI impI)
    fix i :: nat assume "47 < i \<and> i < 64"
    then show "bit a i = bit a 47" using bit_canonicalize [of a i] e by (simp add: min_def)
  qed
next
  assume b: "\<forall>i. 47 < i \<and> i < 64 \<longrightarrow> bit a i = bit a 47"
  show "canonicalize_address a = a"
  proof (rule bit_word_eqI)
    fix i assume "i < LENGTH(64)"
    then show "bit (canonicalize_address a) i = bit a i"
      using b by (cases "i \<le> 47") (auto simp: bit_canonicalize min_def)
  qed
qed

subsection \<open>Processor features\<close>

record CPUFeatures =
  max_cpuid :: u32
  max_extended_cpuid :: u32
  fpu :: bool
  vme :: bool
  de :: bool
  pse :: bool
  tsc :: bool
  mmx :: bool
  fxsr :: bool
  sse :: bool
  sse2 :: bool
  htt :: bool
  sse3 :: bool
  ssse3 :: bool
  sse4_1 :: bool
  sse4_2 :: bool
  x2apic :: bool
  xsave :: bool
  avx :: bool
  apic :: bool
  vmx :: bool
  lahf :: bool
  lzcnt :: bool
  prefetchw :: bool
  syscall :: bool
  xd :: bool
  gbyte_pages :: bool
  rdtscp :: bool
  bits64 :: bool
  avx512f :: bool

definition features_default :: CPUFeatures where
  "features_default = \<lparr>max_cpuid = 0, max_extended_cpuid = 0, fpu = False, vme = False, de = False, pse = False,
     tsc = False, mmx = False, fxsr = False, sse = False, sse2 = False, htt = False, sse3 = False, ssse3 = False,
     sse4_1 = False, sse4_2 = False, x2apic = False, xsave = False, avx = False, apic = False, vmx = False,
     lahf = False, lzcnt = False, prefetchw = False, syscall = False, xd = False, gbyte_pages = False,
     rdtscp = False, bits64 = False, avx512f = False\<rparr>"

definition flag :: "u32 \<Rightarrow> nat \<Rightarrow> bool" where
  "flag w i \<longleftrightarrow> drop_bit i w AND 1 = 1"

lemma flag_iff: "flag w i \<longleftrightarrow> bit w i"
  by (simp add: flag_def and_one_eq mod_2_eq_odd bit_iff_odd_drop_bit)

text \<open>The parameter is the \<open>cpuid\<close> instruction: from eax and ecx to eax, ebx, ecx and edx.\<close>

definition get_cpu_features :: "(u32 \<Rightarrow> u32 \<Rightarrow> u32 \<times> u32 \<times> u32 \<times> u32) \<Rightarrow> CPUFeatures" where
  "get_cpu_features cpuid =
     (let f = features_default\<lparr>max_cpuid := fst (cpuid 0 0), max_extended_cpuid := fst (cpuid 0x80000000 0)\<rparr>;
          f = (if max_cpuid f \<ge> 1 then
                 (let (a, b, c, d) = cpuid 1 0 in
                  f\<lparr>fpu := flag d 0, vme := flag d 1, de := flag d 2, pse := flag d 3, tsc := flag d 4,
                    apic := flag d 9, mmx := flag d 23, fxsr := flag d 24, sse := flag d 25, sse2 := flag d 26,
                    htt := flag d 28, sse3 := flag c 0, vmx := flag c 5, ssse3 := flag c 9, sse4_1 := flag c 19,
                    sse4_2 := flag c 20, x2apic := flag c 21, xsave := flag c 26, avx := flag c 28\<rparr>)
               else f);
          f = (if max_cpuid f \<ge> 7 then (let (a, b, c, d) = cpuid 7 0 in f\<lparr>avx512f := flag b 16\<rparr>) else f);
          f = (if max_extended_cpuid f \<ge> 0x80000001 then
                 (let (a, b, c, d) = cpuid 0x80000001 0 in
                  f\<lparr>lahf := flag c 0, lzcnt := flag c 5, prefetchw := flag c 8, syscall := flag d 11, xd := flag d 20,
                    gbyte_pages := flag d 26, rdtscp := flag d 27, bits64 := flag d 29\<rparr>)
               else f)
      in f)"

text \<open>
  The features the kernel decides on are exactly the bits of the leaves the processor
  supports.
\<close>

lemma features_apic:
  "apic (get_cpu_features cpuid) \<longleftrightarrow> fst (cpuid 0 0) \<ge> 1 \<and> bit (snd (snd (snd (cpuid 1 0)))) 9"
  "x2apic (get_cpu_features cpuid) \<longleftrightarrow> fst (cpuid 0 0) \<ge> 1 \<and> bit (fst (snd (snd (cpuid 1 0)))) 21"
  "gbyte_pages (get_cpu_features cpuid) \<longleftrightarrow>
     fst (cpuid 0x80000000 0) \<ge> 0x80000001 \<and> bit (snd (snd (snd (cpuid 0x80000001 0)))) 26"
  by (simp_all add: get_cpu_features_def features_default_def Let_def flag_iff split: prod.split)

end
