(* ===== verification/CoreReqs.thy ===== *)
theory CoreReqs
  imports Prelude
begin

text \<open>
  The memory routines of \<open>shared/core_reqs\<close> on a byte memory: addresses are machine words, so a
  pointer that runs past the end of the address space wraps around.
\<close>

type_synonym 'a memory = "'a word \<Rightarrow> u8"

subsection \<open>The routines\<close>

text \<open>The backward loop counts down to zero, the forward loop counts up to \<open>n\<close>.\<close>

fun copy_backward :: "'a::len memory \<Rightarrow> 'a word \<Rightarrow> 'a word \<Rightarrow> nat \<Rightarrow> 'a memory" where
  "copy_backward m dest src 0 = m"
| "copy_backward m dest src (Suc ii) =
     copy_backward (m(dest + word_of_nat ii := m (src + word_of_nat ii))) dest src ii"

function copy_forward :: "'a::len memory \<Rightarrow> 'a word \<Rightarrow> 'a word \<Rightarrow> nat \<Rightarrow> nat \<Rightarrow> 'a memory" where
  "copy_forward m dest src n ii =
     (if ii < n then copy_forward (m(dest + word_of_nat ii := m (src + word_of_nat ii))) dest src n (ii + 1) else m)"
  by auto
termination by (relation "measure (\<lambda>(m, dest, src, n, ii). n - ii)") auto

declare copy_forward.simps [simp del]

definition memmove :: "'a::len memory \<Rightarrow> 'a word \<Rightarrow> 'a word \<Rightarrow> nat \<Rightarrow> 'a word \<times> 'a memory" where
  "memmove m dest src n =
     (dest, if src < dest then copy_backward m dest src n else copy_forward m dest src n 0)"

definition memcpy :: "'a::len memory \<Rightarrow> 'a word \<Rightarrow> 'a word \<Rightarrow> nat \<Rightarrow> 'a word \<times> 'a memory" where
  "memcpy m dest src n = memmove m dest src n"

text \<open>\<open>rep stosb\<close> with the direction flag clear stores the low byte of \<open>c\<close> upwards.\<close>

fun stosb :: "'a::len memory \<Rightarrow> 'a word \<Rightarrow> u8 \<Rightarrow> nat \<Rightarrow> 'a memory" where
  "stosb m p c 0 = m"
| "stosb m p c (Suc n) = stosb (m(p := c)) (p + 1) c n"

definition memset :: "'a::len memory \<Rightarrow> 'a word \<Rightarrow> 32 word \<Rightarrow> nat \<Rightarrow> 'a word \<times> 'a memory" where
  "memset m s c n = (s, stosb m s (ucast c) n)"

function memcmp_loop :: "'a::len memory \<Rightarrow> 'a word \<Rightarrow> 'a word \<Rightarrow> nat \<Rightarrow> nat \<Rightarrow> int" where
  "memcmp_loop m s1 s2 n ii =
     (if ii < n then
        let a = m (s1 + word_of_nat ii); b = m (s2 + word_of_nat ii) in
        if a \<noteq> b then uint a - uint b else memcmp_loop m s1 s2 n (ii + 1)
      else 0)"
  by auto
termination by (relation "measure (\<lambda>(m, s1, s2, n, ii). n - ii)") auto

declare memcmp_loop.simps [simp del]

definition memcmp :: "'a::len memory \<Rightarrow> 'a word \<Rightarrow> 'a word \<Rightarrow> nat \<Rightarrow> int" where
  "memcmp m s1 s2 n = memcmp_loop m s1 s2 n 0"

subsection \<open>Copying is correct whether or not the regions overlap\<close>

text \<open>The bytes of a region and a memory with a region replaced.\<close>

definition read_bytes :: "'a::len memory \<Rightarrow> 'a word \<Rightarrow> nat \<Rightarrow> u8 list" where
  "read_bytes m p n = map (\<lambda>i. m (p + word_of_nat i)) [0..<n]"

definition in_space :: "'a::len word \<Rightarrow> nat \<Rightarrow> bool" where
  "in_space p n \<longleftrightarrow> unat p + n \<le> 2 ^ LENGTH('a)"

text \<open>What a copy must produce: the old bytes of the source in the destination, nothing else.\<close>

definition copied :: "'a::len memory \<Rightarrow> 'a word \<Rightarrow> 'a word \<Rightarrow> nat \<Rightarrow> 'a memory" where
  "copied m dest src n =
     (\<lambda>x. if unat dest \<le> unat x \<and> unat x < unat dest + n then m (src + (x - dest)) else m x)"

lemma unat_offset: "in_space p n \<Longrightarrow> i < n \<Longrightarrow> unat (p + word_of_nat i :: 'a::len word) = unat p + i"
proof -
  assume f: "in_space p n" "i < n"
  then have "i < 2 ^ LENGTH('a)" by (simp add: in_space_def)
  then have "unat (word_of_nat i :: 'a word) = i" by (simp add: unat_of_nat)
  with f show ?thesis by (simp add: in_space_def unat_word_ariths)
qed

lemma in_space_mono: "in_space p n \<Longrightarrow> k \<le> n \<Longrightarrow> in_space p k"
  by (simp add: in_space_def)

lemma offset_unique:
  assumes "in_space dest n" "i < n"
  shows "x = dest + word_of_nat i \<longleftrightarrow> unat x = unat dest + i"
  using unat_offset [OF assms] by (auto simp: word_unat_eq_iff)

lemma offset_diff: "(dest + word_of_nat i) - dest = (word_of_nat i :: 'a::len word)"
  by simp

lemma unat_less_neq: "unat a < unat b \<Longrightarrow> a \<noteq> (b :: 'a::len word)"
  by auto

lemma copy_backward_eq:
  assumes "in_space dest n" "in_space src n" "src \<le> dest"
  shows "copy_backward m dest src n = copied m dest src n"
  using assms
proof (induction n arbitrary: m)
  case 0
  show ?case by (auto simp: copied_def fun_eq_iff)
next
  case (Suc n)
  let ?m = "m(dest + word_of_nat n := m (src + word_of_nat n))"
  have f: "in_space dest n" "in_space src n" using Suc.prems in_space_mono by (metis le_SucI order.refl)+
  have d: "unat (dest + word_of_nat n) = unat dest + n" by (rule unat_offset [OF Suc.prems(1)]) simp
  have "copied ?m dest src n x = copied m dest src (Suc n) x" for x
  proof (cases "unat dest \<le> unat x \<and> unat x < unat dest + n")
    case True
    define k where "k = unat x - unat dest"
    have k: "k < n" "unat x = unat dest + k" using True by (auto simp: k_def)
    then have x: "x = dest + word_of_nat k" using offset_unique [OF f(1) k(1)] by simp
    then have "x - dest = word_of_nat k" by simp
    then have "unat (src + (x - dest)) = unat src + k" using unat_offset [OF f(2) k(1)] by simp
    then have "unat (src + (x - dest)) < unat (dest + word_of_nat n)"
      using d k Suc.prems(3) by (simp add: word_le_nat_alt)
    then have "src + (x - dest) \<noteq> dest + word_of_nat n" by (rule unat_less_neq)
    with True show ?thesis by (simp add: copied_def)
  next
    case False
    show ?thesis
    proof (cases "x = dest + word_of_nat n")
      case True
      then show ?thesis using d by (simp add: copied_def)
    next
      case neq: False
      then have "unat x \<noteq> unat dest + n" using d by (metis word_unat_eq_iff)
      with False neq show ?thesis by (auto simp: copied_def less_Suc_eq)
    qed
  qed
  then have "copied ?m dest src n = copied m dest src (Suc n)" by (rule ext)
  then show ?case unfolding copy_backward.simps Suc.IH [OF f Suc.prems(3), of ?m] .
qed

lemma copy_forward_eq:
  assumes "in_space dest n" "in_space src n" "dest \<le> src"
  shows "copy_forward m dest src n ii =
    (\<lambda>x. if unat dest + ii \<le> unat x \<and> unat x < unat dest + n then m (src + (x - dest)) else m x)"
  using assms
proof (induction m dest src n ii rule: copy_forward.induct)
  case (1 m dest src n ii)
  show ?case
  proof (cases "ii < n")
    case False
    then show ?thesis by (subst copy_forward.simps) (auto simp: fun_eq_iff)
  next
    case True
    let ?m = "m(dest + word_of_nat ii := m (src + word_of_nat ii))"
    have d: "unat (dest + word_of_nat ii) = unat dest + ii" by (rule unat_offset [OF "1.prems"(1) True])
    have "(if unat dest + (ii + 1) \<le> unat x \<and> unat x < unat dest + n then ?m (src + (x - dest)) else ?m x)
        = (if unat dest + ii \<le> unat x \<and> unat x < unat dest + n then m (src + (x - dest)) else m x)" for x
    proof (cases "x = dest + word_of_nat ii")
      case eq: True
      then show ?thesis using d True by simp
    next
      case neq: False
      then have u: "unat x \<noteq> unat dest + ii" using d by (metis word_unat_eq_iff)
      show ?thesis
      proof (cases "unat dest + ii \<le> unat x \<and> unat x < unat dest + n")
        case range: True
        define k where "k = unat x - unat dest"
        have k: "k < n" "unat x = unat dest + k" "ii < k" using range u by (auto simp: k_def)
        then have "x = dest + word_of_nat k" using offset_unique [OF "1.prems"(1) k(1)] by simp
        then have "unat (src + (x - dest)) = unat src + k" using unat_offset [OF "1.prems"(2) k(1)] by simp
        then have "unat (dest + word_of_nat ii) < unat (src + (x - dest))"
          using d k "1.prems"(3) by (simp add: word_le_nat_alt)
        then have "src + (x - dest) \<noteq> dest + word_of_nat ii" by (rule not_sym [OF unat_less_neq])
        with range u neq show ?thesis by simp
      next
        case False
        with neq show ?thesis by auto
      qed
    qed
    then show ?thesis using True
      by (subst copy_forward.simps) (simp only: "1.IH" [OF True "1.prems"] if_True cong: if_cong)
  qed
qed

text \<open>C20: \<open>memmove\<close>, and with it \<open>memcpy\<close>, copies the source region as it was before the call into
  the destination region and changes nothing else, for any overlap of the two regions.
\<close>

theorem memmove_copies:
  assumes "in_space dest n" "in_space src n"
  shows "memmove m dest src n = (dest, copied m dest src n) \<and> memcpy m dest src n = memmove m dest src n"
proof (cases "src < dest")
  case True
  then show ?thesis using copy_backward_eq [OF assms] by (simp add: memmove_def memcpy_def)
next
  case False
  then show ?thesis using copy_forward_eq [OF assms, of m 0] by (simp add: memmove_def memcpy_def copied_def)
qed

theorem memmove_copies_witness:
  "memmove (\<lambda>x. ucast x) (2 :: 32 word) 1 4 = (2, copied (\<lambda>x. ucast x) 2 1 4) \<and>
   copied (\<lambda>x :: 32 word. ucast x) 2 1 4 5 = 4"
  using memmove_copies [of "2 :: 32 word" 4 1 "\<lambda>x. ucast x"] by (simp add: in_space_def copied_def)

lemma stosb_eq:
  assumes "in_space p n"
  shows "stosb m p c n x = (if unat p \<le> unat x \<and> unat x < unat p + n then c else m x)"
  using assms
proof (induction n arbitrary: m p)
  case (Suc n)
  show ?case
  proof (cases "n = 0")
    case True
    then show ?thesis by (auto simp: word_unat_eq_iff)
  next
    case False
    then have "unat p + 1 < 2 ^ LENGTH('a)" using Suc.prems by (simp add: in_space_def)
    then have p1: "unat (p + 1) = unat p + 1" by (simp add: unat_word_ariths)
    then have "in_space (p + 1) n" using Suc.prems by (simp add: in_space_def)
    note IH = Suc.IH [OF this, of "m(p := c)"]
    have "x = p \<longleftrightarrow> unat x = unat p" by (simp add: word_unat_eq_iff)
    with p1 show ?thesis unfolding stosb.simps IH by auto
  qed
qed auto

lemma memset_fills:
  assumes "in_space s n"
  shows "memset m s c n = (s, \<lambda>x. if unat s \<le> unat x \<and> unat x < unat s + n then ucast c else m x)"
  using stosb_eq [OF assms, of m "ucast c"] by (auto simp: memset_def fun_eq_iff)

text \<open>The comparison finds the first difference.\<close>

lemma memcmp_loop_eq:
  "(memcmp_loop m s1 s2 n ii = 0 \<longleftrightarrow> (\<forall>i. ii \<le> i \<and> i < n \<longrightarrow> m (s1 + word_of_nat i) = m (s2 + word_of_nat i))) \<and>
   (memcmp_loop m s1 s2 n ii < 0 \<longleftrightarrow> (\<exists>i. ii \<le> i \<and> i < n \<and> m (s1 + word_of_nat i) < m (s2 + word_of_nat i) \<and>
      (\<forall>j. ii \<le> j \<and> j < i \<longrightarrow> m (s1 + word_of_nat j) = m (s2 + word_of_nat j))))"
proof (induction m s1 s2 n ii rule: memcmp_loop.induct)
  case (1 m s1 s2 n ii)
  let ?a = "\<lambda>i. m (s1 + word_of_nat i)" and ?b = "\<lambda>i. m (s2 + word_of_nat i)"
  show ?case
  proof (cases "ii < n")
    case False
    then show ?thesis by (subst (1 2) memcmp_loop.simps) auto
  next
    case in_range: True
    show ?thesis
    proof (cases "?a ii = ?b ii")
      case True
      then have step: "memcmp_loop m s1 s2 n ii = memcmp_loop m s1 s2 n (ii + 1)"
        using in_range by (subst memcmp_loop.simps) simp
      have split: "(\<forall>i. ii \<le> i \<and> i < k \<longrightarrow> ?a i = ?b i) \<longleftrightarrow> (\<forall>i. ii + 1 \<le> i \<and> i < k \<longrightarrow> ?a i = ?b i)" for k
        using True by (metis Suc_eq_plus1 Suc_le_eq le_neq_implies_less less_imp_le_nat)
      have ex: "(\<exists>i. ii \<le> i \<and> i < n \<and> ?a i < ?b i \<and> (\<forall>j. ii \<le> j \<and> j < i \<longrightarrow> ?a j = ?b j)) \<longleftrightarrow>
          (\<exists>i. ii + 1 \<le> i \<and> i < n \<and> ?a i < ?b i \<and> (\<forall>j. ii + 1 \<le> j \<and> j < i \<longrightarrow> ?a j = ?b j))"
        unfolding split using True by (metis Suc_eq_plus1 Suc_le_eq le_neq_implies_less less_imp_le_nat order.strict_iff_not)
      show ?thesis unfolding step ex split [of n] using "1.IH" [OF in_range refl refl] True by simp
    next
      case False
      then have "uint (?a ii) \<noteq> uint (?b ii)" by (simp add: word_uint_eq_iff)
      moreover have step: "memcmp_loop m s1 s2 n ii = uint (?a ii) - uint (?b ii)"
        using in_range False by (subst memcmp_loop.simps) simp
      moreover have "(\<exists>i. ii \<le> i \<and> i < n \<and> ?a i < ?b i \<and> (\<forall>j. ii \<le> j \<and> j < i \<longrightarrow> ?a j = ?b j)) \<longleftrightarrow> ?a ii < ?b ii"
        using False in_range by (metis le_neq_implies_less order.refl not_le)
      ultimately show ?thesis using False in_range by (auto simp: word_less_def)
    qed
  qed
qed

lemma memcmp_zero: "memcmp m s1 s2 n = 0 \<longleftrightarrow> read_bytes m s1 n = read_bytes m s2 n"
  using memcmp_loop_eq [of m s1 s2 n 0] by (simp add: memcmp_def read_bytes_def Ball_def)

end
