(* ===== verification/PageTable.thy ===== *)
theory PageTable
  imports BootMm Cpu CoreReqs
begin

text \<open>
  The 4-level page tables of \<open>shared/page_table\<close>. The tables live in physical memory that is
  reached through the trait \<open>PhysMem\<close>, here a record with one field per method; the memory
  itself is a byte memory indexed by the pointers that \<open>translate\<close> returns.
\<close>

unbundle bit_operations_syntax

subsection \<open>Entries and page types\<close>

definition PAGE_PRESENT :: u64 where "PAGE_PRESENT = push_bit 0 1"

definition PAGE_WRITE :: u64 where "PAGE_WRITE = push_bit 1 1"

definition PAGE_USER :: u64 where "PAGE_USER = push_bit 2 1"

definition PAGE_CACHE_DISABLE :: u64 where "PAGE_CACHE_DISABLE = push_bit 4 1"

definition PAGE_SIZE :: u64 where "PAGE_SIZE = push_bit 7 1"

definition PAGE_NX :: u64 where "PAGE_NX = push_bit 63 1"

datatype PageType = Page4K | Page2M | Page1G

fun page_bytes :: "PageType \<Rightarrow> u64" where
  "page_bytes Page4K = 4096"
| "page_bytes Page2M = 2 * 1024 * 1024"
| "page_bytes Page1G = 1 * 1024 * 1024 * 1024"

record Mapping =
  pml4e :: "u64 option"
  pdpe :: "u64 option"
  pde :: "u64 option"
  pte :: "u64 option"
  page :: "(u64 \<times> u64) option"

definition unwrap_or :: "'a \<Rightarrow> 'a option \<Rightarrow> 'a" where
  "unwrap_or d v = (case v of None \<Rightarrow> d | Some x \<Rightarrow> x)"

definition virt_base :: "Mapping \<Rightarrow> u64 option" where
  "virt_base mp =
     (if page mp = None then None
      else Some (canonicalize_address
        (push_bit 39 ((unwrap_or 0 (pml4e mp) AND 0xfff) div 8) OR
         push_bit 30 ((unwrap_or 0 (pdpe mp) AND 0xfff) div 8) OR
         push_bit 21 ((unwrap_or 0 (pde mp) AND 0xfff) div 8) OR
         push_bit 12 ((unwrap_or 0 (pte mp) AND 0xfff) div 8))))"

definition mapping_size :: "Mapping \<Rightarrow> PageType option" where
  "mapping_size mp =
     (if page mp = None then None
      else if pde mp = None then Some Page1G
      else if pte mp = None then Some Page2M
      else Some Page4K)"

subsection \<open>Physical memory\<close>

text \<open>
  The methods of \<open>PhysMem\<close> over the state \<open>'s\<close> of the machine, with access to its memory.
\<close>

record 's PhysMem =
  pm_translate :: "'s \<Rightarrow> u64 \<Rightarrow> u64 \<Rightarrow> u64 res"
  pm_alloc :: "'s \<Rightarrow> Layout \<Rightarrow> (u64 \<times> 's) res"
  pm_free :: "'s \<Rightarrow> u64 \<Rightarrow> u64 \<Rightarrow> 's res"
  pm_mem :: "'s \<Rightarrow> 64 memory"
  pm_set_mem :: "64 memory \<Rightarrow> 's \<Rightarrow> 's"

definition load64 :: "64 memory \<Rightarrow> u64 \<Rightarrow> u64" where
  "load64 m p = from_le (read_bytes m p 8)"

definition store_bytes :: "64 memory \<Rightarrow> u64 \<Rightarrow> bytes \<Rightarrow> 64 memory" where
  "store_bytes m p bs = (\<lambda>x. if unat (x - p) < length bs then bs ! unat (x - p) else m x)"

definition store64 :: "64 memory \<Rightarrow> u64 \<Rightarrow> u64 \<Rightarrow> 64 memory" where
  "store64 m p v = store_bytes m p (to_le 8 v)"

text \<open>Reading and writing the table entry at a physical address.\<close>

definition entry_read :: "'s PhysMem \<Rightarrow> 's \<Rightarrow> u64 \<Rightarrow> u64 res" where
  "entry_read pm s paddr = bindR (pm_translate pm s paddr 8) (\<lambda>ptr. Ok (load64 (pm_mem pm s) ptr))"

definition entry_write :: "'s PhysMem \<Rightarrow> 's \<Rightarrow> u64 \<Rightarrow> u64 \<Rightarrow> 's res" where
  "entry_write pm s paddr v =
     bindR (pm_translate pm s paddr 8) (\<lambda>ptr. Ok (pm_set_mem pm (store64 (pm_mem pm s) ptr v) s))"

definition fill_bytes :: "64 memory \<Rightarrow> u64 \<Rightarrow> nat \<Rightarrow> (u64 \<Rightarrow> u8) \<Rightarrow> 64 memory" where
  "fill_bytes m p n f = (\<lambda>x. if unat (x - p) < n then f (x - p) else m x)"

definition alloc_phys_zeroed :: "'s PhysMem \<Rightarrow> 's \<Rightarrow> Layout \<Rightarrow> (u64 \<times> 's) res" where
  "alloc_phys_zeroed pm s layout =
     bindR (pm_alloc pm s layout) (\<lambda>(alc, s).
     bindR (pm_translate pm s alc (l_size layout)) (\<lambda>ptr.
       Ok (alc, pm_set_mem pm (fill_bytes (pm_mem pm s) ptr (unat (l_size layout)) (\<lambda>_. 0)) s)))"

definition page_layout :: "u64 \<Rightarrow> Layout" where
  "page_layout n = \<lparr>l_size = n, l_align = n\<rparr>"

subsection \<open>The tables\<close>

text \<open>A page table is the physical address of its top level.\<close>

record PageTable =
  table :: u64

definition page_table_new :: "'s PhysMem \<Rightarrow> 's \<Rightarrow> (PageTable \<times> 's) res" where
  "page_table_new pm s =
     bindR (alloc_phys_zeroed pm s (page_layout 4096)) (\<lambda>(t, s). Ok (\<lparr>table = t\<rparr>, s))"

definition indicies :: "u64 \<Rightarrow> u64 list" where
  "indicies vaddr = [drop_bit 39 vaddr AND 0x1ff, drop_bit 30 vaddr AND 0x1ff,
     drop_bit 21 vaddr AND 0x1ff, drop_bit 12 vaddr AND 0x1ff]"

definition set_level :: "nat \<Rightarrow> u64 \<Rightarrow> Mapping \<Rightarrow> Mapping" where
  "set_level depth ptp ret =
     (if depth = 0 then ret\<lparr>pml4e := Some ptp\<rparr>
      else if depth = 1 then ret\<lparr>pdpe := Some ptp\<rparr>
      else if depth = 2 then ret\<lparr>pde := Some ptp\<rparr>
      else ret\<lparr>pte := Some ptp\<rparr>)"

definition depth_type :: "nat \<Rightarrow> PageType" where
  "depth_type depth = (if depth = 1 then Page1G else if depth = 2 then Page2M else Page4K)"

fun walk :: "'s PhysMem \<Rightarrow> 's \<Rightarrow> u64 \<Rightarrow> u64 \<Rightarrow> nat \<Rightarrow> u64 list \<Rightarrow> Mapping \<Rightarrow> Mapping res" where
  "walk pm s vaddr tbl depth [] ret = Ok ret"
| "walk pm s vaddr tbl depth (index # idxs) ret =
     (let ptp = tbl + index * 8; ret = set_level depth ptp ret in
      bindR (entry_read pm s ptp) (\<lambda>ent.
      if ent AND PAGE_PRESENT = 0 then Ok ret
      else
        let tbl = ent AND 0xffffffffff000 in
        if depth = 3 \<or> ent AND PAGE_SIZE \<noteq> 0 then
          (if depth = 0 then Ok ret
           else
             let page_mask = page_bytes (depth_type depth) - 1 in
             Ok (ret\<lparr>page := Some (tbl AND NOT page_mask, vaddr AND page_mask)\<rparr>))
        else walk pm s vaddr tbl (depth + 1) idxs ret))"

definition mapping_empty :: Mapping where
  "mapping_empty = \<lparr>pml4e = None, pdpe = None, pde = None, pte = None, page = None\<rparr>"

definition pt_translate :: "'s PhysMem \<Rightarrow> PageTable \<Rightarrow> 's \<Rightarrow> u64 \<Rightarrow> Mapping option res" where
  "pt_translate pm pt s vaddr =
     (if canonicalize_address vaddr \<noteq> vaddr then Ok None
      else someR (walk pm s vaddr (table pt) 0 (indicies vaddr) mapping_empty))"

fun type_depth :: "PageType \<Rightarrow> nat" where
  "type_depth Page1G = 2"
| "type_depth Page2M = 3"
| "type_depth Page4K = 4"

text \<open>The count of used entries is kept in bits 52 to 61 of the entry above.\<close>

definition entry_in_use :: "u64 \<Rightarrow> u64" where
  "entry_in_use nent = drop_bit 52 nent AND 0x3ff"

definition set_in_use :: "u64 \<Rightarrow> u64 \<Rightarrow> u64" where
  "set_in_use nent n = (nent AND NOT 0x3ff0000000000000) OR push_bit 52 n"

definition count_entry :: "'s PhysMem \<Rightarrow> 's \<Rightarrow> u64 \<Rightarrow> 's res" where
  "count_entry pm s paddr =
     bindR (entry_read pm s paddr) (\<lambda>nent. entry_write pm s paddr (set_in_use nent (entry_in_use nent + 1)))"

definition unwrapR :: "'a option \<Rightarrow> 'a res" where
  "unwrapR v = expectR ''called `Option::unwrap()` on a `None` value'' v"

definition add_table :: "'s PhysMem \<Rightarrow> u64 \<Rightarrow> u64 option list \<times> 's \<Rightarrow> nat \<Rightarrow> (u64 option list \<times> 's) res" where
  "add_table pm vaddr st ii =
     (let (entries, s) = st in
      bindR (nthR entries ii) (\<lambda>e.
      if e \<noteq> None then Ok (entries, s)
      else
        bindR (alloc_phys_zeroed pm s (page_layout 4096)) (\<lambda>(t, s).
        bindR (bindR (nthR entries (ii - 1)) unwrapR) (\<lambda>above.
        bindR (pm_translate pm s above 8) (\<lambda>ptr.
        bindR (if ii \<ge> 2 then bindR (bindR (nthR entries (ii - 2)) unwrapR) (count_entry pm s) else Ok s) (\<lambda>s.
        let s = pm_set_mem pm (store64 (pm_mem pm s) ptr (t OR PAGE_USER OR PAGE_WRITE OR PAGE_PRESENT)) s in
        bindR (nthR (indicies vaddr) ii) (\<lambda>index.
        bindR (updR entries ii (Some (t + index * 8))) (\<lambda>entries.
          Ok (entries, s)))))))))"

definition map_raw :: "'s PhysMem \<Rightarrow> PageTable \<Rightarrow> 's \<Rightarrow> u64 \<Rightarrow> PageType \<Rightarrow> u64 \<Rightarrow> (unit option \<times> 's) res" where
  "map_raw pm pt s vaddr page_type raw =
     (if raw AND PAGE_PRESENT = 0 \<or> (page_type \<noteq> Page4K \<and> raw AND PAGE_SIZE = 0) then Ok (None, s)
      else
        bindR (pt_translate pm pt s vaddr) (\<lambda>mapping.
        case mapping of
          None \<Rightarrow> Ok (None, s)
        | Some mapping \<Rightarrow>
            if page mapping \<noteq> None then Ok (None, s)
            else
              let entries = [pml4e mapping, pdpe mapping, pde mapping, pte mapping];
                  depth = type_depth page_type in
              if depth < length entries \<and> entries ! depth \<noteq> None then Ok (None, s)
              else if pml4e mapping = None then Panic ''Whoa, how is there no PML4E''
              else
                bindR (foldR (add_table pm vaddr) (entries, s) [1..<depth]) (\<lambda>(entries, s).
                bindR (bindR (nthR entries (depth - 2)) unwrapR) (\<lambda>above.
                bindR (count_entry pm s above) (\<lambda>s.
                bindR (bindR (nthR entries (depth - 1)) unwrapR) (\<lambda>e.
                bindR (entry_write pm s e raw) (\<lambda>s. Ok (Some (), s))))))))"

text \<open>
  Removing an entry. \<open>unlink\<close> goes up the levels from entry \<open>ii\<close> and frees every table whose
  last entry it removes.
\<close>

primrec unlink :: "'s PhysMem \<Rightarrow> u64 list \<Rightarrow> 's \<Rightarrow> nat \<Rightarrow> 's res" where
  "unlink pm es s 0 = bindR (nthR es 0) (\<lambda>entry. entry_write pm s entry 0)"
| "unlink pm es s (Suc ii) =
     bindR (nthR es (Suc ii)) (\<lambda>entry.
     bindR (entry_write pm s entry 0) (\<lambda>s.
     bindR (nthR es ii) (\<lambda>next_entry.
     bindR (pm_translate pm s next_entry 8) (\<lambda>nvad.
     let nent = load64 (pm_mem pm s) nvad; in_use = entry_in_use nent in
     if in_use = 1 then bindR (pm_free pm s (entry AND NOT 0xfff) 4096) (\<lambda>s. unlink pm es s ii)
     else if \<not> (in_use > 0 \<and> in_use \<le> 512) then Panic ''Whoa, ref counts broken on page''
     else Ok (pm_set_mem pm (store64 (pm_mem pm s) nvad (set_in_use nent (in_use - 1))) s)))))"

definition mapping_entries :: "Mapping \<Rightarrow> PageType \<Rightarrow> u64 list res" where
  "mapping_entries mp pty =
     bindR (unwrapR (pml4e mp)) (\<lambda>e0.
     bindR (unwrapR (pdpe mp)) (\<lambda>e1.
     case pty of
       Page1G \<Rightarrow> Ok [e0, e1]
     | Page2M \<Rightarrow> bindR (unwrapR (pde mp)) (\<lambda>e2. Ok [e0, e1, e2])
     | Page4K \<Rightarrow> bindR (unwrapR (pde mp)) (\<lambda>e2. bindR (unwrapR (pte mp)) (\<lambda>e3. Ok [e0, e1, e2, e3]))))"

text \<open>One round of the loop: the next page, if there is one, and the number of bytes freed.\<close>

definition free_page :: "'s PhysMem \<Rightarrow> Mapping \<Rightarrow> 's \<Rightarrow> (u64 option \<times> u64 \<times> 's) res" where
  "free_page pm cur_page s =
     bindR (unwrapR (virt_base cur_page)) (\<lambda>page_vaddr.
     bindR (unwrapR (mapping_size cur_page)) (\<lambda>page_size.
     bindR (mapping_entries cur_page page_size) (\<lambda>es.
     bindR (unlink pm es s (length es - 1)) (\<lambda>s.
     bindR (unwrapR (page cur_page)) (\<lambda>(paddr, off).
     bindR (pm_free pm s paddr (page_bytes page_size)) (\<lambda>s.
       Ok (checked_add page_vaddr (page_bytes page_size), page_bytes page_size, s)))))))"

partial_function (option) free_loop :: "'s PhysMem \<Rightarrow> PageTable \<Rightarrow> u64 \<Rightarrow> Mapping \<Rightarrow> u64 \<Rightarrow> 's \<Rightarrow> (u64 \<times> 's) res option" where
  "free_loop pm pt end_addr cur_page freed s =
     bindD (Some (free_page pm cur_page s)) (\<lambda>(next_page, n, s).
     let freed = freed + n in
     case next_page of
       None \<Rightarrow> Some (Ok (freed, s))
     | Some next_page \<Rightarrow>
         if next_page > end_addr then Some (Ok (freed, s))
         else
           bindD (Some (pt_translate pm pt s next_page)) (\<lambda>m.
           bindD (Some (expectR ''Failed to translate virtual address during free'' m)) (\<lambda>cur_page.
             free_loop pm pt end_addr cur_page freed s)))"

declare free_loop.simps [simp del]

text \<open>The invalidation of the translation buffers at the end has no effect on the model.\<close>

definition pt_free :: "'s PhysMem \<Rightarrow> PageTable \<Rightarrow> 's \<Rightarrow> u64 \<Rightarrow> u64 \<Rightarrow> 's res option" where
  "pt_free pm pt s vaddr sz =
     bindD (Some (expectR ''Virtual free of zero bytes'' (checked_sub sz 1))) (\<lambda>n.
     bindD (Some (expectR ''Integer overflow on virtual free range'' (checked_add vaddr n))) (\<lambda>end_addr.
     bindD (Some (pt_translate pm pt s vaddr)) (\<lambda>m.
     bindD (Some (unwrapR m)) (\<lambda>cur_page.
     bindD (free_loop pm pt end_addr cur_page 0 s) (\<lambda>(freed, s).
       if freed = sz then Some (Ok s)
       else Some (Panic ''Virtual free request freed more bytes than requested''))))))"

definition page_entry :: "u64 \<Rightarrow> PageType \<Rightarrow> bool \<Rightarrow> bool \<Rightarrow> u64" where
  "page_entry paddr page_type write exec =
     paddr OR PAGE_PRESENT OR (if write then PAGE_WRITE else 0) OR (if exec then 0 else PAGE_NX) OR
     (if page_type \<noteq> Page4K then PAGE_SIZE else 0)"

definition init_page :: "'s PhysMem \<Rightarrow> 's \<Rightarrow> u64 \<Rightarrow> u64 \<Rightarrow> u64 \<Rightarrow> (u64 \<Rightarrow> u8) option \<Rightarrow> 's res" where
  "init_page pm s paddr page_size base init =
     (case init of
        None \<Rightarrow> Ok s
      | Some init \<Rightarrow>
          bindR (pm_translate pm s paddr page_size) (\<lambda>ptr.
            Ok (pm_set_mem pm (fill_bytes (pm_mem pm s) ptr (unat page_size) (\<lambda>off. init (base + off))) s)))"

text \<open>The loop over the pages of a mapping, in order of their addresses.\<close>

fun map_pages :: "'s PhysMem \<Rightarrow> PageTable \<Rightarrow> PageType \<Rightarrow> bool \<Rightarrow> bool \<Rightarrow> (u64 \<Rightarrow> u8) option \<Rightarrow> u64 \<Rightarrow> u64 list \<Rightarrow> 's
    \<Rightarrow> (unit option \<times> 's) res option" where
  "map_pages pm pt page_type write exec init orig [] s = Some (Ok (Some (), s))"
| "map_pages pm pt page_type write exec init orig (vaddr # vs) s =
     bindD (Some (pm_alloc pm s (page_layout (page_bytes page_type)))) (\<lambda>(paddr, s).
     bindD (Some (init_page pm s paddr (page_bytes page_type) (vaddr - orig) init)) (\<lambda>s.
     bindD (Some (map_raw pm pt s vaddr page_type (page_entry paddr page_type write exec))) (\<lambda>(r, s).
     if r = None then
       (if vaddr - orig > 0
        then bindD (pt_free pm pt s orig (vaddr - orig)) (\<lambda>s. Some (Ok (None, s)))
        else Some (Ok (None, s)))
     else map_pages pm pt page_type write exec init orig vs s)))"

definition map_init :: "'s PhysMem \<Rightarrow> PageTable \<Rightarrow> 's \<Rightarrow> u64 \<Rightarrow> PageType \<Rightarrow> u64 \<Rightarrow> bool \<Rightarrow> bool \<Rightarrow> bool \<Rightarrow> (u64 \<Rightarrow> u8) option
    \<Rightarrow> (unit option \<times> 's) res option" where
  "map_init pm pt s vaddr page_type sz read write exec init =
     (let page_size = page_bytes page_type; page_mask = page_size - 1 in
      if sz \<le> 0 \<or> vaddr AND page_mask \<noteq> 0 then Some (Ok (None, s))
      else case checked_add vaddr (sz - 1) of
        None \<Rightarrow> Some (Ok (None, s))
      | Some end_vaddr \<Rightarrow>
          map_pages pm pt page_type write exec init vaddr
            (map (\<lambda>k. vaddr + word_of_nat k * page_size) [0..<unat ((sz - 1) div page_size) + 1]) s)"

definition pt_map :: "'s PhysMem \<Rightarrow> PageTable \<Rightarrow> 's \<Rightarrow> u64 \<Rightarrow> PageType \<Rightarrow> u64 \<Rightarrow> bool \<Rightarrow> bool \<Rightarrow> bool
    \<Rightarrow> (unit option \<times> 's) res option" where
  "pt_map pm pt s vaddr page_type sz read write exec = map_init pm pt s vaddr page_type sz read write exec None"

end
