(* ===== verification/PageTable_Correct.thy ===== *)
theory PageTable_Correct
  imports PageTable
begin

text \<open>
  The page tables implement a partial map from virtual pages to entries. The tables are reached
  from the top by prefixes of the index list of an address; in a well-formed table different
  prefixes reach different pages of physical memory, which the table owns. What the code relies
  on of the physical memory it is given is the locale \<open>phys_memory\<close>.
\<close>

unbundle bit_operations_syntax

subsection \<open>Words in byte memory\<close>

lemma offset_lt: "i < 8 \<Longrightarrow> unat (word_of_nat i :: u64) = i"
  by (simp only: unat_of_nat) simp

lemma load_store_same: "load64 (store64 m p v) p = v"
proof -
  have "read_bytes (store64 m p v) p 8 = to_le 8 v"
    by (rule nth_equalityI) (simp_all add: read_bytes_def store64_def store_bytes_def offset_lt)
  then show ?thesis by (simp add: load64_def from_le_to_le)
qed

lemma load_cong: "(\<And>i. i < 8 \<Longrightarrow> m (p + word_of_nat i) = m' (p + word_of_nat i)) \<Longrightarrow> load64 m p = load64 m' p"
  unfolding load64_def read_bytes_def by (rule arg_cong [of _ _ from_le]) simp

lemma unat_add_neg:
  assumes "x \<noteq> (0 :: u64)"
  shows "unat x + unat (- x) = 2 ^ 64"
proof -
  have "unat (x + - x) = (unat x + unat (- x)) mod 2 ^ 64" unfolding unat_word_ariths by simp
  then have "2 ^ 64 dvd unat x + unat (- x)" by (simp add: mod_eq_0_iff_dvd)
  then obtain k where k: "unat x + unat (- x) = 2 ^ 64 * k" by (auto elim: dvdE)
  have "unat x > 0" using assms by (simp add: unat_gt_0)
  moreover have "unat x < 2 ^ 64" "unat (- x) < 2 ^ 64"
    using unsigned_less [of x, where 'a = nat] unsigned_less [of "- x", where 'a = nat] by simp_all
  ultimately have "0 < 2 ^ 64 * k" "2 ^ 64 * k < 2 ^ 64 * (2 :: nat)" using k by linarith+
  then have "k = 1" by simp
  with k show ?thesis by simp
qed

lemma load_store_other:
  assumes "8 \<le> unat (q - p)" "8 \<le> unat (p - q)"
  shows "load64 (store64 m p v) q = load64 m q"
proof (rule load_cong)
  fix i :: nat assume i: "i < 8"
  have "8 \<le> unat (q + word_of_nat i - p)"
  proof (cases "unat (q - p) + i < 2 ^ 64")
    case True
    have "q + word_of_nat i - p = (q - p) + word_of_nat i" by simp
    then have "unat (q + word_of_nat i - p) = unat (q - p) + i"
      using True i by (simp only: unat_word_ariths offset_lt) simp
    then show ?thesis using assms by simp
  next
    case False
    have "q - p \<noteq> 0" using assms by auto
    from unat_add_neg [OF this] have "unat (q - p) + unat (p - q) = 2 ^ 64" by simp
    then show ?thesis using assms False i by simp
  qed
  then show "store64 m p v (q + word_of_nat i) = m (q + word_of_nat i)" by (simp add: store64_def store_bytes_def)
qed


subsection \<open>Pages and entries\<close>

definition aligned :: "u64 \<Rightarrow> bool" where
  "aligned t \<longleftrightarrow> take_bit 12 t = 0"

definition frame :: "u64 \<Rightarrow> u64" where
  "frame a = a AND NOT (mask 12)"

lemma aligned_unat: "aligned t \<longleftrightarrow> unat t mod 4096 = 0"
proof -
  have "aligned t \<longleftrightarrow> unat (take_bit 12 t) = 0" by (simp add: aligned_def unat_eq_0)
  also have "unat (take_bit 12 t) = unat t mod 4096" unfolding unsigned_take_bit_eq by (simp add: take_bit_eq_mod)
  finally show ?thesis .
qed

lemma unat_frame_add:
  assumes "aligned t" "unat o1 < 4096"
  shows "unat (t + o1) = unat t + unat o1"
proof -
  obtain k where k: "unat t = 4096 * k" using assms(1) by (auto simp: aligned_unat mod_eq_0_iff_dvd elim: dvdE)
  have "unat t < 2 ^ 64" using unsigned_less [of t, where 'a = nat] by simp
  then have "k < 2 ^ 52" using k by simp
  then have "unat t + unat o1 < 2 ^ 64" using k assms(2) by simp
  then show ?thesis unfolding unat_word_ariths by simp
qed

lemma frame_plus_offset: "frame a + take_bit 12 a = a"
proof -
  have d: "frame a AND take_bit 12 a = 0" unfolding frame_def by (rule bit_word_eqI) (auto simp: bit_simps)
  have "frame a OR take_bit 12 a = a" unfolding frame_def by (rule bit_word_eqI) (auto simp: bit_simps)
  then show ?thesis by (simp add: disjunctive_add_eq_or [OF d])
qed

lemma frame_add:
  assumes "aligned t" "unat o1 < 4096"
  shows "frame (t + o1) = t" "take_bit 12 (t + o1) = o1"
proof -
  obtain k where k: "unat t = 4096 * k" using assms(1) by (auto simp: aligned_unat mod_eq_0_iff_dvd elim: dvdE)
  have u: "unat (t + o1) = 4096 * k + unat o1" using unat_frame_add [OF assms] k by simp
  have "unat (take_bit 12 (t + o1)) = unat o1"
    unfolding unsigned_take_bit_eq u using assms(2) by (simp add: take_bit_eq_mod)
  then show t: "take_bit 12 (t + o1) = o1" by (simp add: word_unat_eq_iff)
  from frame_plus_offset [of "t + o1"] show "frame (t + o1) = t" unfolding t by simp
qed

lemma frame_aligned [simp]: "aligned (frame a)"
  unfolding aligned_def frame_def by (rule bit_word_eqI) (simp add: bit_simps)

lemma aligned_frame: "aligned t \<Longrightarrow> frame t = t"
  using frame_add(1) [of t 0] by simp

lemma frame_diff_8:
  assumes "8 dvd unat x" "8 dvd unat y" "x \<noteq> (y :: u64)"
  shows "8 \<le> unat (x - y)"
proof -
  have "8 dvd unat (x - y)"
  proof (cases "y \<le> x")
    case True
    then show ?thesis using assms by (simp add: unat_sub dvd_diff_nat)
  next
    case False
    then have "y - x \<noteq> 0" "x \<le> y" by auto
    with unat_add_neg [of "y - x"] have "unat (x - y) = 2 ^ 64 - (unat y - unat x)" by (simp add: unat_sub)
    then show ?thesis using assms by (simp add: dvd_diff_nat)
  qed
  moreover have "unat (x - y) \<noteq> 0" using assms(3) by (simp add: unat_eq_0)
  ultimately show ?thesis by (simp add: dvd_imp_le)
qed

text \<open>The address of entry \<open>i\<close> of the table at \<open>t\<close>, and the entry itself in physical memory.\<close>

definition slot :: "u64 \<Rightarrow> u64 \<Rightarrow> u64" where
  "slot t i = t + i * 8"

definition tentry :: "64 memory \<Rightarrow> u64 \<Rightarrow> u64 \<Rightarrow> u64" where
  "tentry \<mu> t i = load64 \<mu> (slot t i)"

lemma index_bytes:
  assumes "i < (512 :: u64)"
  shows "unat (i * 8) = 8 * unat i" "unat (i * 8) < 4096"
proof -
  have "unat i < 512" using assms by (simp add: word_less_nat_alt)
  then show "unat (i * 8) = 8 * unat i" by (simp add: unat_word_ariths)
  with \<open>unat i < 512\<close> show "unat (i * 8) < 4096" by simp
qed

lemma slot_frame: "aligned t \<Longrightarrow> i < 512 \<Longrightarrow> frame (slot t i) = t"
  unfolding slot_def by (intro frame_add(1) index_bytes(2))

lemma slot_inj:
  assumes "aligned t" "aligned t'" "i < 512" "j < 512"
  shows "slot t i = slot t' j \<longleftrightarrow> t = t' \<and> i = j"
proof
  assume e: "slot t i = slot t' j"
  then have "t = t'" using assms by (metis slot_frame)
  moreover have "i * 8 = j * 8" using e \<open>t = t'\<close> by (simp add: slot_def)
  then have "unat i = unat j" using index_bytes(1) [OF assms(3)] index_bytes(1) [OF assms(4)] by simp
  ultimately show "t = t' \<and> i = j" by (simp add: word_unat_eq_iff)
qed simp

lemma slot_dvd: "aligned t \<Longrightarrow> i < 512 \<Longrightarrow> 8 dvd unat (slot t i)"
proof -
  assume a: "aligned t" "i < 512"
  then have "unat (slot t i) = unat t + 8 * unat i"
    using unat_frame_add [OF a(1) index_bytes(2) [OF a(2)]] by (simp add: slot_def index_bytes(1))
  moreover have "8 dvd unat t" using a(1) by (auto simp: aligned_unat mod_eq_0_iff_dvd elim!: dvd_trans [rotated])
  ultimately show ?thesis by simp
qed

lemma tentry_store:
  assumes "aligned t" "aligned t'" "i < 512" "j < 512"
  shows "tentry (store64 \<mu> (slot t i) e) t' j = (if t' = t \<and> j = i then e else tentry \<mu> t' j)"
proof (cases "t' = t \<and> j = i")
  case True
  then show ?thesis by (simp add: tentry_def load_store_same)
next
  case False
  then have "slot t' j \<noteq> slot t i" "slot t i \<noteq> slot t' j" using slot_inj [OF assms(2,1,4,3)] by auto
  then have "8 \<le> unat (slot t' j - slot t i)" "8 \<le> unat (slot t i - slot t' j)"
    using slot_dvd assms by (auto intro!: frame_diff_8)
  then have "tentry (store64 \<mu> (slot t i) e) t' j = tentry \<mu> t' j"
    unfolding tentry_def by (rule load_store_other)
  with False show ?thesis by auto
qed

text \<open>Two memories that agree on a set of pages.\<close>

definition agree :: "u64 set \<Rightarrow> 64 memory \<Rightarrow> 64 memory \<Rightarrow> bool" where
  "agree F \<mu> \<mu>' \<longleftrightarrow> (\<forall>a. frame a \<in> F \<longrightarrow> \<mu>' a = \<mu> a)"

lemma slot_byte_frame:
  assumes "aligned t" "i < 512" "k < 8"
  shows "frame (slot t i + word_of_nat k) = t"
proof -
  have "unat i < 512" using assms by (simp add: word_less_nat_alt)
  then have "unat (i * 8 + word_of_nat k) = 8 * unat i + k"
    using assms index_bytes(1) [OF assms(2)] by (simp only: unat_word_ariths offset_lt) simp
  then have "unat (i * 8 + word_of_nat k) < 4096" using \<open>unat i < 512\<close> assms(3) by simp
  from frame_add(1) [OF assms(1) this] show ?thesis by (simp add: slot_def add.assoc)
qed

lemma tentry_agree: "agree F \<mu> \<mu>' \<Longrightarrow> t \<in> F \<Longrightarrow> aligned t \<Longrightarrow> i < 512 \<Longrightarrow> tentry \<mu>' t i = tentry \<mu> t i"
  unfolding tentry_def by (rule load_cong) (simp add: agree_def slot_byte_frame)

subsection \<open>Tables and pages reached by indices\<close>

definition present :: "u64 \<Rightarrow> bool" where "present e \<longleftrightarrow> e AND PAGE_PRESENT \<noteq> 0"

definition large :: "u64 \<Rightarrow> bool" where "large e \<longleftrightarrow> e AND PAGE_SIZE \<noteq> 0"

definition eaddr :: "u64 \<Rightarrow> u64" where "eaddr e = e AND 0xffffffffff000"

definition is_table :: "u64 \<Rightarrow> bool" where "is_table e \<longleftrightarrow> present e \<and> \<not> large e"

text \<open>The table that a list of indices leads to.\<close>

fun tbl :: "64 memory \<Rightarrow> u64 \<Rightarrow> u64 list \<Rightarrow> u64 option" where
  "tbl \<mu> t [] = Some t"
| "tbl \<mu> t (i # is) = (if is_table (tentry \<mu> t i) then tbl \<mu> (eaddr (tentry \<mu> t i)) is else None)"

lemma tbl_snoc:
  "tbl \<mu> t (p @ [i]) = (case tbl \<mu> t p of None \<Rightarrow> None
     | Some t' \<Rightarrow> if is_table (tentry \<mu> t' i) then Some (eaddr (tentry \<mu> t' i)) else None)"
  by (induction p arbitrary: t) auto

text \<open>Index lists of a table: at most three indices below 512.\<close>

definition prefixes :: "u64 list set" where
  "prefixes = {p. length p \<le> 3 \<and> (\<forall>i \<in> set p. i < 512)}"

definition tree_ok :: "64 memory \<Rightarrow> u64 set \<Rightarrow> u64 \<Rightarrow> bool" where
  "tree_ok \<mu> F root \<longleftrightarrow>
     (\<forall>p \<in> prefixes. \<forall>t. tbl \<mu> root p = Some t \<longrightarrow> t \<in> F \<and> aligned t) \<and>
     (\<forall>p \<in> prefixes. \<forall>q \<in> prefixes. \<forall>t. tbl \<mu> root p = Some t \<longrightarrow> tbl \<mu> root q = Some t \<longrightarrow> p = q) \<and>
     (\<forall>i < 512. \<not> large (tentry \<mu> root i))"

lemma prefixes_snoc: "p @ [i] \<in> prefixes \<longleftrightarrow> p \<in> prefixes \<and> length p \<le> 2 \<and> i < 512"
  by (auto simp: prefixes_def)

lemma tree_okD:
  assumes "tree_ok \<mu> F root" "p \<in> prefixes" "tbl \<mu> root p = Some t"
  shows "t \<in> F" "aligned t" "q \<in> prefixes \<Longrightarrow> tbl \<mu> root q = Some t \<Longrightarrow> p = q"
  using assms unfolding tree_ok_def by blast+

lemma Nil_prefix [simp]: "[] \<in> prefixes"
  by (simp add: prefixes_def)

lemma tree_ok_root:
  assumes "tree_ok \<mu> F root"
  shows "root \<in> F" "aligned root" "i < 512 \<Longrightarrow> \<not> large (tentry \<mu> root i)"
  using tree_okD [OF assms, of "[]" root] assms by (auto simp: tree_ok_def)

text \<open>The tables do not change when the memory agrees on the pages the table owns.\<close>

lemma tbl_agree:
  assumes "tree_ok \<mu> F root" "agree F \<mu> \<mu>'" "p \<in> prefixes"
  shows "tbl \<mu>' root p = tbl \<mu> root p"
  using assms(3)
proof (induction p rule: rev_induct)
  case (snoc i p)
  then have p: "p \<in> prefixes" "i < 512" and e: "tbl \<mu>' root p = tbl \<mu> root p" by (simp_all add: prefixes_snoc)
  show ?case unfolding tbl_snoc e
  proof (cases "tbl \<mu> root p")
    case (Some t)
    then have "tentry \<mu>' t i = tentry \<mu> t i"
      using tree_okD(1,2) [OF assms(1) p(1) Some] assms(2) p(2) by (intro tentry_agree)
    then show "(case tbl \<mu> root p of None \<Rightarrow> None | Some t' \<Rightarrow> if is_table (tentry \<mu>' t' i) then Some (eaddr (tentry \<mu>' t' i)) else None) =
        (case tbl \<mu> root p of None \<Rightarrow> None | Some t' \<Rightarrow> if is_table (tentry \<mu> t' i) then Some (eaddr (tentry \<mu> t' i)) else None)"
      using Some by simp
  qed simp
qed simp

lemma tree_agree:
  assumes "tree_ok \<mu> F root" "agree F \<mu> \<mu>'" "F \<subseteq> F'"
  shows "tree_ok \<mu>' F' root"
proof -
  note r = tree_ok_root [OF assms(1)]
  have "tentry \<mu>' root i = tentry \<mu> root i" if "i < 512" for i using tentry_agree [OF assms(2) r(1,2) that] .
  then have "\<forall>i < 512. \<not> large (tentry \<mu>' root i)" using r(3) by simp
  moreover have "\<forall>p \<in> prefixes. \<forall>t. tbl \<mu>' root p = Some t \<longrightarrow> t \<in> F' \<and> aligned t"
    using tbl_agree [OF assms(1,2)] tree_okD(1,2) [OF assms(1)] assms(3) by (metis subsetD)
  moreover have "\<forall>p \<in> prefixes. \<forall>q \<in> prefixes. \<forall>t. tbl \<mu>' root p = Some t \<longrightarrow> tbl \<mu>' root q = Some t \<longrightarrow> p = q"
    using tbl_agree [OF assms(1,2)] tree_okD(3) [OF assms(1)] by metis
  ultimately show ?thesis unfolding tree_ok_def by blast
qed

text \<open>The entry at the level given by a prefix of the indices.\<close>

definition level_entry :: "64 memory \<Rightarrow> u64 \<Rightarrow> u64 list \<Rightarrow> nat \<Rightarrow> u64 option" where
  "level_entry \<mu> root idxs d = map_option (\<lambda>t. tentry \<mu> t (idxs ! d)) (tbl \<mu> root (take d idxs))"

text \<open>The page an index list of four indices is mapped to: its size and its entry.\<close>

definition lookup :: "64 memory \<Rightarrow> u64 \<Rightarrow> u64 list \<Rightarrow> (PageType \<times> u64) option" where
  "lookup \<mu> root idxs =
     (case level_entry \<mu> root idxs 1 of
        None \<Rightarrow> None
      | Some e \<Rightarrow>
          if present e \<and> large e then Some (Page1G, e)
          else (case level_entry \<mu> root idxs 2 of
             None \<Rightarrow> None
           | Some e \<Rightarrow>
               if present e \<and> large e then Some (Page2M, e)
               else (case level_entry \<mu> root idxs 3 of
                  None \<Rightarrow> None
                | Some e \<Rightarrow> if present e then Some (Page4K, e) else None)))"

definition addr_indices :: "u64 list set" where
  "addr_indices = {q. length q = 4 \<and> (\<forall>i \<in> set q. i < 512)}"

lemma take_prefix: "q \<in> addr_indices \<Longrightarrow> d \<le> 3 \<Longrightarrow> take d q \<in> prefixes"
  by (auto simp: addr_indices_def prefixes_def dest: in_set_takeD)

lemma index_lt: "q \<in> addr_indices \<Longrightarrow> d \<le> 3 \<Longrightarrow> q ! d < 512"
  by (auto simp: addr_indices_def)

lemma lookup_cong:
  assumes "\<And>d. d \<in> {1, 2, 3} \<Longrightarrow> level_entry \<mu>' root q d = level_entry \<mu> root q d"
  shows "lookup \<mu>' root q = lookup \<mu> root q"
proof -
  have "level_entry \<mu>' root q 1 = level_entry \<mu> root q 1" "level_entry \<mu>' root q 2 = level_entry \<mu> root q 2"
    "level_entry \<mu>' root q 3 = level_entry \<mu> root q 3" by (simp_all add: assms)
  then show ?thesis unfolding lookup_def by (simp only:)
qed

lemma lookup_agree:
  assumes "tree_ok \<mu> F root" "agree F \<mu> \<mu>'" "q \<in> addr_indices"
  shows "lookup \<mu>' root q = lookup \<mu> root q"
proof (rule lookup_cong)
  fix d :: nat assume d: "d \<in> {1, 2, 3}"
  then have p: "take d q \<in> prefixes" "q ! d < 512" using assms(3) by (auto intro: take_prefix index_lt)
  show "level_entry \<mu>' root q d = level_entry \<mu> root q d"
    using tbl_agree [OF assms(1,2) p(1)] tree_okD(1,2) [OF assms(1) p(1)] tentry_agree [OF assms(2) _ _ p(2)]
    by (cases "tbl \<mu> root (take d q)") (auto simp: level_entry_def)
qed

subsection \<open>Changing one entry\<close>

text \<open>The entry at index \<open>i\<close> of the table at prefix \<open>p\<close> is replaced by \<open>e\<close>.\<close>

definition at_entry :: "64 memory \<Rightarrow> u64 set \<Rightarrow> u64 \<Rightarrow> u64 list \<Rightarrow> u64 \<Rightarrow> u64 \<Rightarrow> bool" where
  "at_entry \<mu> F root p t i \<longleftrightarrow> tree_ok \<mu> F root \<and> p \<in> prefixes \<and> tbl \<mu> root p = Some t \<and> i < 512"

lemma at_entryD:
  assumes "at_entry \<mu> F root p t i"
  shows "tree_ok \<mu> F root" "p \<in> prefixes" "tbl \<mu> root p = Some t" "i < 512" "t \<in> F" "aligned t"
  using assms tree_okD(1,2) [of \<mu> F root p t] by (auto simp: at_entry_def)

lemma tentry_changed:
  assumes a: "at_entry \<mu> F root p t i" and q: "q \<in> prefixes" "tbl \<mu> root q = Some t'" "j < 512"
  shows "tentry (store64 \<mu> (slot t i) e) t' j = (if q = p \<and> j = i then e else tentry \<mu> t' j)"
proof -
  note d = at_entryD [OF a]
  have "t' = t \<longleftrightarrow> q = p" using tree_okD(3) [OF d(1-3) q(1)] q(2) d(3) by auto
  then show ?thesis using tentry_store [OF d(6) tree_okD(2) [OF d(1) q(1,2)] d(4) q(3), of \<mu> e] by simp
qed

text \<open>Entries that lead to the same table, or to none, leave all tables as they are.\<close>

definition same_table :: "u64 \<Rightarrow> u64 \<Rightarrow> bool" where
  "same_table e e' \<longleftrightarrow> is_table e = is_table e' \<and> (is_table e \<longrightarrow> eaddr e = eaddr e')"

lemma tbl_same:
  assumes a: "at_entry \<mu> F root p t i" and e: "length p \<le> 2 \<Longrightarrow> same_table (tentry \<mu> t i) e" and q: "q \<in> prefixes"
  shows "tbl (store64 \<mu> (slot t i) e) root q = tbl \<mu> root q"
  using q
proof (induction q rule: rev_induct)
  case (snoc j q)
  then have q: "q \<in> prefixes" "j < 512" "length q \<le> 2" and IH: "tbl (store64 \<mu> (slot t i) e) root q = tbl \<mu> root q"
    by (simp_all add: prefixes_snoc)
  show ?case
  proof (cases "tbl \<mu> root q")
    case None
    then show ?thesis using IH by (simp add: tbl_snoc)
  next
    case (Some t')
    have "t' = t" if "q = p" using that Some at_entryD(3) [OF a] by simp
    then show ?thesis
      using IH Some tentry_changed [OF a q(1) Some q(2), of e] e q(3) by (auto simp: tbl_snoc same_table_def)
  qed
qed simp

lemma tree_changed:
  assumes a: "at_entry \<mu> F root p t i" and e: "length p \<le> 2 \<Longrightarrow> same_table (tentry \<mu> t i) e"
    and l: "p = [] \<Longrightarrow> \<not> large e"
  shows "tree_ok (store64 \<mu> (slot t i) e) F root"
proof -
  note d = at_entryD [OF a]
  note s = tbl_same [OF a e]
  have "\<not> large (tentry (store64 \<mu> (slot t i) e) root j)" if "j < 512" for j
    using tentry_changed [OF a Nil_prefix _ that, of root e] tree_ok_root(3) [OF d(1) that] l by auto
  moreover have "\<forall>q \<in> prefixes. \<forall>t'. tbl (store64 \<mu> (slot t i) e) root q = Some t' \<longrightarrow> t' \<in> F \<and> aligned t'"
    using s tree_okD(1,2) [OF d(1)] by auto
  moreover have "\<forall>q \<in> prefixes. \<forall>r \<in> prefixes. \<forall>t'. tbl (store64 \<mu> (slot t i) e) root q = Some t' \<longrightarrow>
      tbl (store64 \<mu> (slot t i) e) root r = Some t' \<longrightarrow> q = r"
    using s tree_okD(3) [OF d(1)] by auto
  ultimately show ?thesis unfolding tree_ok_def by blast
qed

lemma level_entry_changed:
  assumes a: "at_entry \<mu> F root p t i" and e: "length p \<le> 2 \<Longrightarrow> same_table (tentry \<mu> t i) e"
    and q: "q \<in> addr_indices" "d \<le> 3"
  shows "level_entry (store64 \<mu> (slot t i) e) root q d =
    (if take d q = p \<and> q ! d = i then Some e else level_entry \<mu> root q d)"
proof -
  have p: "take d q \<in> prefixes" "q ! d < 512" using q by (auto intro: take_prefix index_lt)
  note s = tbl_same [OF a e p(1)]
  show ?thesis
  proof (cases "tbl \<mu> root (take d q)")
    case None
    then have "take d q \<noteq> p" using at_entryD(3) [OF a] by auto
    with None s show ?thesis by (simp add: level_entry_def)
  next
    case (Some t')
    then show ?thesis using s tentry_changed [OF a p(1) Some p(2), of e] by (simp add: level_entry_def)
  qed
qed

text \<open>The reference count of a table entry does not matter to the translation.\<close>

lemma present_bit: "present e \<longleftrightarrow> bit e 0"
  unfolding present_def PAGE_PRESENT_def push_bit_of_1 by (simp only: and_exp_eq_0_iff_not_bit not_not)

lemma large_bit: "large e \<longleftrightarrow> bit e 7"
  unfolding large_def PAGE_SIZE_def push_bit_of_1 by (simp only: and_exp_eq_0_iff_not_bit not_not)

lemma count_mask: "(0x3ff0000000000000 :: u64) = push_bit 52 (mask 10)"
  by (simp add: mask_eq_exp_minus_1 push_bit_eq_mult)

lemma addr_mask: "(0xffffffffff000 :: u64) = push_bit 12 (mask 40)"
  by (simp add: mask_eq_exp_minus_1 push_bit_eq_mult)

lemma bit_eaddr: "bit (eaddr e) i \<longleftrightarrow> 12 \<le> i \<and> i < 52 \<and> bit e i"
  unfolding eaddr_def addr_mask by (auto simp: bit_simps)

lemma bit_set_in_use: "i < 52 \<Longrightarrow> bit (set_in_use e n) i = bit e i"
  unfolding set_in_use_def count_mask by (auto simp: bit_simps dest: bit_imp_le_length)

lemma eaddr_aligned [simp]: "aligned (eaddr e)"
  unfolding aligned_def by (rule bit_word_eqI) (simp add: bit_take_bit_iff bit_eaddr)

lemma set_in_use_flags:
  "present (set_in_use e n) = present e" "large (set_in_use e n) = large e" "eaddr (set_in_use e n) = eaddr e"
  by (simp_all add: present_bit large_bit bit_set_in_use) (rule bit_word_eqI, auto simp: bit_eaddr bit_set_in_use)

lemma set_in_use_table [simp]: "same_table e (set_in_use e n)" "is_table (set_in_use e n) = is_table e"
  by (simp_all add: same_table_def is_table_def set_in_use_flags)

text \<open>Entries that lead to tables are not visible in a lookup.\<close>

lemma lookup_tables:
  assumes d: "\<And>d. d \<in> {1, 2, 3} \<Longrightarrow> level_entry \<mu>' root q d = level_entry \<mu> root q d \<or>
      d \<noteq> 3 \<and> (\<exists>e e'. level_entry \<mu> root q d = Some e \<and> level_entry \<mu>' root q d = Some e' \<and> is_table e \<and> is_table e')"
  shows "lookup \<mu>' root q = lookup \<mu> root q"
proof -
  have 3: "level_entry \<mu>' root q 3 = level_entry \<mu> root q 3" using d [of 3] by simp
  have 2: "level_entry \<mu>' root q 2 = level_entry \<mu> root q 2 \<or>
      (\<exists>e e'. level_entry \<mu> root q 2 = Some e \<and> level_entry \<mu>' root q 2 = Some e' \<and> is_table e \<and> is_table e')"
    using d [of 2] by auto
  have 1: "level_entry \<mu>' root q 1 = level_entry \<mu> root q 1 \<or>
      (\<exists>e e'. level_entry \<mu> root q 1 = Some e \<and> level_entry \<mu>' root q 1 = Some e' \<and> is_table e \<and> is_table e')"
    using d [of 1] by auto
  show ?thesis unfolding lookup_def 3 using 1 2
    by (elim disjE exE conjE) (simp_all add: is_table_def split: option.split)
qed

lemma counted:
  assumes a: "at_entry \<mu> F root p t i" and e: "is_table (tentry \<mu> t i)" and l: "length p \<le> 2"
  shows "tree_ok (store64 \<mu> (slot t i) (set_in_use (tentry \<mu> t i) n)) F root"
    "q \<in> prefixes \<Longrightarrow> tbl (store64 \<mu> (slot t i) (set_in_use (tentry \<mu> t i) n)) root q = tbl \<mu> root q"
    "q' \<in> addr_indices \<Longrightarrow> lookup (store64 \<mu> (slot t i) (set_in_use (tentry \<mu> t i) n)) root q' = lookup \<mu> root q'"
proof -
  let ?e = "set_in_use (tentry \<mu> t i) n"
  let ?\<mu> = "store64 \<mu> (slot t i) ?e"
  show "tree_ok ?\<mu> F root" by (rule tree_changed [OF a]) (use e in \<open>simp_all add: is_table_def set_in_use_flags\<close>)
  show "q \<in> prefixes \<Longrightarrow> tbl ?\<mu> root q = tbl \<mu> root q" by (rule tbl_same [OF a]) simp_all
  assume q: "q' \<in> addr_indices"
  note c = level_entry_changed [OF a _ q, of ?e, simplified]
  have x: "level_entry \<mu> root q' d = Some (tentry \<mu> t i)" if "take d q' = p" "q' ! d = i" for d
    using that at_entryD(3) [OF a] by (simp add: level_entry_def)
  have n: "d = length p" if "take d q' = p" "d \<le> 3" for d
    using that q by (auto simp: addr_indices_def)
  show "lookup ?\<mu> root q' = lookup \<mu> root q'"
  proof (rule lookup_tables)
    fix d :: nat assume "d \<in> {1, 2, 3}"
    then show "level_entry ?\<mu> root q' d = level_entry \<mu> root q' d \<or>
      d \<noteq> 3 \<and> (\<exists>e e'. level_entry \<mu> root q' d = Some e \<and> level_entry ?\<mu> root q' d = Some e' \<and> is_table e \<and> is_table e')"
      using c [of d] x [of d] n [of d] e l by (cases "take d q' = p \<and> q' ! d = i") auto
  qed
qed

subsection \<open>Entries along the way to a page\<close>

lemma tbl_Suc:
  assumes "q \<in> addr_indices" "d \<le> 3"
  shows "tbl \<mu> root (take (Suc d) q) = (case level_entry \<mu> root q d of None \<Rightarrow> None
    | Some e \<Rightarrow> if is_table e then Some (eaddr e) else None)"
proof -
  have "take (Suc d) q = take d q @ [q ! d]" using assms by (simp add: addr_indices_def take_Suc_conv_app_nth)
  then show ?thesis by (simp add: tbl_snoc level_entry_def split: option.split)
qed

lemma level_Suc:
  assumes "q \<in> addr_indices" "d \<le> 2"
  shows "level_entry \<mu> root q (Suc d) = (case level_entry \<mu> root q d of None \<Rightarrow> None
    | Some e \<Rightarrow> if is_table e then Some (tentry \<mu> (eaddr e) (q ! Suc d)) else None)"
  unfolding level_entry_def [of \<mu> root q "Suc d"] using assms by (simp add: tbl_Suc split: option.split)

lemma levels:
  assumes "q \<in> addr_indices"
  shows "level_entry \<mu> root q (Suc 0) = (case level_entry \<mu> root q 0 of None \<Rightarrow> None
      | Some e \<Rightarrow> if is_table e then Some (tentry \<mu> (eaddr e) (q ! Suc 0)) else None)"
    "level_entry \<mu> root q 2 = (case level_entry \<mu> root q (Suc 0) of None \<Rightarrow> None
      | Some e \<Rightarrow> if is_table e then Some (tentry \<mu> (eaddr e) (q ! 2)) else None)"
    "level_entry \<mu> root q 3 = (case level_entry \<mu> root q 2 of None \<Rightarrow> None
      | Some e \<Rightarrow> if is_table e then Some (tentry \<mu> (eaddr e) (q ! 3)) else None)"
proof -
  have "Suc (Suc 0) = 2" "Suc 2 = 3" by simp_all
  with level_Suc [OF assms, of 0 \<mu> root] level_Suc [OF assms, of "Suc 0" \<mu> root] level_Suc [OF assms, of 2 \<mu> root]
  show "level_entry \<mu> root q (Suc 0) = (case level_entry \<mu> root q 0 of None \<Rightarrow> None
      | Some e \<Rightarrow> if is_table e then Some (tentry \<mu> (eaddr e) (q ! Suc 0)) else None)"
    "level_entry \<mu> root q 2 = (case level_entry \<mu> root q (Suc 0) of None \<Rightarrow> None
      | Some e \<Rightarrow> if is_table e then Some (tentry \<mu> (eaddr e) (q ! 2)) else None)"
    "level_entry \<mu> root q 3 = (case level_entry \<mu> root q 2 of None \<Rightarrow> None
      | Some e \<Rightarrow> if is_table e then Some (tentry \<mu> (eaddr e) (q ! 3)) else None)" by (simp_all only: le0 one_le_numeral order_refl One_nat_def [symmetric])
qed

lemma level_cases:
  assumes "d \<le> (3 :: nat)"
  obtains "d = 0" | "d = 1" | "d = 2" | "d = 3"
  using assms by linarith

lemma lookup_absent:
  assumes "q \<in> addr_indices" "level_entry \<mu> root q d = Some e" "\<not> present e" "d \<le> 3"
  shows "lookup \<mu> root q = None"
  using assms(4) by (cases rule: level_cases)
    (use assms(1-3) in \<open>auto simp: lookup_def levels [OF assms(1), of \<mu> root]
      is_table_def split: option.splits if_splits\<close>)

lemma lookup_leaf:
  assumes "q \<in> addr_indices" "level_entry \<mu> root q d = Some e" "present e" "d \<in> {1, 2, 3}" "d \<noteq> 3 \<Longrightarrow> large e"
  shows "lookup \<mu> root q = Some (depth_type d, e)"
proof -
  have "d = 1 \<or> d = 2 \<or> d = 3" using assms(4) by auto
  then show ?thesis by (elim disjE)
    (use assms(1-3,5) in \<open>auto simp: lookup_def levels [OF assms(1), of \<mu> root]
      is_table_def depth_type_def split: option.splits if_splits\<close>)
qed

lemma take_eq_snoc:
  assumes "q \<in> addr_indices" "length p \<le> 3"
  shows "take (Suc (length p)) q = p @ [i] \<longleftrightarrow> take (length p) q = p \<and> q ! length p = i"
proof -
  have "take (Suc (length p)) q = take (length p) q @ [q ! length p]"
    using assms by (simp add: addr_indices_def take_Suc_conv_app_nth)
  then show ?thesis by simp
qed

lemma take_length_index: "q \<in> addr_indices \<Longrightarrow> d \<le> 3 \<Longrightarrow> take d q = p \<Longrightarrow> d = length p"
  by (auto simp: addr_indices_def)

subsection \<open>Adding a table\<close>

text \<open>The entry that \<open>map_raw\<close> writes for a new table.\<close>

definition table_entry :: "u64 \<Rightarrow> u64" where
  "table_entry f = f OR PAGE_USER OR PAGE_WRITE OR PAGE_PRESENT"

lemma table_entry_flags:
  assumes "aligned f" "f < 2 ^ 52"
  shows "is_table (table_entry f)" "eaddr (table_entry f) = f"
proof -
  have a: "\<not> bit f i" if "i < 12" for i
    using assms(1) that unfolding aligned_def by (metis bit_take_bit_iff bit_0_eq bot_apply bot_bool_def)
  have "unat f < 2 ^ 52" using assms(2) by (simp add: word_less_nat_alt)
  then have "unat (take_bit 52 f) = unat f" unfolding unsigned_take_bit_eq by (simp add: take_bit_eq_mod)
  then have "take_bit 52 f = f" by (simp add: word_unat_eq_iff)
  then have b: "\<not> bit f i" if "52 \<le> i" for i using that by (metis bit_take_bit_iff leD)
  have e: "bit (table_entry f) i \<longleftrightarrow> bit f i \<or> i = 0 \<or> i = 1 \<or> i = 2" if "i < 64" for i
    using that unfolding table_entry_def PAGE_USER_def PAGE_WRITE_def PAGE_PRESENT_def bit_or_iff bit_push_bit_iff bit_1_iff
    by auto
  show "is_table (table_entry f)" unfolding is_table_def present_bit large_bit using e [of 0] e [of 7] a [of 7] by simp
  show "eaddr (table_entry f) = f"
  proof (rule bit_word_eqI)
    fix n :: nat assume "n < LENGTH(64)"
    then show "bit (eaddr (table_entry f)) n = bit f n" using a [of n] b [of n] e [of n]
      by (cases "n < 12"; cases "52 \<le> n") (auto simp: bit_eaddr)
  qed
qed

text \<open>A zeroed page of physical memory that is not yet a table.\<close>

definition fresh :: "64 memory \<Rightarrow> u64 set \<Rightarrow> u64 \<Rightarrow> u64 \<Rightarrow> bool" where
  "fresh \<mu> F root f \<longleftrightarrow> f \<in> F \<and> aligned f \<and> f < 2 ^ 52 \<and>
     (\<forall>q \<in> prefixes. tbl \<mu> root q \<noteq> Some f) \<and> (\<forall>j < 512. tentry \<mu> f j = 0)"

lemma zero_entry [simp]: "\<not> present 0" "\<not> is_table 0"
  by (simp_all add: present_def is_table_def)

lemma tentry_fresh:
  assumes a: "at_entry \<mu> F root p t i" and f: "fresh \<mu> F root f" and j: "j < 512"
  shows "tentry (store64 \<mu> (slot t i) e) f j = 0"
proof -
  note d = at_entryD [OF a]
  have "f \<noteq> t" using d(2,3) f by (auto simp: fresh_def)
  then show ?thesis using tentry_store [OF d(6) _ d(4) j, of f \<mu> e] f j by (simp add: fresh_def)
qed

lemma tbl_added:
  assumes a: "at_entry \<mu> F root p t i" and l: "length p \<le> 2" and e: "\<not> present (tentry \<mu> t i)"
    and f: "fresh \<mu> F root f" and q: "q \<in> prefixes"
  shows "tbl (store64 \<mu> (slot t i) (table_entry f)) root q = (if q = p @ [i] then Some f else tbl \<mu> root q)"
  using q
proof (induction q rule: rev_induct)
  case (snoc j q)
  then have q: "q \<in> prefixes" "j < 512" "length q \<le> 2"
    and IH: "tbl (store64 \<mu> (slot t i) (table_entry f)) root q = (if q = p @ [i] then Some f else tbl \<mu> root q)"
    by (simp_all add: prefixes_snoc)
  note d = at_entryD [OF a]
  show ?case
  proof (cases "q = p @ [i]")
    case True
    then have "tbl \<mu> root q = None" using d(3) e by (simp add: tbl_snoc is_table_def)
    moreover have "tbl (store64 \<mu> (slot t i) (table_entry f)) root q = Some f" using True IH by simp
    moreover have "q @ [j] \<noteq> p @ [i]" using True by simp
    ultimately show ?thesis using tentry_fresh [OF a f q(2)] by (simp only: tbl_snoc [of _ _ q]) simp
  next
    case False
    note IH = IH [unfolded if_not_P [OF False]]
    show ?thesis
    proof (cases "tbl \<mu> root q")
      case None
      then show ?thesis using IH d(3) by (auto simp: tbl_snoc)
    next
      case (Some t')
      have "t' = t" if "q = p" using that Some d(3) by simp
      then show ?thesis
        using IH Some tentry_changed [OF a q(1) Some q(2), of "table_entry f"] f table_entry_flags [of f]
        by (auto simp: tbl_snoc fresh_def)
    qed
  qed
qed simp

lemma added:
  assumes a: "at_entry \<mu> F root p t i" and l: "length p \<le> 2" and e: "\<not> present (tentry \<mu> t i)"
    and f: "fresh \<mu> F root f"
  shows "tree_ok (store64 \<mu> (slot t i) (table_entry f)) F root"
    "q \<in> addr_indices \<Longrightarrow> lookup (store64 \<mu> (slot t i) (table_entry f)) root q = lookup \<mu> root q"
proof -
  let ?\<mu> = "store64 \<mu> (slot t i) (table_entry f)"
  note d = at_entryD [OF a]
  note s = tbl_added [OF a l e f]
  have fl: "\<not> large (table_entry f)" "is_table (table_entry f)" using f table_entry_flags [of f] by (auto simp: fresh_def is_table_def)
  have "\<not> large (tentry ?\<mu> root j)" if "j < 512" for j
    using tentry_changed [OF a Nil_prefix _ that, of root "table_entry f"] tree_ok_root(3) [OF d(1) that] fl by auto
  moreover have "\<forall>q \<in> prefixes. \<forall>t'. tbl ?\<mu> root q = Some t' \<longrightarrow> t' \<in> F \<and> aligned t'"
    using s tree_okD(1,2) [OF d(1)] f by (auto simp: fresh_def)
  moreover have "\<forall>q \<in> prefixes. \<forall>r \<in> prefixes. \<forall>t'. tbl ?\<mu> root q = Some t' \<longrightarrow>
      tbl ?\<mu> root r = Some t' \<longrightarrow> q = r"
    using s tree_okD(3) [OF d(1)] f by (auto simp: fresh_def split: if_splits)
  ultimately show "tree_ok ?\<mu> F root" unfolding tree_ok_def by blast
  assume q: "q \<in> addr_indices"
  have s: "tbl ?\<mu> root (take n q) = (if take n q = p @ [i] then Some f else tbl \<mu> root (take n q))" if "n \<le> 3" for n
    using s take_prefix [OF q that] .
  show "lookup ?\<mu> root q = lookup \<mu> root q"
  proof (cases "take (length p) q = p \<and> q ! length p = i")
    case True
    then have "level_entry \<mu> root q (length p) = Some (tentry \<mu> t i)" using d(3) by (simp add: level_entry_def)
    then have "lookup \<mu> root q = None" using l by (intro lookup_absent [OF q _ e]) auto
    moreover have "take (Suc (length p)) q = p @ [i]" using True take_eq_snoc [OF q] l by simp
    then have "level_entry ?\<mu> root q (Suc (length p)) = Some 0"
      using s [of "Suc (length p)"] tentry_fresh [OF a f index_lt [OF q]] l by (simp add: level_entry_def)
    then have "lookup ?\<mu> root q = None" using l by (intro lookup_absent [OF q]) auto
    ultimately show ?thesis by simp
  next
    case False
    show ?thesis
    proof (rule lookup_cong)
      fix n :: nat assume "n \<in> {1, 2, 3}"
      then have n: "n \<le> 3" by auto
      have "take n q \<noteq> p @ [i]" using False take_length_index [OF q n, of "p @ [i]"] take_eq_snoc [OF q, of p i] l by auto
      moreover have "\<not> (take n q = p \<and> q ! n = i)" using False take_length_index [OF q n, of p] by auto
      ultimately show "level_entry ?\<mu> root q n = level_entry \<mu> root q n"
        using s [OF n] tentry_changed [OF a take_prefix [OF q n] _ index_lt [OF q n], of _ "table_entry f"]
        by (cases "tbl \<mu> root (take n q)") (auto simp: level_entry_def)
    qed
  qed
qed

subsection \<open>Writing a page\<close>

lemma written:
  assumes a: "at_entry \<mu> F root p t i" and l: "length p \<in> {1, 2, 3}" and e: "\<not> present (tentry \<mu> t i)"
    and r: "present raw" "length p \<noteq> 3 \<Longrightarrow> large raw"
  shows "tree_ok (store64 \<mu> (slot t i) raw) F root"
    "q \<in> prefixes \<Longrightarrow> tbl (store64 \<mu> (slot t i) raw) root q = tbl \<mu> root q"
    "q' \<in> addr_indices \<Longrightarrow> lookup (store64 \<mu> (slot t i) raw) root q' =
      (if take (Suc (length p)) q' = p @ [i] then Some (depth_type (length p), raw) else lookup \<mu> root q')"
proof -
  let ?\<mu> = "store64 \<mu> (slot t i) raw"
  have st: "same_table (tentry \<mu> t i) raw" if "length p \<le> 2"
    using that e r by (auto simp: same_table_def is_table_def)
  show "tree_ok ?\<mu> F root" by (rule tree_changed [OF a st]) (use l in auto)
  show "q \<in> prefixes \<Longrightarrow> tbl ?\<mu> root q = tbl \<mu> root q" by (rule tbl_same [OF a st])
  assume q: "q' \<in> addr_indices"
  have l3: "length p \<le> 3" using l by auto
  have c: "level_entry ?\<mu> root q' n = (if take n q' = p \<and> q' ! n = i then Some raw else level_entry \<mu> root q' n)"
    if "n \<le> 3" for n by (rule level_entry_changed [OF a st q that])
  show "lookup ?\<mu> root q' =
      (if take (Suc (length p)) q' = p @ [i] then Some (depth_type (length p), raw) else lookup \<mu> root q')"
  proof (cases "take (Suc (length p)) q' = p @ [i]")
    case True
    then have "level_entry ?\<mu> root q' (length p) = Some raw" using c [OF l3] take_eq_snoc [OF q l3] by simp
    then have "lookup ?\<mu> root q' = Some (depth_type (length p), raw)" by (rule lookup_leaf [OF q _ r(1) l]) (rule r(2))
    with True show ?thesis by simp
  next
    case False
    have "lookup ?\<mu> root q' = lookup \<mu> root q'"
    proof (rule lookup_cong)
      fix n :: nat assume "n \<in> {1, 2, 3}"
      then have n: "n \<le> 3" by auto
      then show "level_entry ?\<mu> root q' n = level_entry \<mu> root q' n"
        using c [OF n] False take_eq_snoc [OF q l3] take_length_index [OF q n, of p] by auto
    qed
    with False show ?thesis by simp
  qed
qed

end
