(* ===== verification/PageTable_Refine.thy ===== *)
theory PageTable_Refine
  imports PageTable_Correct
begin

text \<open>
  The operations on page tables refine lookups and updates of the map that the tables
  represent. The physical memory is used through the locale \<open>phys_memory\<close>: what the page tables
  need of an implementation of \<open>PhysMem\<close>.
\<close>

unbundle bit_operations_syntax

subsection \<open>Results that may only fail for one reason\<close>

definition sat :: "(string \<Rightarrow> bool) \<Rightarrow> ('a \<Rightarrow> bool) \<Rightarrow> 'a res \<Rightarrow> bool" where
  "sat P Q r = (case r of Panic msg \<Rightarrow> P msg | Ok x \<Rightarrow> Q x)"

lemma sat_simps [simp]: "sat P Q (Panic msg) = P msg" "sat P Q (Ok x) = Q x"
  by (simp_all add: sat_def)

lemma sat_bind: "sat P Q a \<Longrightarrow> (\<And>x. a = Ok x \<Longrightarrow> Q x \<Longrightarrow> sat P R (f x)) \<Longrightarrow> sat P R (bindR a f)"
  by (cases a) auto

lemma sat_mono: "sat P Q a \<Longrightarrow> (\<And>x. Q x \<Longrightarrow> R x) \<Longrightarrow> sat P R a"
  by (cases a) auto

lemma sat_fold:
  assumes "Q n s" "\<And>s i. Q i s \<Longrightarrow> n \<le> i \<Longrightarrow> i < m \<Longrightarrow> sat P (Q (Suc i)) (f s i)" "n \<le> m"
  shows "sat P (Q m) (foldR f s [n..<m])"
  using assms
proof (induction "m - n" arbitrary: n s)
  case (Suc k)
  then have n: "[n..<m] = n # [Suc n..<m]" "n < m" by (auto simp: upt_conv_Cons)
  have "sat P (Q (Suc n)) (f s n)" using Suc.prems n(2) by auto
  then have "sat P (Q m) (bindR (f s n) (\<lambda>s'. foldR f s' [Suc n..<m]))"
  proof (rule sat_bind)
    fix x assume "Q (Suc n) x"
    then show "sat P (Q m) (foldR f x [Suc n..<m])"
      using Suc.hyps(2) Suc.prems n(2) by (intro Suc.hyps(1)) auto
  qed
  then show ?case unfolding n(1) by simp
qed simp

subsection \<open>Memory seen at physical addresses\<close>

definition view :: "u64 \<Rightarrow> 64 memory \<Rightarrow> 64 memory" where
  "view b m = (\<lambda>a. m (a + b))"

lemma load_view: "load64 m (a + b) = load64 (view b m) a"
proof -
  have "read_bytes m (a + b) 8 = read_bytes (view b m) a 8"
    by (simp add: read_bytes_def view_def algebra_simps)
  then show ?thesis by (simp add: load64_def)
qed

lemma view_store: "view b (store64 m (a + b) v) = store64 (view b m) a v"
  by (simp add: view_def store64_def store_bytes_def cong: if_cong)

lemma view_fill: "view b (fill_bytes m (a + b) n f) = fill_bytes (view b m) a n f"
  by (simp add: view_def fill_bytes_def cong: if_cong)

definition pview :: "'s PhysMem \<Rightarrow> u64 \<Rightarrow> 's \<Rightarrow> 64 memory" where
  "pview pm b s = view b (pm_mem pm s)"

lemma store_frame:
  assumes "aligned t" "i < 512" "frame a \<noteq> t"
  shows "store64 \<mu> (slot t i) v a = \<mu> a"
proof -
  have "\<not> unat (a - slot t i) < 8"
  proof
    assume "unat (a - slot t i) < 8"
    from slot_byte_frame [OF assms(1,2) this] assms(3) show False by simp
  qed
  then show ?thesis by (simp add: store64_def store_bytes_def)
qed

lemma fill_frame:
  assumes "aligned f"
  shows "fill_bytes \<mu> f 4096 g a = (if frame a = f then g (take_bit 12 a) else \<mu> a)"
proof (cases "frame a = f")
  case True
  have "a - f = take_bit 12 a" using frame_plus_offset [of a] True by (simp add: algebra_simps)
  moreover have "unat (take_bit 12 a) < 4096"
    unfolding unsigned_take_bit_eq by (simp add: take_bit_eq_mod)
  ultimately show ?thesis using True by (simp add: fill_bytes_def)
next
  case False
  have "\<not> unat (a - f) < 4096"
  proof
    assume "unat (a - f) < 4096"
    from frame_add(1) [OF assms this] False show False by simp
  qed
  with False show ?thesis by (simp add: fill_bytes_def)
qed

lemma tentry_zero:
  assumes "aligned f" "\<And>a. frame a = f \<Longrightarrow> \<mu> a = 0" "j < 512"
  shows "tentry \<mu> f j = 0"
proof -
  have "read_bytes \<mu> (slot f j) 8 = replicate 8 0"
    by (rule nth_equalityI) (simp_all add: read_bytes_def assms(2) slot_byte_frame [OF assms(1,3)])
  also have "\<dots> = to_le 8 (0 :: u64)" by (simp add: to_le_def map_replicate_const)
  finally show ?thesis by (simp add: tentry_def load64_def from_le_to_le)
qed

subsection \<open>What the page tables need of physical memory\<close>

text \<open>
  \<open>I\<close> is the invariant of the implementation and \<open>owned\<close> are the pages that are not free. The
  memory of the page at \<open>f\<close> is found at \<open>f + base\<close>.
\<close>

locale phys_memory =
  fixes pm :: "'s PhysMem" and I :: "'s \<Rightarrow> bool" and owned :: "'s \<Rightarrow> u64 set" and base :: u64
  assumes owned_page: "I s \<Longrightarrow> f \<in> owned s \<Longrightarrow> aligned f \<and> f < 2 ^ 52"
    and translate_ok: "I s \<Longrightarrow> f \<in> owned s \<Longrightarrow> n > 0 \<Longrightarrow> unat o1 + unat n \<le> 4096 \<Longrightarrow>
      pm_translate pm s (f + o1) n = Ok (f + o1 + base)"
    and mem_set: "pm_mem pm (pm_set_mem pm m s) = m"
    and set_ok: "I s \<Longrightarrow> agree (- owned s) (pview pm base s) (view base m) \<Longrightarrow>
      I (pm_set_mem pm m s) \<and> owned (pm_set_mem pm m s) = owned s"
    and alloc_ok: "I s \<Longrightarrow> pm_alloc pm s (page_layout 4096) = Ok (f, s') \<Longrightarrow>
      I s' \<and> f \<notin> owned s \<and> insert f (owned s) \<subseteq> owned s' \<and> agree (owned s) (pview pm base s) (pview pm base s')"
    and free_ok: "I s \<Longrightarrow> f \<in> owned s \<Longrightarrow> pm_free pm s f 4096 = Ok s' \<Longrightarrow>
      I s' \<and> f \<notin> owned s' \<and> owned s - {f} \<subseteq> owned s' \<and> agree (owned s - {f}) (pview pm base s) (pview pm base s')"
begin

lemma pview_set: "pview pm base (pm_set_mem pm m s) = view base m"
  by (simp add: pview_def mem_set)

lemma slot_translate:
  assumes "I s" "t \<in> owned s" "i < 512"
  shows "pm_translate pm s (slot t i) 8 = Ok (slot t i + base)"
proof -
  have "unat i < 512" using assms(3) by (simp add: word_less_nat_alt)
  then have "unat (i * 8) + unat (8 :: u64) \<le> 4096" using index_bytes(1) [OF assms(3)] by simp
  from translate_ok [OF assms(1,2) _ this] show ?thesis by (simp add: slot_def)
qed

lemma entry_read_ok:
  "I s \<Longrightarrow> t \<in> owned s \<Longrightarrow> i < 512 \<Longrightarrow> entry_read pm s (slot t i) = Ok (tentry (pview pm base s) t i)"
  by (simp add: entry_read_def slot_translate load_view tentry_def pview_def)

lemma set_entry:
  fixes v :: u64
  assumes "I s" "t \<in> owned s" "i < 512"
  defines "s' \<equiv> pm_set_mem pm (store64 (pm_mem pm s) (slot t i + base) v) s"
  shows "I s'" "owned s' = owned s" "pview pm base s' = store64 (pview pm base s) (slot t i) v"
proof -
  have v: "view base (store64 (pm_mem pm s) (slot t i + base) v) = store64 (pview pm base s) (slot t i) v"
    by (simp add: view_store pview_def)
  then show "pview pm base s' = store64 (pview pm base s) (slot t i) v" by (simp add: s'_def pview_set)
  have "agree (- owned s) (pview pm base s) (store64 (pview pm base s) (slot t i) v)"
    unfolding agree_def
  proof (intro allI impI)
    fix a assume "frame a \<in> - owned s"
    then have "frame a \<noteq> t" using assms(2) by auto
    then show "store64 (pview pm base s) (slot t i) v a = pview pm base s a"
      using owned_page [OF assms(1,2)] assms(3) by (intro store_frame) auto
  qed
  then show "I s'" "owned s' = owned s" using set_ok [OF assms(1)] v by (simp_all add: s'_def)
qed

lemma entry_write_ok:
  assumes "I s" "t \<in> owned s" "i < 512"
  obtains s' where "entry_write pm s (slot t i) v = Ok s'" "I s'" "owned s' = owned s"
    "pview pm base s' = store64 (pview pm base s) (slot t i) v"
  using set_entry [OF assms, of v] that by (simp add: entry_write_def slot_translate [OF assms])

lemma alloc_zeroed_ok:
  assumes "I s"
  shows "sat (\<lambda>msg. pm_alloc pm s (page_layout 4096) = Panic msg)
    (\<lambda>(f, s'). I s' \<and> f \<notin> owned s \<and> insert f (owned s) \<subseteq> owned s' \<and>
       agree (owned s) (pview pm base s) (pview pm base s') \<and> (\<forall>a. frame a = f \<longrightarrow> pview pm base s' a = 0))
    (alloc_phys_zeroed pm s (page_layout 4096))"
proof (cases "pm_alloc pm s (page_layout 4096)")
  case (Panic msg)
  then show ?thesis by (simp add: alloc_phys_zeroed_def)
next
  case (Ok r)
  obtain f s1 where r: "r = (f, s1)" by (cases r)
  note a = alloc_ok [OF assms Ok [unfolded r]]
  then have f: "f \<in> owned s1" by simp
  have I1: "I s1" using a by simp
  have al: "aligned f" using owned_page [OF I1 f] by simp
  have t: "pm_translate pm s1 f 4096 = Ok (f + base)" using translate_ok [OF I1 f, of 4096 0] by simp
  let ?m = "fill_bytes (pm_mem pm s1) (f + base) 4096 (\<lambda>_. 0)"
  have v: "view base ?m = fill_bytes (pview pm base s1) f 4096 (\<lambda>_. 0)" by (simp add: view_fill pview_def)
  have "agree (- owned s1) (pview pm base s1) (view base ?m)"
    unfolding v using f by (auto simp: agree_def fill_frame [OF al])
  from set_ok [OF I1 this] have s: "I (pm_set_mem pm ?m s1)" "owned (pm_set_mem pm ?m s1) = owned s1" by simp_all
  have "agree (owned s) (pview pm base s) (pview pm base (pm_set_mem pm ?m s1))"
    using a unfolding pview_set v by (auto simp: agree_def fill_frame [OF al])
  moreover have "\<forall>a. frame a = f \<longrightarrow> pview pm base (pm_set_mem pm ?m s1) a = 0"
    unfolding pview_set v by (simp add: fill_frame [OF al])
  ultimately show ?thesis using Ok r t s a by (simp add: alloc_phys_zeroed_def page_layout_def)
qed

end

subsection \<open>Translation\<close>

lemma indicies_in [simp]: "indicies v \<in> addr_indices"
proof -
  have "x AND 0x1ff < (512 :: u64)" for x
  proof -
    have "x AND 0x1ff = take_bit 9 x" by (simp add: take_bit_eq_mask mask_eq_exp_minus_1)
    moreover have "unat (take_bit 9 x) < 512" unfolding unsigned_take_bit_eq by (simp add: take_bit_eq_mod)
    ultimately show ?thesis by (simp add: word_less_nat_alt)
  qed
  then show ?thesis by (simp add: indicies_def addr_indices_def)
qed

text \<open>The address of the entry at each level, and the mapping \<open>translate\<close> is to return.\<close>

definition level_slot :: "64 memory \<Rightarrow> u64 \<Rightarrow> u64 list \<Rightarrow> nat \<Rightarrow> u64 option" where
  "level_slot \<mu> root q d = map_option (\<lambda>t. slot t (q ! d)) (tbl \<mu> root (take d q))"

definition page_of :: "u64 \<Rightarrow> PageType \<times> u64 \<Rightarrow> u64 \<times> u64" where
  "page_of v te = (case te of (ty, e) \<Rightarrow> (eaddr e AND NOT (page_bytes ty - 1), v AND (page_bytes ty - 1)))"

definition mapping_of :: "64 memory \<Rightarrow> u64 \<Rightarrow> u64 \<Rightarrow> Mapping" where
  "mapping_of \<mu> root v =
     \<lparr>pml4e = level_slot \<mu> root (indicies v) 0, pdpe = level_slot \<mu> root (indicies v) 1,
      pde = level_slot \<mu> root (indicies v) 2, pte = level_slot \<mu> root (indicies v) 3,
      page = map_option (page_of v) (lookup \<mu> root (indicies v))\<rparr>"

lemma level_slot_level:
  assumes "q \<in> addr_indices" "d \<le> 2"
  shows "level_slot \<mu> root q (Suc d) = (case level_entry \<mu> root q d of None \<Rightarrow> None
    | Some e \<Rightarrow> if is_table e then Some (slot (eaddr e) (q ! Suc d)) else None)"
  unfolding level_slot_def using assms by (simp add: tbl_Suc split: option.split)

lemma level_slots:
  assumes "q \<in> addr_indices"
  shows "level_slot \<mu> root q 0 = Some (slot root (q ! 0))"
    "level_slot \<mu> root q (Suc 0) = (case level_entry \<mu> root q 0 of None \<Rightarrow> None
      | Some e \<Rightarrow> if is_table e then Some (slot (eaddr e) (q ! Suc 0)) else None)"
    "level_slot \<mu> root q 2 = (case level_entry \<mu> root q (Suc 0) of None \<Rightarrow> None
      | Some e \<Rightarrow> if is_table e then Some (slot (eaddr e) (q ! 2)) else None)"
    "level_slot \<mu> root q 3 = (case level_entry \<mu> root q 2 of None \<Rightarrow> None
      | Some e \<Rightarrow> if is_table e then Some (slot (eaddr e) (q ! 3)) else None)"
proof -
  have n: "Suc (Suc 0) = 2" "Suc 2 = 3" by simp_all
  show "level_slot \<mu> root q 0 = Some (slot root (q ! 0))" by (simp add: level_slot_def)
  show "level_slot \<mu> root q (Suc 0) = (case level_entry \<mu> root q 0 of None \<Rightarrow> None
      | Some e \<Rightarrow> if is_table e then Some (slot (eaddr e) (q ! Suc 0)) else None)"
    by (rule level_slot_level [OF assms]) simp
  show "level_slot \<mu> root q 2 = (case level_entry \<mu> root q (Suc 0) of None \<Rightarrow> None
      | Some e \<Rightarrow> if is_table e then Some (slot (eaddr e) (q ! 2)) else None)"
    using level_slot_level [OF assms, of "Suc 0" \<mu> root] unfolding n by simp
  show "level_slot \<mu> root q 3 = (case level_entry \<mu> root q 2 of None \<Rightarrow> None
      | Some e \<Rightarrow> if is_table e then Some (slot (eaddr e) (q ! 3)) else None)"
    using level_slot_level [OF assms, of 2 \<mu> root] unfolding n by simp
qed

context phys_memory
begin

text \<open>One level of the walk.\<close>

lemma walk_level:
  assumes I: "I s" and T: "tree_ok (pview pm base s) (owned s) root"
    and q: "q \<in> addr_indices" "d \<le> 3" "tbl (pview pm base s) root (take d q) = Some t"
  defines "e \<equiv> tentry (pview pm base s) t (q ! d)"
  shows "walk pm s v t d (q ! d # is) ret = (let ret = set_level d (slot t (q ! d)) ret in
    if \<not> present e then Ok ret
    else if d = 3 \<or> large e then
      (if d = 0 then Ok ret else Ok (ret\<lparr>page := Some (page_of v (depth_type d, e))\<rparr>))
    else walk pm s v (eaddr e) (d + 1) is ret)"
proof -
  have "t \<in> owned s" using tree_okD(1) [OF T take_prefix [OF q(1,2)] q(3)] .
  then have "entry_read pm s (t + q ! d * 8) = Ok e"
    using entry_read_ok [OF I _ index_lt [OF q(1,2)]] by (simp add: e_def slot_def)
  then show ?thesis by (simp add: present_def large_def eaddr_def slot_def page_of_def Let_def)
qed

lemma translate_mapping:
  assumes I: "I s" and T: "tree_ok (pview pm base s) (owned s) root"
  shows "pt_translate pm \<lparr>table = root\<rparr> s v =
    Ok (if canonicalize_address v = v then Some (mapping_of (pview pm base s) root v) else None)"
proof -
  let ?\<mu> = "pview pm base s"
  define q where "q = indicies v"
  have q: "q \<in> addr_indices" by (simp add: q_def)
  have l: "indicies v = [q ! 0, q ! Suc 0, q ! 2, q ! 3]"
    by (simp add: q_def indicies_def)
  note w = walk_level [OF I T q]
  note tb = tbl_Suc [OF q, of 0 ?\<mu> root] tbl_Suc [OF q, of "Suc 0" ?\<mu> root] tbl_Suc [OF q, of 2 ?\<mu> root]
  have w0: "walk pm s v root 0 [q ! 0, q ! Suc 0, q ! 2, q ! 3] mapping_empty = Ok (mapping_of ?\<mu> root v)"
  proof -
    let ?e0 = "tentry ?\<mu> root (q ! 0)"
    let ?e1 = "tentry ?\<mu> (eaddr ?e0) (q ! Suc 0)"
    let ?e2 = "tentry ?\<mu> (eaddr ?e1) (q ! 2)"
    let ?e3 = "tentry ?\<mu> (eaddr ?e2) (q ! 3)"
    have L0: "level_entry ?\<mu> root q 0 = Some ?e0" by (simp add: level_entry_def)
    note L = levels [OF q, of ?\<mu> root] L0
    have t1: "tbl ?\<mu> root (take (Suc 0) q) = Some (eaddr ?e0)" if "is_table ?e0"
      using tb(1) L0 that by simp
    have t2: "tbl ?\<mu> root (take 2 q) = Some (eaddr ?e1)" if "is_table ?e0" "is_table ?e1"
      using tb(2) L that by (simp add: numeral_2_eq_2)
    have t3: "tbl ?\<mu> root (take 3 q) = Some (eaddr ?e2)" if "is_table ?e0" "is_table ?e1" "is_table ?e2"
      using tb(3) L that by (simp add: numeral_3_eq_3 numeral_2_eq_2)
    have nl: "\<not> large ?e0" using tree_ok_root(3) [OF T index_lt [OF q]] by simp
    have q0: "take 0 q = []" by simp
    have W0: "walk pm s v root 0 (q ! 0 # is) ret = (let ret = set_level 0 (slot root (q ! 0)) ret in
        if is_table ?e0 then walk pm s v (eaddr ?e0) (Suc 0) is ret else Ok ret)" for "is" ret
      using w [of 0 root v "is" ret] nl by (auto simp: is_table_def Let_def)
    have W1: "walk pm s v (eaddr ?e0) (Suc 0) (q ! Suc 0 # is) ret = (let ret = set_level 1 (slot (eaddr ?e0) (q ! Suc 0)) ret in
        if is_table ?e1 then walk pm s v (eaddr ?e1) 2 is ret
        else Ok (if present ?e1 then ret\<lparr>page := Some (page_of v (Page1G, ?e1))\<rparr> else ret))" if "is_table ?e0" for "is" ret
      using w [of 1 "eaddr ?e0" v "is" ret] t1 [OF that] by (auto simp: is_table_def Let_def depth_type_def numeral_2_eq_2)
    have W2: "walk pm s v (eaddr ?e1) 2 (q ! 2 # is) ret = (let ret = set_level 2 (slot (eaddr ?e1) (q ! 2)) ret in
        if is_table ?e2 then walk pm s v (eaddr ?e2) 3 is ret
        else Ok (if present ?e2 then ret\<lparr>page := Some (page_of v (Page2M, ?e2))\<rparr> else ret))" if "is_table ?e0" "is_table ?e1" for "is" ret
      using w [of 2 "eaddr ?e1" v "is" ret] t2 [OF that] by (auto simp: is_table_def Let_def depth_type_def)
    have W3: "walk pm s v (eaddr ?e2) 3 (q ! 3 # is) ret = (let ret = set_level 3 (slot (eaddr ?e2) (q ! 3)) ret in
        Ok (if present ?e3 then ret\<lparr>page := Some (page_of v (Page4K, ?e3))\<rparr> else ret))"
      if "is_table ?e0" "is_table ?e1" "is_table ?e2" for "is" ret
      using w [of 3 "eaddr ?e2" v "is" ret] t3 [OF that] by (auto simp: Let_def depth_type_def)
    have M: "mapping_of ?\<mu> root v = \<lparr>pml4e = Some (slot root (q ! 0)),
        pdpe = (if is_table ?e0 then Some (slot (eaddr ?e0) (q ! Suc 0)) else None),
        pde = (if is_table ?e0 \<and> is_table ?e1 then Some (slot (eaddr ?e1) (q ! 2)) else None),
        pte = (if is_table ?e0 \<and> is_table ?e1 \<and> is_table ?e2 then Some (slot (eaddr ?e2) (q ! 3)) else None),
        page = (if is_table ?e0 then
          if is_table ?e1 then
            if is_table ?e2 then if present ?e3 then Some (page_of v (Page4K, ?e3)) else None
            else if present ?e2 then Some (page_of v (Page2M, ?e2)) else None
          else if present ?e1 then Some (page_of v (Page1G, ?e1)) else None else None)\<rparr>"
      unfolding mapping_of_def q_def [symmetric] lookup_def
      by (simp add: level_slots [OF q] L is_table_def)
    show ?thesis unfolding M
      by (cases "is_table ?e0"; cases "is_table ?e1"; cases "is_table ?e2")
        (simp_all add: W0 W1 W2 W3 set_level_def mapping_empty_def Let_def del: walk.simps)
  qed
  then show ?thesis unfolding pt_translate_def l by (simp add: someR_def)
qed

end

subsection \<open>Growing the tables\<close>

text \<open>The pages that are owned but are not tables.\<close>

definition data_pages :: "64 memory \<Rightarrow> u64 set \<Rightarrow> u64 \<Rightarrow> u64 set" where
  "data_pages \<mu> F root = {g \<in> F. \<forall>p \<in> prefixes. tbl \<mu> root p \<noteq> Some g}"

text \<open>The tables represent the map \<open>L\<close>, and the data pages \<open>D\<close> hold what they held in \<open>\<mu>0\<close>.\<close>

definition keeps :: "u64 set \<Rightarrow> (u64 list \<Rightarrow> (PageType \<times> u64) option) \<Rightarrow> 64 memory \<Rightarrow> 64 memory \<Rightarrow> u64 set \<Rightarrow> u64 \<Rightarrow> bool" where
  "keeps D L \<mu>0 \<mu> F root \<longleftrightarrow> tree_ok \<mu> F root \<and> (\<forall>q \<in> addr_indices. lookup \<mu> root q = L q) \<and>
     D \<subseteq> data_pages \<mu> F root \<and> agree D \<mu>0 \<mu>"

lemma keeps_start: "tree_ok \<mu> F root \<Longrightarrow> keeps (data_pages \<mu> F root) (lookup \<mu> root) \<mu> \<mu> F root"
  by (simp add: keeps_def agree_def)

lemma data_store:
  assumes a: "at_entry \<mu> F root p t i" and D: "D \<subseteq> data_pages \<mu> F root" "agree D \<mu>0 \<mu>"
  shows "agree D \<mu>0 (store64 \<mu> (slot t i) e)"
  unfolding agree_def
proof (intro allI impI)
  fix x assume x: "frame x \<in> D"
  note d = at_entryD [OF a]
  have "frame x \<noteq> t" using x D(1) d(2,3) by (auto simp: data_pages_def)
  then have "store64 \<mu> (slot t i) e x = \<mu> x" by (rule store_frame [OF d(6,4)])
  with x D(2) show "store64 \<mu> (slot t i) e x = \<mu>0 x" by (simp add: agree_def)
qed

lemma keeps_alloc:
  assumes k: "keeps D L \<mu>0 \<mu> F root" and a: "agree F \<mu> \<mu>'" "insert f F \<subseteq> F'" "f \<notin> F"
    and f: "aligned f" "f < 2 ^ 52" "\<forall>a. frame a = f \<longrightarrow> \<mu>' a = 0"
  shows "keeps D L \<mu>0 \<mu>' F' root" "fresh \<mu>' F' root f" "p \<in> prefixes \<Longrightarrow> tbl \<mu>' root p = tbl \<mu> root p"
proof -
  have T: "tree_ok \<mu> F root" using k by (simp add: keeps_def)
  note t = tbl_agree [OF T a(1)]
  then show "p \<in> prefixes \<Longrightarrow> tbl \<mu>' root p = tbl \<mu> root p" .
  have "tree_ok \<mu>' F' root" using tree_agree [OF T a(1)] a(2) by blast
  moreover have "D \<subseteq> data_pages \<mu>' F' root" using k t a(2) by (auto simp: keeps_def data_pages_def)
  moreover have "agree D \<mu>0 \<mu>'" using k a(1) by (auto simp: keeps_def agree_def data_pages_def)
  ultimately show "keeps D L \<mu>0 \<mu>' F' root" using k lookup_agree [OF T a(1)] by (simp add: keeps_def)
  have "tbl \<mu>' root p \<noteq> Some f" if "p \<in> prefixes" for p
    using t [OF that] tree_okD(1) [OF T that] a(3) by auto
  moreover have "tentry \<mu>' f j = 0" if "j < 512" for j using f(3) by (intro tentry_zero [OF f(1) _ that]) simp
  ultimately show "fresh \<mu>' F' root f" using a(2) f by (simp add: fresh_def)
qed

lemma keeps_count:
  fixes n :: u64
  assumes k: "keeps D L \<mu>0 \<mu> F root" and a: "at_entry \<mu> F root p t i" "is_table (tentry \<mu> t i)" "length p \<le> 2"
  defines "\<mu>' \<equiv> store64 \<mu> (slot t i) (set_in_use (tentry \<mu> t i) n)"
  shows "keeps D L \<mu>0 \<mu>' F root" "q \<in> prefixes \<Longrightarrow> tbl \<mu>' root q = tbl \<mu> root q"
    "fresh \<mu> F root f \<Longrightarrow> fresh \<mu>' F root f"
proof -
  note c = counted [OF a, where n = n, folded \<mu>'_def]
  show t: "q \<in> prefixes \<Longrightarrow> tbl \<mu>' root q = tbl \<mu> root q" for q by (rule c(2))
  have "data_pages \<mu>' F root = data_pages \<mu> F root" using t by (auto simp: data_pages_def)
  then show "keeps D L \<mu>0 \<mu>' F root"
    using k c data_store [OF a(1)] by (simp add: keeps_def \<mu>'_def)
  assume "fresh \<mu> F root f"
  with t tentry_fresh [OF a(1)] show "fresh \<mu>' F root f" by (simp add: fresh_def \<mu>'_def)
qed

lemma keeps_add:
  assumes k: "keeps D L \<mu>0 \<mu> F root" and a: "at_entry \<mu> F root p t i" "length p \<le> 2" "\<not> present (tentry \<mu> t i)"
    "fresh \<mu> F root f" and f: "f \<notin> D"
  shows "keeps D L \<mu>0 (store64 \<mu> (slot t i) (table_entry f)) F root"
proof -
  have "D \<subseteq> data_pages (store64 \<mu> (slot t i) (table_entry f)) F root"
    using k f tbl_added [OF a] by (auto simp: keeps_def data_pages_def split: if_splits)
  then show ?thesis using k added [OF a] data_store [OF a(1)] by (simp add: keeps_def)
qed

text \<open>No table has appeared at a depth of at least \<open>depth\<close>.\<close>

definition shallow :: "nat \<Rightarrow> 64 memory \<Rightarrow> 64 memory \<Rightarrow> u64 \<Rightarrow> bool" where
  "shallow depth \<mu>0 \<mu> root \<longleftrightarrow> (\<forall>p \<in> prefixes. depth \<le> length p \<longrightarrow> tbl \<mu>0 root p = None \<longrightarrow> tbl \<mu> root p = None)"

text \<open>What the loop over the levels of \<open>map_raw\<close> maintains before level \<open>ii\<close>.\<close>

definition grown :: "u64 set \<Rightarrow> (u64 list \<Rightarrow> (PageType \<times> u64) option) \<Rightarrow> 64 memory \<Rightarrow> u64 \<Rightarrow> u64 list \<Rightarrow> nat \<Rightarrow> nat
    \<Rightarrow> u64 option list \<Rightarrow> 64 memory \<Rightarrow> u64 set \<Rightarrow> bool" where
  "grown D L \<mu>0 root q depth ii es \<mu> F \<longleftrightarrow> keeps D L \<mu>0 \<mu> F root \<and>
     es = map (level_slot \<mu> root q) [0..<4] \<and> tbl \<mu> root (take (ii - 1) q) \<noteq> None \<and>
     (if depth \<le> 3 then tbl \<mu> root (take depth q) = None else True) \<and> shallow depth \<mu>0 \<mu> root"

lemma absent_above:
  assumes T: "tree_ok \<mu> F root" and q: "q \<in> addr_indices" "lookup \<mu> root q = None"
    and d: "d \<le> 3" "tbl \<mu> root (take d q) = Some t"
    and n: "d \<noteq> 3 \<Longrightarrow> tbl \<mu> root (take (Suc d) q) = None"
  shows "\<not> present (tentry \<mu> t (q ! d))"
proof
  assume p: "present (tentry \<mu> t (q ! d))"
  have l: "level_entry \<mu> root q d = Some (tentry \<mu> t (q ! d))" using d(2) by (simp add: level_entry_def)
  have g: "large (tentry \<mu> t (q ! d))" if "d \<noteq> 3"
    using tbl_Suc [OF q(1) d(1), of \<mu> root] n [OF that] l p by (auto simp: is_table_def split: if_splits)
  show False
  proof (cases "d = 0")
    case True
    with g tree_ok_root(3) [OF T index_lt [OF q(1) d(1)]] d(2) show False by simp
  next
    case False
    then have "d \<in> {1, 2, 3}" using d(1) by auto
    from lookup_leaf [OF q(1) l p this] g q(2) show False by simp
  qed
qed

context phys_memory
begin

lemma count_ok:
  assumes "I s" "at_entry (pview pm base s) (owned s) root p t i"
  obtains s' n where "count_entry pm s (slot t i) = Ok s'" "I s'" "owned s' = owned s"
    "pview pm base s' = store64 (pview pm base s) (slot t i) (set_in_use (tentry (pview pm base s) t i) n)"
proof -
  note d = at_entryD [OF assms(2)]
  note r = entry_read_ok [OF assms(1) d(5,4)]
  obtain s' where "entry_write pm s (slot t i) (set_in_use (tentry (pview pm base s) t i)
      (entry_in_use (tentry (pview pm base s) t i) + 1)) = Ok s'" "I s'" "owned s' = owned s"
    "pview pm base s' = store64 (pview pm base s) (slot t i) (set_in_use (tentry (pview pm base s) t i)
      (entry_in_use (tentry (pview pm base s) t i) + 1))"
    by (rule entry_write_ok [OF assms(1) d(5,4)])
  with r that show thesis by (simp add: count_entry_def)
qed

text \<open>The entry that leads to a table is counted.\<close>

lemma count_above:
  assumes I: "I s" and k: "keeps D L \<mu>0 (pview pm base s) (owned s) root"
    and q: "q \<in> addr_indices" "d \<le> 2" "tbl (pview pm base s) root (take d q) = Some t"
      "tbl (pview pm base s) root (take (Suc d) q) \<noteq> None"
  obtains s' where "count_entry pm s (slot t (q ! d)) = Ok s'" "I s'" "owned s' = owned s"
    "keeps D L \<mu>0 (pview pm base s') (owned s') root"
    "\<And>p. p \<in> prefixes \<Longrightarrow> tbl (pview pm base s') root p = tbl (pview pm base s) root p"
    "\<And>f. fresh (pview pm base s) (owned s) root f \<Longrightarrow> fresh (pview pm base s') (owned s') root f"
proof -
  let ?\<mu> = "pview pm base s"
  have d3: "d \<le> 3" using q(2) by simp
  have a: "at_entry ?\<mu> (owned s) root (take d q) t (q ! d)"
    using k take_prefix [OF q(1) d3] q(3) index_lt [OF q(1) d3] by (simp add: at_entry_def keeps_def)
  have e: "is_table (tentry ?\<mu> t (q ! d))"
    using tbl_Suc [OF q(1) d3, of ?\<mu> root] q(3,4) by (auto simp: level_entry_def split: if_splits)
  have l: "length (take d q) \<le> 2" using q(2) by simp
  obtain s' n where s: "count_entry pm s (slot t (q ! d)) = Ok s'" "I s'" "owned s' = owned s"
    "pview pm base s' = store64 ?\<mu> (slot t (q ! d)) (set_in_use (tentry ?\<mu> t (q ! d)) n)"
    by (rule count_ok [OF I a])
  show thesis
    by (rule that [OF s(1-3)]) (use keeps_count [OF k a e l, where n = n] s(3,4) in auto)
qed

definition oom :: "string \<Rightarrow> bool" where
  "oom msg \<longleftrightarrow> (\<exists>s. I s \<and> pm_alloc pm s (page_layout 4096) = Panic msg)"

text \<open>A level without a table gets a new one.\<close>

lemma add_table_new:
  assumes I: "I s" and g: "grown D L \<mu>0 root q depth ii es (pview pm base s) (owned s)"
    and q: "q = indicies v" "L q = None" and ii: "1 \<le> ii" "ii < depth" "depth \<le> 4"
    and no: "es ! ii = None" and alc: "alloc_phys_zeroed pm s (page_layout 4096) = Ok (f, s1)"
    and f: "I s1" "f \<notin> owned s" "insert f (owned s) \<subseteq> owned s1"
      "agree (owned s) (pview pm base s) (pview pm base s1)" "\<forall>a. frame a = f \<longrightarrow> pview pm base s1 a = 0"
  obtains es' s' where "add_table pm v (es, s) ii = Ok (es', s')" "I s'" "owned s \<subseteq> owned s'"
    "grown D L \<mu>0 root q depth (Suc ii) es' (pview pm base s') (owned s')"
proof -
  let ?\<mu> = "pview pm base s"
  let ?\<mu>1 = "pview pm base s1"
  have k: "keeps D L \<mu>0 ?\<mu> (owned s) root" and es: "es = map (level_slot ?\<mu> root q) [0..<4]"
    and nx: "depth \<le> 3 \<Longrightarrow> tbl ?\<mu> root (take depth q) = None" and sh: "shallow depth \<mu>0 ?\<mu> root"
    using g by (auto simp: grown_def)
  obtain t where t: "tbl ?\<mu> root (take (ii - 1) q) = Some t" using g by (auto simp: grown_def)
  have qa: "q \<in> addr_indices" by (simp add: q(1))
  have len: "length es = 4" "ii < 4" "ii - 1 < 4" "ii - 2 < 4" "ii - 1 \<le> 3" "ii \<le> 3" using es ii by auto
  have pre: "take n q \<in> prefixes" if "n \<le> 3" for n by (rule take_prefix [OF qa that])
  have n: "tbl ?\<mu> root (take ii q) = None" using no es len by (auto simp: level_slot_def)
  have fp: "aligned f" "f < 2 ^ 52" using owned_page [OF f(1)] f(3) by auto
  note K = keeps_alloc [OF k f(4,3,2) fp f(5)]
  obtain s2 where s2: "(if ii \<ge> 2 then bindR (bindR (nthR es (ii - 2)) unwrapR) (count_entry pm s1) else Ok s1) = Ok s2"
    "I s2" "owned s2 = owned s1" "keeps D L \<mu>0 (pview pm base s2) (owned s2) root"
    "\<And>p. p \<in> prefixes \<Longrightarrow> tbl (pview pm base s2) root p = tbl ?\<mu>1 root p"
    "fresh (pview pm base s2) (owned s2) root f"
  proof (cases "ii \<ge> 2")
    case False
    show thesis by (rule that [of s1]) (use False K f in auto)
  next
    case True
    then have S: "Suc (ii - 2) = ii - 1" by simp
    have t1: "tbl ?\<mu>1 root (take (Suc (ii - 2)) q) \<noteq> None" using t K(3) [OF pre [OF len(5)]] S by simp
    have "tbl ?\<mu> root (take (ii - 2) q) \<noteq> None"
    proof
      assume "tbl ?\<mu> root (take (ii - 2) q) = None"
      with tbl_Suc [OF qa, of "ii - 2" ?\<mu> root] t S len show False by (simp add: level_entry_def)
    qed
    then obtain t2 where t2: "tbl ?\<mu> root (take (ii - 2) q) = Some t2" by auto
    moreover have "ii - 2 \<le> 2" "ii - 2 \<le> 3" using len by auto
    ultimately have t2': "tbl ?\<mu>1 root (take (ii - 2) q) = Some t2" using K(3) [OF pre] by simp
    have e: "es ! (ii - 2) = Some (slot t2 (q ! (ii - 2)))" using es len t2 by (simp add: level_slot_def)
    obtain s2 where s2: "count_entry pm s1 (slot t2 (q ! (ii - 2))) = Ok s2" "I s2" "owned s2 = owned s1"
      "keeps D L \<mu>0 (pview pm base s2) (owned s2) root"
      "\<And>p. p \<in> prefixes \<Longrightarrow> tbl (pview pm base s2) root p = tbl ?\<mu>1 root p"
      "\<And>f. fresh ?\<mu>1 (owned s1) root f \<Longrightarrow> fresh (pview pm base s2) (owned s2) root f"
      by (rule count_above [OF f(1) K(1) qa \<open>ii - 2 \<le> 2\<close> t2' t1]) blast
    show thesis by (rule that [of s2]) (use True s2 e len K(2) in \<open>auto simp: unwrapR_def\<close>)
  qed
  let ?\<mu>2 = "pview pm base s2"
  have tb: "tbl ?\<mu>2 root (take m q) = tbl ?\<mu> root (take m q)" if "m \<le> 3" for m
    using s2(5) [OF pre [OF that]] K(3) [OF pre [OF that]] by simp
  have T2: "tree_ok ?\<mu>2 (owned s2) root" "lookup ?\<mu>2 root q = None" using s2(4) qa q(2) by (simp_all add: keeps_def)
  have a2: "at_entry ?\<mu>2 (owned s2) root (take (ii - 1) q) t (q ! (ii - 1))"
    using T2(1) pre [OF len(5)] tb [OF len(5)] t index_lt [OF qa len(5)] by (simp add: at_entry_def)
  have ab: "\<not> present (tentry ?\<mu>2 t (q ! (ii - 1)))"
    by (rule absent_above [OF T2(1) qa T2(2) len(5)]) (use tb [OF len(5)] tb [OF len(6)] t n ii in auto)
  have l2: "length (take (ii - 1) q) \<le> 2" using len by simp
  have to: "t \<in> owned s1" "q ! (ii - 1) < 512" using at_entryD(4,5) [OF a2] s2(3) by simp_all
  note tr = slot_translate [OF f(1) to]
  define s3 where "s3 = pm_set_mem pm (store64 (pm_mem pm s2) (slot t (q ! (ii - 1)) + base) (table_entry f)) s2"
  note s3 = set_entry [OF s2(2) at_entryD(5,4) [OF a2], of "table_entry f", folded s3_def]
  have fD: "f \<notin> D" using f(2) k by (auto simp: keeps_def data_pages_def)
  note k3 = keeps_add [OF s2(4) a2 l2 ab s2(6) fD, folded s3(3)]
  have sn: "take (ii - 1) q @ [q ! (ii - 1)] = take ii q"
    using ii len qa take_Suc_conv_app_nth [of "ii - 1" q] by (simp add: addr_indices_def)
  have tb3: "tbl (pview pm base s3) root (take m q) = (if m = ii then Some f else tbl ?\<mu> root (take m q))" if "m \<le> 3" for m
  proof -
    have "take m q = take ii q \<longleftrightarrow> m = ii"
      using take_length_index [OF qa that, of "take ii q"] len qa by (auto simp: addr_indices_def)
    then show ?thesis
      using tbl_added [OF a2 l2 ab s2(6) pre [OF that], folded s3(3)] tb [OF that] unfolding sn by simp
  qed
  have es3: "es[ii := Some (slot f (q ! ii))] = map (level_slot (pview pm base s3) root q) [0..<4]"
    by (rule nth_equalityI) (use es len tb3 in \<open>auto simp: level_slot_def nth_list_update\<close>)
  have sh3: "shallow depth \<mu>0 (pview pm base s3) root"
    unfolding shallow_def
  proof (intro ballI impI)
    fix p assume p: "p \<in> prefixes" "depth \<le> length p" "tbl \<mu>0 root p = None"
    have "p \<noteq> take ii q" using p(2) ii by auto
    then show "tbl (pview pm base s3) root p = None"
      using tbl_added [OF a2 l2 ab s2(6) p(1), folded s3(3)] s2(5) [OF p(1)] K(3) [OF p(1)] sh p unfolding sn by (simp add: shallow_def)
  qed
  have "grown D L \<mu>0 root q depth (Suc ii) (es[ii := Some (slot f (q ! ii))]) (pview pm base s3) (owned s3)"
    using k3 es3 tb3 nx ii len s3(2) sh3 by (auto simp: grown_def)
  moreover have ab_e: "es ! (ii - 1) = Some (slot t (q ! (ii - 1)))" using es len t by (simp add: level_slot_def)
  have iq: "length (indicies v) = 4" by (simp add: indicies_def)
  have "add_table pm v (es, s) ii = Ok (es[ii := Some (slot f (q ! ii))], s3)"
    using no alc ab_e tr s2(1) len iq unfolding add_table_def
    by (simp add: unwrapR_def s3_def table_entry_def slot_def q(1))
  ultimately show thesis using that s3 s2(3) f(3) by auto
qed

lemma add_table_ok:
  assumes I: "I s" and g: "grown D L \<mu>0 root q depth ii es (pview pm base s) (owned s)"
    and q: "q = indicies v" "L q = None" and ii: "1 \<le> ii" "ii < depth" "depth \<le> 4"
  shows "sat oom (\<lambda>(es', s'). I s' \<and> owned s \<subseteq> owned s' \<and>
    grown D L \<mu>0 root q depth (Suc ii) es' (pview pm base s') (owned s')) (add_table pm v (es, s) ii)"
proof -
  let ?\<mu> = "pview pm base s"
  have es: "es = map (level_slot ?\<mu> root q) [0..<4]" using g by (simp add: grown_def)
  have len: "length es = 4" "ii < 4" using es ii by auto
  show ?thesis
  proof (cases "es ! ii")
    case (Some e)
    then have "tbl ?\<mu> root (take ii q) \<noteq> None" using es len by (auto simp: level_slot_def)
    then have "grown D L \<mu>0 root q depth (Suc ii) es ?\<mu> (owned s)" using g by (simp add: grown_def)
    with Some len I show ?thesis by (simp add: add_table_def)
  next
    case None
    from alloc_zeroed_ok [OF I] show ?thesis
    proof (cases "alloc_phys_zeroed pm s (page_layout 4096)")
      case (Panic msg)
      with alloc_zeroed_ok [OF I] I have "oom msg" by (auto simp: oom_def)
      with Panic None len show ?thesis by (simp add: add_table_def)
    next
      case (Ok r)
      obtain f s1 where r: "r = (f, s1)" by (cases r)
      obtain es' s' where "add_table pm v (es, s) ii = Ok (es', s')" "I s'" "owned s \<subseteq> owned s'"
        "grown D L \<mu>0 root q depth (Suc ii) es' (pview pm base s') (owned s')"
        using alloc_zeroed_ok [OF I] unfolding Ok r
        by (auto intro: add_table_new [OF I g q ii None Ok [unfolded r]])
      then show ?thesis by simp
    qed
  qed
qed

end

subsection \<open>Mapping a page\<close>

text \<open>
  A page can be mapped when its entry is present and of its size, the address is canonical and
  nothing is mapped there, not even a table of smaller pages.
\<close>

definition mappable :: "64 memory \<Rightarrow> u64 \<Rightarrow> u64 \<Rightarrow> PageType \<Rightarrow> u64 \<Rightarrow> bool" where
  "mappable \<mu> root v ty raw \<longleftrightarrow> present raw \<and> (ty = Page4K \<or> large raw) \<and> canonicalize_address v = v \<and>
     lookup \<mu> root (indicies v) = None \<and>
     (ty = Page4K \<or> tbl \<mu> root (take (type_depth ty) (indicies v)) = None)"

definition same_page :: "PageType \<Rightarrow> u64 list \<Rightarrow> u64 list \<Rightarrow> bool" where
  "same_page ty q q' \<longleftrightarrow> take (type_depth ty) q = take (type_depth ty) q'"

lemma type_depth_cases: "type_depth ty \<in> {2, 3, 4}" "depth_type (type_depth ty - 1) = ty"
  "type_depth ty = 4 \<longleftrightarrow> ty = Page4K" "type_depth ty \<le> 3 \<longleftrightarrow> ty \<noteq> Page4K"
  by (cases ty; simp add: depth_type_def)+

lemma mapping_entries_levels:
  "[pml4e (mapping_of \<mu> root v), pdpe (mapping_of \<mu> root v), pde (mapping_of \<mu> root v), pte (mapping_of \<mu> root v)] =
     map (level_slot \<mu> root (indicies v)) [0..<4]"
  by (simp add: mapping_of_def upt_conv_Cons numeral_2_eq_2 numeral_3_eq_3)

context phys_memory
begin

text \<open>After the levels above are in place, the entry is counted and written.\<close>

lemma write_page:
  assumes I: "I s" and g: "grown D L \<mu>0 root q depth depth es (pview pm base s) (owned s)"
    and q: "q \<in> addr_indices" "L q = None" and ty: "depth = type_depth ty"
    and r: "present raw" "ty = Page4K \<or> large raw"
  obtains s' where
    "bindR (bindR (nthR es (depth - 2)) unwrapR) (\<lambda>above. bindR (count_entry pm s above) (\<lambda>s.
       bindR (bindR (nthR es (depth - 1)) unwrapR) (\<lambda>e. bindR (entry_write pm s e raw) (\<lambda>s. Ok (Some (), s))))) = Ok (Some (), s')"
    "I s'" "owned s' = owned s"
    "keeps D (\<lambda>q'. if same_page ty q' q then Some (ty, raw) else L q') \<mu>0 (pview pm base s') (owned s') root"
    "shallow depth \<mu>0 (pview pm base s') root"
proof -
  let ?\<mu> = "pview pm base s"
  have k: "keeps D L \<mu>0 ?\<mu> (owned s) root" and es: "es = map (level_slot ?\<mu> root q) [0..<4]"
    and nx: "depth \<le> 3 \<Longrightarrow> tbl ?\<mu> root (take depth q) = None" and sh: "shallow depth \<mu>0 ?\<mu> root"
    using g by (auto simp: grown_def)
  obtain t where t: "tbl ?\<mu> root (take (depth - 1) q) = Some t" using g by (auto simp: grown_def)
  have len: "length es = 4" "depth - 2 < 4" "depth - 1 < 4" "depth - 2 \<le> 2" "depth - 1 \<le> 3" "Suc (depth - 2) = depth - 1"
    "Suc (depth - 1) = depth" "depth - 1 \<in> {1, 2, 3}" "depth - 1 = 3 \<longleftrightarrow> ty = Page4K"
    using es ty by (cases ty; simp)+
  have "tbl ?\<mu> root (take (depth - 2) q) \<noteq> None"
  proof
    assume "tbl ?\<mu> root (take (depth - 2) q) = None"
    with tbl_Suc [OF q(1), of "depth - 2" ?\<mu> root] t len show False by (simp add: level_entry_def)
  qed
  then obtain t2 where t2: "tbl ?\<mu> root (take (depth - 2) q) = Some t2" by auto
  have t1: "tbl ?\<mu> root (take (Suc (depth - 2)) q) \<noteq> None" unfolding len(6) using t by simp
  obtain s2 where s2: "count_entry pm s (slot t2 (q ! (depth - 2))) = Ok s2" "I s2" "owned s2 = owned s"
    "keeps D L \<mu>0 (pview pm base s2) (owned s2) root"
    "\<And>p. p \<in> prefixes \<Longrightarrow> tbl (pview pm base s2) root p = tbl ?\<mu> root p"
    by (rule count_above [OF I k q(1) len(4) t2 t1]) blast
  let ?\<mu>2 = "pview pm base s2"
  have pre: "take n q \<in> prefixes" if "n \<le> 3" for n by (rule take_prefix [OF q(1) that])
  have T2: "tree_ok ?\<mu>2 (owned s2) root" "lookup ?\<mu>2 root q = None" using s2(4) q by (simp_all add: keeps_def)
  have a2: "at_entry ?\<mu>2 (owned s2) root (take (depth - 1) q) t (q ! (depth - 1))"
    using T2(1) pre [OF len(5)] s2(5) t index_lt [OF q(1) len(5)] len(5) by (simp add: at_entry_def)
  have ab: "\<not> present (tentry ?\<mu>2 t (q ! (depth - 1)))"
    by (rule absent_above [OF T2(1) q(1) T2(2) len(5)]) (use s2(5) [OF pre] t nx len in auto)
  have ln: "length (take (depth - 1) q) = depth - 1" using q(1) len by (simp add: addr_indices_def)
  obtain s3 where s3: "entry_write pm s2 (slot t (q ! (depth - 1))) raw = Ok s3" "I s3" "owned s3 = owned s2"
    "pview pm base s3 = store64 ?\<mu>2 (slot t (q ! (depth - 1))) raw"
    by (rule entry_write_ok [OF s2(2) at_entryD(5,4) [OF a2]])
  have lg: "large raw" if "length (take (depth - 1) q) \<noteq> 3" using that r(2) ln len by auto
  have lp: "length (take (depth - 1) q) \<in> {1, 2, 3}" unfolding ln by (rule len(8))
  note w = written [OF a2 lp ab r(1) lg, folded s3(4), unfolded ln]
  have sn: "take (depth - 1) q @ [q ! (depth - 1)] = take depth q"
    using len q(1) take_Suc_conv_app_nth [of "depth - 1" q] by (simp add: addr_indices_def)
  have dt: "depth_type (depth - 1) = ty" using ty type_depth_cases(2) by simp
  have "keeps D (\<lambda>q'. if same_page ty q' q then Some (ty, raw) else L q') \<mu>0 (pview pm base s3) (owned s3) root"
  proof -
    have "data_pages (pview pm base s3) (owned s3) root = data_pages ?\<mu>2 (owned s2) root"
      using w(2) s3(3) by (auto simp: data_pages_def)
    then show ?thesis
      using s2(4) w(1,3) data_store [OF a2, of D \<mu>0 raw] s3(3,4)
      unfolding keeps_def same_page_def ty [symmetric] len(7) sn dt by auto
  qed
  moreover have "es ! (depth - 2) = Some (slot t2 (q ! (depth - 2)))" "es ! (depth - 1) = Some (slot t (q ! (depth - 1)))"
    using es len t t2 by (simp_all add: level_slot_def)
  moreover have "shallow depth \<mu>0 (pview pm base s3) root" using sh w(2) s2(5) by (simp add: shallow_def)
  ultimately show thesis using that [of s3] s2(1,3) s3(1-3) len by (simp add: unwrapR_def)
qed

text \<open>When nothing is in the way, the operation is the loop over the levels and the write.\<close>

definition write_steps :: "nat \<Rightarrow> u64 \<Rightarrow> u64 option list \<times> 's \<Rightarrow> (unit option \<times> 's) res" where
  "write_steps depth raw st = (case st of (es, s) \<Rightarrow>
     bindR (bindR (nthR es (depth - 2)) unwrapR) (\<lambda>above. bindR (count_entry pm s above) (\<lambda>s.
       bindR (bindR (nthR es (depth - 1)) unwrapR) (\<lambda>e. bindR (entry_write pm s e raw) (\<lambda>s. Ok (Some (), s))))))"

lemma map_raw_refused:
  assumes I: "I s" and T: "tree_ok (pview pm base s) (owned s) root" and m: "\<not> mappable (pview pm base s) root v ty raw"
  shows "map_raw pm \<lparr>table = root\<rparr> s v ty raw = Ok (None, s)"
  using m unfolding map_raw_def translate_mapping [OF I T]
  by (cases "canonicalize_address v = v"; cases "lookup (pview pm base s) root (indicies v)"; cases ty)
    (auto simp: mappable_def present_def large_def mapping_of_def level_slot_def Let_def numeral_2_eq_2 numeral_3_eq_3)

lemma map_raw_mappable:
  assumes I: "I s" and T: "tree_ok (pview pm base s) (owned s) root" and m: "mappable (pview pm base s) root v ty raw"
  shows "map_raw pm \<lparr>table = root\<rparr> s v ty raw =
    bindR (foldR (add_table pm v) (map (level_slot (pview pm base s) root (indicies v)) [0..<4], s) [1..<type_depth ty])
      (write_steps (type_depth ty) raw)"
proof -
  let ?\<mu> = "pview pm base s"
  let ?es = "map (level_slot ?\<mu> root (indicies v)) [0..<4]"
  let ?M = "mapping_of ?\<mu> root v"
  have M: "pt_translate pm \<lparr>table = root\<rparr> s v = Ok (Some ?M)" "page ?M = None" "pml4e ?M \<noteq> None"
    using translate_mapping [OF I T, of v] m by (simp_all add: mapping_of_def level_slot_def mappable_def)
  have nt: "\<not> (type_depth ty < length ?es \<and> ?es ! type_depth ty \<noteq> None)"
    using m by (cases ty) (auto simp: mappable_def level_slot_def numeral_2_eq_2 numeral_3_eq_3)
  have c: "\<not> (raw AND PAGE_PRESENT = 0 \<or> (ty \<noteq> Page4K \<and> raw AND PAGE_SIZE = 0))"
    using m by (auto simp: mappable_def present_def large_def)
  show ?thesis
    unfolding map_raw_def if_not_P [OF c] M(1) Let_def bindR_simps option.case mapping_entries_levels write_steps_def
    by (simp only: M(2,3) nt simp_thms if_False)
qed

lemma grown_start:
  assumes T: "tree_ok \<mu> F root" and m: "mappable \<mu> root v ty raw"
  shows "grown (data_pages \<mu> F root) (lookup \<mu> root) \<mu> root (indicies v) (type_depth ty) 1
    (map (level_slot \<mu> root (indicies v)) [0..<4]) \<mu> F"
  using keeps_start [OF T] m type_depth_cases(4) [of ty] by (auto simp: grown_def mappable_def shallow_def)

lemma write_steps_ok:
  assumes "I s" "grown D L \<mu>0 root (indicies v) (type_depth ty) (type_depth ty) es (pview pm base s) (owned s)"
    "L (indicies v) = None" "present raw" "ty = Page4K \<or> large raw"
  obtains s' where "write_steps (type_depth ty) raw (es, s) = Ok (Some (), s')" "I s'" "owned s' = owned s"
    "keeps D (\<lambda>q'. if same_page ty q' (indicies v) then Some (ty, raw) else L q') \<mu>0 (pview pm base s') (owned s') root"
    "shallow (type_depth ty) \<mu>0 (pview pm base s') root"
  using write_page [OF assms(1,2) indicies_in assms(3) refl assms(4,5)] unfolding write_steps_def by auto

lemma map_raw_ok:
  fixes v :: u64
  assumes I: "I s" and T: "tree_ok (pview pm base s) (owned s) root"
  defines "\<mu> \<equiv> pview pm base s" and "q \<equiv> indicies v"
  shows "sat oom (\<lambda>(r, s').
    if mappable \<mu> root v ty raw then
      r = Some () \<and> I s' \<and> owned s \<subseteq> owned s' \<and>
      keeps (data_pages \<mu> (owned s) root) (\<lambda>q'. if same_page ty q' q then Some (ty, raw) else lookup \<mu> root q')
        \<mu> (pview pm base s') (owned s') root \<and>
      shallow (type_depth ty) \<mu> (pview pm base s') root
    else r = None \<and> s' = s) (map_raw pm \<lparr>table = root\<rparr> s v ty raw)"
proof (cases "mappable \<mu> root v ty raw")
  case False
  then show ?thesis using map_raw_refused [OF I T] by (simp add: \<mu>_def)
next
  case True
  let ?depth = "type_depth ty"
  let ?D = "data_pages \<mu> (owned s) root"
  let ?G = "\<lambda>ii (es, s'). I s' \<and> owned s \<subseteq> owned s' \<and>
      grown ?D (lookup \<mu> root) \<mu> root q ?depth ii es (pview pm base s') (owned s')"
  have q: "lookup \<mu> root q = None" "present raw" "ty = Page4K \<or> large raw" using True by (auto simp: mappable_def q_def)
  have "sat oom (?G ?depth) (foldR (add_table pm v) (map (level_slot \<mu> root q) [0..<4], s) [1..<?depth])"
  proof (rule sat_fold [where Q = ?G])
    show "?G 1 (map (level_slot \<mu> root q) [0..<4], s)"
      using I grown_start [OF T True [unfolded \<mu>_def]] by (simp add: \<mu>_def q_def)
    show "1 \<le> ?depth" by (cases ty) simp_all
  next
    fix st ii assume st: "?G ii st" and ii: "1 \<le> ii" "ii < ?depth"
    obtain es s1 where e: "st = (es, s1)" by (cases st)
    have "?depth \<le> 4" by (cases ty) simp_all
    from add_table_ok [OF _ _ _ _ ii this, of s1 ?D "lookup \<mu> root" \<mu> root q es v] st e q
    show "sat oom (?G (Suc ii)) (add_table pm v st ii)" by (auto simp: q_def intro: sat_mono)
  qed
  then show ?thesis
    unfolding if_P [OF True] map_raw_mappable [OF I T True [unfolded \<mu>_def]] \<mu>_def [symmetric] q_def [symmetric]
  proof (rule sat_bind)
    fix st assume st: "?G ?depth st"
    obtain es s1 where es: "st = (es, s1)" by (cases st)
    obtain s' where "write_steps ?depth raw (es, s1) = Ok (Some (), s')" "I s'" "owned s' = owned s1"
      "keeps ?D (\<lambda>q'. if same_page ty q' q then Some (ty, raw) else lookup \<mu> root q') \<mu> (pview pm base s') (owned s') root"
      "shallow ?depth \<mu> (pview pm base s') root"
      by (rule write_steps_ok [of s1 ?D "lookup \<mu> root" \<mu> root v ty es raw]) (use st es q in \<open>auto simp: q_def\<close>)
    then show "sat oom (\<lambda>(r, s'). r = Some () \<and> I s' \<and> owned s \<subseteq> owned s' \<and>
      keeps ?D (\<lambda>q'. if same_page ty q' q then Some (ty, raw) else lookup \<mu> root q') \<mu> (pview pm base s') (owned s') root \<and>
      shallow ?depth \<mu> (pview pm base s') root)
      (write_steps ?depth raw st)" using es st by simp
  qed
qed

text \<open>A huge page needs one table, so one page of memory is enough.\<close>

lemma map_raw_1G:
  assumes I: "I s" and T: "tree_ok (pview pm base s) (owned s) root" and m: "mappable (pview pm base s) root v Page1G raw"
    and a: "pm_alloc pm s (page_layout 4096) = Ok (f, s1)"
  obtains s' where "map_raw pm \<lparr>table = root\<rparr> s v Page1G raw = Ok (Some (), s')"
proof -
  let ?\<mu> = "pview pm base s"
  let ?es = "map (level_slot ?\<mu> root (indicies v)) [0..<4]"
  let ?g = "grown (data_pages ?\<mu> (owned s) root) (lookup ?\<mu> root) ?\<mu> root (indicies v) 2"
  have q: "lookup ?\<mu> root (indicies v) = None" "present raw" "large raw" using m by (auto simp: mappable_def)
  have g: "?g 1 ?es ?\<mu> (owned s)" using grown_start [OF T m] by simp
  obtain es s2 where t: "add_table pm v (?es, s) 1 = Ok (es, s2)" "I s2" "?g (Suc 1) es (pview pm base s2) (owned s2)"
  proof (cases "add_table pm v (?es, s) 1")
    case (Ok x)
    then show thesis using add_table_ok [OF I g refl q(1)] that by (cases x) auto
  next
    case (Panic msg)
    have no: "?es ! 1 = None" using Panic by (cases "?es ! 1") (auto simp: add_table_def nthR_def)
    obtain f' s3 where z: "alloc_phys_zeroed pm s (page_layout 4096) = Ok (f', s3)"
      using alloc_zeroed_ok [OF I] a by (cases "alloc_phys_zeroed pm s (page_layout 4096)") auto
    from alloc_zeroed_ok [OF I] z have n: "I s3" "f' \<notin> owned s" "insert f' (owned s) \<subseteq> owned s3"
      "agree (owned s) ?\<mu> (pview pm base s3)" "\<forall>a. frame a = f' \<longrightarrow> pview pm base s3 a = 0" by simp_all
    have "1 \<le> (1 :: nat)" "1 < (2 :: nat)" "2 \<le> (4 :: nat)" by simp_all
    from add_table_new [OF I g refl q(1) this no z n] obtain es' s' where "add_table pm v (?es, s) 1 = Ok (es', s')" by blast
    with Panic show thesis by simp
  qed
  obtain s' where "write_steps 2 raw (es, s2) = Ok (Some (), s')"
  proof (rule write_steps_ok [of s2 "data_pages ?\<mu> (owned s) root" "lookup ?\<mu> root" ?\<mu> root v Page1G es raw])
    show "grown (data_pages ?\<mu> (owned s) root) (lookup ?\<mu> root) ?\<mu> root (indicies v) (type_depth Page1G) (type_depth Page1G)
        es (pview pm base s2) (owned s2)" using t(3) by (simp add: numeral_2_eq_2)
  qed (use t(2) q in simp_all)
  with t(1) map_raw_mappable [OF I T m] that show thesis by (simp add: upt_conv_Cons)
qed

end

subsection \<open>A new table\<close>

lemma empty_tree:
  assumes f: "f \<in> F" "aligned f" and z: "\<And>a. frame a = f \<Longrightarrow> \<mu> a = 0"
  shows "tree_ok \<mu> F f" "q \<in> addr_indices \<Longrightarrow> lookup \<mu> f q = None" "q \<in> prefixes \<Longrightarrow> q \<noteq> [] \<Longrightarrow> tbl \<mu> f q = None"
proof -
  have e: "tentry \<mu> f j = 0" if "j < 512" for j by (rule tentry_zero [OF f(2) z that])
  have t: "tbl \<mu> f p = (if p = [] then Some f else None)" if "p \<in> prefixes" for p
    using that by (cases p) (auto simp: e prefixes_def)
  then show "q \<in> prefixes \<Longrightarrow> q \<noteq> [] \<Longrightarrow> tbl \<mu> f q = None" by simp
  show "tree_ok \<mu> F f" using f t e by (auto simp: tree_ok_def large_def split: if_splits)
  show "q \<in> addr_indices \<Longrightarrow> lookup \<mu> f q = None"
    by (rule lookup_absent [of q _ _ 0 0]) (use e index_lt [of q 0] in \<open>simp_all add: level_entry_def\<close>)
qed

context phys_memory
begin

lemma page_table_new_ok:
  assumes I: "I s"
  shows "sat oom (\<lambda>(pt, s'). I s' \<and> owned s \<subseteq> owned s' \<and> table pt \<in> owned s' - owned s \<and>
    tree_ok (pview pm base s') (owned s') (table pt) \<and> (\<forall>q \<in> addr_indices. lookup (pview pm base s') (table pt) q = None) \<and>
    agree (owned s) (pview pm base s) (pview pm base s')) (page_table_new pm s)"
proof (cases "alloc_phys_zeroed pm s (page_layout 4096)")
  case (Panic msg)
  with alloc_zeroed_ok [OF I] I have "oom msg" by (auto simp: oom_def)
  with Panic show ?thesis by (simp add: page_table_new_def)
next
  case (Ok r)
  obtain f s1 where r: "r = (f, s1)" by (cases r)
  let ?\<mu> = "pview pm base s1"
  have a: "I s1" "f \<notin> owned s" "insert f (owned s) \<subseteq> owned s1" "agree (owned s) (pview pm base s) ?\<mu>"
    "\<And>a. frame a = f \<Longrightarrow> ?\<mu> a = 0" using alloc_zeroed_ok [OF I] unfolding Ok r by auto
  have fp: "aligned f" using owned_page [OF a(1)] a(3) by auto
  have "f \<in> owned s1" using a(3) by blast
  from empty_tree [OF this fp a(5)] show ?thesis using Ok r a by (simp add: page_table_new_def)
qed

end

subsection \<open>Pages as blocks of addresses\<close>

lemma page_block:
  assumes "aligned f"
  shows "block f 4096 = {a. frame a = f}"
proof (intro equalityI subsetI)
  have u: "unat (f + 4095) = unat f + 4095" using unat_frame_add [OF assms, of 4095] by simp
  fix a assume "a \<in> block f 4096"
  then have "f \<le> a" "unat f \<le> unat a" "unat a \<le> unat f + 4095" using u by (auto simp: block_def word_le_nat_alt)
  then have "unat (a - f) < 4096" by (simp add: unat_sub)
  from frame_add(1) [OF assms this] show "a \<in> {a. frame a = f}" by simp
next
  fix a assume "a \<in> {a. frame a = f}"
  then have a: "a = f + take_bit 12 a" using frame_plus_offset [of a] by simp
  have l: "unat (take_bit 12 a) < 4096" unfolding unsigned_take_bit_eq by (simp add: take_bit_eq_mod)
  have "unat a = unat f + unat (take_bit 12 a)" using unat_frame_add [OF assms l] a by simp
  moreover have "unat (f + 4095) = unat f + 4095" using unat_frame_add [OF assms, of 4095] by simp
  ultimately show "a \<in> block f 4096" using l by (simp add: block_def word_le_nat_alt)
qed

lemma aligned_and: "aligned p \<longleftrightarrow> p AND 0xfff = 0"
  by (simp add: aligned_def take_bit_eq_mask mask_eq_exp_minus_1)

text \<open>The pages below a bound of which no byte is in a set of free addresses.\<close>

definition used_pages :: "u64 \<Rightarrow> u64 set \<Rightarrow> u64 set" where
  "used_pages lim free = {f. aligned f \<and> f < lim \<and> block f 4096 \<inter> free = {}}"

lemma used_pages_mono: "free' \<subseteq> free \<Longrightarrow> used_pages lim free \<subseteq> used_pages lim free'"
  by (auto simp: used_pages_def)

lemma used_pages_free:
  assumes "aligned f"
  shows "f \<notin> used_pages lim (free \<union> block f 4096)" "used_pages lim free - {f} \<subseteq> used_pages lim (free \<union> block f 4096)"
  using aligned_frame [OF assms] by (auto simp: used_pages_def page_block assms)

lemma translate_bound:
  assumes "aligned f" "f < lim" "aligned lim" "unat o1 + unat n \<le> 4096" "n > 0"
  shows "unat (f + o1) = unat f + unat o1" "unat (f + o1) + unat n \<le> unat lim"
proof -
  have n: "0 < unat n" using assms(5) by (simp add: word_less_nat_alt)
  show u: "unat (f + o1) = unat f + unat o1" using assms(1,4) n by (intro unat_frame_add) auto
  obtain k l where "unat f = 4096 * k" "unat lim = 4096 * l"
    using assms(1,3) by (auto simp: aligned_unat mod_eq_0_iff_dvd elim!: dvdE)
  moreover have "unat f < unat lim" using assms(2) by (simp add: word_less_nat_alt)
  ultimately have "unat f + 4096 \<le> unat lim" by auto
  with u assms(4) show "unat (f + o1) + unat n \<le> unat lim" by simp
qed

end
