(* ===== verification/PageTable_Map.thy ===== *)
theory PageTable_Map
  imports PageTable_Refine
begin

text \<open>
  Virtual addresses and their indices: an address that translates is recovered from its mapping,
  and mapping a range of pages updates the map at exactly the pages of the range.
\<close>

unbundle bit_operations_syntax

subsection \<open>Addresses and indices\<close>

definition field :: "nat \<Rightarrow> u64 \<Rightarrow> u64" where
  "field n v = take_bit 9 (drop_bit n v)"

lemma bit_field: "bit (push_bit n (field n v)) i \<longleftrightarrow> n \<le> i \<and> i < n + 9 \<and> i < 64 \<and> bit v i"
  by (auto simp: field_def bit_push_bit_iff bit_take_bit_iff bit_drop_bit_eq)

lemma indicies_fields: "indicies v = [field 39 v, field 30 v, field 21 v, field 12 v]"
proof -
  have "x AND 0x1ff = take_bit 9 x" for x :: u64 by (simp add: take_bit_eq_mask mask_eq_exp_minus_1)
  then show ?thesis by (simp add: indicies_def field_def)
qed

lemma canonical_bit: "canonicalize_address v = v \<Longrightarrow> i < 64 \<Longrightarrow> bit v i = bit v (min i 47)"
  using bit_canonicalize [of v i] by simp

lemma canonical_upper:
  assumes "canonicalize_address v = v" "n \<in> {12, 21, 30}"
    "\<And>i. i \<le> 47 \<Longrightarrow> bit x i \<longleftrightarrow> n \<le> i \<and> bit v i"
  shows "canonicalize_address x = v AND NOT (mask n)"
proof (rule bit_word_eqI)
  fix i :: nat assume i: "i < LENGTH(64)"
  have "bit (canonicalize_address x) i \<longleftrightarrow> n \<le> min i 47 \<and> bit v (min i 47)"
    using i assms(3) [of "min i 47"] by (simp add: bit_canonicalize)
  also have "\<dots> \<longleftrightarrow> n \<le> i \<and> bit v i" using assms(2) canonical_bit [OF assms(1), of i] i by auto
  also have "\<dots> \<longleftrightarrow> bit (v AND NOT (mask n)) i" using i by (auto simp: bit_simps)
  finally show "bit (canonicalize_address x) i \<longleftrightarrow> bit (v AND NOT (mask n)) i" .
qed

text \<open>An entry address gives its index back.\<close>

lemma slot_index:
  assumes "aligned t" "i < 512"
  shows "(slot t i AND 0xfff) div 8 = i"
proof -
  have "slot t i AND 0xfff = take_bit 12 (t + i * 8)"
    by (simp add: slot_def take_bit_eq_mask mask_eq_exp_minus_1)
  also have "\<dots> = i * 8" by (rule frame_add(2) [OF assms(1) index_bytes(2) [OF assms(2)]])
  finally have e: "slot t i AND 0xfff = i * 8" .
  have "unat (i * 8 div 8) = unat i" by (simp add: unat_div index_bytes(1) [OF assms(2)])
  then show ?thesis unfolding e by (simp add: word_unat_eq_iff)
qed

definition page_bits :: "PageType \<Rightarrow> nat" where
  "page_bits ty = (case ty of Page4K \<Rightarrow> 12 | Page2M \<Rightarrow> 21 | Page1G \<Rightarrow> 30)"

lemma page_bytes_mask: "page_bytes ty - 1 = mask (page_bits ty)" "page_bytes ty = 2 ^ page_bits ty"
  by (cases ty; simp add: page_bits_def mask_eq_exp_minus_1)+

lemma page_bits_in: "page_bits ty \<in> {12, 21, 30}"
  by (cases ty) (simp_all add: page_bits_def)

text \<open>The levels above a mapped page.\<close>

lemma tbl_levels:
  assumes "q \<in> addr_indices"
  shows "tbl \<mu> root (take (Suc 0) q) = (case level_entry \<mu> root q 0 of None \<Rightarrow> None
      | Some e \<Rightarrow> if is_table e then Some (eaddr e) else None)"
    "tbl \<mu> root (take 2 q) = (case level_entry \<mu> root q (Suc 0) of None \<Rightarrow> None
      | Some e \<Rightarrow> if is_table e then Some (eaddr e) else None)"
    "tbl \<mu> root (take 3 q) = (case level_entry \<mu> root q 2 of None \<Rightarrow> None
      | Some e \<Rightarrow> if is_table e then Some (eaddr e) else None)"
proof -
  have n: "Suc (Suc 0) = 2" "Suc 2 = 3" by simp_all
  show "tbl \<mu> root (take (Suc 0) q) = (case level_entry \<mu> root q 0 of None \<Rightarrow> None
      | Some e \<Rightarrow> if is_table e then Some (eaddr e) else None)" by (rule tbl_Suc [OF assms]) simp
  show "tbl \<mu> root (take 2 q) = (case level_entry \<mu> root q (Suc 0) of None \<Rightarrow> None
      | Some e \<Rightarrow> if is_table e then Some (eaddr e) else None)"
    using tbl_Suc [OF assms, of "Suc 0" \<mu> root] unfolding n by simp
  show "tbl \<mu> root (take 3 q) = (case level_entry \<mu> root q 2 of None \<Rightarrow> None
      | Some e \<Rightarrow> if is_table e then Some (eaddr e) else None)"
    using tbl_Suc [OF assms, of 2 \<mu> root] unfolding n by simp
qed

lemma lookup_levels:
  assumes "q \<in> addr_indices" "lookup \<mu> root q = Some (ty, e)"
  shows "tbl \<mu> root (take (Suc 0) q) \<noteq> None" "tbl \<mu> root (take 2 q) = None \<longleftrightarrow> ty = Page1G"
    "tbl \<mu> root (take 3 q) = None \<longleftrightarrow> ty \<noteq> Page4K"
proof -
  have l0: "level_entry \<mu> root q 0 \<noteq> None" by (simp add: level_entry_def)
  have "tbl \<mu> root (take (Suc 0) q) \<noteq> None \<and> (tbl \<mu> root (take 2 q) = None \<longleftrightarrow> ty = Page1G) \<and>
      (tbl \<mu> root (take 3 q) = None \<longleftrightarrow> ty \<noteq> Page4K)"
    using assms(2) l0 unfolding tbl_levels [OF assms(1)]
    by (auto simp: lookup_def levels [OF assms(1), of \<mu> root] is_table_def split: option.splits if_splits)
  then show "tbl \<mu> root (take (Suc 0) q) \<noteq> None" "tbl \<mu> root (take 2 q) = None \<longleftrightarrow> ty = Page1G"
    "tbl \<mu> root (take 3 q) = None \<longleftrightarrow> ty \<noteq> Page4K" by simp_all
qed

text \<open>An address that is mapped is recovered from the addresses of its entries.\<close>

lemma virt_base_fields:
  assumes "canonicalize_address v = v" "aligned t0" "aligned t1" "aligned t2" "aligned t3"
    "pml4e m = Some (slot t0 (field 39 v))" "pdpe m = Some (slot t1 (field 30 v))"
    "pde m = (if ty = Page1G then None else Some (slot t2 (field 21 v)))"
    "pte m = (if ty = Page4K then Some (slot t3 (field 12 v)) else None)" "page m \<noteq> None"
  shows "mapping_size m = Some ty" "virt_base m = Some (v AND NOT (page_bytes ty - 1))"
proof -
  show "mapping_size m = Some ty" using assms(8-10) by (cases ty) (auto simp: mapping_size_def)
  have f: "field n v < 512" for n
  proof -
    have "unat (field n v) < 512" unfolding field_def unsigned_take_bit_eq by (simp add: take_bit_eq_mod)
    then show ?thesis by (simp add: word_less_nat_alt)
  qed
  let ?x = "push_bit 39 (field 39 v) OR push_bit 30 (field 30 v) OR
    push_bit 21 (if ty = Page1G then 0 else field 21 v) OR push_bit 12 (if ty = Page4K then field 12 v else 0)"
  have "virt_base m = Some (canonicalize_address ?x)"
    unfolding virt_base_def assms(6-9) using assms(10) slot_index [OF _ f] assms(2-5) by (simp add: unwrap_or_def)
  moreover have "canonicalize_address ?x = v AND NOT (mask (page_bits ty))"
    by (rule canonical_upper [OF assms(1) page_bits_in]) (cases ty; auto simp: bit_or_iff bit_field page_bits_def)
  ultimately show "virt_base m = Some (v AND NOT (page_bytes ty - 1))" by (simp add: page_bytes_mask(1))
qed

lemma virt_base_mapping:
  assumes T: "tree_ok \<mu> F root" and v: "canonicalize_address v = v" and l: "lookup \<mu> root (indicies v) = Some (ty, e)"
  shows "mapping_size (mapping_of \<mu> root v) = Some ty"
    "virt_base (mapping_of \<mu> root v) = Some (v AND NOT (page_bytes ty - 1))"
proof -
  define t where "t d = unwrap_or 0 (tbl \<mu> root (take d (indicies v)))" for d
  have al: "aligned (t d)" if "d \<le> 3" for d
    using tree_okD(2) [OF T take_prefix [OF indicies_in that]]
    by (cases "tbl \<mu> root (take d (indicies v))") (simp_all add: t_def unwrap_or_def aligned_def)
  have s: "level_slot \<mu> root (indicies v) d = (if tbl \<mu> root (take d (indicies v)) = None then None else Some (slot (t d) (indicies v ! d)))" for d
    by (cases "tbl \<mu> root (take d (indicies v))") (simp_all add: level_slot_def t_def unwrap_or_def)
  note L = lookup_levels [OF indicies_in l]
  have m: "pml4e (mapping_of \<mu> root v) = Some (slot (t 0) (field 39 v))"
    "pdpe (mapping_of \<mu> root v) = Some (slot (t 1) (field 30 v))"
    "pde (mapping_of \<mu> root v) = (if ty = Page1G then None else Some (slot (t 2) (field 21 v)))"
    "pte (mapping_of \<mu> root v) = (if ty = Page4K then Some (slot (t 3) (field 12 v)) else None)"
    "page (mapping_of \<mu> root v) \<noteq> None"
    using L l unfolding mapping_of_def s by (auto simp: indicies_fields)
  show "mapping_size (mapping_of \<mu> root v) = Some ty"
    "virt_base (mapping_of \<mu> root v) = Some (v AND NOT (page_bytes ty - 1))"
    using virt_base_fields [OF v _ _ _ _ m] al by simp_all
qed

lemma indicies_inj:
  assumes "canonicalize_address v = v" "canonicalize_address w = w" "aligned v" "aligned w" "indicies v = indicies w"
  shows "v = w"
proof -
  have f: "field n v = field n w" if "n \<in> {39, 30, 21, 12}" for n using assms(5) that by (auto simp: indicies_fields)
  have b: "bit v i = bit w i" if "12 \<le> i" "i \<le> 47" for i
  proof -
    define n :: nat where "n = (if i < 21 then 12 else if i < 30 then 21 else if i < 39 then 30 else 39)"
    have "n \<in> {39, 30, 21, 12}" "n \<le> i" "i < n + 9" using that by (auto simp: n_def)
    then show ?thesis using f [of n] bit_field [of n v i] bit_field [of n w i] that by simp
  qed
  have z: "\<not> bit x i" if "aligned x" "i < 12" for x :: u64 and i
  proof -
    have "bit x i = bit (take_bit 12 x) i" using that(2) by (simp add: bit_take_bit_iff)
    then show ?thesis using that(1) by (simp add: aligned_def)
  qed
  show ?thesis
  proof (rule bit_word_eqI)
    fix i :: nat assume "i < LENGTH(64)"
    then have i: "i < 64" by simp
    show "bit v i = bit w i"
    proof (cases "i < 12")
      case True
      with z [OF assms(3)] z [OF assms(4)] show ?thesis by blast
    next
      case False
      then have "bit v (min i 47) = bit w (min i 47)" by (intro b) auto
      then show ?thesis unfolding canonical_bit [OF assms(1) i] canonical_bit [OF assms(2) i] .
    qed
  qed
qed

subsection \<open>Mapping new pages\<close>

text \<open>One round of \<open>map_init\<close>: allocate a page, fill it and map it.\<close>

definition new_page :: "'s PhysMem \<Rightarrow> PageTable \<Rightarrow> bool \<Rightarrow> bool \<Rightarrow> (u64 \<Rightarrow> u8) option \<Rightarrow> u64 \<Rightarrow> u64 \<Rightarrow> 's \<Rightarrow> (u64 \<times> unit option \<times> 's) res" where
  "new_page pm pt write exec init orig v s =
     bindR (pm_alloc pm s (page_layout 4096)) (\<lambda>(f, s).
     bindR (init_page pm s f 4096 (v - orig) init) (\<lambda>s.
     bindR (map_raw pm pt s v Page4K (page_entry f Page4K write exec)) (\<lambda>(r, s). Ok (f, r, s))))"

lemma map_pages_Cons:
  "map_pages pm pt Page4K write exec init orig (v # vs) s =
     bindD (Some (new_page pm pt write exec init orig v s)) (\<lambda>(f, r, s).
     if r = None then
       (if v - orig > 0 then bindD (pt_free pm pt s orig (v - orig)) (\<lambda>s. Some (Ok (None, s))) else Some (Ok (None, s)))
     else map_pages pm pt Page4K write exec init orig vs s)"
proof (cases "pm_alloc pm s (page_layout 4096)")
  case (Ok a)
  obtain f s1 where a: "a = (f, s1)" by (cases a)
  show ?thesis
  proof (cases "init_page pm s1 f 4096 (v - orig) init")
    case (Ok s2)
    with \<open>pm_alloc pm s (page_layout 4096) = Ok a\<close> a show ?thesis
      by (cases "map_raw pm pt s2 v Page4K (page_entry f Page4K write exec)") (auto simp: new_page_def)
  qed (use Ok a in \<open>simp add: new_page_def\<close>)
qed (simp add: new_page_def)

lemma page_entry_present: "present (page_entry f ty write exec)"
  unfolding present_bit page_entry_def PAGE_PRESENT_def by (simp add: bit_or_iff bit_push_bit_iff)

lemma same_page_4K: "q \<in> addr_indices \<Longrightarrow> q' \<in> addr_indices \<Longrightarrow> same_page Page4K q q' \<longleftrightarrow> q = q'"
  by (simp add: same_page_def addr_indices_def)

text \<open>
  The page \<open>f\<close> is new: it is not owned in the first state and holds the bytes of \<open>init\<close>.
\<close>

definition filled :: "64 memory \<Rightarrow> (u64 \<Rightarrow> u8) option \<Rightarrow> u64 \<Rightarrow> u64 \<Rightarrow> bool" where
  "filled \<mu> init off f \<longleftrightarrow> (case init of None \<Rightarrow> True | Some g \<Rightarrow> \<forall>a. frame a = f \<longrightarrow> \<mu> a = g (off + take_bit 12 a))"

lemma filled_agree: "filled \<mu> init off f \<Longrightarrow> agree D \<mu> \<mu>' \<Longrightarrow> f \<in> D \<Longrightarrow> filled \<mu>' init off f"
  by (auto simp: filled_def agree_def split: option.splits)

context phys_memory
begin

lemma init_page_ok:
  assumes I: "I s" and f: "f \<in> owned s"
  obtains s' where "init_page pm s f 4096 off init = Ok s'" "I s'" "owned s' = owned s"
    "agree (- {f}) (pview pm base s) (pview pm base s')" "filled (pview pm base s') init off f"
proof (cases init)
  case None
  then show thesis by (intro that [of s]) (use I in \<open>simp_all add: init_page_def agree_def filled_def\<close>)
next
  case (Some g)
  have al: "aligned f" using owned_page [OF I f] by simp
  have t: "pm_translate pm s f 4096 = Ok (f + base)" using translate_ok [OF I f, of 4096 0] by simp
  let ?m = "fill_bytes (pm_mem pm s) (f + base) 4096 (\<lambda>o1. g (off + o1))"
  have v: "view base ?m = fill_bytes (pview pm base s) f 4096 (\<lambda>o1. g (off + o1))" by (simp add: view_fill pview_def)
  have "agree (- owned s) (pview pm base s) (view base ?m)"
    unfolding v using f by (auto simp: agree_def fill_frame [OF al])
  from set_ok [OF I this] have s: "I (pm_set_mem pm ?m s)" "owned (pm_set_mem pm ?m s) = owned s" by simp_all
  show thesis
    by (rule that [of "pm_set_mem pm ?m s"])
      (use Some s t in \<open>auto simp: init_page_def pview_set v agree_def filled_def fill_frame [OF al]\<close>)
qed

lemma new_page_ok:
  assumes I: "I s" and T: "tree_ok (pview pm base s) (owned s) root"
    and v: "canonicalize_address v = v" "lookup (pview pm base s) root (indicies v) = None"
  defines "\<mu> \<equiv> pview pm base s"
  shows "sat oom (\<lambda>(f, r, s'). r = Some () \<and> I s' \<and> owned s \<subseteq> owned s' \<and> f \<notin> owned s \<and>
      f \<in> data_pages (pview pm base s') (owned s') root \<and>
      keeps (data_pages \<mu> (owned s) root)
        (\<lambda>q. if q = indicies v then Some (Page4K, page_entry f Page4K write exec) else lookup \<mu> root q)
        \<mu> (pview pm base s') (owned s') root \<and>
      filled (pview pm base s') init (v - orig) f)
    (new_page pm \<lparr>table = root\<rparr> write exec init orig v s)"
proof (cases "pm_alloc pm s (page_layout 4096)")
  case (Panic msg)
  with I have "oom msg" by (auto simp: oom_def)
  with Panic show ?thesis by (simp add: new_page_def)
next
  case (Ok a)
  obtain f s1 where a: "a = (f, s1)" by (cases a)
  note al = alloc_ok [OF I Ok [unfolded a], folded \<mu>_def]
  have I1: "I s1" and f1: "f \<in> owned s1" "f \<notin> owned s" using al by auto
  obtain s2 where s2: "init_page pm s1 f 4096 (v - orig) init = Ok s2" "I s2" "owned s2 = owned s1"
    "agree (- {f}) (pview pm base s1) (pview pm base s2)" "filled (pview pm base s2) init (v - orig) f"
    by (rule init_page_ok [OF I1 f1(1)])
  let ?\<mu>2 = "pview pm base s2"
  have ag: "agree (owned s) \<mu> ?\<mu>2" using al s2(4) f1(2) by (auto simp: agree_def)
  have sub: "owned s \<subseteq> owned s2" using al s2(3) by auto
  note T = T [folded \<mu>_def]
  have T2: "tree_ok ?\<mu>2 (owned s2) root" by (rule tree_agree [OF T ag sub])
  have tb: "tbl ?\<mu>2 root p = tbl \<mu> root p" if "p \<in> prefixes" for p by (rule tbl_agree [OF T ag that])
  have L2: "lookup ?\<mu>2 root q = lookup \<mu> root q" if "q \<in> addr_indices" for q by (rule lookup_agree [OF T ag that])
  let ?D = "data_pages \<mu> (owned s) root"
  let ?D2 = "data_pages ?\<mu>2 (owned s2) root"
  have D: "?D \<subseteq> ?D2" using sub tb by (auto simp: data_pages_def)
  have fD: "f \<in> ?D2" using f1 s2(3) tb tree_okD(1) [OF T] by (auto simp: data_pages_def)
  let ?e = "page_entry f Page4K write exec"
  have m: "mappable ?\<mu>2 root v Page4K ?e"
    using v L2 [OF indicies_in] by (simp add: mappable_def page_entry_present \<mu>_def)
  show ?thesis
  proof (cases "map_raw pm \<lparr>table = root\<rparr> s2 v Page4K ?e")
    case (Panic msg)
    then show ?thesis using map_raw_ok [OF s2(2) T2, of v Page4K ?e] Ok a s2(1) by (simp add: new_page_def)
  next
    case (Ok b)
    obtain r s3 where b: "b = (r, s3)" by (cases b)
    have k: "r = Some ()" "I s3" "owned s2 \<subseteq> owned s3"
      "keeps ?D2 (\<lambda>q'. if same_page Page4K q' (indicies v) then Some (Page4K, ?e) else lookup ?\<mu>2 root q')
        ?\<mu>2 (pview pm base s3) (owned s3) root"
      using map_raw_ok [OF s2(2) T2, of v Page4K ?e] m Ok b by simp_all
    have "keeps ?D (\<lambda>q. if q = indicies v then Some (Page4K, ?e) else lookup \<mu> root q) \<mu> (pview pm base s3) (owned s3) root"
      using k(4) D ag L2 unfolding keeps_def
      by (auto simp: same_page_4K agree_def data_pages_def [of \<mu>] subset_iff)
    moreover have "f \<in> data_pages (pview pm base s3) (owned s3) root" "filled (pview pm base s3) init (v - orig) f"
      using k(4) fD s2(5) filled_agree [of ?\<mu>2 init "v - orig" f ?D2] by (auto simp: keeps_def)
    ultimately show ?thesis
      using \<open>pm_alloc pm s (page_layout 4096) = Ok a\<close> a s2(1) Ok b k(1-3) sub f1(2) by (simp add: new_page_def)
  qed
qed

end

text \<open>
  The pages \<open>fs\<close> are new and mapped at the addresses \<open>vs\<close>; everything else is mapped as before, and
  the pages that are not tables hold what they held before.
\<close>

definition new_mappings :: "bool \<Rightarrow> bool \<Rightarrow> u64 list \<Rightarrow> u64 list \<Rightarrow> (u64 list \<Rightarrow> (PageType \<times> u64) option) \<Rightarrow> u64 list \<Rightarrow> (PageType \<times> u64) option" where
  "new_mappings write exec vs fs L q = (case map_of (zip (map indicies vs) fs) q of
     Some f \<Rightarrow> Some (Page4K, page_entry f Page4K write exec) | None \<Rightarrow> L q)"

definition mapped_range :: "bool \<Rightarrow> bool \<Rightarrow> (u64 \<Rightarrow> u8) option \<Rightarrow> u64 \<Rightarrow> u64 list \<Rightarrow> u64 list \<Rightarrow> u64 \<Rightarrow>
    64 memory \<Rightarrow> u64 set \<Rightarrow> 64 memory \<Rightarrow> u64 set \<Rightarrow> bool" where
  "mapped_range write exec init orig vs fs root \<mu> F \<mu>' F' \<longleftrightarrow>
     length fs = length vs \<and> distinct fs \<and> set fs \<inter> F = {} \<and> set fs \<subseteq> data_pages \<mu>' F' root \<and> F \<subseteq> F' \<and>
     keeps (data_pages \<mu> F root) (new_mappings write exec vs fs (lookup \<mu> root)) \<mu> \<mu>' F' root \<and>
     list_all2 (\<lambda>v f. filled \<mu>' init (v - orig) f) vs fs"

lemma mapped_range_Nil: "tree_ok \<mu> F root \<Longrightarrow> mapped_range write exec init orig [] [] root \<mu> F \<mu> F"
  by (simp add: mapped_range_def new_mappings_def keeps_def agree_def)

lemma mapped_range_Cons:
  assumes k: "keeps (data_pages \<mu> F root) (\<lambda>q. if q = indicies v then Some (Page4K, page_entry f Page4K write exec) else lookup \<mu> root q) \<mu> \<mu>1 F1 root"
    and f: "f \<notin> F" "f \<in> data_pages \<mu>1 F1 root" "F \<subseteq> F1" "filled \<mu>1 init (v - orig) f" "v \<notin> set vs" "indicies v \<notin> indicies ` set vs"
    and r: "mapped_range write exec init orig vs fs root \<mu>1 F1 \<mu>' F'"
  shows "mapped_range write exec init orig (v # vs) (f # fs) root \<mu> F \<mu>' F'"
proof -
  note k = k [unfolded keeps_def] and r = r [unfolded mapped_range_def keeps_def]
  have D: "data_pages \<mu> F root \<subseteq> data_pages \<mu>' F' root" using k r by blast
  have ag: "agree (data_pages \<mu> F root) \<mu> \<mu>'" using k r by (auto simp: agree_def)
  have L: "lookup \<mu>' root q = new_mappings write exec (v # vs) (f # fs) (lookup \<mu> root) q" if q: "q \<in> addr_indices" for q
  proof (cases "q = indicies v")
    case True
    have "map_of (zip (map indicies vs) fs) (indicies v) = None"
      using f(6) by (auto simp: map_of_eq_None_iff dest: set_zip_leftD)
    moreover have "lookup \<mu>1 root (indicies v) = Some (Page4K, page_entry f Page4K write exec)"
      "lookup \<mu>' root (indicies v) = new_mappings write exec vs fs (lookup \<mu>1 root) (indicies v)" using k r by simp_all
    ultimately show ?thesis unfolding True by (simp add: new_mappings_def)
  next
    case False
    then have "lookup \<mu>1 root q = lookup \<mu> root q"
      "lookup \<mu>' root q = new_mappings write exec vs fs (lookup \<mu>1 root) q" using k r q by simp_all
    with False show ?thesis by (cases "map_of (zip (map indicies vs) fs) q") (simp_all add: new_mappings_def)
  qed
  have "f \<in> F1" using f(2) by (simp add: data_pages_def)
  then have d: "distinct (f # fs)" "set (f # fs) \<inter> F = {}" using r f by auto
  have "filled \<mu>' init (v - orig) f" using r f(2,4) by (auto intro: filled_agree)
  with D ag L d f(2,3) r show ?thesis unfolding mapped_range_def keeps_def by auto
qed

context phys_memory
begin

lemma map_pages_ok:
  assumes "I s" "tree_ok (pview pm base s) (owned s) root" "distinct (map indicies vs)"
    "\<And>v. v \<in> set vs \<Longrightarrow> canonicalize_address v = v \<and> lookup (pview pm base s) root (indicies v) = None"
  shows "\<exists>r. map_pages pm \<lparr>table = root\<rparr> Page4K write exec init orig vs s = Some r \<and>
    sat oom (\<lambda>(x, s'). x = Some () \<and> I s' \<and>
      (\<exists>fs. mapped_range write exec init orig vs fs root (pview pm base s) (owned s) (pview pm base s') (owned s'))) r"
  using assms
proof (induction vs arbitrary: s)
  case Nil
  then show ?case using mapped_range_Nil by fastforce
next
  case (Cons v vs)
  let ?\<mu> = "pview pm base s"
  have v: "canonicalize_address v = v" "lookup ?\<mu> root (indicies v) = None" using Cons.prems(4) by auto
  note n = new_page_ok [OF Cons.prems(1,2) v, of "write" exec init orig]
  show ?case
  proof (cases "new_page pm \<lparr>table = root\<rparr> write exec init orig v s")
    case (Panic msg)
    with n show ?thesis unfolding map_pages_Cons by simp
  next
    case (Ok x)
    obtain f r s1 where x: "x = (f, r, s1)" by (cases x)
    let ?\<mu>1 = "pview pm base s1"
    have p: "r = Some ()" "I s1" "owned s \<subseteq> owned s1" "f \<notin> owned s" "f \<in> data_pages ?\<mu>1 (owned s1) root"
      "keeps (data_pages ?\<mu> (owned s) root)
        (\<lambda>q. if q = indicies v then Some (Page4K, page_entry f Page4K write exec) else lookup ?\<mu> root q) ?\<mu> ?\<mu>1 (owned s1) root"
      "filled ?\<mu>1 init (v - orig) f" using n Ok x by simp_all
    have T1: "tree_ok ?\<mu>1 (owned s1) root" using p(6) by (simp add: keeps_def)
    have i: "indicies v \<notin> indicies ` set vs" "distinct (map indicies vs)" "v \<notin> set vs" using Cons.prems(3) by auto
    have "canonicalize_address w = w \<and> lookup ?\<mu>1 root (indicies w) = None" if "w \<in> set vs" for w
    proof -
      have "indicies w \<noteq> indicies v" using that i(1) by (metis imageI)
      then show ?thesis using Cons.prems(4) [of w] that p(6) by (simp add: keeps_def)
    qed
    from Cons.IH [OF p(2) T1 i(2) this] obtain r' where r': "map_pages pm \<lparr>table = root\<rparr> Page4K write exec init orig vs s1 = Some r'"
      "sat oom (\<lambda>(x, s'). x = Some () \<and> I s' \<and>
        (\<exists>fs. mapped_range write exec init orig vs fs root ?\<mu>1 (owned s1) (pview pm base s') (owned s'))) r'" by blast
    have "sat oom (\<lambda>(x, s'). x = Some () \<and> I s' \<and>
        (\<exists>fs. mapped_range write exec init orig (v # vs) fs root ?\<mu> (owned s) (pview pm base s') (owned s'))) r'"
      by (rule sat_mono [OF r'(2)]) (use mapped_range_Cons [OF p(6,4,5,3,7) i(3,1)] in blast)
    with r'(1) Ok x p(1) show ?thesis unfolding map_pages_Cons by simp
  qed
qed

end

subsection \<open>Mapping a range\<close>

definition page_addrs :: "u64 \<Rightarrow> u64 \<Rightarrow> u64 list" where
  "page_addrs v sz = map (\<lambda>k. v + word_of_nat k * 4096) [0..<unat ((sz - 1) div 4096) + 1]"

lemma page_addrs_nth:
  fixes v sz :: u64
  assumes "sz > 0" "v \<le> v + (sz - 1)" "k < unat ((sz - 1) div 4096) + 1"
  shows "unat (v + word_of_nat k * 4096) = unat v + k * 4096"
proof -
  have "unat v + unat (sz - 1) < 2 ^ LENGTH(64)" using assms(2) no_overflow_iff [of v "sz - 1"] by simp
  then have b: "unat v + unat (sz - 1) < 2 ^ 64" by simp
  have "unat ((sz - 1) div 4096) = unat (sz - 1) div 4096" by (simp add: unat_div)
  then have "k \<le> unat (sz - 1) div 4096" using assms(3) by simp
  then have k: "k * 4096 \<le> unat (sz - 1)" using div_times_less_eq_dividend [of "unat (sz - 1)" 4096] by (meson le_trans mult_le_mono1)
  then have "k < 2 ^ 64" using b by simp
  then have "unat (word_of_nat k :: u64) = k" by (simp only: unat_of_nat) (simp add: take_bit_eq_mod)
  then have "unat (word_of_nat k * 4096 :: u64) = k * 4096" using k b by (simp add: unat_word_ariths)
  then show ?thesis using k b by (simp add: unat_word_ariths)
qed

lemma page_addrs_distinct:
  assumes "sz > 0" "v \<le> v + (sz - 1)" "aligned v" "\<And>w. w \<in> set (page_addrs v sz) \<Longrightarrow> canonicalize_address w = w"
  shows "distinct (map indicies (page_addrs v sz))"
proof -
  have "inj_on (\<lambda>k. v + word_of_nat k * 4096) {0..<unat ((sz - 1) div 4096) + 1}"
  proof (rule inj_onI)
    fix j k assume jk: "j \<in> {0..<unat ((sz - 1) div 4096) + 1}" "k \<in> {0..<unat ((sz - 1) div 4096) + 1}"
      and e: "v + word_of_nat j * 4096 = v + word_of_nat k * 4096"
    from jk have "j < unat ((sz - 1) div 4096) + 1" "k < unat ((sz - 1) div 4096) + 1" by auto
    note p = page_addrs_nth [OF assms(1,2) this(1)] page_addrs_nth [OF assms(1,2) this(2)]
    have "unat v + j * 4096 = unat v + k * 4096" using arg_cong [OF e, of unat] unfolding p .
    then show "j = k" by simp
  qed
  then have "distinct (page_addrs v sz)" unfolding page_addrs_def by (simp add: distinct_map atLeast0LessThan del: upt_Suc)
  moreover have "aligned w" if "w \<in> set (page_addrs v sz)" for w
  proof -
    from that obtain k where k: "k < unat ((sz - 1) div 4096) + 1" "w = v + word_of_nat k * 4096"
      by (auto simp: page_addrs_def simp del: upt_Suc)
    show ?thesis using page_addrs_nth [OF assms(1,2) k(1)] assms(3) k(2) by (simp add: aligned_unat)
  qed
  then have "inj_on indicies (set (page_addrs v sz))" using assms(4) indicies_inj by (auto intro: inj_onI)
  ultimately show ?thesis by (simp add: distinct_map)
qed

context phys_memory
begin

lemma map_init_ok:
  assumes I: "I s" and T: "tree_ok (pview pm base s) (owned s) root"
    and v: "sz > 0" "v \<le> v + (sz - 1)" "aligned v"
      "\<And>w. w \<in> set (page_addrs v sz) \<Longrightarrow> canonicalize_address w = w \<and> lookup (pview pm base s) root (indicies w) = None"
  shows "\<exists>r. map_init pm \<lparr>table = root\<rparr> s v Page4K sz read write exec init = Some r \<and>
    sat oom (\<lambda>(x, s'). x = Some () \<and> I s' \<and>
      (\<exists>fs. mapped_range write exec init v (page_addrs v sz) fs root (pview pm base s) (owned s) (pview pm base s') (owned s'))) r"
proof -
  have d: "distinct (map indicies (page_addrs v sz))" using page_addrs_distinct [OF v(1-3)] v(4) by blast
  have "map_init pm \<lparr>table = root\<rparr> s v Page4K sz read write exec init =
      map_pages pm \<lparr>table = root\<rparr> Page4K write exec init v (page_addrs v sz) s"
    using v(1-3) by (simp add: map_init_def Let_def checked_add_code aligned_and page_addrs_def word_gt_0 linorder_not_le [symmetric] del: upt_Suc)
  with map_pages_ok [OF I T d v(4)] show ?thesis by simp
qed

end

subsection \<open>Freeing a range\<close>

text \<open>
  A mapping of an address with a page gives the page it is in. This holds of any memory, as long
  as the top table is on a page boundary.
\<close>

definition within :: "u64 \<Rightarrow> Mapping \<Rightarrow> bool" where
  "within v m \<longleftrightarrow> (page m = None \<or>
     (\<exists>ty. mapping_size m = Some ty \<and> virt_base m = Some (v AND NOT (page_bytes ty - 1))))"

lemma walk_step:
  assumes w: "walk pm s v t d (i # is) ret = Ok m" and p: "page ret = None" "page m \<noteq> None"
  shows "d \<noteq> 0 \<and> m = (set_level d (slot t i) ret)\<lparr>page := page m\<rparr> \<or>
    d \<noteq> 3 \<and> (\<exists>t'. aligned t' \<and> walk pm s v t' (Suc d) is (set_level d (slot t i) ret) = Ok m)"
proof -
  have n: "page (set_level d (slot t i) ret) = None" using p(1) by (simp add: set_level_def)
  from w obtain ent where e: "entry_read pm s (t + i * 8) = Ok ent" by (auto simp: Let_def)
  let ?r = "set_level d (slot t i) ret"
  have "walk pm s v t d (i # is) ret = (if \<not> present ent then Ok ?r
      else if d = 3 \<or> large ent then (if d = 0 then Ok ?r else Ok (?r\<lparr>page := Some (page_of v (depth_type d, ent))\<rparr>))
      else walk pm s v (eaddr ent) (Suc d) is ?r)"
    by (simp add: e Let_def present_def large_def eaddr_def page_of_def slot_def)
  with w n p(2) have "d \<noteq> 0 \<and> m = ?r\<lparr>page := page m\<rparr> \<or> d \<noteq> 3 \<and> walk pm s v (eaddr ent) (Suc d) is ?r = Ok m"
    by (auto split: if_splits)
  then show ?thesis using eaddr_aligned by blast
qed

lemma walk_within:
  assumes v: "canonicalize_address v = v" and t: "aligned t"
    and w: "walk pm s v t 0 (indicies v) mapping_empty = Ok m"
  shows "within v m"
proof (cases "page m = None")
  case True
  then show ?thesis by (simp add: within_def)
next
  case False
  note f = virt_base_fields [OF v t]
  define r0 r1 r2 where "r0 = set_level 0 (slot t (field 39 v)) mapping_empty"
    and "r1 t1 = set_level 1 (slot t1 (field 30 v)) r0" and "r2 t1 t2 = set_level 2 (slot t2 (field 21 v)) (r1 t1)" for t1 t2
  note r = r0_def r1_def r2_def mapping_empty_def set_level_def
  have n: "page mapping_empty = None" "page r0 = None" "page (r1 t1) = None" "page (r2 t1 t2) = None" for t1 t2 by (simp_all add: r)
  have W: "within v m" if "pml4e m = Some (slot t (field 39 v))" "pdpe m = Some (slot t1 (field 30 v))"
    "pde m = (if ty = Page1G then None else Some (slot t2 (field 21 v)))"
    "pte m = (if ty = Page4K then Some (slot t3 (field 12 v)) else None)" "aligned t1" "aligned t2" "aligned t3" for t1 t2 t3 ty
    using virt_base_fields [OF v t that(5-7) that(1-4) False] by (auto simp: within_def)
  have z: "aligned 0" by (simp add: aligned_def)
  from walk_step [OF w [unfolded indicies_fields] n(1) False] obtain t1 where
    t1: "aligned t1" "walk pm s v t1 1 [field 30 v, field 21 v, field 12 v] r0 = Ok m" by (auto simp: r0_def)
  from walk_step [OF t1(2) n(2) False, folded r1_def] consider "m = (r1 t1)\<lparr>page := page m\<rparr>"
    | t2 where "aligned t2" "walk pm s v t2 2 [field 21 v, field 12 v] (r1 t1) = Ok m" by (auto simp: numeral_2_eq_2)
  then show ?thesis
  proof cases
    case 1
    show ?thesis by (rule W [of t1 Page1G 0 0]) ((subst 1, simp add: r)+, simp_all add: t1 z)
  next
    case (2 t2)
    from walk_step [OF 2(2) n(3) False, folded r2_def] consider "m = (r2 t1 t2)\<lparr>page := page m\<rparr>"
      | t3 where "aligned t3" "walk pm s v t3 3 [field 12 v] (r2 t1 t2) = Ok m" by (auto simp: numeral_3_eq_3 numeral_2_eq_2)
    then show ?thesis
    proof cases
      case a: 1
      show ?thesis by (rule W [of t1 Page2M t2 0]) ((subst a, simp add: r)+, simp_all add: t1 2 z)
    next
      case b: (2 t3)
      from walk_step [OF b(2) n(4) False] have c: "m = (set_level 3 (slot t3 (field 12 v)) (r2 t1 t2))\<lparr>page := page m\<rparr>" by simp
      show ?thesis by (rule W [of t1 Page4K t2 t3]) ((subst c, simp add: r)+, simp_all add: t1 2 b)
    qed
  qed
qed

lemma translate_within:
  assumes "aligned (table pt)" "pt_translate pm pt s v = Ok (Some m)"
  shows "within v m"
  using assms walk_within [of v "table pt" pm s m] by (auto simp: pt_translate_def someR_def split: if_splits)

lemma free_page_next:
  assumes "within v m" "free_page pm m s = Ok (Some n, b, s')"
  shows "unat v < unat n"
proof -
  from assms(2) obtain pv ty where p: "virt_base m = Some pv" "mapping_size m = Some ty" "checked_add pv (page_bytes ty) = Some n"
    by (auto simp: free_page_def unwrapR_def)
  have "page m \<noteq> None" using p(1) by (cases "page m") (simp_all add: virt_base_def)
  then have pv: "pv = v AND NOT (mask (page_bits ty))" using assms(1) p(1,2) by (auto simp: within_def page_bytes_mask(1))
  let ?k = "page_bits ty"
  have d: "pv AND take_bit ?k v = 0" unfolding pv by (rule bit_word_eqI) (auto simp: bit_simps)
  have "pv OR take_bit ?k v = v" unfolding pv by (rule bit_word_eqI) (auto simp: bit_simps)
  then have "v = pv + take_bit ?k v" by (simp add: disjunctive_add_eq_or [OF d])
  then have "unat v = unat (pv + take_bit ?k v)" by simp
  also have "\<dots> \<le> unat pv + unat (take_bit ?k v)" by (simp add: unat_word_ariths)
  also have "unat (take_bit ?k v) < unat (page_bytes ty)"
    unfolding unsigned_take_bit_eq by (cases ty) (simp_all add: page_bits_def take_bit_eq_mod)
  finally show ?thesis using conjunct2 [OF checked_add_SomeD [OF p(3)]] by simp
qed

lemma free_loop_returns:
  assumes "aligned (table pt)" "within v m"
  shows "\<exists>r. free_loop pm pt end_addr m freed s = Some r"
  using assms(2)
proof (induction "2 ^ 64 - unat v" arbitrary: v m freed s rule: less_induct)
  case less
  show ?case
  proof (cases "free_page pm m s")
    case (Panic msg)
    then show ?thesis by (subst free_loop.simps) simp
  next
    case (Ok x)
    obtain n b s1 where x: "x = (n, b, s1)" by (cases x)
    show ?thesis
    proof (cases n)
      case None
      with Ok x show ?thesis by (subst free_loop.simps) simp
    next
      case (Some n')
      have gt: "unat v < unat n'" by (rule free_page_next [OF less.prems, of pm s n' b s1]) (use Ok x Some in simp)
      show ?thesis
      proof (cases "n' > end_addr")
        case True
        with Ok x Some show ?thesis by (subst free_loop.simps) simp
      next
        case False
        show ?thesis
        proof (cases "pt_translate pm pt s1 n'")
          case (Panic msg)
          with Ok x Some False show ?thesis by (subst free_loop.simps) simp
        next
          case (Ok y)
          show ?thesis
          proof (cases y)
            case None
            with \<open>free_page pm m s = Ok x\<close> Ok x Some False show ?thesis by (subst free_loop.simps) simp
          next
            fix m' assume m': "y = Some m'"
            have "within n' m'" by (rule translate_within [OF assms(1)]) (use Ok m' in simp)
            moreover have "unat n' < 2 ^ 64" using unsigned_less [of n', where 'a = nat] by simp
            then have "2 ^ 64 - unat n' < 2 ^ 64 - unat v" using gt by simp
            ultimately obtain r where "free_loop pm pt end_addr m' (freed + b) s1 = Some r" using less.hyps by blast
            with \<open>free_page pm m s = Ok x\<close> Ok x Some False m' show ?thesis by (subst free_loop.simps) simp
          qed
        qed
      qed
    qed
  qed
qed

subsection \<open>Properties\<close>

text \<open>Freeing a range of virtual memory always ends, whatever the memory holds and however the
  physical memory behind it behaves: the address of the next page grows in every round. Only the
  top table has to be on a page boundary.\<close>

theorem pt_free_returns:
  assumes "aligned (table pt)"
  shows "\<exists>r. pt_free pm pt s vaddr sz = Some r"
proof (cases "pt_translate pm pt s vaddr")
  case (Panic msg)
  then show ?thesis by (cases "checked_sub sz 1"; cases "checked_add vaddr (the (checked_sub sz 1))") (simp_all add: pt_free_def)
next
  case (Ok m)
  have "\<exists>r. bindD (Some (unwrapR m)) (\<lambda>cur_page. bindD (free_loop pm pt e cur_page 0 s) f) = Some r"
    if "\<And>x. \<exists>r. f x = Some r" for e and f :: "u64 \<times> 'a \<Rightarrow> 'a res option"
  proof (cases m)
    case None
    then show ?thesis by (simp add: unwrapR_def)
  next
    case (Some cur)
    have "within vaddr cur" by (rule translate_within [OF assms]) (use Ok Some in simp)
    from free_loop_returns [OF assms this, of pm e 0 s] obtain r where r: "free_loop pm pt e cur 0 s = Some r" by blast
    show ?thesis using that Some r by (cases r) (auto simp: unwrapR_def)
  qed
  then have "\<exists>r. bindD (Some (unwrapR m)) (\<lambda>cur_page. bindD (free_loop pm pt e cur_page 0 s)
      (\<lambda>(freed, s). if freed = sz then Some (Ok s) else Some (Panic ''Virtual free request freed more bytes than requested''))) = Some r" for e
    by (auto split: prod.split)
  with Ok show ?thesis
    by (cases "checked_sub sz 1"; cases "checked_add vaddr (the (checked_sub sz 1))") (simp_all add: pt_free_def)
qed

theorem pt_free_returns_witness:
  "\<exists>r. pt_free \<lparr>pm_translate = \<lambda>s a n. Ok a, pm_alloc = \<lambda>s l. Panic ''none'', pm_free = \<lambda>s a n. Ok s,
     pm_mem = \<lambda>s. s, pm_set_mem = \<lambda>m s. m\<rparr> \<lparr>table = 0x1000\<rparr> (\<lambda>a. 0xff) 0x200000 0x1000 = Some r"
  by (rule pt_free_returns) (simp add: aligned_def take_bit_eq_mod)

end
