(* ===== verification/BootPhys.thy ===== *)
theory BootPhys
  imports PageTable_Map
begin

text \<open>
  The page tables over the physical memory of the bootloader (\<open>PhysicalMemory\<close> of
  \<open>bootloader/src/mm.rs\<close>): the free memory is the range set, and the low 4 GiB are mapped one to one.
\<close>

unbundle bit_operations_syntax

definition boot_phys :: "(RangeSet \<times> 64 memory) PhysMem" where
  "boot_phys = \<lparr>
     pm_translate = (\<lambda>s paddr sz. boot_translate paddr sz),
     pm_alloc = (\<lambda>(rs, m) layout. bindR (boot_alloc_phys rs layout) (\<lambda>(p, rs). Ok (p, (rs, m)))),
     pm_free = (\<lambda>(rs, m) addr sz. bindR (boot_free_phys rs addr sz) (\<lambda>rs. Ok (rs, m))),
     pm_mem = snd,
     pm_set_mem = (\<lambda>m s. (fst s, m))\<rparr>"

definition boot_ok :: "RangeSet \<times> 64 memory \<Rightarrow> bool" where
  "boot_ok s \<longleftrightarrow> rs_inv (fst s)"

definition boot_pages :: "RangeSet \<times> 64 memory \<Rightarrow> u64 set" where
  "boot_pages s = used_pages 0x100000000 (rs_addrs (fst s))"

lemma pview_boot [simp]: "pview boot_phys 0 s = snd s"
  by (simp add: pview_def view_def boot_phys_def)

lemma boot_translate_page:
  assumes "aligned f" "f < 0x100000000" "n > 0" "unat o1 + unat n \<le> 4096"
  shows "boot_translate (f + o1) n = Ok (f + o1)"
proof -
  have lim: "aligned 0x100000000" by (simp add: aligned_and)
  note t = translate_bound [OF assms(1,2) lim assms(4,3)]
  have n: "unat (n - 1) = unat n - 1" "0 < unat n" using assms(3) by (simp_all add: unat_sub word_less_nat_alt word_le_nat_alt)
  have b: "unat (f + o1) + unat (n - 1) < 2 ^ 32" using t(2) n by simp
  then have le: "f + o1 \<le> mask 32" by (simp add: word_le_nat_alt mask_eq_exp_minus_1)
  have "unat (ucast (f + o1) :: u32) = unat (f + o1)" "unat (ucast (n - 1) :: u32) = unat (n - 1)"
    using b by (simp_all add: unsigned_ucast_eq take_bit_eq_mod)
  then have "checked_add (ucast (f + o1) :: u32) (ucast (n - 1)) \<noteq> None" using b by (simp add: checked_add_def)
  with le assms(3) show ?thesis by (auto simp: boot_translate_def split: option.splits)
qed

interpretation bmem: phys_memory boot_phys boot_ok boot_pages 0
proof unfold_locales
  fix s :: "RangeSet \<times> 64 memory" and f n o1 :: u64 assume s: "boot_ok s" "f \<in> boot_pages s"
  then have f: "aligned f" "f < 0x100000000" by (simp_all add: boot_pages_def used_pages_def)
  then show "aligned f \<and> f < 2 ^ 52" by (simp add: word_less_nat_alt)
  show "0 < n \<Longrightarrow> unat o1 + unat n \<le> 4096 \<Longrightarrow> pm_translate boot_phys s (f + o1) n = Ok (f + o1 + 0)"
    using boot_translate_page [OF f] by (simp add: boot_phys_def)
  fix s' assume "pm_free boot_phys s f 4096 = Ok s'"
  then obtain en rs where r: "checked_add 4095 f = Some en" "rs_insert (fst s) \<lparr>r_start = f, r_end = en\<rparr> = Ok rs" "s' = (rs, snd s)"
    by (auto simp: boot_phys_def boot_free_phys_def checked_sub_def split: prod.splits)
  then have en: "en = f + 4095" by (auto dest!: checked_add_SomeD)
  have "unat (f + 4095) = unat f + 4095" using unat_frame_add [OF f(1), of 4095] by simp
  then have v: "valid \<lparr>r_start = f, r_end = en\<rparr>" by (simp add: en valid_def word_le_nat_alt)
  have "span \<lparr>r_start = f, r_end = en\<rparr> = block f 4096" by (simp add: en span_def block_def)
  with rs_insert_Ok [OF _ v r(2)] s(1) have "rs_inv rs" "rs_addrs rs = rs_addrs (fst s) \<union> block f 4096" by (simp_all add: boot_ok_def)
  then show "boot_ok s' \<and> f \<notin> boot_pages s' \<and> boot_pages s - {f} \<subseteq> boot_pages s' \<and>
      agree (boot_pages s - {f}) (pview boot_phys 0 s) (pview boot_phys 0 s')"
    using used_pages_free [OF f(1)] r(3) by (simp add: boot_ok_def boot_pages_def agree_def)
next
  fix s :: "RangeSet \<times> 64 memory" and m
  show "pm_mem boot_phys (pm_set_mem boot_phys m s) = m" by (simp add: boot_phys_def)
  show "boot_ok s \<Longrightarrow> agree (- boot_pages s) (pview boot_phys 0 s) (view 0 m) \<Longrightarrow>
      boot_ok (pm_set_mem boot_phys m s) \<and> boot_pages (pm_set_mem boot_phys m s) = boot_pages s"
    by (simp add: boot_phys_def boot_ok_def boot_pages_def)
next
  fix s s' :: "RangeSet \<times> 64 memory" and f
  assume I: "boot_ok s" and a: "pm_alloc boot_phys s (page_layout 4096) = Ok (f, s')"
  then obtain rs where r: "rs_allocate_prefer 32 (fst s) 4096 4096 None = Ok (Some f, rs)" "s' = (rs, snd s)"
    by (auto simp: boot_phys_def boot_alloc_phys_def page_layout_def rs_allocate_def split: prod.splits)
  note p = allocate_prefer_sound [OF I [unfolded boot_ok_def] r(1)]
  have al: "aligned f" using p(5) by (simp add: aligned_and)
  have "f \<le> mask 32" using p(3,4) by (auto intro: order_trans)
  then have lt: "f < 0x100000000" by (simp add: word_le_nat_alt word_less_nat_alt mask_eq_exp_minus_1)
  have "f \<in> block f 4096" using aligned_frame [OF al] by (simp add: page_block [OF al])
  then have "f \<notin> boot_pages s" using p(6) by (auto simp: boot_pages_def used_pages_def)
  moreover have "f \<in> boot_pages s'" using al lt p(7) r(2) by (auto simp: boot_pages_def used_pages_def)
  moreover have "boot_pages s \<subseteq> boot_pages s'" unfolding boot_pages_def by (rule used_pages_mono) (use p(7) r(2) in auto)
  ultimately show "boot_ok s' \<and> f \<notin> boot_pages s \<and> insert f (boot_pages s) \<subseteq> boot_pages s' \<and>
      agree (boot_pages s) (pview boot_phys 0 s) (pview boot_phys 0 s')"
    using p(1) r(2) by (simp add: boot_ok_def agree_def)
qed

text \<open>The only panic of the allocator is the lack of memory.\<close>

lemma boot_oom: "bmem.oom msg \<Longrightarrow> msg = ''Failed to allocate physical memory''"
proof -
  assume "bmem.oom msg"
  then obtain rs m where I: "rs_inv rs" and p: "pm_alloc boot_phys (rs, m) (page_layout 4096) = Panic msg"
    by (auto simp: bmem.oom_def boot_ok_def)
  obtain r rs' where "rs_allocate 32 rs 4096 4096 = Ok (r, rs')" using allocate_total [OF I] by blast
  with p show ?thesis by (cases r) (simp_all add: boot_phys_def boot_alloc_phys_def page_layout_def)
qed

subsection \<open>Properties\<close>

text \<open>C24: the page tables implement a partial map from virtual pages to entries. Mapping a page in the
  bootloader either panics because there is no memory left for a table, or does exactly what an
  update of the map does: if the entry is present and of the size of the page, the address is
  canonical and nothing is mapped there, the page is mapped to the entry and every other address
  is mapped as before, although tables were allocated and their counts changed; otherwise the
  result is \<open>None\<close> and nothing has changed.\<close>

theorem map_raw_refines:
  assumes "rs_inv rs" "tree_ok m (boot_pages (rs, m)) root"
  shows "case map_raw boot_phys \<lparr>table = root\<rparr> (rs, m) vaddr page_type raw of
      Panic msg \<Rightarrow> msg = ''Failed to allocate physical memory''
    | Ok (r, rs', m') \<Rightarrow>
        if mappable m root vaddr page_type raw then
          r = Some () \<and> rs_inv rs' \<and> tree_ok m' (boot_pages (rs', m')) root \<and>
          (\<forall>q \<in> addr_indices. lookup m' root q =
             (if same_page page_type q (indicies vaddr) then Some (page_type, raw) else lookup m root q))
        else r = None \<and> rs' = rs \<and> m' = m"
proof -
  have I: "boot_ok (rs, m)" using assms(1) by (simp add: boot_ok_def)
  have T: "tree_ok (pview boot_phys 0 (rs, m)) (boot_pages (rs, m)) root" using assms(2) by simp
  note k = bmem.map_raw_ok [OF I T, of vaddr page_type raw]
  show ?thesis
  proof (cases "map_raw boot_phys \<lparr>table = root\<rparr> (rs, m) vaddr page_type raw")
    case (Panic msg)
    with k boot_oom show ?thesis by simp
  next
    case (Ok x)
    obtain r rs' m' where x: "x = (r, rs', m')" by (cases x)
    show ?thesis using k unfolding Ok x
      by (cases "mappable m root vaddr page_type raw") (simp_all add: boot_ok_def keeps_def)
  qed
qed

text \<open>Witness: an empty table, with one MiB of free memory above it.\<close>

definition sample_free :: RangeSet where
  "sample_free = \<lparr>ranges = \<lparr>r_start = 0x100000, r_end = 0x1fffff\<rparr> # replicate 255 \<lparr>r_start = 0, r_end = 0\<rparr>, in_use = 1\<rparr>"

lemma sample_free_inv: "rs_inv sample_free" "rs_addrs sample_free = {0x100000..0x1fffff}"
  by (simp_all add: sample_free_def rs_inv_def rs_addrs_def live_def valid_def span_def)

lemma sample_root: "0x1000 \<in> boot_pages (sample_free, m)"
  by (auto simp: boot_pages_def used_pages_def aligned_and sample_free_inv block_def)

lemma sample_tree: "tree_ok (\<lambda>_. 0) (boot_pages (sample_free, (\<lambda>_. 0))) 0x1000" "q \<in> addr_indices \<Longrightarrow> lookup (\<lambda>_. 0) 0x1000 q = None"
  using empty_tree [OF sample_root, of "\<lambda>_. 0"] by (simp_all add: aligned_and)

lemma sample_mappable: "mappable (\<lambda>_. 0) 0x1000 0x40000000 Page1G 0x80000083"
proof -
  have "tbl (\<lambda>_. 0) 0x1000 (take 2 (indicies 0x40000000)) = None"
    by (rule empty_tree(3) [OF sample_root, of "\<lambda>_. 0"]) (simp_all add: aligned_and take_prefix del: tbl.simps, simp add: indicies_def)
  then show ?thesis using sample_tree(2) [OF indicies_in]
    by (simp add: mappable_def present_def large_def PAGE_PRESENT_def PAGE_SIZE_def canonicalize_address_def)
qed

theorem map_raw_refines_witness:
  "case map_raw boot_phys \<lparr>table = 0x1000\<rparr> (sample_free, \<lambda>_. 0) 0x40000000 Page1G 0x80000083 of
      Panic msg \<Rightarrow> msg = ''Failed to allocate physical memory''
    | Ok (r, rs', m') \<Rightarrow> r = Some () \<and> rs_inv rs' \<and> tree_ok m' (boot_pages (rs', m')) 0x1000 \<and>
        lookup m' 0x1000 (indicies 0x40000000) = Some (Page1G, 0x80000083)"
proof (cases "map_raw boot_phys \<lparr>table = 0x1000\<rparr> (sample_free, \<lambda>_. 0) 0x40000000 Page1G 0x80000083")
  case (Panic msg)
  then show ?thesis using map_raw_refines [OF sample_free_inv(1) sample_tree(1), of "0x40000000" Page1G "0x80000083"] by simp
next
  case (Ok x)
  obtain r rs' m' where x: "x = (r, rs', m')" by (cases x)
  note w = map_raw_refines [OF sample_free_inv(1) sample_tree(1), of "0x40000000" Page1G "0x80000083",
      unfolded Ok x res.case prod.case if_P [OF sample_mappable]]
  have "lookup m' 0x1000 (indicies 0x40000000) =
      (if same_page Page1G (indicies 0x40000000) (indicies 0x40000000) then Some (Page1G, 0x80000083)
       else lookup (\<lambda>_. 0) 0x1000 (indicies 0x40000000))"
    using w [THEN conjunct2, THEN conjunct2, THEN conjunct2] by (rule bspec) (rule indicies_in)
  then have "lookup m' 0x1000 (indicies 0x40000000) = Some (Page1G, 0x80000083)" by (simp only: same_page_def refl if_True)
  with w show ?thesis unfolding Ok x res.case prod.case by (simp only: simp_thms)
qed

text \<open>C25: a page that was mapped is found again: translating any canonical address of the page gives the
  physical address in the entry, the offset of the address, the size of the page and its base
  address.\<close>

theorem map_raw_translate:
  assumes "rs_inv rs" "tree_ok m (boot_pages (rs, m)) root"
    and "map_raw boot_phys \<lparr>table = root\<rparr> (rs, m) vaddr page_type raw = Ok (Some (), s')"
    and "canonicalize_address w = w" "same_page page_type (indicies w) (indicies vaddr)"
  shows "\<exists>mp. pt_translate boot_phys \<lparr>table = root\<rparr> s' w = Ok (Some mp) \<and>
    page mp = Some (eaddr raw AND NOT (page_bytes page_type - 1), w AND (page_bytes page_type - 1)) \<and>
    mapping_size mp = Some page_type \<and> virt_base mp = Some (w AND NOT (page_bytes page_type - 1))"
proof -
  have I: "boot_ok (rs, m)" using assms(1) by (simp add: boot_ok_def)
  have T: "tree_ok (pview boot_phys 0 (rs, m)) (boot_pages (rs, m)) root" using assms(2) by simp
  have k: "boot_ok s' \<and> tree_ok (snd s') (boot_pages s') root \<and> lookup (snd s') root (indicies w) = Some (page_type, raw)"
    using bmem.map_raw_ok [OF I T, of vaddr page_type raw] assms(3,5) by (simp add: keeps_def split: if_splits)
  then have T': "tree_ok (pview boot_phys 0 s') (boot_pages s') root" by simp
  from k virt_base_mapping [OF T' assms(4), of page_type raw] show ?thesis
    using bmem.translate_mapping [OF _ T', of w] assms(4) by (auto simp: mapping_of_def page_of_def)
qed

lemma sample_alloc: "\<exists>f s. pm_alloc boot_phys (sample_free, m) (page_layout 4096) = Ok (f, s)"
proof -
  have l: "live sample_free = [\<lparr>r_start = 0x100000, r_end = 0x1fffff\<rparr>]" by (simp add: sample_free_def live_def)
  have c: "count_ones (4096 :: u64) = 1" unfolding count_ones_1 pow2_def by (rule exI [of _ 12]) simp
  have "\<exists>p rs'. rs_allocate 32 sample_free 4096 4096 = Ok (Some p, rs')"
    by (rule allocate_complete [OF sample_free_inv(1) _ c]) (simp_all add: l suits_def no_wrap_def align_fix_def mask_eq_exp_minus_1)
  then show ?thesis by (auto simp: boot_phys_def boot_alloc_phys_def page_layout_def)
qed

theorem map_raw_translate_witness:
  "\<exists>s' mp. map_raw boot_phys \<lparr>table = 0x1000\<rparr> (sample_free, \<lambda>_. 0) 0x40000000 Page1G 0x80000083 = Ok (Some (), s') \<and>
    pt_translate boot_phys \<lparr>table = 0x1000\<rparr> s' 0x40001234 = Ok (Some mp) \<and>
    page mp = Some (0x80000000, 0x1234) \<and> mapping_size mp = Some Page1G \<and> virt_base mp = Some 0x40000000"
proof -
  have I: "boot_ok (sample_free, \<lambda>_. 0)" by (simp add: boot_ok_def sample_free_inv)
  have T: "tree_ok (pview boot_phys 0 (sample_free, \<lambda>_. 0)) (boot_pages (sample_free, \<lambda>_. 0)) 0x1000" using sample_tree(1) by simp
  have M: "mappable (pview boot_phys 0 (sample_free, \<lambda>_. 0)) 0x1000 0x40000000 Page1G 0x80000083" using sample_mappable by simp
  obtain f s1 where a: "pm_alloc boot_phys (sample_free, \<lambda>_. 0) (page_layout 4096) = Ok (f, s1)" using sample_alloc by blast
  obtain s' where s': "map_raw boot_phys \<lparr>table = 0x1000\<rparr> (sample_free, \<lambda>_. 0) 0x40000000 Page1G 0x80000083 = Ok (Some (), s')"
    by (rule bmem.map_raw_1G [OF I T M a])
  have w: "canonicalize_address 0x40001234 = 0x40001234" by (simp add: canonicalize_address_def)
  have sp: "same_page Page1G (indicies 0x40001234) (indicies 0x40000000)" by (simp add: same_page_def indicies_def)
  have "eaddr 0x80000083 AND NOT (page_bytes Page1G - 1) = 0x80000000" "(0x40001234 :: u64) AND (page_bytes Page1G - 1) = 0x1234"
    "(0x40001234 :: u64) AND NOT (page_bytes Page1G - 1) = 0x40000000" by (simp_all add: eaddr_def)
  with map_raw_translate [OF sample_free_inv(1) sample_tree(1) s' w sp] s' show ?thesis by auto
qed

end
