(* ===== verification/LockCell.thy ===== *)
theory LockCell
  imports Prelude
begin

text \<open>
  The ticket lock, \<open>shared/lockcell/src/lib.rs\<close>, as a transition system. A context is a
  strand of execution that calls the lock: the code running on a core, or the interrupt and
  exception handlers on top of it; several contexts may belong to one core. Every access to
  an atomic variable is one step, so all interleavings of the sequentially consistent
  accesses are runs of the system. The trait \<open>InterruptState\<close> is a record of functions on
  the interrupt state of a core.
\<close>

subsection \<open>Data\<close>

record 'i InterruptState =
  in_interrupt :: "'i \<Rightarrow> bool"
  in_exception :: "'i \<Rightarrow> bool"
  enter_lock :: "'i \<Rightarrow> 'i res"
  exit_lock :: "'i \<Rightarrow> 'i res"

record 'a LockCell =
  ticket :: u32
  release :: u32
  owner :: u32
  disables_interrupts :: bool
  val :: 'a

definition lock_new :: "'a \<Rightarrow> 'a LockCell" where
  "lock_new v = \<lparr>ticket = 0, release = 0, owner = 0, disables_interrupts = False, val = v\<rparr>"

definition lock_new_no_preempt :: "'a \<Rightarrow> 'a LockCell" where
  "lock_new_no_preempt v = \<lparr>ticket = 0, release = 0, owner = 0, disables_interrupts = True, val = v\<rparr>"

text \<open>
  Where a context is in \<open>lock_int\<close> or in the drop of its guard. \<open>Called\<close> has passed the
  assertions and disabled interrupts; \<open>TryLoaded\<close> has read the current release, together
  with how many releases there had been; \<open>Waiting\<close> is at the loop condition and \<open>Spinning\<close>
  in the loop body; \<open>Acquired\<close> has won the lock but not recorded itself as the owner;
  \<open>Holding\<close> has the guard; \<open>Dropping\<close> has cleared the owner; \<open>Halted\<close> has panicked, with the
  ticket it still holds.
\<close>

datatype pc = Idle | Called bool | TryLoaded u32 nat | Waiting u32 | Spinning u32
  | Acquired u32 | Holding u32 | Dropping u32 | Halted string "u32 option"

text \<open>The counters \<open>issued\<close> and \<open>released\<close> are not in the code: they count the tickets handed
  out and given back without the wrap-around of the 32-bit variables.\<close>

record ('t, 'a, 'i) system =
  cell :: "'a LockCell"
  pcs :: "'t \<Rightarrow> pc"
  irq :: "u32 \<Rightarrow> 'i"
  issued :: nat
  released :: nat

subsection \<open>Steps\<close>

definition set_pc :: "'t \<Rightarrow> pc \<Rightarrow> ('t, 'a, 'i) system \<Rightarrow> ('t, 'a, 'i) system" where
  "set_pc x p s = s\<lparr>pcs := (pcs s)(x := p)\<rparr>"

text \<open>The guards of \<open>lock_int\<close> up to the choice between a blocking and a trying lock.\<close>

definition lock_call :: "'i InterruptState \<Rightarrow> ('t \<Rightarrow> u32) \<Rightarrow> 't \<Rightarrow> bool \<Rightarrow> ('t, 'a, 'i) system \<Rightarrow> ('t, 'a, 'i) system" where
  "lock_call I core_of x try_lock s =
     (let c = core_of x; i = irq s c in
      if \<not> (disables_interrupts (cell s) \<or> \<not> in_interrupt I i)
      then set_pc x (Halted ''Attempted to take a non-preemptable lock in an interrupt'' None) s
      else if \<not> (try_lock \<or> \<not> in_exception I i)
      then set_pc x (Halted ''Attempted to take a blocking lock while in an exception'' None) s
      else if disables_interrupts (cell s)
      then (case enter_lock I i of
          Panic msg \<Rightarrow> set_pc x (Halted msg None) s
        | Ok i' \<Rightarrow> set_pc x (Called try_lock) (s\<lparr>irq := (irq s)(c := i')\<rparr>))
      else set_pc x (Called try_lock) s)"

text \<open>The common end of a failed \<open>try_lock\<close> and of a drop.\<close>

definition leave :: "'i InterruptState \<Rightarrow> ('t \<Rightarrow> u32) \<Rightarrow> 't \<Rightarrow> ('t, 'a, 'i) system \<Rightarrow> ('t, 'a, 'i) system" where
  "leave I core_of x s =
     (if disables_interrupts (cell s)
      then (case exit_lock I (irq s (core_of x)) of
          Panic msg \<Rightarrow> set_pc x (Halted msg None) s
        | Ok i' \<Rightarrow> set_pc x Idle (s\<lparr>irq := (irq s)(core_of x := i')\<rparr>))
      else set_pc x Idle s)"

text \<open>The next atomic access of a context that is inside \<open>lock_int\<close> or inside the drop.\<close>

definition advance :: "'i InterruptState \<Rightarrow> ('t \<Rightarrow> u32) \<Rightarrow> 't \<Rightarrow> ('t, 'a, 'i) system \<Rightarrow> ('t, 'a, 'i) system" where
  "advance I core_of x s = (let c = cell s in
     case pcs s x of
       Called True \<Rightarrow> set_pc x (TryLoaded (release c) (released s)) s
     | TryLoaded r n \<Rightarrow>
         if ticket c = r
         then set_pc x (Acquired r) (s\<lparr>cell := c\<lparr>ticket := r + 1\<rparr>, issued := issued s + 1\<rparr>)
         else leave I core_of x s
     | Called False \<Rightarrow>
         set_pc x (Waiting (ticket c)) (s\<lparr>cell := c\<lparr>ticket := ticket c + 1\<rparr>, issued := issued s + 1\<rparr>)
     | Waiting t \<Rightarrow> if release c = t then set_pc x (Acquired t) s else set_pc x (Spinning t) s
     | Spinning t \<Rightarrow>
         if owner c = core_of x then set_pc x (Halted ''Deadlock detected'' (Some t)) s
         else set_pc x (Waiting t) s
     | Acquired t \<Rightarrow> set_pc x (Holding t) (s\<lparr>cell := c\<lparr>owner := core_of x\<rparr>\<rparr>)
     | Dropping t \<Rightarrow>
         leave I core_of x (s\<lparr>cell := c\<lparr>release := release c + 1\<rparr>, released := released s + 1\<rparr>)
     | _ \<Rightarrow> s)"

text \<open>The first access of the drop of a guard.\<close>

definition drop_guard :: "'t \<Rightarrow> u32 \<Rightarrow> ('t, 'a, 'i) system \<Rightarrow> ('t, 'a, 'i) system" where
  "drop_guard x t s = set_pc x (Dropping t) (s\<lparr>cell := (cell s)\<lparr>owner := - 1\<rparr>\<rparr>)"

inductive step :: "'i InterruptState \<Rightarrow> ('t \<Rightarrow> u32) \<Rightarrow> ('t, 'a, 'i) system \<Rightarrow> ('t, 'a, 'i) system \<Rightarrow> bool"
  for I core_of where
  call: "pcs s x = Idle \<Longrightarrow> step I core_of s (lock_call I core_of x try_lock s)"
| inside: "pcs s x \<notin> {Idle} \<union> range Holding \<union> {Halted m t | m t. True} \<Longrightarrow>
    step I core_of s (advance I core_of x s)"
| use: "pcs s x = Holding t \<Longrightarrow> step I core_of s (s\<lparr>cell := (cell s)\<lparr>val := v\<rparr>\<rparr>)"
| drop: "pcs s x = Holding t \<Longrightarrow> step I core_of s (drop_guard x t s)"
| irq: "step I core_of s (s\<lparr>irq := f\<rparr>)"

text \<open>
  A trying lock compares the ticket with a release it has read before. Runs are restricted to
  those in which fewer than \<open>2 ^ 32\<close> tickets are issued between the two accesses, so that the
  32-bit comparison cannot confuse two different tickets.
\<close>

definition window_ok :: "('t, 'a, 'i) system \<Rightarrow> bool" where
  "window_ok s \<longleftrightarrow> (\<forall>x r n. pcs s x = TryLoaded r n \<longrightarrow> issued s - n < 2 ^ 32)"

inductive run :: "'i InterruptState \<Rightarrow> ('t \<Rightarrow> u32) \<Rightarrow> ('t, 'a, 'i) system \<Rightarrow> ('t, 'a, 'i) system \<Rightarrow> bool"
  for I core_of s0 where
  init: "run I core_of s0 s0"
| more: "run I core_of s0 s \<Longrightarrow> step I core_of s s' \<Longrightarrow> window_ok s' \<Longrightarrow> run I core_of s0 s'"

definition initial :: "'a LockCell \<Rightarrow> (u32 \<Rightarrow> 'i) \<Rightarrow> ('t, 'a, 'i) system" where
  "initial l i = \<lparr>cell = l, pcs = (\<lambda>_. Idle), irq = i, issued = 0, released = 0\<rparr>"

subsection \<open>The queue of tickets\<close>

fun held :: "pc \<Rightarrow> u32 option" where
  "held (Waiting t) = Some t"
| "held (Spinning t) = Some t"
| "held (Acquired t) = Some t"
| "held (Holding t) = Some t"
| "held (Dropping t) = Some t"
| "held (Halted m t) = t"
| "held _ = None"

fun inside_lock :: "pc \<Rightarrow> bool" where
  "inside_lock (Acquired t) = True"
| "inside_lock (Holding t) = True"
| "inside_lock (Dropping t) = True"
| "inside_lock _ = False"

text \<open>\<open>q\<close> lists the contexts with a ticket in the order of their tickets.\<close>

definition lock_inv :: "('t \<Rightarrow> u32) \<Rightarrow> ('t, 'a, 'i) system \<Rightarrow> 't list \<Rightarrow> bool" where
  "lock_inv core_of s q \<longleftrightarrow> distinct q \<and> released s + length q = issued s \<and>
     ticket (cell s) = of_nat (issued s) \<and> release (cell s) = of_nat (released s) \<and>
     (\<forall>x. x \<in> set q \<longleftrightarrow> held (pcs s x) \<noteq> None) \<and>
     (\<forall>i < length q. held (pcs s (q ! i)) = Some (release (cell s) + of_nat i)) \<and>
     (\<forall>x. inside_lock (pcs s x) \<longrightarrow> q \<noteq> [] \<and> x = hd q) \<and>
     (\<forall>x r n. pcs s x = TryLoaded r n \<longrightarrow> r = of_nat n \<and> n \<le> released s)"

lemma lock_invI:
  assumes "distinct q" "released s + length q = issued s" "ticket (cell s) = of_nat (issued s)"
    "release (cell s) = of_nat (released s)" "\<And>x. x \<in> set q \<longleftrightarrow> held (pcs s x) \<noteq> None"
    "\<And>i. i < length q \<Longrightarrow> held (pcs s (q ! i)) = Some (release (cell s) + of_nat i)"
    "\<And>x. inside_lock (pcs s x) \<Longrightarrow> q \<noteq> [] \<and> x = hd q"
    "\<And>x r n. pcs s x = TryLoaded r n \<Longrightarrow> r = of_nat n \<and> n \<le> released s"
  shows "lock_inv core_of s q"
  using assms unfolding lock_inv_def by blast

lemma lock_invD:
  assumes "lock_inv core_of s q"
  shows "distinct q" "released s + length q = issued s" "ticket (cell s) = of_nat (issued s)"
    "release (cell s) = of_nat (released s)" "x \<in> set q \<longleftrightarrow> held (pcs s x) \<noteq> None"
    "i < length q \<Longrightarrow> held (pcs s (q ! i)) = Some (release (cell s) + of_nat i)"
    "inside_lock (pcs s x) \<Longrightarrow> q \<noteq> [] \<and> x = hd q"
    "pcs s x = TryLoaded r n \<Longrightarrow> r = of_nat n \<and> n \<le> released s"
    "ticket (cell s) = release (cell s) + of_nat (length q)"
  using assms unfolding lock_inv_def by (simp_all, metis of_nat_add)

lemma lock_inv_cong:
  assumes "lock_inv core_of s q" "pcs s' = pcs s" "issued s' = issued s" "released s' = released s"
    "ticket (cell s') = ticket (cell s)" "release (cell s') = release (cell s)"
  shows "lock_inv core_of s' q"
  using assms by (simp add: lock_inv_def)

lemma set_pc_simps [simp]:
  "pcs (set_pc x p s) = (pcs s)(x := p)" "issued (set_pc x p s) = issued s" "irq (set_pc x p s) = irq s"
  "released (set_pc x p s) = released s" "cell (set_pc x p s) = cell s"
  by (simp_all add: set_pc_def)

lemma lock_inv_move:
  assumes "lock_inv core_of s q" "held p = held (pcs s x)" "inside_lock p \<Longrightarrow> q \<noteq> [] \<and> x = hd q"
    "\<And>r n. p = TryLoaded r n \<Longrightarrow> r = of_nat n \<and> n \<le> released s"
  shows "lock_inv core_of (set_pc x p s) q"
proof (intro lock_invI)
  note D = lock_invD [OF assms(1)]
  show "held (pcs (set_pc x p s) (q ! i)) = Some (release (cell (set_pc x p s)) + of_nat i)"
    if "i < length q" for i
    using D(6) [OF that] assms(2) by auto
  show "q \<noteq> [] \<and> y = hd q" if "inside_lock (pcs (set_pc x p s) y)" for y
    using that D(7) [of y] assms(3) by (auto split: if_splits)
  show "r = of_nat n \<and> n \<le> released (set_pc x p s)" if "pcs (set_pc x p s) y = TryLoaded r n" for y r n
    using that D(8) [of y r n] assms(4) by (auto split: if_splits)
qed (use lock_invD [OF assms(1)] assms(2) in auto)

lemma lock_inv_enqueue:
  assumes "lock_inv core_of s q" "held (pcs s x) = None" "held p = Some (ticket (cell s))"
    "inside_lock p \<Longrightarrow> q = []" "\<And>r n. p \<noteq> TryLoaded r n"
    "ticket (cell s') = ticket (cell s) + 1" "release (cell s') = release (cell s)"
    "pcs s' = pcs s" "issued s' = issued s + 1" "released s' = released s"
  shows "lock_inv core_of (set_pc x p s') (q @ [x])"
proof (intro lock_invI)
  note D = lock_invD [OF assms(1)]
  show "distinct (q @ [x])" using D(1) D(5) [of x] assms(2) by simp
  show "(y \<in> set (q @ [x])) = (held (pcs (set_pc x p s') y) \<noteq> None)" for y
    using D(5) [of y] assms(3,8) by auto
  show "held (pcs (set_pc x p s') ((q @ [x]) ! i)) = Some (release (cell (set_pc x p s')) + of_nat i)"
    if "i < length (q @ [x])" for i
  proof (cases "i < length q")
    case True
    then have "q ! i \<noteq> x" using D(5) [of x] assms(2) nth_mem by fastforce
    with True D(6) [of i] assms(7,8) show ?thesis by (simp add: nth_append)
  next
    case False
    with that have "i = length q" by simp
    with assms(3,7) D(9) show ?thesis by simp
  qed
  show "q @ [x] \<noteq> [] \<and> y = hd (q @ [x])" if "inside_lock (pcs (set_pc x p s') y)" for y
    using that D(7) [of y] assms(4,8) by (auto split: if_splits)
  show "r = of_nat n \<and> n \<le> released (set_pc x p s')" if "pcs (set_pc x p s') y = TryLoaded r n" for y r n
    using that D(8) [of y r n] assms(5,8,10) by (auto split: if_splits)
qed (use lock_invD [OF assms(1)] assms(6,7,9,10) in simp_all)

lemma lock_inv_dequeue:
  assumes "lock_inv core_of s q" "inside_lock (pcs s x)" "held p = None" "\<not> inside_lock p"
    "\<And>r n. p \<noteq> TryLoaded r n" "ticket (cell s') = ticket (cell s)" "release (cell s') = release (cell s) + 1"
    "pcs s' = pcs s" "issued s' = issued s" "released s' = released s + 1"
  shows "q \<noteq> []" "lock_inv core_of (set_pc x p s') (tl q)"
proof -
  note D = lock_invD [OF assms(1)]
  show "q \<noteq> []" using D(7) [OF assms(2)] by simp
  then obtain q' where q: "q = x # q'" using D(7) [OF assms(2)] by (cases q) auto
  have d: "x \<notin> set q'" "distinct q'" using D(1) by (auto simp: q)
  show "lock_inv core_of (set_pc x p s') (tl q)"
  proof (intro lock_invI)
    show "(y \<in> set (tl q)) = (held (pcs (set_pc x p s') y) \<noteq> None)" for y
      using D(5) [of y] assms(3,8) d by (auto simp: q)
    show "held (pcs (set_pc x p s') (tl q ! i)) = Some (release (cell (set_pc x p s')) + of_nat i)"
      if "i < length (tl q)" for i
    proof -
      have "q' ! i \<noteq> x" using d(1) that nth_mem by (fastforce simp: q)
      with that D(6) [of "Suc i"] assms(7,8) show ?thesis by (simp add: q)
    qed
    show "tl q \<noteq> [] \<and> y = hd (tl q)" if "inside_lock (pcs (set_pc x p s') y)" for y
      using that D(7) [of y] assms(4,8) by (auto simp: q split: if_splits)
    show "r = of_nat n \<and> n \<le> released (set_pc x p s')" if "pcs (set_pc x p s') y = TryLoaded r n" for y r n
      using that D(8) [of y r n] assms(5,8,10) by (auto split: if_splits)
  qed (use D d assms(6,7,9,10) in \<open>simp_all add: q\<close>)
qed

subsection \<open>Every step keeps the invariant\<close>

text \<open>A context outside the queue that is not between the two accesses of a trying lock.\<close>

definition calm :: "pc \<Rightarrow> bool" where
  "calm p \<longleftrightarrow> held p = None \<and> (\<forall>r n. p \<noteq> TryLoaded r n)"

lemma calm_simps [simp]: "calm Idle" "calm (Called b)" "calm (Halted m None)"
  by (simp_all add: calm_def)

lemma calmD:
  assumes "calm p"
  shows "held p = None" "\<not> inside_lock p" "p \<noteq> TryLoaded r n" "p \<noteq> Holding t" "p \<noteq> Dropping t"
  using assms by (cases p; simp add: calm_def)+

definition quiet :: "'t \<Rightarrow> ('t, 'a, 'i) system \<Rightarrow> ('t, 'a, 'i) system set" where
  "quiet x s = {set_pc x p (s\<lparr>irq := f\<rparr>) | p f. calm p}"

lemma quietI [simp]: "calm p \<Longrightarrow> set_pc x p s \<in> quiet x s" "calm p \<Longrightarrow> set_pc x p (s\<lparr>irq := f\<rparr>) \<in> quiet x s"
proof -
  show "set_pc x p s \<in> quiet x s" if "calm p"
    using that unfolding quiet_def by (intro CollectI exI [of _ p] exI [of _ "irq s"]) simp
  show "set_pc x p (s\<lparr>irq := f\<rparr>) \<in> quiet x s" if "calm p"
    using that unfolding quiet_def by blast
qed

lemma leave_quiet: "leave I core_of x s \<in> quiet x s"
  by (simp add: leave_def split: res.split)

lemma lock_call_quiet: "lock_call I core_of x tr s \<in> quiet x s"
  by (simp add: lock_call_def Let_def split: res.split)

definition owner_inv :: "('t \<Rightarrow> u32) \<Rightarrow> ('t, 'a, 'i) system \<Rightarrow> bool" where
  "owner_inv core_of s \<longleftrightarrow> (\<forall>x t. pcs s x = Holding t \<longrightarrow> owner (cell s) = core_of x) \<and>
     (\<forall>x t. pcs s x = Dropping t \<longrightarrow> owner (cell s) = - 1) \<and>
     (owner (cell s) = - 1 \<or> (\<exists>x t. pcs s x = Holding t \<and> core_of x = owner (cell s)) \<or>
      owner (cell s) = 0 \<and> released s = 0)"

text \<open>A move that enters and leaves no critical section keeps the owner.\<close>

lemma owner_inv_move:
  assumes "owner_inv core_of s" "\<And>t. p \<noteq> Holding t" "\<And>t. p \<noteq> Dropping t" "\<And>t. pcs s x \<noteq> Holding t"
    "pcs s' = pcs s" "owner (cell s') = owner (cell s)"
    "released s' = released s \<or> (\<exists>t. pcs s x = Dropping t)"
  shows "owner_inv core_of (set_pc x p s')"
proof -
  from assms(1) have o: "\<And>y t. pcs s y = Holding t \<Longrightarrow> owner (cell s) = core_of y"
    "\<And>y t. pcs s y = Dropping t \<Longrightarrow> owner (cell s) = - 1"
    "owner (cell s) = - 1 \<or> (\<exists>y t. pcs s y = Holding t \<and> core_of y = owner (cell s)) \<or>
      owner (cell s) = 0 \<and> released s = 0"
    unfolding owner_inv_def by blast+
  show ?thesis
    unfolding owner_inv_def
  proof (intro conjI allI impI)
    show "owner (cell (set_pc x p s')) = core_of y" if "pcs (set_pc x p s') y = Holding t" for y t
      using that o(1) [of y t] assms(2,5,6) by (auto split: if_splits)
    show "owner (cell (set_pc x p s')) = - 1" if "pcs (set_pc x p s') y = Dropping t" for y t
      using that o(2) [of y t] assms(3,5,6) by (auto split: if_splits)
    have "pcs (set_pc x p s') y = Holding t" if "pcs s y = Holding t" for y t
      using that assms(4,5) by auto
    with o(3) o(2) assms(6,7) show "owner (cell (set_pc x p s')) = - 1 \<or>
      (\<exists>y t. pcs (set_pc x p s') y = Holding t \<and> core_of y = owner (cell (set_pc x p s'))) \<or>
      owner (cell (set_pc x p s')) = 0 \<and> released (set_pc x p s') = 0"
      by (metis set_pc_simps(4,5))
  qed
qed

definition follows :: "'t list \<Rightarrow> 't list \<Rightarrow> bool" where
  "follows q q' \<longleftrightarrow> q' = q \<or> (\<exists>x. q' = q @ [x]) \<or> (q \<noteq> [] \<and> q' = tl q)"

lemma follows_simps [simp]: "follows q q" "follows q (q @ [x])" "q \<noteq> [] \<Longrightarrow> follows q (tl q)"
  by (auto simp: follows_def)

lemma queue_bound:
  assumes "lock_inv core_of (s :: ('t::finite, 'a, 'i) system) q" "CARD('t) < 2 ^ 32"
  shows "length q < 2 ^ 32"
proof -
  have "length q = card (set q)" using lock_invD(1) [OF assms(1)] by (simp add: distinct_card)
  also have "\<dots> \<le> CARD('t)" by (rule card_mono) auto
  finally show ?thesis using assms(2) by simp
qed

lemma of_nat_u32_inj:
  assumes "(of_nat m :: u32) = of_nat n" "m < 2 ^ 32" "n < 2 ^ 32"
  shows "m = n"
proof -
  have "unat (of_nat m :: u32) = unat (of_nat n :: u32)" by (rule arg_cong [OF assms(1)])
  then show ?thesis unfolding unat_of_nat using assms(2,3) by (simp add: take_bit_nat_eq_self)
qed

lemma quiet_keeps:
  assumes "lock_inv core_of s q" "owner_inv core_of s" "held (pcs s x) = None" "s' \<in> quiet x s"
  shows "lock_inv core_of s' q \<and> owner_inv core_of s'"
proof -
  from assms(4) obtain p f where s': "s' = set_pc x p (s\<lparr>irq := f\<rparr>)" and p: "calm p" by (auto simp: quiet_def)
  have "lock_inv core_of (s\<lparr>irq := f\<rparr>) q" by (rule lock_inv_cong [OF assms(1)]) simp_all
  from lock_inv_move [OF this, of p x] assms(3) calmD [OF p] have "lock_inv core_of s' q" by (simp add: s')
  moreover have "owner_inv core_of s'"
    unfolding s' by (rule owner_inv_move [OF assms(2)]) (use calmD [OF p] assms(3) in auto)
  ultimately show ?thesis by blast
qed

text \<open>The cases of \<open>advance\<close>, one per atomic access.\<close>

lemma advance_try:
  assumes "lock_inv core_of s q" "owner_inv core_of s" "window_ok s" "pcs s x = TryLoaded r n"
  shows "\<exists>q'. lock_inv core_of (advance I core_of x s) q' \<and> owner_inv core_of (advance I core_of x s) \<and> follows q q'"
proof (cases "ticket (cell s) = r")
  case False
  then have "advance I core_of x s \<in> quiet x s"
    using assms(4) leave_quiet by (simp add: advance_def Let_def)
  with quiet_keeps [OF assms(1,2) _ this] assms(4) show ?thesis by (intro exI [of _ q]) simp
next
  case True
  note D = lock_invD [OF assms(1)]
  have n: "of_nat (issued s) = (of_nat n :: u32)" "n \<le> released s" "issued s - n < 2 ^ 32"
    using True D(3) D(8) [OF assms(4)] assms(3,4) by (auto simp: window_ok_def)
  have "(of_nat (issued s - n) :: u32) = of_nat 0" using n(1,2) D(2) by (simp add: of_nat_diff)
  from of_nat_u32_inj [OF this n(3)] have "issued s - n = 0" by simp
  then have "length q = 0" using n(2) D(2) by linarith
  then have "q = []" by simp
  define s1 where "s1 = s\<lparr>cell := (cell s)\<lparr>ticket := r + 1\<rparr>, issued := issued s + 1\<rparr>"
  have a: "advance I core_of x s = set_pc x (Acquired r) s1"
    using assms(4) True by (simp add: advance_def Let_def s1_def)
  have "lock_inv core_of (set_pc x (Acquired r) s1) (q @ [x])"
    by (rule lock_inv_enqueue [OF assms(1)]) (use assms(4) True \<open>q = []\<close> in \<open>simp_all add: s1_def\<close>)
  moreover have "owner_inv core_of (set_pc x (Acquired r) s1)"
    by (rule owner_inv_move [OF assms(2)]) (use assms(4) in \<open>simp_all add: s1_def\<close>)
  ultimately show ?thesis unfolding a by (intro exI [of _ "q @ [x]"]) simp
qed

lemma advance_ticket:
  assumes "lock_inv core_of s q" "owner_inv core_of s" "pcs s x = Called False"
  shows "\<exists>q'. lock_inv core_of (advance I core_of x s) q' \<and> owner_inv core_of (advance I core_of x s) \<and> follows q q'"
proof -
  define s1 where "s1 = s\<lparr>cell := (cell s)\<lparr>ticket := ticket (cell s) + 1\<rparr>, issued := issued s + 1\<rparr>"
  have a: "advance I core_of x s = set_pc x (Waiting (ticket (cell s))) s1"
    using assms(3) by (simp add: advance_def Let_def s1_def)
  have "lock_inv core_of (set_pc x (Waiting (ticket (cell s))) s1) (q @ [x])"
    by (rule lock_inv_enqueue [OF assms(1)]) (use assms(3) in \<open>simp_all add: s1_def\<close>)
  moreover have "owner_inv core_of (set_pc x (Waiting (ticket (cell s))) s1)"
    by (rule owner_inv_move [OF assms(2)]) (use assms(3) in \<open>simp_all add: s1_def\<close>)
  ultimately show ?thesis unfolding a by (intro exI [of _ "q @ [x]"]) simp
qed

lemma advance_wait:
  assumes "lock_inv core_of s q" "owner_inv core_of s" "length q < 2 ^ 32"
    "pcs s x = Waiting t \<or> pcs s x = Spinning t"
  shows "lock_inv core_of (advance I core_of x s) q \<and> owner_inv core_of (advance I core_of x s)"
proof -
  note D = lock_invD [OF assms(1)]
  have hd: "q \<noteq> [] \<and> x = hd q" if "release (cell s) = t"
  proof -
    have "x \<in> set q" using D(5) [of x] assms(4) by auto
    then obtain i where i: "i < length q" "q ! i = x" by (auto simp: in_set_conv_nth)
    with D(6) [of i] assms(4) that have "(of_nat i :: u32) = of_nat 0" by auto
    from of_nat_u32_inj [OF this] i assms(3) have "i = 0" by simp
    with i show ?thesis by (auto simp: hd_conv_nth)
  qed
  define p where "p = (if pcs s x = Waiting t
    then if release (cell s) = t then Acquired t else Spinning t
    else if owner (cell s) = core_of x then Halted ''Deadlock detected'' (Some t) else Waiting t)"
  have p: "advance I core_of x s = set_pc x p s" "held p = Some t"
    "inside_lock p \<longrightarrow> release (cell s) = t" "\<And>r n. p \<noteq> TryLoaded r n" "\<And>u. p \<noteq> Holding u" "\<And>u. p \<noteq> Dropping u"
    using assms(4) by (auto simp: advance_def Let_def p_def)
  have "lock_inv core_of (set_pc x p s) q"
    by (rule lock_inv_move [OF assms(1)]) (use p assms(4) hd in auto)
  moreover have "owner_inv core_of (set_pc x p s)"
    by (rule owner_inv_move [OF assms(2)]) (use p assms(4) in auto)
  ultimately show ?thesis by (simp add: p(1))
qed

lemma owner_inv_own:
  assumes "\<And>y. inside_lock (pcs s y) \<Longrightarrow> y = x" "pcs s' = pcs s"
  shows "owner (cell s') = core_of x \<Longrightarrow> owner_inv core_of (set_pc x (Holding t) s')"
    "owner (cell s') = - 1 \<Longrightarrow> owner_inv core_of (set_pc x (Dropping t) s')"
proof -
  have no: "y = x" if "pcs s y = Holding u \<or> pcs s y = Dropping u" for y u
    using assms(1) [of y] that by auto
  show "owner_inv core_of (set_pc x (Holding t) s')" if "owner (cell s') = core_of x"
    unfolding owner_inv_def using no assms(2) that by (simp split: if_splits) metis
  show "owner_inv core_of (set_pc x (Dropping t) s')" if "owner (cell s') = - 1"
    unfolding owner_inv_def using no assms(2) that by (simp split: if_splits) metis
qed

lemma advance_acquire:
  assumes "lock_inv core_of s q" "owner_inv core_of s" "pcs s x = Acquired t"
  shows "lock_inv core_of (advance I core_of x s) q \<and> owner_inv core_of (advance I core_of x s)"
proof -
  note D = lock_invD [OF assms(1)]
  define s1 where "s1 = s\<lparr>cell := (cell s)\<lparr>owner := core_of x\<rparr>\<rparr>"
  have a: "advance I core_of x s = set_pc x (Holding t) s1"
    using assms(3) by (simp add: advance_def Let_def s1_def)
  have "lock_inv core_of s1 q" by (rule lock_inv_cong [OF assms(1)]) (simp_all add: s1_def)
  then have "lock_inv core_of (set_pc x (Holding t) s1) q"
    by (rule lock_inv_move) (use assms(3) D(7) [of x] in \<open>simp_all add: s1_def\<close>)
  moreover have "y = x" if "inside_lock (pcs s y)" for y
    using D(7) [OF that] D(7) [of x] assms(3) by auto
  then have "owner_inv core_of (set_pc x (Holding t) s1)"
    by (rule owner_inv_own(1)) (simp_all add: s1_def)
  ultimately show ?thesis unfolding a by blast
qed

lemma advance_release:
  assumes "lock_inv core_of s q" "owner_inv core_of s" "pcs s x = Dropping t"
  shows "\<exists>q'. lock_inv core_of (advance I core_of x s) q' \<and> owner_inv core_of (advance I core_of x s) \<and> follows q q'"
proof -
  define s1 where "s1 = s\<lparr>cell := (cell s)\<lparr>release := release (cell s) + 1\<rparr>, released := released s + 1\<rparr>"
  have "advance I core_of x s = leave I core_of x s1"
    using assms(3) by (simp add: advance_def Let_def s1_def)
  with leave_quiet [of I core_of x s1] obtain p f where
    a: "advance I core_of x s = set_pc x p (s1\<lparr>irq := f\<rparr>)" and p: "calm p" by (auto simp: quiet_def)
  have ins: "inside_lock (pcs s x)" using assms(3) by simp
  have "q \<noteq> []" using lock_invD(7) [OF assms(1) ins] by simp
  moreover have "lock_inv core_of (set_pc x p (s1\<lparr>irq := f\<rparr>)) (tl q)"
    by (rule lock_inv_dequeue(2) [OF assms(1) ins]) (use calmD [OF p] in \<open>simp_all add: s1_def\<close>)
  moreover have "owner_inv core_of (set_pc x p (s1\<lparr>irq := f\<rparr>))"
    by (rule owner_inv_move [OF assms(2)]) (use calmD [OF p] assms(3) in \<open>simp_all add: s1_def\<close>)
  ultimately show ?thesis unfolding a by (intro exI [of _ "tl q"]) simp
qed

lemma drop_guard_inv:
  assumes "lock_inv core_of s q" "owner_inv core_of s" "pcs s x = Holding t"
  shows "lock_inv core_of (drop_guard x t s) q \<and> owner_inv core_of (drop_guard x t s)"
proof -
  note D = lock_invD [OF assms(1)]
  define s1 where "s1 = s\<lparr>cell := (cell s)\<lparr>owner := - 1\<rparr>\<rparr>"
  have a: "drop_guard x t s = set_pc x (Dropping t) s1" by (simp add: drop_guard_def s1_def)
  have "lock_inv core_of s1 q" by (rule lock_inv_cong [OF assms(1)]) (simp_all add: s1_def)
  then have "lock_inv core_of (set_pc x (Dropping t) s1) q"
    by (rule lock_inv_move) (use assms(3) D(7) [of x] in \<open>simp_all add: s1_def\<close>)
  moreover have "y = x" if "inside_lock (pcs s y)" for y
    using D(7) [OF that] D(7) [of x] assms(3) by auto
  then have "owner_inv core_of (set_pc x (Dropping t) s1)"
    by (rule owner_inv_own(2)) (simp_all add: s1_def)
  ultimately show ?thesis unfolding a by blast
qed

lemma step_inv:
  fixes s :: "('t::finite, 'a, 'i) system"
  assumes "step I core_of s s'" "lock_inv core_of s q" "owner_inv core_of s" "window_ok s" "CARD('t) < 2 ^ 32"
  shows "\<exists>q'. lock_inv core_of s' q' \<and> owner_inv core_of s' \<and> follows q q'"
  using assms(1)
proof cases
  case (call x tr)
  with quiet_keeps [OF assms(2,3) _ lock_call_quiet [of I core_of x tr s]] show ?thesis
    by (intro exI [of _ q]) simp
next
  case (inside x)
  note bound = queue_bound [OF assms(2,5)]
  show ?thesis
  proof (cases "pcs s x")
    case (Called b)
    show ?thesis
    proof (cases b)
      case True
      with Called have a: "advance I core_of x s = set_pc x (TryLoaded (release (cell s)) (released s)) s"
        by (simp add: advance_def Let_def)
      have "lock_inv core_of (set_pc x (TryLoaded (release (cell s)) (released s)) s) q"
        by (rule lock_inv_move [OF assms(2)]) (use Called lock_invD(4) [OF assms(2)] in simp_all)
      moreover have "owner_inv core_of (set_pc x (TryLoaded (release (cell s)) (released s)) s)"
        by (rule owner_inv_move [OF assms(3)]) (use Called in simp_all)
      ultimately show ?thesis unfolding inside(1) a by (intro exI [of _ q]) simp
    next
      case False
      with advance_ticket [OF assms(2,3)] Called inside(1) show ?thesis by simp
    qed
  next
    case (TryLoaded r n)
    with advance_try [OF assms(2-4) TryLoaded] inside(1) show ?thesis by simp
  next
    case (Waiting t)
    with advance_wait [OF assms(2,3) bound] inside(1) show ?thesis by (intro exI [of _ q]) simp
  next
    case (Spinning t)
    with advance_wait [OF assms(2,3) bound] inside(1) show ?thesis by (intro exI [of _ q]) simp
  next
    case (Acquired t)
    with advance_acquire [OF assms(2,3) Acquired] inside(1) show ?thesis by (intro exI [of _ q]) simp
  next
    case (Dropping t)
    with advance_release [OF assms(2,3) Dropping] inside(1) show ?thesis by simp
  qed (use inside(2) in auto)
next
  case (use x t v)
  with assms(2,3) show ?thesis by (intro exI [of _ q]) (simp add: lock_inv_def owner_inv_def)
next
  case (drop x t)
  with drop_guard_inv [OF assms(2,3)] show ?thesis by (intro exI [of _ q]) simp
next
  case (irq f)
  with assms(2,3) show ?thesis by (intro exI [of _ q]) (simp add: lock_inv_def owner_inv_def)
qed

subsection \<open>Properties\<close>

definition fresh :: "'a LockCell \<Rightarrow> bool" where
  "fresh l \<longleftrightarrow> (\<exists>v. l = lock_new v \<or> l = lock_new_no_preempt v)"

lemma run_inv:
  assumes "run I core_of (initial l i :: ('t::finite, 'a, 'i) system) s" "fresh l" "CARD('t) < 2 ^ 32"
  shows "(\<exists>q. lock_inv core_of s q) \<and> owner_inv core_of s \<and> window_ok s"
  using assms(1)
proof induction
  case init
  have "lock_inv core_of (initial l i :: ('t, 'a, 'i) system) []" "owner_inv core_of (initial l i :: ('t, 'a, 'i) system)"
    using assms(2) by (auto simp: lock_inv_def owner_inv_def initial_def fresh_def lock_new_def lock_new_no_preempt_def)
  then show ?case by (auto simp: window_ok_def initial_def)
next
  case (more s s')
  then obtain q where "lock_inv core_of s q" "owner_inv core_of s" "window_ok s" by blast
  from step_inv [OF more.hyps(2) this assms(3)] more.hyps(3) show ?case by blast
qed


text \<open>C11: the lock is fair. The contexts with a ticket form a queue; an atomic step leaves it,
  appends a context at its end or removes its head, and only its head is inside the lock.\<close>

theorem lock_fifo:
  assumes "fresh l" "CARD('t) < 2 ^ 32" "run I core_of (initial l i :: ('t::finite, 'a, 'i) system) s"
    and "step I core_of s s'"
  shows "\<exists>q q'. lock_inv core_of s q \<and> lock_inv core_of s' q' \<and> follows q q' \<and>
    (\<forall>x. inside_lock (pcs s x) \<longrightarrow> q \<noteq> [] \<and> x = hd q)"
proof -
  obtain q where q: "lock_inv core_of s q" "owner_inv core_of s" "window_ok s"
    using run_inv [OF assms(3,1,2)] by blast
  from step_inv [OF assms(4) q assms(2)] q(1) lock_invD(7) [OF q(1)] show ?thesis by blast
qed

text \<open>C12: the deadlock panic is justified. A context that panics with it runs on a core one of
  whose contexts holds the lock, or on core 0 before the first release of the lock.\<close>

theorem deadlock_detected_justified:
  assumes "fresh l" "CARD('t) < 2 ^ 32" "run I core_of (initial l i :: ('t::finite, 'a, 'i) system) s"
    and "core_of x \<noteq> - 1" "pcs s x = Spinning t" "pcs (advance I core_of x s) x = Halted ''Deadlock detected'' (Some t)"
  shows "(\<exists>y u. pcs s y = Holding u \<and> core_of y = core_of x) \<or> (core_of x = 0 \<and> released s = 0)"
proof -
  have "owner (cell s) = core_of x"
    using assms(5,6) by (auto simp: advance_def Let_def split: if_splits)
  moreover have "owner_inv core_of s" using run_inv [OF assms(3,1,2)] by blast
  ultimately show ?thesis using assms(4) by (auto simp: owner_inv_def)
qed

text \<open>The interrupt state of the bootloader: never in an interrupt, and locks change nothing.\<close>

definition boot_interrupts :: "unit InterruptState" where
  "boot_interrupts = \<lparr>in_interrupt = (\<lambda>_. False), in_exception = (\<lambda>_. False), enter_lock = Ok, exit_lock = Ok\<rparr>"

definition two_cores :: "bool \<Rightarrow> u32" where
  "two_cores b = (if b then 1 else 0)"

lemma run_advance:
  assumes "run I core_of s0 s" "pcs s x \<notin> {Idle} \<union> range Holding \<union> {Halted m t | m t. True}"
    "window_ok (advance I core_of x s)"
  shows "run I core_of s0 (advance I core_of x s)"
  using assms by (intro run.more [OF assms(1)] step.inside)

lemma run_call:
  assumes "run I core_of s0 s" "pcs s x = Idle" "window_ok (lock_call I core_of x tr s)"
  shows "run I core_of s0 (lock_call I core_of x tr s)"
  using assms by (intro run.more [OF assms(1)] step.call)

lemmas lock_eval = initial_def lock_new_def lock_call_def advance_def drop_guard_def leave_def set_pc_def
  boot_interrupts_def two_cores_def window_ok_def Let_def

text \<open>A lock taken by the context on core 1, and one that the context on core 0 waits for.\<close>

definition taken :: "(bool, unit, unit) system" where
  "taken = initial (lock_new ()) (\<lambda>_. ())
    \<lparr>cell := \<lparr>ticket = 1, release = 0, owner = 0, disables_interrupts = False, val = ()\<rparr>,
     pcs := (\<lambda>b. if b then Acquired 0 else Idle), issued := 1\<rparr>"

lemma taken_run: "run boot_interrupts two_cores (initial (lock_new ()) (\<lambda>_. ())) taken"
proof -
  let ?s = "initial (lock_new ()) (\<lambda>_. ()) :: (bool, unit, unit) system"
  let ?a = "advance boot_interrupts two_cores True" and ?c = "lock_call boot_interrupts two_cores True False"
  have 1: "run boot_interrupts two_cores ?s (?c ?s)"
    by (rule run_call [OF run.init]) (auto simp: lock_eval)
  have 2: "run boot_interrupts two_cores ?s (?a (?c ?s))"
    by (rule run_advance [OF 1]) (auto simp: lock_eval)
  have "run boot_interrupts two_cores ?s (?a (?a (?c ?s)))"
    by (rule run_advance [OF 2]) (auto simp: lock_eval)
  moreover have "?a (?a (?c ?s)) = taken" by (auto simp: lock_eval taken_def fun_eq_iff)
  ultimately show ?thesis by simp
qed

definition spinning :: "(bool, unit, unit) system" where
  "spinning = taken\<lparr>cell := \<lparr>ticket = 2, release = 0, owner = 0, disables_interrupts = False, val = ()\<rparr>,
     pcs := (\<lambda>b. if b then Acquired 0 else Spinning 1), issued := 2\<rparr>"

lemma spinning_run: "run boot_interrupts two_cores (initial (lock_new ()) (\<lambda>_. ())) spinning"
proof -
  let ?a = "advance boot_interrupts two_cores False" and ?c = "lock_call boot_interrupts two_cores False False"
  let ?r = "run boot_interrupts two_cores (initial (lock_new ()) (\<lambda>_. ()) :: (bool, unit, unit) system)"
  have 1: "?r (?c taken)"
    by (rule run_call [OF taken_run]) (auto simp: lock_eval taken_def)
  have 2: "?r (?a (?c taken))"
    by (rule run_advance [OF 1]) (auto simp: lock_eval taken_def)
  have "?r (?a (?a (?c taken)))"
    by (rule run_advance [OF 2]) (auto simp: lock_eval taken_def)
  moreover have "?a (?a (?c taken)) = spinning" by (auto simp: lock_eval taken_def spinning_def fun_eq_iff)
  ultimately show ?thesis by simp
qed

lemma fresh_unit: "fresh (lock_new ())" and card_bool: "CARD(bool) < 2 ^ 32"
  by (auto simp: fresh_def)


theorem lock_fifo_witness:
  "\<exists>q q'. lock_inv two_cores taken q \<and>
    lock_inv two_cores (lock_call boot_interrupts two_cores False True taken) q' \<and> follows q q'"
proof -
  have "step boot_interrupts two_cores taken (lock_call boot_interrupts two_cores False True taken)"
    by (rule step.call) (simp add: taken_def)
  from lock_fifo [OF fresh_unit card_bool taken_run this] show ?thesis by blast
qed

theorem deadlock_detected_justified_witness:
  "(\<exists>y u. pcs spinning y = Holding u \<and> two_cores y = two_cores False) \<or>
    (two_cores False = 0 \<and> released spinning = 0)"
proof -
  have "two_cores False \<noteq> - 1" "pcs spinning False = Spinning 1"
    "pcs (advance boot_interrupts two_cores False spinning) False = Halted ''Deadlock detected'' (Some 1)"
    by (simp_all add: lock_eval spinning_def taken_def)
  from deadlock_detected_justified [OF fresh_unit card_bool spinning_run this] show ?thesis .
qed

text \<open>The deadlock panic can be wrong on core 0. A fresh lock names core 0 as its owner until
  the first holder has recorded itself; a context on core 0 that waits in that window, for a
  lock that a context on core 1 has taken, panics although its core holds nothing.\<close>

theorem deadlock_detected_spurious:
  "\<exists>s. run boot_interrupts two_cores (initial (lock_new ()) (\<lambda>_. ())) s \<and>
    pcs s False = Halted ''Deadlock detected'' (Some 1) \<and> two_cores False = 0 \<and>
    pcs s True = Acquired 0 \<and> two_cores True = 1"
proof (intro exI conjI)
  show "run boot_interrupts two_cores (initial (lock_new ()) (\<lambda>_. ()))
      (advance boot_interrupts two_cores False spinning)"
    by (rule run_advance [OF spinning_run]) (auto simp: lock_eval spinning_def taken_def)
qed (simp_all add: lock_eval spinning_def taken_def)

end
