(* ===== verification/Serial.thy ===== *)
theory Serial
  imports Cpu
begin

text \<open>
  The serial driver (\<open>shared/serial\<close>): up to four ports found by the BIOS, each with a line
  status register at offset 5. Waiting for a transmitter may last forever, and so may draining
  the receivers, so these loops return an option.
\<close>

unbundle bit_operations_syntax

subsection \<open>The driver\<close>

record SerialPort =
  devices :: "u16 option list"

fun read_scan :: "io_env \<Rightarrow> Io \<Rightarrow> u16 option list \<Rightarrow> u8 option \<times> Io" where
  "read_scan env io [] = (None, io)"
| "read_scan env io (None # ps) = read_scan env io ps"
| "read_scan env io (Some port # ps) =
     (let (status, io) = in8 env io (port + 5) in
      if status AND 1 = 0 then read_scan env io ps
      else let (b, io) = in8 env io port in (Some b, io))"

definition read_byte :: "io_env \<Rightarrow> Io \<Rightarrow> SerialPort \<Rightarrow> u8 option \<times> Io" where
  "read_byte env io s = read_scan env io (devices s)"

partial_function (option) drain :: "io_env \<Rightarrow> Io \<Rightarrow> SerialPort \<Rightarrow> Io option" where
  "drain env io s =
     (case read_byte env io s of
        (Some b, io) \<Rightarrow> drain env io s
      | (None, io) \<Rightarrow> Some io)"

definition init_port :: "Io \<Rightarrow> u16 \<Rightarrow> Io" where
  "init_port io port =
     (let io = out8 io (port + 1) 0x00;
          io = out8 io (port + 3) 0x80;
          io = out8 io (port + 0) 0x01;
          io = out8 io (port + 1) 0x00;
          io = out8 io (port + 3) 0x03
      in out8 io (port + 4) 0x03)"

text \<open>The words of the BIOS data area are the parameter \<open>bda\<close>.\<close>

fun init_ports :: "(nat \<Rightarrow> u16) \<Rightarrow> Io \<Rightarrow> nat list \<Rightarrow> u16 option list \<times> Io" where
  "init_ports bda io [] = ([], io)"
| "init_ports bda io (com_id # ids) =
     (let port = bda com_id in
      if port = 0 then (let (ds, io) = init_ports bda io ids in (None # ds, io))
      else let (ds, io) = init_ports bda (init_port io port) ids in (Some port # ds, io))"

definition serial_new :: "io_env \<Rightarrow> (nat \<Rightarrow> u16) \<Rightarrow> Io \<Rightarrow> (SerialPort \<times> Io) option" where
  "serial_new env bda io =
     (let (ds, io) = init_ports bda io [0..<4]; s = \<lparr>devices = ds\<rparr> in
      map_option (\<lambda>io. (s, io)) (drain env io s))"

partial_function (option) wait_ready :: "io_env \<Rightarrow> Io \<Rightarrow> u16 \<Rightarrow> Io option" where
  "wait_ready env io port =
     (let (status, io) = in8 env io (port + 5) in
      if status AND 0x20 = 0 then wait_ready env io port else Some io)"

declare drain.simps [simp del] wait_ready.simps [simp del]

text \<open>The part of \<open>write_byte\<close> after the line feed test; it is also what the recursive call does
  for the carriage return.\<close>

definition put_byte :: "io_env \<Rightarrow> Io \<Rightarrow> SerialPort \<Rightarrow> nat \<Rightarrow> u8 \<Rightarrow> Io option" where
  "put_byte env io s port byte =
     (if port < length (devices s) then
        (case devices s ! port of
           None \<Rightarrow> Some io
         | Some port \<Rightarrow> map_option (\<lambda>io. out8 io port byte) (wait_ready env io port))
      else Some io)"

definition write_byte :: "io_env \<Rightarrow> Io \<Rightarrow> SerialPort \<Rightarrow> nat \<Rightarrow> u8 \<Rightarrow> Io option" where
  "write_byte env io s port byte =
     Option.bind (if byte = 10 then put_byte env io s port 13 else Some io) (\<lambda>io.
     put_byte env io s port byte)"

text \<open>A loop whose body may not return.\<close>

fun foldN :: "('s \<Rightarrow> 'a \<Rightarrow> 's option) \<Rightarrow> 's \<Rightarrow> 'a list \<Rightarrow> 's option" where
  "foldN f s [] = Some s"
| "foldN f s (x # xs) = Option.bind (f s x) (\<lambda>s. foldN f s xs)"

definition serial_write :: "io_env \<Rightarrow> Io \<Rightarrow> SerialPort \<Rightarrow> bytes \<Rightarrow> Io option" where
  "serial_write env io s bs =
     foldN (\<lambda>io byte. foldN (\<lambda>io com_id. write_byte env io s com_id byte) io [0..<length (devices s)]) io bs"

subsection \<open>What is written\<close>

text \<open>The bytes one character becomes, and the writes to all present ports.\<close>

definition crlf :: "u8 \<Rightarrow> bytes" where
  "crlf b = (if b = 10 then [13, 10] else [b])"

definition port_output :: "u16 option list \<Rightarrow> u8 \<Rightarrow> (u16 \<times> u8) list" where
  "port_output ds b = concat (map (\<lambda>d. case d of None \<Rightarrow> [] | Some port \<Rightarrow> map (Pair port) (crlf b)) ds)"

definition serial_output :: "SerialPort \<Rightarrow> bytes \<Rightarrow> (u16 \<times> u8) list" where
  "serial_output s bs = concat (map (port_output (devices s)) bs)"

lemma foldN_log:
  assumes "\<And>io x io'. x \<in> set xs \<Longrightarrow> f io x = Some io' \<Longrightarrow> io_log io' = io_log io @ g x" "foldN f io xs = Some io'"
  shows "io_log io' = io_log io @ concat (map g xs)"
  using assms
proof (induction xs arbitrary: io)
  case (Cons x xs)
  then obtain io1 where "f io x = Some io1" "foldN f io1 xs = Some io'" by (auto simp: bind_eq_Some_conv)
  moreover from Cons have "io_log io' = io_log io1 @ concat (map g xs)"
    using \<open>foldN f io1 xs = Some io'\<close> by (metis list.set_intros(2))
  ultimately show ?case using Cons.prems(1) [of x io io1] by simp
qed simp

lemma wait_ready_log:
  assumes "wait_ready env io port = Some io'"
  shows "io_log io' = io_log io"
proof (rule wait_ready.raw_induct [of "\<lambda>env io port io'. io_log io' = io_log io", OF _ assms])
  fix wait env io port io'
  assume IH: "\<And>env io port io'. wait env io port = Some io' \<Longrightarrow> io_log io' = io_log io"
    and step: "(let (status, io) = in8 env io (port + 5) in if status AND 0x20 = 0 then wait env io port else Some io) = Some io'"
  obtain st io1 where i: "in8 env io (port + 5) = (st, io1)" by fastforce
  then have "io_log io1 = io_log io" using in8_simps(3) [of env io "port + 5"] by simp
  with step i IH [of env io1 port io'] show "io_log io' = io_log io" by (auto split: if_splits)
qed

lemma put_byte_log:
  assumes "put_byte env io s port b = Some io'" "port < length (devices s)"
  shows "io_log io' = io_log io @ (case devices s ! port of None \<Rightarrow> [] | Some p \<Rightarrow> [(p, b)])"
  using assms by (auto simp: put_byte_def wait_ready_log split: option.splits)

lemma write_byte_log:
  assumes "write_byte env io s port b = Some io'" "port < length (devices s)"
  shows "io_log io' = io_log io @ (case devices s ! port of None \<Rightarrow> [] | Some p \<Rightarrow> map (Pair p) (crlf b))"
  using assms put_byte_log
  by (auto simp: write_byte_def crlf_def bind_eq_Some_conv split: option.splits if_splits)

lemma serial_write_log:
  assumes "serial_write env io s bs = Some io'"
  shows "io_log io' = io_log io @ serial_output s bs"
  unfolding serial_output_def
proof (rule foldN_log [OF _ assms [unfolded serial_write_def]])
  fix io b io'
  assume "foldN (\<lambda>io com_id. write_byte env io s com_id b) io [0..<length (devices s)] = Some io'"
  from foldN_log [OF _ this] write_byte_log
  have "io_log io' = io_log io @ concat (map (\<lambda>c. case devices s ! c of None \<Rightarrow> [] | Some p \<Rightarrow> map (Pair p) (crlf b)) [0..<length (devices s)])"
    by simp
  also have "map (\<lambda>c. case devices s ! c of None \<Rightarrow> [] | Some p \<Rightarrow> map (Pair p) (crlf b)) [0..<length (devices s)]
      = map (\<lambda>d. case d of None \<Rightarrow> [] | Some p \<Rightarrow> map (Pair p) (crlf b)) (devices s)"
    by (rule nth_equalityI) simp_all
  finally show "io_log io' = io_log io @ port_output (devices s) b" by (simp add: port_output_def)
qed

subsection \<open>Writing ends\<close>

lemma wait_ready_returns:
  assumes "env (io_clock io + k) (io_log io) (port + 5) AND 0x20 \<noteq> 0"
  shows "\<exists>io'. wait_ready env io port = Some io'"
  using assms
proof (induction k arbitrary: io)
  case 0
  then show ?case by (subst wait_ready.simps) (simp add: in8_def)
next
  case (Suc k)
  have "\<exists>io'. wait_ready env (io\<lparr>io_clock := io_clock io + 1\<rparr>) port = Some io'"
    using Suc.prems by (intro Suc.IH) simp
  then show ?case by (subst wait_ready.simps) (auto simp: in8_def)
qed

lemma foldN_returns:
  assumes "\<And>io x. x \<in> set xs \<Longrightarrow> \<exists>io'. f io x = Some io'"
  shows "\<exists>io'. foldN f io xs = Some io'"
  using assms
proof (induction xs arbitrary: io)
  case (Cons x xs)
  obtain io1 where "f io x = Some io1" using Cons.prems by fastforce
  moreover have "\<exists>io'. foldN f io1 xs = Some io'" using Cons by simp
  ultimately show ?case by simp
qed simp

lemma serial_write_returns:
  assumes "\<And>clock log port. \<exists>k. env (clock + k) log port AND 0x20 \<noteq> 0"
  shows "\<exists>io'. serial_write env io s bs = Some io'"
proof -
  have w: "\<exists>io'. wait_ready env io port = Some io'" for io port
    using assms [of "io_clock io" "io_log io" "port + 5"] wait_ready_returns by blast
  have p: "\<exists>io'. put_byte env io s port b = Some io'" for io port b
    unfolding put_byte_def using w by (auto split: option.splits)
  have "\<exists>io'. write_byte env io s port b = Some io'" for io port b
  proof -
    obtain io1 where "(if b = 10 then put_byte env io s port 13 else Some io) = Some io1"
      using p [of io port 13] by (cases "b = 10") auto
    then show ?thesis unfolding write_byte_def using p [of io1 port b] by simp
  qed
  then show ?thesis unfolding serial_write_def by (intro foldN_returns) blast
qed

text \<open>Draining the receivers returns once nothing more arrives.\<close>

lemma read_scan_clock:
  "read_scan env io ps = (r, io') \<Longrightarrow> io_clock io \<le> io_clock io' \<and> io_log io' = io_log io \<and> (r \<noteq> None \<longrightarrow> io_clock io < io_clock io')"
proof (induction ps arbitrary: io)
  case (Cons p ps)
  then show ?case
  proof (cases p)
    case (Some port)
    then show ?thesis using Cons.prems Cons.IH [of "snd (in8 env io (port + 5))"]
      by (auto simp: in8_def Let_def split: if_splits)
  qed simp
qed simp

lemma read_scan_quiet:
  assumes "\<forall>clock log port. N \<le> clock \<longrightarrow> env clock log port AND 1 = 0" "N \<le> io_clock io"
  shows "fst (read_scan env io ps) = None"
  using assms(2)
proof (induction ps arbitrary: io)
  case (Cons p ps)
  then show ?case using assms(1) by (cases p) (auto simp: in8_def Let_def)
qed simp

lemma drain_returns:
  assumes "\<forall>clock log port. N \<le> clock \<longrightarrow> env clock log port AND 1 = 0"
  shows "\<exists>io'. drain env io s = Some io'"
proof (induction "N - io_clock io" arbitrary: io rule: less_induct)
  case less
  obtain r io1 where r: "read_byte env io s = (r, io1)" by (cases "read_byte env io s")
  show ?case
  proof (cases r)
    case None
    then show ?thesis using r by (subst drain.simps) simp
  next
    case (Some b)
    then have "io_clock io < io_clock io1" "\<not> N \<le> io_clock io"
      using r read_scan_clock [of env io "devices s" r io1] read_scan_quiet [OF assms, where io = io and ps = "devices s"] by (auto simp: read_byte_def)
    then have "N - io_clock io1 < N - io_clock io" by simp
    from less [OF this] show ?thesis using r Some by (subst drain.simps) simp
  qed
qed

text \<open>C21: When every transmitter becomes ready again after finitely many polls, a write returns, and
  the bytes written to the ports are those of the message, each to every present port, with a
  carriage return before every line feed.
\<close>

theorem serial_write_output:
  assumes "\<And>clock log port. \<exists>k. env (clock + k) log port AND 0x20 \<noteq> 0"
  shows "\<exists>io'. serial_write env io s bs = Some io' \<and> io_log io' = io_log io @ serial_output s bs"
  using serial_write_returns [of env io s bs, OF assms] serial_write_log by blast

theorem serial_write_output_witness:
  "\<exists>io'. serial_write (\<lambda>t log port. if even t then 0 else 0x20) \<lparr>io_clock = 0, io_log = []\<rparr> \<lparr>devices = [Some 0x3f8, None, None, None]\<rparr> [65, 10] = Some io'
    \<and> io_log io' = [(0x3f8, 65), (0x3f8, 13), (0x3f8, 10)]"
proof -
  have r: "\<exists>k. (if even (clock + k) then 0 else 0x20 :: u8) AND 0x20 \<noteq> 0" for clock :: nat
    by (rule exI [of _ "clock + 1"]) simp
  show ?thesis
    using serial_write_output [of "\<lambda>t log port. if even t then 0 else 0x20" "\<lparr>io_clock = 0, io_log = []\<rparr>"
        "\<lparr>devices = [Some 0x3f8, None, None, None]\<rparr>" "[65, 10]", OF r]
    by (simp add: serial_output_def port_output_def crlf_def)
qed

end
