(* ===== verification/BootArgs.thy ===== *)
theory BootArgs
  imports PageTable Serial
begin

text \<open>
  The structure the bootloader and the kernel share (\<open>shared/boot_args\<close>) and the layout of the
  kernel's address space. The fields are the contents of the lock cells; the locks themselves
  are the subject of the theory on lock cells.
\<close>

definition KERNEL_STACKS_BASE :: u64 where "KERNEL_STACKS_BASE = 0x0000747300000000"

definition KERNEL_PHYS_WINDOW_BASE :: u64 where "KERNEL_PHYS_WINDOW_BASE = 0xffffcafe00000000"

definition KERNEL_VMEM_BASE :: u64 where "KERNEL_VMEM_BASE = 0xffff800000000000"

definition KERNEL_STACK_SIZE :: u64 where "KERNEL_STACK_SIZE = 32 * 1024"

definition KERNEL_STACK_PAD :: u64 where "KERNEL_STACK_PAD = 32 * 1024"

definition KERNEL_PHYS_WINDOW_SIZE :: u64 where "KERNEL_PHYS_WINDOW_SIZE = 64 * 1024 * 1024 * 1024"

record BootArgs =
  ba_free_memory :: "RangeSet option"
  ba_serial :: "SerialPort option"
  ba_page_table :: "PageTable option"
  ba_trampoline_page_table :: u64
  ba_kernel_entry :: "u64 option"
  ba_stack_vaddr :: u64
  ba_soft_reboot_addr :: u64

text \<open>The window lies in the upper half of the canonical addresses and does not wrap.\<close>

lemma window_no_wrap:
  "unat KERNEL_PHYS_WINDOW_BASE + unat KERNEL_PHYS_WINDOW_SIZE < 2 ^ 64"
  by (simp add: KERNEL_PHYS_WINDOW_BASE_def KERNEL_PHYS_WINDOW_SIZE_def)

end
