(* ===== verification/CoreLocals.thy ===== *)
theory CoreLocals
  imports LockCell BootArgs
begin

text \<open>
  The core-local state, \<open>kernel/src/core_locals.rs\<close>: the scope-based reference counts, the
  nesting of interrupts, exceptions and interrupt-disable requests, and the interrupt state
  the kernel gives its locks. The processor's interrupt flag is a field of the state; the
  lock-guarded members are in the theories of their components.
\<close>

subsection \<open>Reference counts\<close>

text \<open>\<open>AutoAtomicRef\<close>: an increment returns the count for its guard, whose drop decrements it.\<close>

type_synonym AutoAtomicRef = u64

definition auto_new :: "u64 \<Rightarrow> AutoAtomicRef" where
  "auto_new init = init"

definition auto_count :: "AutoAtomicRef \<Rightarrow> u64" where
  "auto_count r = r"

definition auto_increment :: "AutoAtomicRef \<Rightarrow> AutoAtomicRef res" where
  "auto_increment r = (case checked_add r 1 of
     None \<Rightarrow> Panic ''Integer overflow on AutoAtomicRef increment'' | Some _ \<Rightarrow> Ok (r + 1))"

definition auto_drop :: "AutoAtomicRef \<Rightarrow> AutoAtomicRef res" where
  "auto_drop r = (case checked_sub r 1 of
     None \<Rightarrow> Panic ''Integer overflow on AutoAtomicRef decrement'' | Some _ \<Rightarrow> Ok (r - 1))"

subsection \<open>Core locals\<close>

record CoreLocals =
  address :: u64
  core_id :: u32
  interrupt_depth :: AutoAtomicRef
  exception_depth :: AutoAtomicRef
  interrupt_disable_outstanding :: u64
  apic_id_cell :: u32
  interrupt_flag :: bool

definition set_apic_id :: "u32 \<Rightarrow> CoreLocals \<Rightarrow> CoreLocals" where
  "set_apic_id i c = c\<lparr>apic_id_cell := i\<rparr>"

definition apic_id :: "CoreLocals \<Rightarrow> u32 option" where
  "apic_id c = (if apic_id_cell c = 0xffffffff then None else Some (apic_id_cell c))"

definition enter_exception :: "CoreLocals \<Rightarrow> CoreLocals res" where
  "enter_exception c = bindR (auto_increment (exception_depth c)) (\<lambda>d. Ok (c\<lparr>exception_depth := d\<rparr>))"

definition leave_exception :: "CoreLocals \<Rightarrow> CoreLocals res" where
  "leave_exception c = bindR (auto_drop (exception_depth c)) (\<lambda>d. Ok (c\<lparr>exception_depth := d\<rparr>))"

definition core_in_exception :: "CoreLocals \<Rightarrow> bool" where
  "core_in_exception c \<longleftrightarrow> auto_count (exception_depth c) > 0"

definition enter_interrupt :: "CoreLocals \<Rightarrow> CoreLocals res" where
  "enter_interrupt c = bindR (auto_increment (interrupt_depth c)) (\<lambda>d. Ok (c\<lparr>interrupt_depth := d\<rparr>))"

definition leave_interrupt :: "CoreLocals \<Rightarrow> CoreLocals res" where
  "leave_interrupt c = bindR (auto_drop (interrupt_depth c)) (\<lambda>d. Ok (c\<lparr>interrupt_depth := d\<rparr>))"

definition core_in_interrupt :: "CoreLocals \<Rightarrow> bool" where
  "core_in_interrupt c \<longleftrightarrow> auto_count (interrupt_depth c) > 0"

definition disable_interrupts :: "CoreLocals \<Rightarrow> CoreLocals res" where
  "disable_interrupts c = (let os = interrupt_disable_outstanding c in
     case checked_add os 1 of
       None \<Rightarrow> Panic ''Integer overflow on disable interrupts increment''
     | Some _ \<Rightarrow> Ok (c\<lparr>interrupt_disable_outstanding := os + 1, interrupt_flag := False\<rparr>))"

definition enable_interrupts :: "CoreLocals \<Rightarrow> CoreLocals res" where
  "enable_interrupts c = (let os = interrupt_disable_outstanding c;
       c' = c\<lparr>interrupt_disable_outstanding := os - 1\<rparr> in
     case checked_sub os 1 of
       None \<Rightarrow> Panic ''Integer overflow on disable interrupts decrement''
     | Some _ \<Rightarrow> Ok (if \<not> core_in_interrupt c' \<and> os = 1 then c'\<lparr>interrupt_flag := True\<rparr> else c'))"

text \<open>The kernel's implementation of the trait the locks are generic in.\<close>

definition LockInterrupts :: "CoreLocals InterruptState" where
  "LockInterrupts = \<lparr>in_interrupt = core_in_interrupt, in_exception = core_in_exception,
     enter_lock = disable_interrupts, exit_lock = enable_interrupts\<rparr>"

text \<open>
  The initialisation of a core: its locals are allocated from the free memory the bootloader
  passes on (size and alignment of the structure are parameters) and addressed through the
  physical window. Interrupts are off and there is one outstanding request.
\<close>

definition core_init :: "u64 \<Rightarrow> u64 \<Rightarrow> RangeSet option \<Rightarrow> u32 \<Rightarrow> (CoreLocals \<times> RangeSet option) res" where
  "core_init sz al free_memory ident = bindR (expectR ''unwrap'' free_memory) (\<lambda>pmem.
     bindR (rs_allocate 64 pmem sz al) (\<lambda>(r, pmem').
     bindR (expectR ''unwrap'' r) (\<lambda>p.
     Ok (\<lparr>address = p + KERNEL_PHYS_WINDOW_BASE, core_id = ident, interrupt_depth = auto_new 0,
       exception_depth = auto_new 0, interrupt_disable_outstanding = 1, apic_id_cell = - 1,
       interrupt_flag = False\<rparr>, Some pmem'))))"

subsection \<open>Nesting of interrupt-disabling locks\<close>

text \<open>The contract of an interrupt state whose locks nest: a request deepens the nesting, a
  release undoes one request, and interrupts are masked while requests are outstanding.\<close>

datatype lock_op = Enter | Exit

fun lock_ops :: "'i InterruptState \<Rightarrow> lock_op list \<Rightarrow> 'i \<Rightarrow> 'i res" where
  "lock_ops I [] i = Ok i"
| "lock_ops I (Enter # ops) i = bindR (enter_lock I i) (lock_ops I ops)"
| "lock_ops I (Exit # ops) i = bindR (exit_lock I i) (lock_ops I ops)"

text \<open>The depth after a sequence, none when some release has no request.\<close>

fun depth_after :: "nat \<Rightarrow> lock_op list \<Rightarrow> nat option" where
  "depth_after d [] = Some d"
| "depth_after d (Enter # ops) = depth_after (Suc d) ops"
| "depth_after d (Exit # ops) = (case d of 0 \<Rightarrow> None | Suc k \<Rightarrow> depth_after k ops)"

locale nesting =
  fixes I :: "'i InterruptState" and inv :: "'i \<Rightarrow> bool" and depth :: "'i \<Rightarrow> nat"
    and masked :: "'i \<Rightarrow> bool" and limit :: nat
  assumes enter: "inv i \<Longrightarrow> depth i < limit \<Longrightarrow>
      \<exists>i'. enter_lock I i = Ok i' \<and> inv i' \<and> depth i' = Suc (depth i)"
    and exit: "inv i \<Longrightarrow> depth i = Suc d \<Longrightarrow> \<exists>i'. exit_lock I i = Ok i' \<and> inv i' \<and> depth i' = d"
    and masks: "inv i \<Longrightarrow> depth i > 0 \<Longrightarrow> masked i"
begin

lemma lock_ops_nest:
  "inv i \<Longrightarrow> depth_after (depth i) ops = Some d \<Longrightarrow> depth i + length ops < limit \<Longrightarrow>
    \<exists>i'. lock_ops I ops i = Ok i' \<and> inv i' \<and> depth i' = d \<and> (d > 0 \<longrightarrow> masked i')"
proof (induction ops arbitrary: i)
  case Nil
  then show ?case using masks by auto
next
  case (Cons x ops)
  show ?case
  proof (cases x)
    case Enter
    from enter [OF Cons.prems(1)] Cons.prems(3) obtain i' where
      "enter_lock I i = Ok i'" "inv i'" "depth i' = Suc (depth i)" by auto
    with Cons.IH [of i'] Cons.prems Enter show ?thesis by auto
  next
    case Exit
    with Cons.prems(2) obtain k where k: "depth i = Suc k" "depth_after k ops = Some d"
      by (auto split: nat.splits)
    from exit [OF Cons.prems(1) k(1)] obtain i' where "exit_lock I i = Ok i'" "inv i'" "depth i' = k" by auto
    with Cons.IH [of i'] Cons.prems(3) k Exit show ?thesis by auto
  qed
qed

end

definition irq_inv :: "CoreLocals \<Rightarrow> bool" where
  "irq_inv c \<longleftrightarrow> (interrupt_disable_outstanding c > 0 \<longrightarrow> \<not> interrupt_flag c)"

interpretation kernel_locks: nesting LockInterrupts irq_inv "\<lambda>c. unat (interrupt_disable_outstanding c)"
  "\<lambda>c. \<not> interrupt_flag c" "2 ^ 64 - 1"
proof
  fix c
  assume c: "irq_inv c" "unat (interrupt_disable_outstanding c) < 2 ^ 64 - 1"
  then have "interrupt_disable_outstanding c \<noteq> - 1"
    by (auto simp: unsigned_minus_1_eq_mask mask_eq_exp_minus_1)
  then show "\<exists>i'. enter_lock LockInterrupts c = Ok i' \<and> irq_inv i' \<and>
      unat (interrupt_disable_outstanding i') = Suc (unat (interrupt_disable_outstanding c))"
    using c(2) by (simp add: LockInterrupts_def disable_interrupts_def Let_def checked_add_def unat_succ irq_inv_def)
next
  fix c d
  assume c: "irq_inv c" "unat (interrupt_disable_outstanding c) = Suc d"
  let ?o = "interrupt_disable_outstanding c"
  have o: "?o \<noteq> 0" "1 \<le> ?o" using c(2) by (auto simp: word_le_nat_alt)
  then have "unat (?o - 1) = d" using c(2) by (simp add: unat_pred)
  moreover have "?o = 1 \<longleftrightarrow> ?o - 1 = 0" by auto
  moreover have "\<not> interrupt_flag c" using c(1) o by (auto simp: irq_inv_def word_gt_0)
  ultimately show "\<exists>i'. exit_lock LockInterrupts c = Ok i' \<and> irq_inv i' \<and>
      unat (interrupt_disable_outstanding i') = d"
    using o by (auto simp: LockInterrupts_def enable_interrupts_def Let_def checked_sub_def irq_inv_def)
next
  fix c
  assume "irq_inv c" "0 < unat (interrupt_disable_outstanding c)"
  then show "\<not> interrupt_flag c" by (auto simp: irq_inv_def word_gt_0 unat_gt_0)
qed

subsection \<open>Properties\<close>

lemma lock_ops_append: "lock_ops I (xs @ ys) i = bindR (lock_ops I xs i) (lock_ops I ys)"
  by (induction I xs i rule: lock_ops.induct) (auto simp: bindR_assoc intro!: bindR_cong)

lemma LockInterrupts_sel [simp]:
  "enter_lock LockInterrupts = disable_interrupts" "exit_lock LockInterrupts = enable_interrupts"
  by (simp_all add: LockInterrupts_def)

lemma lock_ops_depth: "lock_ops LockInterrupts ops c = Ok c' \<Longrightarrow> interrupt_depth c' = interrupt_depth c"
proof (induction ops arbitrary: c)
  case (Cons x ops)
  then obtain c1 where c1: "(case x of Enter \<Rightarrow> disable_interrupts c | Exit \<Rightarrow> enable_interrupts c) = Ok c1"
    "lock_ops LockInterrupts ops c1 = Ok c'" by (cases x) auto
  have "interrupt_depth c1 = interrupt_depth c"
    using c1(1) by (cases x) (auto simp: disable_interrupts_def enable_interrupts_def Let_def split: option.splits if_splits)
  with Cons.IH [OF c1(2)] show ?case by simp
qed simp



text \<open>The locals of a new core are placed in free memory, which is taken out of the free set,
  and are addressed through the physical window; interrupts are off and one request is
  outstanding, so that the first lock release does not enable them.\<close>

theorem core_init_correct:
  assumes "rs_inv pmem" "core_init sz al (Some pmem) ident = Ok (c, free')"
  shows "\<exists>p pmem'. free' = Some pmem' \<and> rs_inv pmem' \<and> block p sz \<subseteq> rs_addrs pmem \<and>
    rs_addrs pmem' \<subseteq> rs_addrs pmem - block p sz \<and> address c = p + KERNEL_PHYS_WINDOW_BASE \<and>
    core_id c = ident \<and> irq_inv c \<and> interrupt_disable_outstanding c = 1 \<and> apic_id c = None"
proof -
  from assms(2) obtain p pmem' where p: "rs_allocate 64 pmem sz al = Ok (Some p, pmem')" "free' = Some pmem'"
    "c = \<lparr>address = p + KERNEL_PHYS_WINDOW_BASE, core_id = ident, interrupt_depth = auto_new 0,
       exception_depth = auto_new 0, interrupt_disable_outstanding = 1, apic_id_cell = - 1,
       interrupt_flag = False\<rparr>"
    by (auto simp: core_init_def expectR_def split: option.splits)
  with rs.al_Some [OF assms(1) p(1)] show ?thesis
    by (auto simp: irq_inv_def apic_id_def)
qed

theorem core_init_correct_witness:
  "\<exists>c p pmem'. core_init 0x2000 0x1000 (Some one_entry) 3 = Ok (c, Some pmem') \<and>
    address c = p + KERNEL_PHYS_WINDOW_BASE \<and> block p 0x2000 \<inter> rs_addrs pmem' = {}"
proof -
  have "list_all (no_wrap 0x2000 0x1000) (live one_entry)"
    "suits 64 0x2000 0x1000 \<lparr>r_start = 0, r_end = 0xffff\<rparr>" "count_ones (0x1000 :: u64) = 1"
    unfolding one_entry(2) by code_simp+
  with allocate_complete [OF one_entry(1), where ub = 64 and sz = "0x2000" and align = "0x1000"]
  obtain p rs' where "rs_allocate 64 one_entry 0x2000 0x1000 = Ok (Some p, rs')" by (auto simp: one_entry(2))
  then obtain c where c: "core_init 0x2000 0x1000 (Some one_entry) 3 = Ok (c, Some rs')"
    by (simp add: core_init_def)
  from core_init_correct [OF one_entry(1) c] c show ?thesis by blast
qed

end
