(* ===== verification/KernelMm.thy ===== *)
theory KernelMm
  imports CoreLocals
begin

text \<open>
  The memory manager of the kernel (\<open>kernel/src/mm.rs\<close>): the NUMA ranges of the cores, virtual
  address allocation, the per-core list of free pages, physical memory, the global allocator and
  physically contiguous allocations. Physical memory is read and written through the linear
  window at \<open>KERNEL_PHYS_WINDOW_BASE\<close>.
\<close>

unbundle bit_operations_syntax

subsection \<open>State\<close>

text \<open>
  The memory, the boot arguments, the locals of the running core with the head of its free
  list, the NUMA table once it is registered, and the next free virtual address.
\<close>

record Kernel =
  k_mem :: "64 memory"
  k_args :: BootArgs
  k_core :: CoreLocals
  k_free_list :: u64
  k_numa :: "Range option list option"
  k_next_vaddr :: u64

definition MAX_CORES :: nat where "MAX_CORES = 1024"

definition memory_range :: "Kernel \<Rightarrow> Range option res" where
  "memory_range k =
     (case k_numa k of
        None \<Rightarrow> Ok None
      | Some atmr \<Rightarrow>
          (case apic_id (k_core k) of
             None \<Rightarrow> Ok None
           | Some x \<Rightarrow> nthR atmr (unat x)))"

definition numa_range :: "u64 \<times> u64 \<Rightarrow> Range option" where
  "numa_range ps =
     (case checked_sub (snd ps) 1 of
        None \<Rightarrow> None
      | Some n \<Rightarrow> (case checked_add (fst ps) n of None \<Rightarrow> None | Some e \<Rightarrow> Some \<lparr>r_start = fst ps, r_end = e\<rparr>))"

definition register_numa_nodes :: "(u32 \<times> u32) list \<Rightarrow> (u32 \<Rightarrow> (u64 \<times> u64) option) \<Rightarrow> Kernel \<Rightarrow> Kernel res" where
  "register_numa_nodes apic_to_domain domain_to_mem k =
     bindR (foldR (\<lambda>t (apic, domain). updR t (unat apic) (Option.bind (domain_to_mem domain) numa_range))
       (replicate MAX_CORES None) apic_to_domain) (\<lambda>t. Ok (k\<lparr>k_numa := Some t\<rparr>))"

subsection \<open>Virtual addresses\<close>

definition GUARD_PAGE_SIZE :: u64 where "GUARD_PAGE_SIZE = 32 * 1024"

definition alloc_virt_addr_4k :: "Kernel \<Rightarrow> u64 \<Rightarrow> (u64 \<times> Kernel) res" where
  "alloc_virt_addr_4k k sz =
     (if \<not> (sz > 0 \<and> sz AND 0xfff = 0) then Panic ''Invalid size for virtual region allocation''
      else
        bindR (expectR ''Integer overflow on virtual region size'' (checked_add GUARD_PAGE_SIZE sz)) (\<lambda>reserve_size.
        let ret = k_next_vaddr k; k = k\<lparr>k_next_vaddr := k_next_vaddr k + reserve_size\<rparr> in
        bindR (expectR ''Integer overflow on virtual address range'' (checked_add ret reserve_size)) (\<lambda>_.
          Ok (ret, k))))"

subsection \<open>Physical memory through the window\<close>

definition window_end :: "string \<Rightarrow> string \<Rightarrow> u64 \<Rightarrow> u64 \<Rightarrow> unit res" where
  "window_end overflow outside paddr sz =
     bindR (expectR overflow (Option.bind (checked_sub sz 1) (\<lambda>x. checked_add x paddr))) (\<lambda>e.
     if e < KERNEL_PHYS_WINDOW_SIZE then Ok () else Panic outside)"

text \<open>\<open>T\<close> is a value of \<open>n\<close> bytes.\<close>

definition read_phys :: "Kernel \<Rightarrow> u64 \<Rightarrow> nat \<Rightarrow> bytes res" where
  "read_phys k paddr n =
     bindR (window_end ''Integer overflow on read_phys'' ''Physical address outside of window'' paddr (word_of_nat n)) (\<lambda>_.
       Ok (read_bytes (k_mem k) (KERNEL_PHYS_WINDOW_BASE + paddr) n))"

definition write_phys :: "Kernel \<Rightarrow> u64 \<Rightarrow> bytes \<Rightarrow> Kernel res" where
  "write_phys k paddr v =
     bindR (window_end ''Integer overflow on write_phys'' ''Physical address outside of window'' paddr
       (word_of_nat (length v))) (\<lambda>_.
       Ok (k\<lparr>k_mem := store_bytes (k_mem k) (KERNEL_PHYS_WINDOW_BASE + paddr) v\<rparr>))"

definition phys_translate :: "Kernel \<Rightarrow> u64 \<Rightarrow> u64 \<Rightarrow> u64 res" where
  "phys_translate k paddr sz =
     bindR (window_end ''Integer overflow on physical memory translation''
       ''Physical address outside of physical window'' paddr sz) (\<lambda>_.
       Ok (paddr + KERNEL_PHYS_WINDOW_BASE))"

subsection \<open>The free list\<close>

text \<open>A node fills its page: the next node, the number of free slots, 510 page addresses.\<close>

definition NODE_PAGES :: u64 where "NODE_PAGES = 510"

definition node_next :: "u64 \<Rightarrow> u64" where "node_next p = p"

definition node_slots :: "u64 \<Rightarrow> u64" where "node_slots p = p + 8"

definition node_page :: "u64 \<Rightarrow> u64 \<Rightarrow> u64" where "node_page p i = p + 16 + 8 * i"

definition node_from_raw :: "u64 \<Rightarrow> u64 res" where
  "node_from_raw paddr =
     bindR (unwrapR (checked_add paddr (4096 - 1))) (\<lambda>e.
     if e < KERNEL_PHYS_WINDOW_SIZE then Ok (KERNEL_PHYS_WINDOW_BASE + paddr)
     else Panic ''Physical address outside of window'')"

definition free_list_new :: u64 where "free_list_new = 0"

definition push_node :: "Kernel \<Rightarrow> u64 \<Rightarrow> Kernel res" where
  "push_node k pg =
     bindR (node_from_raw pg) (\<lambda>node.
     let m = store64 (k_mem k) (node_slots node) NODE_PAGES;
         m = store64 m (node_next node) (k_free_list k) in
       Ok (k\<lparr>k_mem := m, k_free_list := pg\<rparr>))"

definition fl_push :: "Kernel \<Rightarrow> u64 \<Rightarrow> Kernel res" where
  "fl_push k pg =
     (if k_free_list k = 0 then push_node k pg
      else
        bindR (node_from_raw (k_free_list k)) (\<lambda>node.
        if load64 (k_mem k) (node_slots node) = 0 then push_node k pg
        else
          let slots = load64 (k_mem k) (node_slots node) - 1;
              m = store64 (k_mem k) (node_slots node) slots in
          if slots < NODE_PAGES
          then Ok (k\<lparr>k_mem := store64 m (node_page node slots) pg\<rparr>)
          else Panic ''index out of bounds''))"

definition FREE_LIST_BATCH :: u64 where "FREE_LIST_BATCH = 1024 * 1024"

definition allocate_free_memory :: "Kernel \<Rightarrow> u64 \<Rightarrow> u64 \<Rightarrow> (u64 \<times> Kernel) res" where
  "allocate_free_memory k sz align =
     bindR (unwrapR (ba_free_memory (k_args k))) (\<lambda>rs.
     bindR (memory_range k) (\<lambda>region.
     bindR (rs_allocate_prefer 64 rs sz align region) (\<lambda>(r, rs).
     bindR (expectR ''Failed to allocate physical memory'' r) (\<lambda>p.
       Ok (p, k\<lparr>k_args := (k_args k)\<lparr>ba_free_memory := Some rs\<rparr>\<rparr>)))))"

definition fl_refill :: "Kernel \<Rightarrow> Kernel res" where
  "fl_refill k =
     (if k_free_list k = 0 then
        bindR (allocate_free_memory k FREE_LIST_BATCH 4096) (\<lambda>(alc, k).
        foldR fl_push k (map (\<lambda>i. alc + 4096 * word_of_nat i) [0..<256]))
      else Ok k)"

definition fl_pop :: "Kernel \<Rightarrow> (u64 \<times> Kernel) res" where
  "fl_pop k =
     bindR (fl_refill k) (\<lambda>k.
     bindR (node_from_raw (k_free_list k)) (\<lambda>node.
     let slots = load64 (k_mem k) (node_slots node) in
     if slots < NODE_PAGES then
       Ok (load64 (k_mem k) (node_page node slots),
           k\<lparr>k_mem := store64 (k_mem k) (node_slots node) (slots + 1)\<rparr>)
     else
       Ok (k_free_list k, k\<lparr>k_free_list := load64 (k_mem k) (node_next node)\<rparr>)))"

subsection \<open>Physical memory, the global allocator and contiguous allocations\<close>

definition kernel_alloc_phys :: "Kernel \<Rightarrow> Layout \<Rightarrow> (u64 \<times> Kernel) res" where
  "kernel_alloc_phys k layout =
     (if l_size layout = 4096 \<and> l_align layout \<ge> 4096 then fl_pop k
      else allocate_free_memory k (l_size layout) (l_align layout))"

definition kernel_free_phys :: "Kernel \<Rightarrow> u64 \<Rightarrow> u64 \<Rightarrow> Kernel res" where
  "kernel_free_phys k phys sz =
     (if phys AND 0xfff = 0 \<and> sz = 4096 then fl_push k phys
      else
        bindR (expectR ''Integer overflow on free_phys'' (Option.bind (checked_sub sz 1) (\<lambda>x. checked_add x phys))) (\<lambda>e.
        bindR (unwrapR (ba_free_memory (k_args k))) (\<lambda>rs.
        bindR (rs_insert rs \<lparr>r_start = phys, r_end = e\<rparr>) (\<lambda>rs.
          Ok (k\<lparr>k_args := (k_args k)\<lparr>ba_free_memory := Some rs\<rparr>\<rparr>)))))"

definition PhysicalMemory :: "Kernel PhysMem" where
  "PhysicalMemory = \<lparr>pm_translate = phys_translate, pm_alloc = kernel_alloc_phys, pm_free = kernel_free_phys,
     pm_mem = k_mem, pm_set_mem = (\<lambda>m k. k\<lparr>k_mem := m\<rparr>)\<rparr>"

definition align_up_4k :: "u64 \<Rightarrow> u64 option" where
  "align_up_4k sz = map_option (\<lambda>x. x AND NOT 0xfff) (checked_add sz 0xfff)"

definition opt_alloc :: "Kernel \<Rightarrow> Layout \<Rightarrow> (u64 option \<times> Kernel) res option" where
  "opt_alloc k layout =
     (case align_up_4k (l_size layout) of
        None \<Rightarrow> Some (Ok (None, k))
      | Some alignsize \<Rightarrow>
          bindD (Some (alloc_virt_addr_4k k alignsize)) (\<lambda>(vaddr, k).
          case ba_page_table (k_args k) of
            None \<Rightarrow> Some (Ok (None, k))
          | Some pt \<Rightarrow>
              bindD (pt_map PhysicalMemory pt k vaddr Page4K alignsize True True False) (\<lambda>(r, k).
              Some (Ok (if r = None then None else Some vaddr, k)))))"

definition kernel_alloc :: "Kernel \<Rightarrow> Layout \<Rightarrow> (u64 \<times> Kernel) res option" where
  "kernel_alloc k layout = bindD (opt_alloc k layout) (\<lambda>(r, k). Some (Ok (unwrap_or 0 r, k)))"

definition kernel_dealloc :: "Kernel \<Rightarrow> u64 \<Rightarrow> Layout \<Rightarrow> Kernel res option" where
  "kernel_dealloc k ptr layout =
     bindD (Some (unwrapR (align_up_4k (l_size layout)))) (\<lambda>alignsize.
     bindD (Some (unwrapR (ba_page_table (k_args k)))) (\<lambda>pt.
     pt_free PhysicalMemory pt k ptr alignsize))"

record PhysContig =
  pc_vaddr :: u64
  pc_paddr :: u64

text \<open>\<open>T\<close> has \<open>sz\<close> bytes and alignment \<open>al\<close>. Its value is written through the new mapping, which
  is another view of the pages; the memory of the model is the physical window.\<close>

definition phys_contig_new :: "Kernel \<Rightarrow> u64 \<Rightarrow> u64 \<Rightarrow> (PhysContig \<times> Kernel) res" where
  "phys_contig_new k sz al =
     (if \<not> sz > 0 then Panic ''Cannot use ZST for PhysContig''
      else
        let alc_size = max 4096 sz in
        bindR (kernel_alloc_phys k \<lparr>l_size = alc_size, l_align = max 4096 al\<rparr>) (\<lambda>(paddr, k).
        bindR (alloc_virt_addr_4k k alc_size) (\<lambda>(vaddr, k).
        bindR (unwrapR (ba_page_table (k_args k))) (\<lambda>pt.
        bindR (foldR (\<lambda>k offset.
            bindR (map_raw PhysicalMemory pt k (vaddr + offset) Page4K
              ((paddr + offset) OR PAGE_NX OR PAGE_WRITE OR PAGE_PRESENT)) (\<lambda>(r, k).
            bindR (expectR ''Failed to map PhysContig memory'' r) (\<lambda>_. Ok k)))
          k (map (\<lambda>i. 4096 * word_of_nat i) [0..<unat ((alc_size - 1) div 4096) + 1])) (\<lambda>k.
          Ok (\<lparr>pc_vaddr = vaddr, pc_paddr = paddr\<rparr>, k))))))"

definition phys_contig_drop :: "Kernel \<Rightarrow> PhysContig \<Rightarrow> u64 \<Rightarrow> Kernel res option" where
  "phys_contig_drop k pc sz =
     bindD (Some (unwrapR (align_up_4k sz))) (\<lambda>alignsize.
     bindD (Some (unwrapR (ba_page_table (k_args k)))) (\<lambda>pt.
     pt_free PhysicalMemory pt k (pc_vaddr pc) alignsize))"

end
