(* ===== verification/KernelMm_Correct.thy ===== *)
theory KernelMm_Correct
  imports KernelMm PageTable_Map
begin

text \<open>
  The physical memory of the kernel. The free list of a core is a stack of pages that is kept in
  the pages themselves; with the free memory of the range set it implements the interface the
  page tables need.
\<close>

unbundle bit_operations_syntax

subsection \<open>Virtual addresses\<close>

text \<open>Sequences of requests that succeed, with the regions they got, the newest first.\<close>

inductive vaddr_run :: "Kernel \<Rightarrow> Kernel \<Rightarrow> (u64 \<times> u64) list \<Rightarrow> bool" for k0 where
  none: "vaddr_run k0 k0 []"
| more: "vaddr_run k0 k rs \<Longrightarrow> alloc_virt_addr_4k k sz = Ok (v, k') \<Longrightarrow> vaddr_run k0 k' ((v, sz) # rs)"

lemma alloc_virt_addr_ok:
  assumes "alloc_virt_addr_4k k sz = Ok (v, k')"
  shows "v = k_next_vaddr k" "k' = k\<lparr>k_next_vaddr := k_next_vaddr k + (0x8000 + sz)\<rparr>"
    "unat (k_next_vaddr k') = unat v + 0x8000 + unat sz" "0 < unat sz" "aligned sz"
proof -
  from assms obtain x y where x: "checked_add 0x8000 sz = Some x" and y: "checked_add (k_next_vaddr k) x = Some y"
    and k: "sz > 0" "sz AND 0xfff = 0" "v = k_next_vaddr k" "k' = k\<lparr>k_next_vaddr := k_next_vaddr k + x\<rparr>"
    by (auto simp: alloc_virt_addr_4k_def GUARD_PAGE_SIZE_def Let_def split: if_splits)
  note x = checked_add_SomeD [OF x] and y = checked_add_SomeD [OF y]
  show "v = k_next_vaddr k" "k' = k\<lparr>k_next_vaddr := k_next_vaddr k + (0x8000 + sz)\<rparr>" "aligned sz"
    using k x by (simp_all add: aligned_and)
  show "0 < unat sz" using k(1) by (simp add: word_less_nat_alt)
  have "unat (k_next_vaddr k') = unat (k_next_vaddr k) + unat x" using k(4) y by auto
  moreover have "unat x = 0x8000 + unat sz" using conjunct2 [OF x] by simp
  ultimately show "unat (k_next_vaddr k') = unat v + 0x8000 + unat sz" using k(3) by simp
qed

text \<open>Two regions with the guard page between them.\<close>

definition apart :: "u64 \<times> u64 \<Rightarrow> u64 \<times> u64 \<Rightarrow> bool" where
  "apart r1 r2 \<longleftrightarrow> unat (fst r2) + unat (snd r2) + 0x8000 \<le> unat (fst r1)"

lemma vaddr_run_inv:
  assumes "vaddr_run k0 k rs" "aligned (k_next_vaddr k0)"
  shows "sorted_wrt apart rs \<and> aligned (k_next_vaddr k) \<and> unat (k_next_vaddr k0) \<le> unat (k_next_vaddr k) \<and>
    (\<forall>(v, sz) \<in> set rs. aligned v \<and> 0 < unat sz \<and> unat (k_next_vaddr k0) \<le> unat v \<and>
      unat v + unat sz + 0x8000 \<le> unat (k_next_vaddr k))"
  using assms(1)
proof induction
  case none
  then show ?case using assms(2) by simp
next
  case (more k rs sz v k')
  note a = alloc_virt_addr_ok [OF more.hyps(2)]
  have al: "aligned (k_next_vaddr k')" using more.IH a(1,3,5) by (simp add: aligned_unat mod_add_eq [symmetric])
  then show ?case using more.IH a al by (fastforce simp: apart_def)
qed

subsection \<open>The free list as a stack\<close>

lemma agree_mono: "agree F \<mu> \<mu>' \<Longrightarrow> F' \<subseteq> F \<Longrightarrow> agree F' \<mu> \<mu>'"
  by (auto simp: agree_def)

definition kview :: "Kernel \<Rightarrow> 64 memory" where
  "kview k = view KERNEL_PHYS_WINDOW_BASE (k_mem k)"

definition usable :: "u64 \<Rightarrow> bool" where
  "usable p \<longleftrightarrow> aligned p \<and> p \<noteq> 0 \<and> p < KERNEL_PHYS_WINDOW_SIZE"

text \<open>
  The list with head \<open>h\<close> holds the pages \<open>ps\<close>, the next one to be popped first. A node of the list
  is the last of its pages.
\<close>

inductive free_list :: "64 memory \<Rightarrow> u64 \<Rightarrow> u64 list \<Rightarrow> bool" for \<mu> where
  empty: "free_list \<mu> 0 []"
| node: "p \<noteq> 0 \<Longrightarrow> tentry \<mu> p 1 \<le> 510 \<Longrightarrow> free_list \<mu> (tentry \<mu> p 0) ps \<Longrightarrow>
    free_list \<mu> p (map (\<lambda>i. tentry \<mu> p (word_of_nat i + 2)) [unat (tentry \<mu> p 1)..<510] @ p # ps)"

inductive_cases free_listE: "free_list \<mu> h ps"

lemma free_list_unique: "free_list \<mu> h ps \<Longrightarrow> free_list \<mu> h ps' \<Longrightarrow> ps = ps'"
proof (induction arbitrary: ps' rule: free_list.induct)
  case empty
  then show ?case by (auto elim: free_listE)
next
  case (node p ps)
  from node.prems node.hyps(1) node.IH show ?case by (cases rule: free_listE) auto
qed

lemma free_list_agree:
  "free_list \<mu> h ps \<Longrightarrow> (\<And>p. p \<in> set ps \<Longrightarrow> aligned p) \<Longrightarrow> agree (set ps) \<mu> \<mu>' \<Longrightarrow> free_list \<mu>' h ps"
proof (induction rule: free_list.induct)
  case empty
  show ?case by (rule free_list.empty)
next
  case (node p ps)
  let ?qs = "map (\<lambda>i. tentry \<mu> p (word_of_nat i + 2)) [unat (tentry \<mu> p 1)..<510]"
  have e: "tentry \<mu>' p i = tentry \<mu> p i" if "i < 512" for i
    using node.prems by (intro tentry_agree [OF _ _ _ that, of "set (?qs @ p # ps)"]) auto
  have i: "word_of_nat i + 2 < (512 :: u64)" if "i < 510" for i :: nat
  proof -
    have "unat (word_of_nat i :: u64) = i" using that by (simp only: unat_of_nat) simp
    then have "unat (word_of_nat i + 2 :: u64) = i + 2" using that by (simp add: unat_word_ariths)
    then show ?thesis using that by (simp add: word_less_nat_alt)
  qed
  have m: "map (\<lambda>i. tentry \<mu>' p (word_of_nat i + 2)) [unat (tentry \<mu>' p 1)..<510] = ?qs"
    using e i by simp
  have "agree (set ps) \<mu> \<mu>'" using node.prems(2) by (auto simp: agree_def)
  then have "free_list \<mu>' (tentry \<mu>' p 0) ps" using node.IH node.prems(1) e by simp
  moreover have "tentry \<mu>' p 1 \<le> 510" using node.hyps(2) e by simp
  ultimately show ?case using free_list.node [OF node.hyps(1)] unfolding m [symmetric] by blast
qed

text \<open>The fields of a node are entries of its page.\<close>

lemma node_fields:
  "node_next (KERNEL_PHYS_WINDOW_BASE + p) = slot p 0 + KERNEL_PHYS_WINDOW_BASE"
  "node_slots (KERNEL_PHYS_WINDOW_BASE + p) = slot p 1 + KERNEL_PHYS_WINDOW_BASE"
  "node_page (KERNEL_PHYS_WINDOW_BASE + p) i = slot p (i + 2) + KERNEL_PHYS_WINDOW_BASE"
  by (simp_all add: node_next_def node_slots_def node_page_def slot_def algebra_simps)

lemma load_field: "load64 (k_mem k) (slot p i + KERNEL_PHYS_WINDOW_BASE) = tentry (kview k) p i"
  by (simp add: load_view kview_def tentry_def)

lemma store_field: "view KERNEL_PHYS_WINDOW_BASE (store64 m (slot p i + KERNEL_PHYS_WINDOW_BASE) v) =
    store64 (view KERNEL_PHYS_WINDOW_BASE m) (slot p i) v"
  by (rule view_store)

lemma load_field': "load64 m (slot p i + KERNEL_PHYS_WINDOW_BASE) = tentry (view KERNEL_PHYS_WINDOW_BASE m) p i"
  by (simp add: load_view tentry_def)

lemma usable_node:
  assumes "usable p"
  shows "node_from_raw p = Ok (KERNEL_PHYS_WINDOW_BASE + p)"
proof -
  have a: "aligned p" "p < KERNEL_PHYS_WINDOW_SIZE" using assms by (simp_all add: usable_def)
  have "aligned KERNEL_PHYS_WINDOW_SIZE" by (simp add: aligned_and KERNEL_PHYS_WINDOW_SIZE_def)
  from translate_bound [OF a this, of 4095 1] have "unat (p + 4095) = unat p + 4095" "unat (p + 4095) < unat KERNEL_PHYS_WINDOW_SIZE"
    by simp_all
  moreover have "unat KERNEL_PHYS_WINDOW_SIZE < 2 ^ 64" by (simp add: KERNEL_PHYS_WINDOW_SIZE_def)
  ultimately show ?thesis by (simp add: node_from_raw_def checked_add_def unwrapR_def word_less_nat_alt)
qed

text \<open>A new node on top of the list.\<close>

lemma push_node_ok:
  assumes l: "free_list (kview k) (k_free_list k) ps" and u: "usable pg" "\<And>p. p \<in> set ps \<Longrightarrow> usable p" "pg \<notin> set ps"
  obtains m where "push_node k pg = Ok (k\<lparr>k_mem := m, k_free_list := pg\<rparr>)"
    "free_list (view KERNEL_PHYS_WINDOW_BASE m) pg (pg # ps)" "agree (- {pg}) (kview k) (view KERNEL_PHYS_WINDOW_BASE m)"
proof -
  define m where "m = store64 (store64 (k_mem k) (slot pg 1 + KERNEL_PHYS_WINDOW_BASE) NODE_PAGES)
    (slot pg 0 + KERNEL_PHYS_WINDOW_BASE) (k_free_list k)"
  let ?\<mu> = "view KERNEL_PHYS_WINDOW_BASE m"
  have \<mu>: "?\<mu> = store64 (store64 (kview k) (slot pg 1) 510) (slot pg 0) (k_free_list k)"
    by (simp add: m_def store_field kview_def NODE_PAGES_def)
  have al: "aligned pg" using u(1) by (simp add: usable_def)
  have ag: "agree (- {pg}) (kview k) ?\<mu>"
    unfolding \<mu> agree_def by (auto simp: store_frame [OF al])
  have "agree (set ps) (kview k) ?\<mu>" using ag u(3) by (auto simp: agree_def)
  then have "free_list ?\<mu> (k_free_list k) ps" using free_list_agree [OF l] u(2) by (simp add: usable_def)
  moreover have "tentry ?\<mu> pg 0 = k_free_list k" "tentry ?\<mu> pg 1 = 510"
    unfolding \<mu> using al by (simp_all add: tentry_store)
  ultimately have "free_list ?\<mu> pg (pg # ps)"
    using free_list.node [of pg ?\<mu> ps] u(1) by (simp add: usable_def)
  then show thesis
    using that [of m] ag by (simp add: push_node_def usable_node [OF u(1)] node_fields m_def Let_def)
qed

definition stack :: "Kernel \<Rightarrow> u64 list \<Rightarrow> bool" where
  "stack k ps \<longleftrightarrow> free_list (kview k) (k_free_list k) ps \<and> (\<forall>p \<in> set ps. usable p) \<and> distinct ps"

lemma page_index:
  assumes "i < 510"
  shows "unat (word_of_nat i + 2 :: u64) = i + 2" "word_of_nat i + 2 < (512 :: u64)"
proof -
  have "unat (word_of_nat i :: u64) = i" using assms by (simp only: unat_of_nat) simp
  then show u: "unat (word_of_nat i + 2 :: u64) = i + 2" using assms by (simp add: unat_word_ariths)
  then show "word_of_nat i + 2 < (512 :: u64)" using assms by (simp add: word_less_nat_alt)
qed

lemma page_index_neq: "i < 510 \<Longrightarrow> word_of_nat i + 2 \<noteq> (0 :: u64)" "i < 510 \<Longrightarrow> word_of_nat i + 2 \<noteq> (1 :: u64)"
  "i < 510 \<Longrightarrow> j < 510 \<Longrightarrow> word_of_nat i + 2 = (word_of_nat j + 2 :: u64) \<longleftrightarrow> i = j"
  using page_index(1) [of i] page_index(1) [of j] by (auto simp: word_unat_eq_iff)

lemma stack_0: "stack k ps \<Longrightarrow> k_free_list k = 0 \<longleftrightarrow> ps = []"
  unfolding stack_def by (auto elim: free_listE)

text \<open>A list that is not empty has a node at its head.\<close>

lemma stack_node:
  assumes "stack k ps" "ps \<noteq> []"
  obtains n qs where "tentry (kview k) (k_free_list k) 1 = word_of_nat n" "n \<le> 510"
    "ps = map (\<lambda>i. tentry (kview k) (k_free_list k) (word_of_nat i + 2)) [n..<510] @ k_free_list k # qs"
    "free_list (kview k) (tentry (kview k) (k_free_list k) 0) qs" "usable (k_free_list k)" "aligned (k_free_list k)"
    "unat (word_of_nat n :: u64) = n"
proof -
  from assms(1) have l: "free_list (kview k) (k_free_list k) ps" by (simp add: stack_def)
  then show thesis
  proof (cases rule: free_list.cases)
    case empty
    with assms(2) show thesis by simp
  next
    case (node qs)
    note 2 = node
    let ?n = "tentry (kview k) (k_free_list k) 1"
    have n: "unat ?n \<le> 510" using 2 by (simp add: word_le_nat_alt)
    have u: "usable (k_free_list k)" using assms(1) 2 by (auto simp: stack_def)
    then have "aligned (k_free_list k)" by (simp add: usable_def)
    with that [of "unat ?n" qs] 2 n u show thesis by simp
  qed
qed

lemma fl_push_ok:
  assumes s: "stack k ps" and u: "usable pg" "pg \<notin> set ps"
  obtains m h where "fl_push k pg = Ok (k\<lparr>k_mem := m, k_free_list := h\<rparr>)"
    "stack (k\<lparr>k_mem := m, k_free_list := h\<rparr>) (pg # ps)" "agree (- set (pg # ps)) (kview k) (view KERNEL_PHYS_WINDOW_BASE m)"
proof -
  from s have l: "free_list (kview k) (k_free_list k) ps" and us: "\<And>p. p \<in> set ps \<Longrightarrow> usable p" by (auto simp: stack_def)
  obtain m where m: "push_node k pg = Ok (k\<lparr>k_mem := m, k_free_list := pg\<rparr>)"
    "free_list (view KERNEL_PHYS_WINDOW_BASE m) pg (pg # ps)" "agree (- {pg}) (kview k) (view KERNEL_PHYS_WINDOW_BASE m)"
    by (rule push_node_ok [OF l u(1) us u(2)])
  show thesis
  proof (cases "ps = [] \<or> tentry (kview k) (k_free_list k) 1 = 0")
    case True
    have "fl_push k pg = push_node k pg"
    proof (cases "ps = []")
      case True
      with stack_0 [OF s] show ?thesis by (simp add: fl_push_def)
    next
      case False
      have "usable (k_free_list k)" by (rule stack_node [OF s False])
      with True False stack_0 [OF s] show ?thesis
        by (simp add: fl_push_def usable_node node_fields load_field)
    qed
    then show thesis by (intro that [where m = m and h = pg]) (use m s u in \<open>auto simp: stack_def kview_def agree_def\<close>)
  next
    case False
    let ?h = "k_free_list k"
    obtain n qs where n: "tentry (kview k) ?h 1 = word_of_nat n" "n \<le> 510"
      "ps = map (\<lambda>i. tentry (kview k) ?h (word_of_nat i + 2)) [n..<510] @ ?h # qs"
      "free_list (kview k) (tentry (kview k) ?h 0) qs" "usable ?h" "aligned ?h" "unat (word_of_nat n :: u64) = n"
      by (rule stack_node [OF s]) (use False in auto)
    have "n \<noteq> 0" using False n(1) by (cases n) auto
    then obtain j where j: "n = Suc j" by (cases n) auto
    then have w: "word_of_nat n - 1 = (word_of_nat j :: u64)" by simp
    have n1: "j < 510" "unat (word_of_nat j :: u64) = j" "j < n"
      using n(2) j by (auto simp only: unat_of_nat) auto
    define m where "m = store64 (store64 (k_mem k) (slot ?h 1 + KERNEL_PHYS_WINDOW_BASE) (word_of_nat j))
      (slot ?h (word_of_nat j + 2) + KERNEL_PHYS_WINDOW_BASE) pg"
    let ?\<mu> = "view KERNEL_PHYS_WINDOW_BASE m"
    have \<mu>: "?\<mu> = store64 (store64 (kview k) (slot ?h 1) (word_of_nat j)) (slot ?h (word_of_nat j + 2)) pg"
      by (simp add: m_def store_field kview_def)
    have h0: "?h \<noteq> 0" using n(5) by (simp add: usable_def)
    have f: "fl_push k pg = Ok (k\<lparr>k_mem := m, k_free_list := ?h\<rparr>)"
      using h0 False n(1) w n1(1,2) unfolding fl_push_def
      by (simp add: usable_node [OF n(5)] node_fields load_field m_def Let_def NODE_PAGES_def word_less_nat_alt)
    have e: "tentry ?\<mu> ?h 0 = tentry (kview k) ?h 0" "tentry ?\<mu> ?h 1 = word_of_nat j"
      "tentry ?\<mu> ?h (word_of_nat j + 2) = pg"
      unfolding \<mu> using n(6) page_index [OF n1(1)] page_index_neq [OF n1(1)] by (simp_all add: tentry_store)
    have e': "tentry ?\<mu> ?h (word_of_nat i + 2) = tentry (kview k) ?h (word_of_nat i + 2)" if "n \<le> i" "i < 510" for i
      unfolding \<mu> using n(6) page_index [OF n1(1)] page_index [OF that(2)] page_index_neq [OF that(2)] that n1(3)
        page_index_neq(3) [OF that(2) n1(1)] by (simp add: tentry_store)
    have ag: "agree (- {?h}) (kview k) ?\<mu>"
      unfolding \<mu> agree_def by (auto simp: store_frame [OF n(6)] page_index [OF n1(1)])
    have q: "?h \<notin> set qs" "\<And>p. p \<in> set qs \<Longrightarrow> aligned p" using s n(3) us by (auto simp: stack_def usable_def)
    have "agree (set qs) (kview k) ?\<mu>" by (rule agree_mono [OF ag]) (use q(1) in auto)
    then have "free_list ?\<mu> (tentry ?\<mu> ?h 0) qs" unfolding e(1) by (intro free_list_agree [OF n(4)] q(2))
    moreover have "[j..<510] = j # [n..<510]" using n1 j by (simp add: upt_conv_Cons)
    moreover have "tentry ?\<mu> ?h 1 \<le> 510" using e(2) n1 by (simp add: word_le_nat_alt)
    moreover have "map (\<lambda>i. tentry ?\<mu> ?h (word_of_nat i + 2)) [n..<510] =
        map (\<lambda>i. tentry (kview k) ?h (word_of_nat i + 2)) [n..<510]" using e' by simp
    ultimately have "free_list ?\<mu> ?h (pg # ps)"
      using free_list.node [OF h0, of ?\<mu> qs] e n1(2) unfolding n(3) by (simp del: map_eq_conv)
    then have "stack (k\<lparr>k_mem := m, k_free_list := ?h\<rparr>) (pg # ps)" using s u by (auto simp: stack_def kview_def)
    moreover have "agree (- set (pg # ps)) (kview k) ?\<mu>" by (rule agree_mono [OF ag]) (use n(3) in auto)
    ultimately show thesis using that f by blast
  qed
qed

lemma fl_pop_ok:
  assumes s: "stack k (p # ps)"
  obtains m h where "fl_pop k = Ok (p, k\<lparr>k_mem := m, k_free_list := h\<rparr>)"
    "stack (k\<lparr>k_mem := m, k_free_list := h\<rparr>) ps" "agree (- set ps) (kview k) (view KERNEL_PHYS_WINDOW_BASE m)"
proof -
  let ?h = "k_free_list k"
  obtain n qs where n: "tentry (kview k) ?h 1 = word_of_nat n" "n \<le> 510"
    "p # ps = map (\<lambda>i. tentry (kview k) ?h (word_of_nat i + 2)) [n..<510] @ ?h # qs"
    "free_list (kview k) (tentry (kview k) ?h 0) qs" "usable ?h" "aligned ?h" "unat (word_of_nat n :: u64) = n"
    by (rule stack_node [OF s]) auto
  have h0: "?h \<noteq> 0" using n(5) by (simp add: usable_def)
  have us: "\<And>q. q \<in> set (p # ps) \<Longrightarrow> usable q" "distinct (p # ps)" using s by (auto simp: stack_def)
  have pop: "fl_pop k = (if n < 510
      then Ok (tentry (kview k) ?h (word_of_nat n + 2), k\<lparr>k_mem := store64 (k_mem k) (slot ?h 1 + KERNEL_PHYS_WINDOW_BASE) (word_of_nat n + 1)\<rparr>)
      else Ok (?h, k\<lparr>k_free_list := tentry (kview k) ?h 0\<rparr>))"
    using h0 n(1,7) unfolding fl_pop_def fl_refill_def
    by (simp add: usable_node [OF n(5)] node_fields load_field Let_def NODE_PAGES_def word_less_nat_alt)
  show thesis
  proof (cases "n < 510")
    case False
    then have "n = 510" using n(2) by simp
    then have e: "p = ?h" "ps = qs" using n(3) by simp_all
    have st: "stack (k\<lparr>k_mem := k_mem k, k_free_list := tentry (kview k) ?h 0\<rparr>) ps"
      using n(4) us e by (auto simp: stack_def kview_def)
    show thesis
      by (rule that [OF _ st]) (use pop False e in \<open>simp_all add: agree_def kview_def\<close>)
  next
    case True
    define m where "m = store64 (k_mem k) (slot ?h 1 + KERNEL_PHYS_WINDOW_BASE) (word_of_nat n + 1)"
    let ?\<mu> = "view KERNEL_PHYS_WINDOW_BASE m"
    have \<mu>: "?\<mu> = store64 (kview k) (slot ?h 1) (word_of_nat (Suc n))"
      unfolding m_def store_field kview_def by (simp add: add.commute)
    have "[n..<510] = n # [Suc n..<510]" using True by (simp add: upt_conv_Cons)
    then have e: "p = tentry (kview k) ?h (word_of_nat n + 2)"
      "ps = map (\<lambda>i. tentry (kview k) ?h (word_of_nat i + 2)) [Suc n..<510] @ ?h # qs" using n(3) by simp_all
    have n1: "unat (word_of_nat (Suc n) :: u64) = Suc n" using True by (simp only: unat_of_nat) simp
    have t: "tentry ?\<mu> ?h 0 = tentry (kview k) ?h 0" "tentry ?\<mu> ?h 1 = word_of_nat (Suc n)"
      unfolding \<mu> using n(6) by (simp_all add: tentry_store del: of_nat_Suc)
    have t': "map (\<lambda>i. tentry ?\<mu> ?h (word_of_nat i + 2)) [Suc n..<510] =
      map (\<lambda>i. tentry (kview k) ?h (word_of_nat i + 2)) [Suc n..<510]"
      unfolding \<mu> using n(6) by (auto simp: tentry_store page_index page_index_neq)
    have ag: "agree (- {?h}) (kview k) ?\<mu>" unfolding \<mu> agree_def by (auto simp: store_frame [OF n(6)])
    have q: "?h \<notin> set qs" "\<And>p. p \<in> set qs \<Longrightarrow> aligned p" using us n(3) by (auto simp: usable_def)
    have "agree (set qs) (kview k) ?\<mu>" by (rule agree_mono [OF ag]) (use q(1) in auto)
    then have "free_list ?\<mu> (tentry ?\<mu> ?h 0) qs" unfolding t(1) by (intro free_list_agree [OF n(4)] q(2))
    moreover have "tentry ?\<mu> ?h 1 \<le> 510" using t(2) n1 True by (simp add: word_le_nat_alt)
    ultimately have "free_list ?\<mu> ?h ps" using free_list.node [OF h0, of ?\<mu> qs] unfolding e(2) t(2) n1 t' by simp
    then have st: "stack (k\<lparr>k_mem := m, k_free_list := ?h\<rparr>) ps" using us by (auto simp: stack_def kview_def)
    have "agree (- set ps) (kview k) ?\<mu>" by (rule agree_mono [OF ag]) (use e(2) in auto)
    then show thesis by (rule that [OF _ st, rotated]) (use pop True e m_def in simp)
  qed
qed

lemma push_all_ok:
  assumes "stack k ps" "\<forall>p \<in> set pgs. usable p" "distinct pgs" "set pgs \<inter> set ps = {}"
  shows "\<exists>m h. foldR fl_push k pgs = Ok (k\<lparr>k_mem := m, k_free_list := h\<rparr>) \<and>
    stack (k\<lparr>k_mem := m, k_free_list := h\<rparr>) (rev pgs @ ps) \<and>
    agree (- (set pgs \<union> set ps)) (kview k) (view KERNEL_PHYS_WINDOW_BASE m)"
  using assms
proof (induction pgs arbitrary: k ps)
  case Nil
  then show ?case by (intro exI [of _ "k_mem k"] exI [of _ "k_free_list k"]) (simp add: agree_def kview_def)
next
  case (Cons pg pgs)
  obtain m h where m: "fl_push k pg = Ok (k\<lparr>k_mem := m, k_free_list := h\<rparr>)"
    "stack (k\<lparr>k_mem := m, k_free_list := h\<rparr>) (pg # ps)" "agree (- set (pg # ps)) (kview k) (view KERNEL_PHYS_WINDOW_BASE m)"
    by (rule fl_push_ok [OF Cons.prems(1)]) (use Cons.prems in auto)
  obtain m' h' where m': "foldR fl_push (k\<lparr>k_mem := m, k_free_list := h\<rparr>) pgs = Ok (k\<lparr>k_mem := m', k_free_list := h'\<rparr>)"
    "stack (k\<lparr>k_mem := m', k_free_list := h'\<rparr>) (rev pgs @ pg # ps)"
    "agree (- (set pgs \<union> set (pg # ps))) (view KERNEL_PHYS_WINDOW_BASE m) (view KERNEL_PHYS_WINDOW_BASE m')"
    using Cons.IH [OF m(2)] Cons.prems by (auto simp: kview_def)
  have "agree (- (set (pg # pgs) \<union> set ps)) (kview k) (view KERNEL_PHYS_WINDOW_BASE m')"
    using m(3) m'(3) by (auto simp: agree_def)
  with m(1) m'(1,2) show ?case by auto
qed

subsection \<open>The state of physical memory\<close>

text \<open>
  The pages \<open>ps\<close> are on the free list and the addresses of \<open>rs\<close> are free; all of them are inside of
  the window, above the first page, and no page is free twice.
\<close>

definition phys_ok :: "Kernel \<Rightarrow> u64 list \<Rightarrow> RangeSet \<Rightarrow> bool" where
  "phys_ok k ps rs \<longleftrightarrow> stack k ps \<and> ba_free_memory (k_args k) = Some rs \<and> rs_inv rs \<and>
     rs_addrs rs \<subseteq> {4096..<KERNEL_PHYS_WINDOW_SIZE} \<and> (\<forall>p \<in> set ps. block p 4096 \<inter> rs_addrs rs = {})"

definition kernel_ok :: "Kernel \<Rightarrow> bool" where
  "kernel_ok k \<longleftrightarrow> (\<exists>ps rs. phys_ok k ps rs)"

text \<open>The pages in use: inside of the window, not the first, not on the list and not free.\<close>

definition kernel_pages :: "Kernel \<Rightarrow> u64 set" where
  "kernel_pages k = {f. usable f \<and>
     (\<forall>ps. free_list (kview k) (k_free_list k) ps \<longrightarrow> f \<notin> set ps) \<and>
     (\<forall>rs. ba_free_memory (k_args k) = Some rs \<longrightarrow> block f 4096 \<inter> rs_addrs rs = {})}"

lemma kernel_pages_phys:
  assumes "phys_ok k ps rs"
  shows "kernel_pages k = {f. usable f \<and> f \<notin> set ps \<and> block f 4096 \<inter> rs_addrs rs = {}}"
  using assms free_list_unique unfolding kernel_pages_def phys_ok_def stack_def by (auto; blast)

lemma pop_phys:
  assumes "phys_ok k (p # ps) rs"
  obtains k' where "fl_pop k = Ok (p, k')" "phys_ok k' ps rs" "kernel_pages k' = insert p (kernel_pages k)"
    "p \<notin> kernel_pages k" "agree (kernel_pages k) (kview k) (kview k')"
proof -
  have s: "stack k (p # ps)" using assms by (simp add: phys_ok_def)
  obtain m h where m: "fl_pop k = Ok (p, k\<lparr>k_mem := m, k_free_list := h\<rparr>)"
    "stack (k\<lparr>k_mem := m, k_free_list := h\<rparr>) ps" "agree (- set ps) (kview k) (view KERNEL_PHYS_WINDOW_BASE m)"
    by (rule fl_pop_ok [OF s])
  let ?k = "k\<lparr>k_mem := m, k_free_list := h\<rparr>"
  have ph: "phys_ok ?k ps rs" using assms m(2) by (auto simp: phys_ok_def)
  have d: "p \<notin> set ps" "usable p" "block p 4096 \<inter> rs_addrs rs = {}" using assms by (auto simp: phys_ok_def stack_def)
  show thesis
    by (rule that [OF m(1) ph]) (use m(3) d in \<open>auto simp: kernel_pages_phys [OF ph] kernel_pages_phys [OF assms] agree_def kview_def\<close>)
qed

lemma push_phys:
  assumes p: "phys_ok k ps rs" and f: "f \<in> kernel_pages k"
  obtains k' where "fl_push k f = Ok k'" "phys_ok k' (f # ps) rs" "kernel_pages k' = kernel_pages k - {f}"
    "agree (kernel_pages k - {f}) (kview k) (kview k')"
proof -
  have s: "stack k ps" using p by (simp add: phys_ok_def)
  have d: "f \<notin> set ps" "usable f" "block f 4096 \<inter> rs_addrs rs = {}" using f by (auto simp: kernel_pages_phys [OF p])
  obtain m h where m: "fl_push k f = Ok (k\<lparr>k_mem := m, k_free_list := h\<rparr>)"
    "stack (k\<lparr>k_mem := m, k_free_list := h\<rparr>) (f # ps)" "agree (- set (f # ps)) (kview k) (view KERNEL_PHYS_WINDOW_BASE m)"
    by (rule fl_push_ok [OF s d(2,1)])
  let ?k = "k\<lparr>k_mem := m, k_free_list := h\<rparr>"
  have ph: "phys_ok ?k (f # ps) rs" using p m(2) d by (auto simp: phys_ok_def)
  show thesis
    by (rule that [OF m(1) ph]) (use m(3) d in \<open>auto simp: kernel_pages_phys [OF ph] kernel_pages_phys [OF p] agree_def kview_def\<close>)
qed

lemma allocate_free_memory_ok:
  assumes "phys_ok k ps rs" "allocate_free_memory k sz align = Ok (a, k')"
  obtains rs' where "k' = k\<lparr>k_args := (k_args k)\<lparr>ba_free_memory := Some rs'\<rparr>\<rparr>" "phys_ok k' ps rs'"
    "sz \<noteq> 0" "a \<le> a + (sz - 1)" "a AND (align - 1) = 0" "block a sz \<subseteq> rs_addrs rs" "rs_addrs rs' \<subseteq> rs_addrs rs - block a sz"
proof -
  note p = assms(1) [unfolded phys_ok_def]
  from assms(2) p obtain region rs' where r: "rs_allocate_prefer 64 rs sz align region = Ok (Some a, rs')"
    "k' = k\<lparr>k_args := (k_args k)\<lparr>ba_free_memory := Some rs'\<rparr>\<rparr>"
    by (auto simp: allocate_free_memory_def unwrapR_def)
  have "rs_inv rs" using p by simp
  note a = allocate_prefer_sound [OF this r(1)]
  have "block q 4096 \<inter> rs_addrs rs' = {}" if "q \<in> set ps" for q using that p a(7) by blast
  then have "phys_ok k' ps rs'" using p a(1,7) r(2) by (auto simp: phys_ok_def stack_def kview_def)
  then show thesis using that r(2) a by blast
qed

text \<open>The pages of a chunk.\<close>

definition chunk :: "u64 \<Rightarrow> u64 list" where
  "chunk a = map (\<lambda>i. a + 4096 * word_of_nat i) [0..<256]"

lemma chunk_page:
  assumes "aligned a" "a \<le> a + 0xfffff" "i < 256"
  shows "unat (a + 4096 * word_of_nat i) = unat a + 4096 * i" "aligned (a + 4096 * word_of_nat i)"
    "block (a + 4096 * word_of_nat i) 4096 \<subseteq> block a 0x100000"
proof -
  have "unat a + unat (0xfffff :: u64) < 2 ^ 64" using assms(2) no_overflow_iff [of a "0xfffff"] by simp
  then have b: "unat a + 0xfffff < 2 ^ 64" by simp
  have "unat (word_of_nat i :: u64) = i" using assms(3) by (simp only: unat_of_nat) simp
  then have "unat (4096 * word_of_nat i :: u64) = 4096 * i" using assms(3) by (simp add: unat_word_ariths)
  then show u: "unat (a + 4096 * word_of_nat i) = unat a + 4096 * i" using b assms(3) by (simp add: unat_word_ariths)
  then show al: "aligned (a + 4096 * word_of_nat i)" using assms(1) by (simp add: aligned_unat)
  have "unat (a + 4096 * word_of_nat i + 4095) = unat a + 4096 * i + 4095" "unat (a + 0xfffff) = unat a + 0xfffff"
    using unat_frame_add [OF al, of 4095] u b by (simp_all add: unat_word_ariths)
  then show "block (a + 4096 * word_of_nat i) 4096 \<subseteq> block a 0x100000"
    using u assms(3) by (auto simp: block_def word_le_nat_alt)
qed

lemma refill_phys:
  assumes p: "phys_ok k [] rs" and r: "fl_refill k = Ok k'"
  obtains ps rs' where "phys_ok k' ps rs'" "ps \<noteq> []" "kernel_pages k \<subseteq> kernel_pages k'"
    "set ps \<inter> kernel_pages k = {}" "agree (kernel_pages k) (kview k) (kview k')"
proof -
  have h: "k_free_list k = 0" using p stack_0 [of k "[]"] by (simp add: phys_ok_def)
  with r obtain a k1 where a: "allocate_free_memory k FREE_LIST_BATCH 4096 = Ok (a, k1)" "foldR fl_push k1 (chunk a) = Ok k'"
    by (auto simp: fl_refill_def chunk_def)
  from a(1) obtain rs' where rs': "k1 = k\<lparr>k_args := (k_args k)\<lparr>ba_free_memory := Some rs'\<rparr>\<rparr>" "phys_ok k1 [] rs'"
    "a \<le> a + 0xfffff" "aligned a" "block a 0x100000 \<subseteq> rs_addrs rs" "rs_addrs rs' \<subseteq> rs_addrs rs - block a 0x100000"
    by (rule allocate_free_memory_ok [OF p]) (simp add: FREE_LIST_BATCH_def aligned_and)
  note c = chunk_page [OF rs'(4,3)]
  have sub: "rs_addrs rs \<subseteq> {4096..<KERNEL_PHYS_WINDOW_SIZE}" using p by (simp add: phys_ok_def)
  have pg: "usable q \<and> block q 4096 \<subseteq> block a 0x100000" if q: "q \<in> set (chunk a)" for q
  proof -
    from q obtain i where i: "i < 256" "q = a + 4096 * word_of_nat i" by (auto simp: chunk_def)
    have b: "block q 4096 \<subseteq> block a 0x100000" "aligned q" using c(2,3) [OF i(1)] i(2) by simp_all
    then have "q \<in> rs_addrs rs" using rs'(5) aligned_frame [OF b(2)] by (auto simp: page_block)
    then have "q \<in> {4096..<KERNEL_PHYS_WINDOW_SIZE}" using sub by blast
    then have "usable q" using b(2) by (auto simp: usable_def)
    with b show ?thesis by simp
  qed
  have dis: "distinct (chunk a)"
    unfolding chunk_def distinct_map
    by (auto intro!: inj_onI dest: arg_cong [of _ _ unat] simp: c(1))
  have s1: "stack k1 []" using rs'(2) by (simp add: phys_ok_def)
  obtain m h where m: "k' = k1\<lparr>k_mem := m, k_free_list := h\<rparr>" "stack k' (rev (chunk a))"
    "agree (- set (chunk a)) (kview k1) (view KERNEL_PHYS_WINDOW_BASE m)"
    using push_all_ok [OF s1, of "chunk a"] pg dis a(2) by auto
  have ph: "phys_ok k' (rev (chunk a)) rs'"
    using rs'(2,6) m(1,2) pg by (auto simp: phys_ok_def)
  have nk: "q \<notin> kernel_pages k" if "q \<in> set (chunk a)" for q
  proof -
    have "aligned q" using pg [OF that] by (simp add: usable_def)
    then have "q \<in> block q 4096" using aligned_frame by (simp add: page_block)
    moreover have "block q 4096 \<subseteq> rs_addrs rs" using pg [OF that] rs'(5) by blast
    ultimately show ?thesis by (auto simp: kernel_pages_phys [OF p])
  qed
  have "kernel_pages k \<subseteq> kernel_pages k'"
  proof
    fix f assume f: "f \<in> kernel_pages k"
    then have "f \<notin> set (chunk a)" using nk by blast
    with f rs'(6) show "f \<in> kernel_pages k'" by (auto simp: kernel_pages_phys [OF p] kernel_pages_phys [OF ph])
  qed
  moreover have "chunk a \<noteq> []" by (simp add: chunk_def)
  moreover have "agree (kernel_pages k) (kview k) (kview k')"
    using m(3) nk rs'(1) unfolding m(1) by (auto simp: agree_def kview_def)
  ultimately show thesis using that [OF ph] nk by auto
qed

lemma pop_pages:
  assumes "kernel_ok k" "fl_pop k = Ok (f, k')"
  shows "kernel_ok k'" "f \<notin> kernel_pages k" "insert f (kernel_pages k) \<subseteq> kernel_pages k'"
    "agree (kernel_pages k) (kview k) (kview k')"
proof -
  obtain ps rs where p: "phys_ok k ps rs" using assms(1) by (auto simp: kernel_ok_def)
  obtain k1 where r: "fl_refill k = Ok k1" using assms(2) by (auto simp: fl_pop_def)
  obtain q qs rs' where k1: "phys_ok k1 (q # qs) rs'" "kernel_pages k \<subseteq> kernel_pages k1"
    "q \<notin> kernel_pages k" "agree (kernel_pages k) (kview k) (kview k1)"
  proof (cases ps)
    case Nil
    from refill_phys [OF p [unfolded Nil] r] obtain ps' rs' where
      p': "phys_ok k1 ps' rs'" "ps' \<noteq> []" "kernel_pages k \<subseteq> kernel_pages k1"
      "set ps' \<inter> kernel_pages k = {}" "agree (kernel_pages k) (kview k) (kview k1)" by blast
    then obtain q qs where "ps' = q # qs" by (cases ps') auto
    with p' show thesis by (intro that [of q qs rs']) auto
  next
    case (Cons q qs)
    have "k_free_list k \<noteq> 0" using p Cons stack_0 [of k ps] by (simp add: phys_ok_def)
    then have e: "k1 = k" using r by (simp add: fl_refill_def)
    obtain k2 where "q \<notin> kernel_pages k" by (rule pop_phys [OF p [unfolded Cons]])
    then show thesis by (intro that [of q qs rs]) (use p Cons e in \<open>simp_all add: agree_def\<close>)
  qed
  have "stack k1 (q # qs)" using k1(1) by (simp add: phys_ok_def)
  then have "k_free_list k1 \<noteq> 0" using stack_0 [of k1 "q # qs"] by simp
  then have "fl_refill k1 = Ok k1" by (simp add: fl_refill_def)
  then have e: "fl_pop k1 = Ok (f, k')" using assms(2) r by (simp add: fl_pop_def)
  obtain k2 where k2: "fl_pop k1 = Ok (q, k2)" "phys_ok k2 qs rs'" "kernel_pages k2 = insert q (kernel_pages k1)"
    "agree (kernel_pages k1) (kview k1) (kview k2)" by (rule pop_phys [OF k1(1)])
  then have fk: "f = q" "k' = k2" using e by simp_all
  show "kernel_ok k'" using k2(2) fk by (auto simp: kernel_ok_def)
  show "f \<notin> kernel_pages k" "insert f (kernel_pages k) \<subseteq> kernel_pages k'" using k1 k2 fk by auto
  show "agree (kernel_pages k) (kview k) (kview k')" using k1(2,4) k2(4) fk by (auto simp: agree_def)
qed

subsection \<open>The interface of the page tables\<close>

lemma PhysicalMemory_sel [simp]:
  "pm_translate PhysicalMemory = phys_translate" "pm_alloc PhysicalMemory = kernel_alloc_phys"
  "pm_free PhysicalMemory = kernel_free_phys" "pm_mem PhysicalMemory = k_mem"
  "pm_set_mem PhysicalMemory = (\<lambda>m k. k\<lparr>k_mem := m\<rparr>)"
  by (simp_all add: PhysicalMemory_def)

lemma pview_kernel [simp]: "pview PhysicalMemory KERNEL_PHYS_WINDOW_BASE k = kview k"
  by (simp add: pview_def kview_def)

lemma window_translate:
  assumes "usable f" "n > 0" "unat o1 + unat n \<le> 4096"
  shows "phys_translate k (f + o1) n = Ok (f + o1 + KERNEL_PHYS_WINDOW_BASE)"
proof -
  have a: "aligned f" "f < KERNEL_PHYS_WINDOW_SIZE" "aligned KERNEL_PHYS_WINDOW_SIZE"
    using assms(1) by (simp_all add: usable_def aligned_and KERNEL_PHYS_WINDOW_SIZE_def)
  note t = translate_bound [OF a assms(3,2)]
  have n: "unat (n - 1) = unat n - 1" "0 < unat n" using assms(2) by (simp_all add: unat_sub word_less_nat_alt word_le_nat_alt)
  have W: "unat KERNEL_PHYS_WINDOW_SIZE < 2 ^ 64" by (simp add: KERNEL_PHYS_WINDOW_SIZE_def)
  have "unat (n - 1) + unat (f + o1) < unat KERNEL_PHYS_WINDOW_SIZE" using t(2) n by linarith
  then have "checked_add (n - 1) (f + o1) = Some (n - 1 + (f + o1))" "unat (n - 1 + (f + o1)) < unat KERNEL_PHYS_WINDOW_SIZE"
    using W by (simp_all add: checked_add_def unat_word_ariths)
  moreover have "1 \<le> n" using n(2) by (simp add: word_le_nat_alt)
  ultimately show ?thesis
    by (simp add: phys_translate_def window_end_def checked_sub_def word_less_nat_alt)
qed

lemma kernel_set_mem:
  assumes "kernel_ok k" "agree (- kernel_pages k) (kview k) (view KERNEL_PHYS_WINDOW_BASE m)"
  shows "kernel_ok (k\<lparr>k_mem := m\<rparr>)" "kernel_pages (k\<lparr>k_mem := m\<rparr>) = kernel_pages k"
proof -
  obtain ps rs where p: "phys_ok k ps rs" using assms(1) by (auto simp: kernel_ok_def)
  have "set ps \<inter> kernel_pages k = {}" by (auto simp: kernel_pages_phys [OF p])
  then have a: "agree (set ps) (kview k) (view KERNEL_PHYS_WINDOW_BASE m)" by (intro agree_mono [OF assms(2)]) auto
  have "free_list (view KERNEL_PHYS_WINDOW_BASE m) (k_free_list k) ps"
    by (rule free_list_agree [OF _ _ a]) (use p in \<open>auto simp: phys_ok_def stack_def usable_def\<close>)
  then have p': "phys_ok (k\<lparr>k_mem := m\<rparr>) ps rs" using p by (auto simp: phys_ok_def stack_def kview_def)
  then show "kernel_ok (k\<lparr>k_mem := m\<rparr>)" by (auto simp: kernel_ok_def)
  show "kernel_pages (k\<lparr>k_mem := m\<rparr>) = kernel_pages k" by (simp add: kernel_pages_phys [OF p] kernel_pages_phys [OF p'])
qed

interpretation kmem: phys_memory PhysicalMemory kernel_ok kernel_pages KERNEL_PHYS_WINDOW_BASE
proof unfold_locales
  fix k :: Kernel and f n o1 :: u64 assume k: "kernel_ok k" "f \<in> kernel_pages k"
  then have u: "usable f" by (simp add: kernel_pages_def)
  then show "aligned f \<and> f < 2 ^ 52" by (auto simp: usable_def KERNEL_PHYS_WINDOW_SIZE_def word_less_nat_alt)
  show "0 < n \<Longrightarrow> unat o1 + unat n \<le> 4096 \<Longrightarrow>
      pm_translate PhysicalMemory k (f + o1) n = Ok (f + o1 + KERNEL_PHYS_WINDOW_BASE)"
    using window_translate [OF u] by simp
  fix k' assume f: "pm_free PhysicalMemory k f 4096 = Ok k'"
  have "f AND 0xfff = 0" using u by (simp add: usable_def aligned_and)
  with f have e: "fl_push k f = Ok k'" by (simp add: kernel_free_phys_def)
  obtain ps rs where p: "phys_ok k ps rs" using k(1) by (auto simp: kernel_ok_def)
  obtain k2 where k2: "fl_push k f = Ok k2" "phys_ok k2 (f # ps) rs" "kernel_pages k2 = kernel_pages k - {f}"
    "agree (kernel_pages k - {f}) (kview k) (kview k2)" by (rule push_phys [OF p k(2)])
  then show "kernel_ok k' \<and> f \<notin> kernel_pages k' \<and> kernel_pages k - {f} \<subseteq> kernel_pages k' \<and>
      agree (kernel_pages k - {f}) (pview PhysicalMemory KERNEL_PHYS_WINDOW_BASE k) (pview PhysicalMemory KERNEL_PHYS_WINDOW_BASE k')"
    using e by (auto simp: kernel_ok_def)
next
  fix k :: Kernel and m
  show "pm_mem PhysicalMemory (pm_set_mem PhysicalMemory m k) = m" by simp
  show "kernel_ok k \<Longrightarrow> agree (- kernel_pages k) (pview PhysicalMemory KERNEL_PHYS_WINDOW_BASE k) (view KERNEL_PHYS_WINDOW_BASE m) \<Longrightarrow>
      kernel_ok (pm_set_mem PhysicalMemory m k) \<and> kernel_pages (pm_set_mem PhysicalMemory m k) = kernel_pages k"
    using kernel_set_mem by simp
next
  fix k k' :: Kernel and f
  show "kernel_ok k \<Longrightarrow> pm_alloc PhysicalMemory k (page_layout 4096) = Ok (f, k') \<Longrightarrow>
      kernel_ok k' \<and> f \<notin> kernel_pages k \<and> insert f (kernel_pages k) \<subseteq> kernel_pages k' \<and>
      agree (kernel_pages k) (pview PhysicalMemory KERNEL_PHYS_WINDOW_BASE k) (pview PhysicalMemory KERNEL_PHYS_WINDOW_BASE k')"
    using pop_pages by (simp add: kernel_alloc_phys_def page_layout_def)
qed

subsection \<open>Properties\<close>

text \<open>A kernel with one page table at page 1, two MiB of free memory and an empty free list.\<close>

definition sample_memory :: RangeSet where
  "sample_memory = \<lparr>ranges = \<lparr>r_start = 0x100000, r_end = 0x2fffff\<rparr> # replicate 255 \<lparr>r_start = 0, r_end = 0\<rparr>, in_use = 1\<rparr>"

definition sample_kernel :: Kernel where
  "sample_kernel = \<lparr>k_mem = \<lambda>_. 0,
     k_args = \<lparr>ba_free_memory = Some sample_memory,
       ba_serial = None, ba_page_table = Some \<lparr>table = 0x1000\<rparr>, ba_trampoline_page_table = 0, ba_kernel_entry = None,
       ba_stack_vaddr = KERNEL_STACKS_BASE, ba_soft_reboot_addr = 0\<rparr>,
     k_core = \<lparr>address = 0, core_id = 0, interrupt_depth = 0, exception_depth = 0,
       interrupt_disable_outstanding = 0, apic_id_cell = 0, interrupt_flag = False\<rparr>,
     k_free_list = 0, k_numa = None, k_next_vaddr = KERNEL_VMEM_BASE\<rparr>"

lemma sample_kernel_fields [simp]:
  "k_free_list sample_kernel = 0" "kview sample_kernel = (\<lambda>_. 0)" "k_next_vaddr sample_kernel = 0xffff800000000000"
  "ba_free_memory (k_args sample_kernel) = Some sample_memory" "ba_page_table (k_args sample_kernel) = Some \<lparr>table = 0x1000\<rparr>"
  by (simp_all add: sample_kernel_def kview_def view_def KERNEL_VMEM_BASE_def)

lemma sample_stack: "stack sample_kernel []"
  by (simp add: stack_def free_list.empty)

lemma sample_memory_inv: "rs_inv sample_memory" "rs_addrs sample_memory = {0x100000..0x2fffff}"
  by (simp_all add: sample_memory_def rs_inv_def rs_addrs_def live_def valid_def span_def)

lemma sample_phys: "phys_ok sample_kernel [] sample_memory"
  unfolding phys_ok_def using sample_stack sample_memory_inv by (auto simp: KERNEL_PHYS_WINDOW_SIZE_def word_le_nat_alt word_less_nat_alt)

lemma sample_kernel_tree:
  "tree_ok (kview sample_kernel) (kernel_pages sample_kernel) 0x1000" "q \<in> addr_indices \<Longrightarrow> lookup (kview sample_kernel) 0x1000 q = None"
proof -
  have "0x1000 \<in> kernel_pages sample_kernel"
    unfolding kernel_pages_phys [OF sample_phys]
    by (auto simp: usable_def aligned_and KERNEL_PHYS_WINDOW_SIZE_def sample_memory_inv block_def)
  from empty_tree [OF this, of "\<lambda>_. 0"] show "tree_ok (kview sample_kernel) (kernel_pages sample_kernel) 0x1000"
    "q \<in> addr_indices \<Longrightarrow> lookup (kview sample_kernel) 0x1000 q = None" by (simp_all add: aligned_and)
qed

text \<open>C26: the list of free pages of a core refines a stack of pages, although it lives in the free pages
  themselves: pushing a usable page that is not on the list succeeds and puts it on top, popping a
  list that is not empty returns the top, and neither writes to a page that is not on the list.\<close>

theorem free_list_refines:
  assumes "stack k ps"
  shows "(\<forall>pg. usable pg \<and> pg \<notin> set ps \<longrightarrow>
      (\<exists>k'. fl_push k pg = Ok k' \<and> stack k' (pg # ps) \<and> agree (- set (pg # ps)) (kview k) (kview k'))) \<and>
    (\<forall>p qs. ps = p # qs \<longrightarrow>
      (\<exists>k'. fl_pop k = Ok (p, k') \<and> stack k' qs \<and> agree (- set qs) (kview k) (kview k')))"
proof (intro conjI allI impI)
  fix pg assume "usable pg \<and> pg \<notin> set ps"
  then obtain m h where "fl_push k pg = Ok (k\<lparr>k_mem := m, k_free_list := h\<rparr>)"
    "stack (k\<lparr>k_mem := m, k_free_list := h\<rparr>) (pg # ps)" "agree (- set (pg # ps)) (kview k) (view KERNEL_PHYS_WINDOW_BASE m)"
    using fl_push_ok [OF assms] by blast
  then show "\<exists>k'. fl_push k pg = Ok k' \<and> stack k' (pg # ps) \<and> agree (- set (pg # ps)) (kview k) (kview k')"
    by (auto simp: kview_def)
next
  fix p qs assume "ps = p # qs"
  then obtain m h where "fl_pop k = Ok (p, k\<lparr>k_mem := m, k_free_list := h\<rparr>)"
    "stack (k\<lparr>k_mem := m, k_free_list := h\<rparr>) qs" "agree (- set qs) (kview k) (view KERNEL_PHYS_WINDOW_BASE m)"
    using fl_pop_ok [of k p qs] assms by blast
  then show "\<exists>k'. fl_pop k = Ok (p, k') \<and> stack k' qs \<and> agree (- set qs) (kview k) (kview k')"
    by (auto simp: kview_def)
qed

theorem free_list_refines_witness:
  "\<exists>k' k''. fl_push sample_kernel 0x5000 = Ok k' \<and> stack k' [0x5000] \<and> fl_pop k' = Ok (0x5000, k'') \<and> stack k'' []"
proof -
  have u: "usable 0x5000 \<and> 0x5000 \<notin> set []" by (simp add: usable_def aligned_and KERNEL_PHYS_WINDOW_SIZE_def)
  from free_list_refines [OF sample_stack] u obtain k' where k': "fl_push sample_kernel 0x5000 = Ok k'" "stack k' [0x5000]" by blast
  moreover from free_list_refines [OF k'(2)] obtain k'' where "fl_pop k' = Ok (0x5000, k'')" "stack k'' []" by blast
  ultimately show ?thesis by blast
qed

text \<open>The regions of virtual addresses that were handed out in a run never overlap, there is a gap of
  32 KiB after each of them, they lie above the first address and do not run over the end of the
  address space.\<close>

theorem virtual_regions_apart:
  assumes "vaddr_run k0 k rs" "k_next_vaddr k0 AND 0xfff = 0"
  shows "sorted_wrt apart rs \<and> (\<forall>(v, sz) \<in> set rs. v AND 0xfff = 0 \<and> unat (k_next_vaddr k0) \<le> unat v \<and>
    unat v + unat sz + 0x8000 < 2 ^ 64)"
proof -
  have "aligned (k_next_vaddr k0)" using assms(2) by (simp add: aligned_and)
  note r = vaddr_run_inv [OF assms(1) this]
  have "unat (k_next_vaddr k) < 2 ^ 64" using unsigned_less [of "k_next_vaddr k", where 'a = nat] by simp
  with r show ?thesis by (fastforce simp: aligned_and)
qed

theorem virtual_regions_apart_witness:
  "sorted_wrt apart [(0xffff800000009000, 0x2000), (0xffff800000000000, 0x1000)]"
proof -
  have 1: "alloc_virt_addr_4k sample_kernel 0x1000 = Ok (0xffff800000000000, sample_kernel\<lparr>k_next_vaddr := 0xffff800000009000\<rparr>)"
    by (simp add: alloc_virt_addr_4k_def GUARD_PAGE_SIZE_def checked_add_code)
  have 2: "alloc_virt_addr_4k (sample_kernel\<lparr>k_next_vaddr := 0xffff800000009000\<rparr>) 0x2000 =
      Ok (0xffff800000009000, sample_kernel\<lparr>k_next_vaddr := 0xffff800000013000\<rparr>)"
    by (simp add: alloc_virt_addr_4k_def GUARD_PAGE_SIZE_def checked_add_code)
  have "vaddr_run sample_kernel (sample_kernel\<lparr>k_next_vaddr := 0xffff800000013000\<rparr>)
      [(0xffff800000009000, 0x2000), (0xffff800000000000, 0x1000)]"
    by (intro vaddr_run.more [OF _ 2] vaddr_run.more [OF _ 1] vaddr_run.none)
  from virtual_regions_apart [OF this] show ?thesis by simp
qed

lemma next_vaddr_phys:
  "kview (k\<lparr>k_next_vaddr := n\<rparr>) = kview k" "kernel_pages (k\<lparr>k_next_vaddr := n\<rparr>) = kernel_pages k"
  "kernel_ok (k\<lparr>k_next_vaddr := n\<rparr>) = kernel_ok k"
  by (simp_all add: kview_def kernel_pages_def kernel_ok_def phys_ok_def stack_def)

lemma kernel_alloc_maps_aux:
  assumes k: "kernel_ok k" "ba_page_table (k_args k) = Some \<lparr>table = root\<rparr>" "tree_ok (kview k) (kernel_pages k) root"
    and l: "align_up_4k (l_size layout) = Some sz" "alloc_virt_addr_4k k sz = Ok (v, k1)"
    and v: "aligned v" "\<And>w. w \<in> set (page_addrs v sz) \<Longrightarrow> canonicalize_address w = w \<and> lookup (kview k) root (indicies w) = None"
  shows "\<exists>r. kernel_alloc k layout = Some r \<and> sat kmem.oom (\<lambda>(p, k'). p = v \<and> kernel_ok k' \<and>
    (\<exists>fs. mapped_range True False None v (page_addrs v sz) fs root (kview k) (kernel_pages k) (kview k') (kernel_pages k'))) r"
proof -
  note a = alloc_virt_addr_ok [OF l(2)]
  have s: "kview k1 = kview k" "kernel_pages k1 = kernel_pages k" "kernel_ok k1 = kernel_ok k" "k_args k1 = k_args k"
    unfolding a(2) by (simp_all add: next_vaddr_phys)
  have sz: "sz > 0" using a(4) by (simp add: word_less_nat_alt)
  have "unat (sz - 1) = unat sz - 1" using a(4) by (simp add: unat_sub word_le_nat_alt)
  moreover have "unat (k_next_vaddr k1) < 2 ^ 64" using unsigned_less [of "k_next_vaddr k1", where 'a = nat] by simp
  ultimately have "unat v + unat (sz - 1) < 2 ^ LENGTH(64)" using a(3) by simp
  then have vo: "v \<le> v + (sz - 1)" using no_overflow_iff by blast
  have T: "tree_ok (pview PhysicalMemory KERNEL_PHYS_WINDOW_BASE k1) (kernel_pages k1) root" using k(3) s by simp
  have I: "kernel_ok k1" using k(1) s by simp
  obtain r where r: "map_init PhysicalMemory \<lparr>table = root\<rparr> k1 v Page4K sz True True False None = Some r"
    "sat kmem.oom (\<lambda>(x, s'). x = Some () \<and> kernel_ok s' \<and>
      (\<exists>fs. mapped_range True False None v (page_addrs v sz) fs root (kview k) (kernel_pages k) (kview s') (kernel_pages s'))) r"
    using kmem.map_init_ok [OF I T sz vo v(1), of True True False None] v(2) s by auto
  show ?thesis using r l k(2) s by (cases r) (auto simp: kernel_alloc_def opt_alloc_def pt_map_def unwrap_or_def)
qed



end
