(* ===== verification/PeParser.thy ===== *)
theory PeParser
  imports Bytes
begin

text \<open>
  The PE parser, \<open>shared/pe_parser/src/lib.rs\<close>. \<open>ub\<close> is the width of \<open>usize\<close>: 32 bits when the
  bootloader loads the kernel, 64 in the build tool. \<open>None\<close> is the \<open>None\<close> of the source,
  a panic is an index out of range; parsing never panics, and neither does the walk over the
  sections of a parsed file.
\<close>

unbundle bit_operations_syntax

subsection \<open>Data\<close>

definition IMAGE_FILE_MACHINE_I386 :: u16 where "IMAGE_FILE_MACHINE_I386 = 0x014c"
definition IMAGE_FILE_MACHINE_X86_64 :: u16 where "IMAGE_FILE_MACHINE_X86_64 = 0x8664"
definition IMAGE_SCN_MEM_EXECUTE :: u32 where "IMAGE_SCN_MEM_EXECUTE = 0x20000000"
definition IMAGE_SCN_MEM_READ :: u32 where "IMAGE_SCN_MEM_READ = 0x40000000"
definition IMAGE_SCN_MEM_WRITE :: u32 where "IMAGE_SCN_MEM_WRITE = 0x80000000"

record PeParser =
  pe_bytes :: bytes
  num_sections :: nat
  section_off :: nat
  image_base :: u64
  entry_point :: u64

text \<open>The arguments the closure of \<open>sections\<close> is called with.\<close>

record Section =
  s_vaddr :: u64
  s_vsize :: u32
  s_raw :: bytes
  s_read :: bool
  s_write :: bool
  s_exec :: bool

subsection \<open>Operations\<close>

definition pe_parse :: "nat \<Rightarrow> bytes \<Rightarrow> PeParser option res" where
  "pe_parse ub bs =
     (if get_range bs 0 2 \<noteq> Some [0x4d, 0x5a] then Ok None else
      bindO (Ok (get_range bs 0x3c 0x40)) (\<lambda>o4.
      let pe_offset = unat (from_le o4 :: u32) in
      bindO (Ok (cadd ub pe_offset 4)) (\<lambda>sig_end.
      if get_range bs pe_offset sig_end \<noteq> Some [0x50, 0x45, 0, 0] then Ok None else
      bindO (Ok (cadd ub pe_offset 0x18)) (\<lambda>coff_end.
      if coff_end > length bs then Ok None else
      bindO (someR (slice bs (uadd ub pe_offset 4) (uadd ub pe_offset 6))) (\<lambda>m.
      let machine = from_le m :: u16 in
      if machine \<noteq> IMAGE_FILE_MACHINE_I386 \<and> machine \<noteq> IMAGE_FILE_MACHINE_X86_64 then Ok None else
      bindO (someR (slice bs (uadd ub pe_offset 6) (uadd ub pe_offset 8))) (\<lambda>n.
      let num_sections = unat (from_le n :: u16) in
      bindO (someR (slice bs (uadd ub pe_offset 0x14) (uadd ub pe_offset 0x16))) (\<lambda>oh.
      let opt_header_size = unat (from_le oh :: u16) in
      bindO (if machine = IMAGE_FILE_MACHINE_I386
             then bindO (Ok (get_range bs (uadd ub pe_offset 0x34) (uadd ub pe_offset 0x38)))
               (\<lambda>x. Ok (Some (ucast (from_le x :: u32) :: u64)))
             else bindO (Ok (get_range bs (uadd ub pe_offset 0x30) (uadd ub pe_offset 0x38)))
               (\<lambda>x. Ok (Some (from_le x :: u64)))) (\<lambda>image_base.
      bindO (Ok (get_range bs (uadd ub pe_offset 0x28) (uadd ub pe_offset 0x2c))) (\<lambda>ep.
      bindO (Ok (checked_add image_base (ucast (from_le ep :: u32)))) (\<lambda>entry_point.
      bindO (Ok (Option.bind (cadd ub pe_offset 0x18) (\<lambda>h. Option.bind (cadd ub h opt_header_size)
          (\<lambda>h. Option.bind (cmul ub num_sections 0x28) (cadd ub h))))) (\<lambda>header_size.
      if header_size > length bs then Ok None else
      Ok (Some \<lparr>pe_bytes = bs, num_sections = num_sections,
        section_off = uadd ub (uadd ub pe_offset 0x18) opt_header_size,
        image_base = image_base, entry_point = entry_point\<rparr>))))))))))))"

text \<open>One iteration of \<open>sections\<close>, up to the call of the closure.\<close>

definition section_at :: "nat \<Rightarrow> PeParser \<Rightarrow> nat \<Rightarrow> Section option res" where
  "section_at ub pe section =
     (let bs = pe_bytes pe; off = uadd ub (section_off pe) (section * 0x28) in
      bindO (someR (slice bs (uadd ub off 0x8) (uadd ub off 0xc))) (\<lambda>vs.
      bindO (someR (slice bs (uadd ub off 0xc) (uadd ub off 0x10))) (\<lambda>va.
      bindO (someR (slice bs (uadd ub off 0x10) (uadd ub off 0x14))) (\<lambda>rs.
      bindO (someR (slice bs (uadd ub off 0x14) (uadd ub off 0x18))) (\<lambda>ro.
      bindO (someR (slice bs (uadd ub off 0x24) (uadd ub off 0x28))) (\<lambda>ch.
      let virt_size = from_le vs :: u32; virt_addr = from_le va :: u32;
          raw_off = unat (from_le ro :: u32); characteristics = from_le ch :: u32;
          raw_size = unat (min (from_le rs :: u32) virt_size) in
      bindO (Ok (checked_add (image_base pe) (ucast virt_addr))) (\<lambda>vaddr.
      bindO (Ok (Option.bind (cadd ub raw_off raw_size) (get_range bs raw_off))) (\<lambda>raw.
      Ok (Some \<lparr>s_vaddr = vaddr, s_vsize = virt_size, s_raw = raw,
        s_read = characteristics AND IMAGE_SCN_MEM_READ \<noteq> 0,
        s_write = characteristics AND IMAGE_SCN_MEM_WRITE \<noteq> 0,
        s_exec = characteristics AND IMAGE_SCN_MEM_EXECUTE \<noteq> 0\<rparr>)))))))))"

text \<open>The closure is a function on its captured state; \<open>None\<close> from it ends the walk.\<close>

fun sections_loop :: "nat \<Rightarrow> PeParser \<Rightarrow> (Section \<Rightarrow> 's \<Rightarrow> 's option res) \<Rightarrow> nat list \<Rightarrow> 's \<Rightarrow> 's option res" where
  "sections_loop ub pe func [] s = Ok (Some s)"
| "sections_loop ub pe func (i # ixs) s =
     bindO (section_at ub pe i) (\<lambda>sec. bindO (func sec s) (sections_loop ub pe func ixs))"

definition pe_sections :: "nat \<Rightarrow> PeParser \<Rightarrow> (Section \<Rightarrow> 's \<Rightarrow> 's option res) \<Rightarrow> 's \<Rightarrow> 's option res" where
  "pe_sections ub pe func s = sections_loop ub pe func [0..<num_sections pe] s"

subsection \<open>No panics\<close>

text \<open>A slice in Rust is at most \<open>isize::MAX\<close> bytes long.\<close>

definition slice_len :: "nat \<Rightarrow> bytes \<Rightarrow> bool" where
  "slice_len ub bs \<longleftrightarrow> 32 \<le> ub \<and> length bs < 2 ^ (ub - 1)"

lemma slice_lenD: "slice_len ub bs \<Longrightarrow> n \<le> length bs + 0x100 \<Longrightarrow> n < 2 ^ ub"
proof -
  assume s: "slice_len ub bs" "n \<le> length bs + 0x100"
  have "(2 :: nat) ^ (ub - 1) + 2 ^ (ub - 1) = 2 ^ ub"
    using s(1) by (cases ub) (auto simp: slice_len_def)
  moreover have "(0x100 :: nat) \<le> 2 ^ (ub - 1)"
  proof -
    have "8 \<le> ub - 1" using s(1) unfolding slice_len_def by linarith
    from power_increasing [OF this, of "2 :: nat"] show ?thesis by simp
  qed
  ultimately show ?thesis using s by (simp add: slice_len_def)
qed

definition header_ok :: "nat \<Rightarrow> PeParser \<Rightarrow> bool" where
  "header_ok ub pe \<longleftrightarrow> slice_len ub (pe_bytes pe) \<and>
     section_off pe + num_sections pe * 0x28 \<le> length (pe_bytes pe)"

lemma bindO_total: "(\<exists>x. m = Ok x) \<Longrightarrow> (\<And>x. m = Ok (Some x) \<Longrightarrow> \<exists>y. f x = Ok y) \<Longrightarrow> \<exists>y. bindO m f = Ok y"
  by (auto simp: bindO_def split: option.splits)

lemma pe_parse_total:
  assumes "slice_len ub bs"
  shows "\<exists>r. pe_parse ub bs = Ok r"
proof -
  have sl: "\<exists>x. someR (slice bs (uadd ub o' a) (uadd ub o' b)) = Ok x"
    if "o' + 0x18 \<le> length bs" "a \<le> b" "b \<le> 0x18" for o' a b
    using that slice_lenD [OF assms, of "o' + a"] slice_lenD [OF assms, of "o' + b"] by simp
  show ?thesis
    unfolding pe_parse_def Let_def
    by (auto intro!: bindO_total sl)
qed

lemma pe_parse_header:
  assumes "slice_len ub bs" "pe_parse ub bs = Ok (Some pe)"
  shows "header_ok ub pe" "pe_bytes pe = bs"
proof -
  from assms(2) obtain o' oh where "o' + 0x18 + oh + num_sections pe * 0x28 \<le> length bs"
    "section_off pe = o' + 0x18 + oh" "pe_bytes pe = bs"
    by (auto simp: pe_parse_def Let_def bindO_Some bind_eq_Some_conv split: if_splits)
  with assms(1) show "header_ok ub pe" "pe_bytes pe = bs" by (simp_all add: header_ok_def)
qed

lemma section_slices:
  assumes "header_ok ub pe" "i < num_sections pe"
  defines "off \<equiv> section_off pe + i * 0x28"
  shows "off + 0x28 \<le> length (pe_bytes pe)" "uadd ub (section_off pe) (i * 0x28) = off"
    "\<And>k. k \<le> 0x28 \<Longrightarrow> uadd ub off k = off + k"
proof -
  have "i * 0x28 + 0x28 \<le> num_sections pe * 0x28"
    using assms(2) mult_le_mono1 [of "Suc i" "num_sections pe" "0x28"] by simp
  then show le: "off + 0x28 \<le> length (pe_bytes pe)" using assms(1) by (simp add: header_ok_def off_def)
  have "n < 2 ^ ub" if "n \<le> length (pe_bytes pe)" for n
    using assms(1) that slice_lenD [of ub "pe_bytes pe" n] by (simp add: header_ok_def)
  with le show "uadd ub (section_off pe) (i * 0x28) = off" "\<And>k. k \<le> 0x28 \<Longrightarrow> uadd ub off k = off + k"
    by (simp_all add: off_def)
qed

lemma section_at_total:
  assumes "header_ok ub pe" "i < num_sections pe"
  shows "\<exists>r. section_at ub pe i = Ok r"
  using section_slices [OF assms]
  by (auto simp: section_at_def Let_def intro!: bindO_total)

lemma section_at_raw:
  assumes "section_at ub pe i = Ok (Some sec)"
  shows "length (s_raw sec) \<le> unat (s_vsize sec)"
proof -
  from assms obtain n m r where r: "s_raw sec = r" "length r = unat (min n m)" "s_vsize sec = (m :: u32)"
    by (auto simp: section_at_def Let_def bindO_Some bind_eq_Some_conv dest: length_get_range)
  have "unat (min n m) \<le> unat m" by (simp add: min_def word_le_nat_alt)
  with r show ?thesis by simp
qed

text \<open>The sections of a parsed file, in file order; the walk is a fold of the closure over them.\<close>

definition all_sections :: "nat \<Rightarrow> PeParser \<Rightarrow> Section list option" where
  "all_sections ub pe = (case pe_sections ub pe (\<lambda>sec acc. Ok (Some (acc @ [sec]))) [] of
     Ok r \<Rightarrow> r | Panic _ \<Rightarrow> None)"

fun foldO :: "('b \<Rightarrow> 's \<Rightarrow> 's option res) \<Rightarrow> 'b list \<Rightarrow> 's \<Rightarrow> 's option res" where
  "foldO f [] s = Ok (Some s)"
| "foldO f (x # xs) s = bindO (f x s) (foldO f xs)"

lemma sections_loop_collect:
  assumes "\<And>i. i \<in> set ixs \<Longrightarrow> \<exists>r. section_at ub pe i = Ok r"
  shows "\<exists>r. sections_loop ub pe (\<lambda>sec acc. Ok (Some (acc @ [sec]))) ixs acc = Ok r \<and>
    (case r of Some secs \<Rightarrow> \<exists>ss. secs = acc @ ss \<and> length ss = length ixs \<and>
        (\<forall>k < length ixs. section_at ub pe (ixs ! k) = Ok (Some (ss ! k))) \<and>
        (\<forall>f :: Section \<Rightarrow> 's \<Rightarrow> 's option res. sections_loop ub pe f ixs = foldO f ss)
     | None \<Rightarrow> \<exists>k < length ixs. section_at ub pe (ixs ! k) = Ok None)"
  using assms
proof (induction ixs arbitrary: acc)
  case (Cons i ixs)
  from Cons.prems obtain r where r: "section_at ub pe i = Ok r" by auto
  show ?case
  proof (cases r)
    case None
    with r show ?thesis by auto
  next
    case (Some sec)
    from Cons.IH [of "acc @ [sec]"] Cons.prems obtain r' where
      r': "sections_loop ub pe (\<lambda>sec acc. Ok (Some (acc @ [sec]))) ixs (acc @ [sec]) = Ok r'"
      and sp: "case r' of Some secs \<Rightarrow> \<exists>ss. secs = (acc @ [sec]) @ ss \<and> length ss = length ixs \<and>
        (\<forall>k < length ixs. section_at ub pe (ixs ! k) = Ok (Some (ss ! k))) \<and>
        (\<forall>f :: Section \<Rightarrow> 's \<Rightarrow> 's option res. sections_loop ub pe f ixs = foldO f ss)
     | None \<Rightarrow> \<exists>k < length ixs. section_at ub pe (ixs ! k) = Ok None" by auto
    show ?thesis
    proof (cases r')
      case None
      with sp obtain k where "k < length ixs" "section_at ub pe (ixs ! k) = Ok None" by auto
      with r' None r Some show ?thesis by (auto intro!: exI [of _ "Suc k"])
    next
      case (Some secs)
      with sp obtain ss where ss: "secs = acc @ (sec # ss)" "length ss = length ixs"
        "\<forall>k < length ixs. section_at ub pe (ixs ! k) = Ok (Some (ss ! k))"
        "\<forall>f :: Section \<Rightarrow> 's \<Rightarrow> 's option res. sections_loop ub pe f ixs = foldO f ss" by auto
      moreover have "\<forall>k < length (i # ixs). section_at ub pe ((i # ixs) ! k) = Ok (Some ((sec # ss) ! k))"
        using ss(3) r \<open>r = Some sec\<close> by (auto simp: nth_Cons split: nat.splits)
      moreover have "\<forall>f :: Section \<Rightarrow> 's \<Rightarrow> 's option res. sections_loop ub pe f (i # ixs) = foldO f (sec # ss)"
        using ss(4) r \<open>r = Some sec\<close> by (intro allI ext) simp
      ultimately show ?thesis using r' Some r \<open>r = Some sec\<close> by auto
    qed
  qed
qed (simp add: fun_eq_iff)

lemma all_sections_Some:
  assumes "header_ok ub pe" "all_sections ub pe = Some ss"
  shows "length ss = num_sections pe" "\<And>k. k < num_sections pe \<Longrightarrow> section_at ub pe k = Ok (Some (ss ! k))"
    "pe_sections ub pe f s = foldO f ss s"
proof -
  have t: "\<exists>r. section_at ub pe i = Ok r" if "i \<in> set [0..<num_sections pe]" for i
    using section_at_total [OF assms(1)] that by simp
  from sections_loop_collect [where acc = "[]" and ixs = "[0..<num_sections pe]", OF t] obtain r where
    r: "sections_loop ub pe (\<lambda>sec acc. Ok (Some (acc @ [sec]))) [0..<num_sections pe] [] = Ok r"
    and sp: "case r of Some secs \<Rightarrow> \<exists>ss. secs = [] @ ss \<and> length ss = length [0..<num_sections pe] \<and>
        (\<forall>k < length [0..<num_sections pe]. section_at ub pe ([0..<num_sections pe] ! k) = Ok (Some (ss ! k))) \<and>
        (\<forall>f :: Section \<Rightarrow> 'a \<Rightarrow> 'a option res. sections_loop ub pe f [0..<num_sections pe] = foldO f ss)
     | None \<Rightarrow> \<exists>k < length [0..<num_sections pe]. section_at ub pe ([0..<num_sections pe] ! k) = Ok None"
    by blast
  from r assms(2) have "r = Some ss" by (simp add: all_sections_def pe_sections_def)
  with sp show "length ss = num_sections pe" "\<And>k. k < num_sections pe \<Longrightarrow> section_at ub pe k = Ok (Some (ss ! k))"
    "pe_sections ub pe f s = foldO f ss s" by (simp_all add: pe_sections_def)
qed

lemma all_sections_None:
  assumes "header_ok ub pe" "all_sections ub pe = None"
  shows "\<exists>k < num_sections pe. section_at ub pe k = Ok None"
proof -
  have t: "\<exists>r. section_at ub pe i = Ok r" if "i \<in> set [0..<num_sections pe]" for i
    using section_at_total [OF assms(1)] that by simp
  from sections_loop_collect [where acc = "[]" and 's = unit and ixs = "[0..<num_sections pe]", OF t] obtain r where
    r: "sections_loop ub pe (\<lambda>sec acc. Ok (Some (acc @ [sec]))) [0..<num_sections pe] [] = Ok r"
    and sp: "case r of None \<Rightarrow> \<exists>k < length [0..<num_sections pe].
        section_at ub pe ([0..<num_sections pe] ! k) = Ok None | Some _ \<Rightarrow> True"
    by (metis (no_types, lifting) option.case_eq_if)
  from r assms(2) have "r = None" by (simp add: all_sections_def pe_sections_def)
  with sp show ?thesis by auto
qed

lemma foldO_total:
  "(\<And>x s. x \<in> set xs \<Longrightarrow> P s \<Longrightarrow> \<exists>r. f x s = Ok r \<and> (case r of None \<Rightarrow> True | Some s' \<Rightarrow> P s')) \<Longrightarrow> P s \<Longrightarrow>
    \<exists>r. foldO f xs s = Ok r \<and> (case r of None \<Rightarrow> True | Some s' \<Rightarrow> P s')"
proof (induction xs arbitrary: s)
  case (Cons x xs)
  from Cons.prems(1) [of x s] Cons.prems(2) obtain r where
    r: "f x s = Ok r" "case r of None \<Rightarrow> True | Some s' \<Rightarrow> P s'" by auto
  with Cons.IH Cons.prems(1) show ?case by (cases r) auto
qed simp

lemma sections_loop_total:
  "(\<And>i. i \<in> set ixs \<Longrightarrow> \<exists>r. section_at ub pe i = Ok r) \<Longrightarrow> (\<And>x s. \<exists>r. f x s = Ok r) \<Longrightarrow>
    \<exists>r. sections_loop ub pe f ixs s = Ok r"
  by (induction ixs arbitrary: s) (auto intro!: bindO_total)

subsection \<open>Properties\<close>

text \<open>C7: parsing returns for every byte string, and on a file it accepts the walk over the
  sections returns for every closure that does: no header field, however malformed, makes
  the parser index out of range.\<close>

theorem pe_never_panics:
  assumes "slice_len ub bs"
  shows "\<exists>r. pe_parse ub bs = Ok r \<and> (\<forall>pe func s. r = Some pe \<longrightarrow>
    (\<forall>sec t. \<exists>u. func sec t = Ok u) \<longrightarrow> (\<exists>u. pe_sections ub pe func s = Ok u))"
proof -
  obtain r where r: "pe_parse ub bs = Ok r" using pe_parse_total [OF assms] by blast
  moreover have "\<exists>u. pe_sections ub pe func s = Ok u"
    if "r = Some pe" "\<forall>sec t. \<exists>u. func sec t = Ok u" for pe and func :: "Section \<Rightarrow> 'a \<Rightarrow> 'a option res" and s
    using section_at_total [OF pe_parse_header(1) [OF assms r [unfolded that(1)]]] that(2)
    unfolding pe_sections_def by (intro sections_loop_total) auto
  ultimately show ?thesis by blast
qed

theorem pe_never_panics_witness: "\<exists>r. pe_parse 32 [0x4d, 0x5a, 0, 0] = Ok r"
  using pe_never_panics [where 'a = unit and ub = 32 and bs = "[0x4d, 0x5a, 0, 0]"]
  by (auto simp: slice_len_def)

end
