(* ===== verification/Flatten.thy ===== *)
theory Flatten
  imports PeParser
begin

text \<open>
  The build tool's image flattening, \<open>src/main.rs\<close>: the bootloader's PE file becomes a flat
  image to be loaded at its base and a stream of records that re-initialise its writable
  sections. The file read is a parameter (\<open>None\<close> is a read error).
\<close>

unbundle bit_operations_syntax

subsection \<open>Operations\<close>

record bounds =
  image_start :: "u64 option"
  image_end :: "u64 option"
  reinit :: bytes

text \<open>The closure of the first walk: bounds of the loaded image and the re-initialisation data.\<close>

definition measure_section :: "Section \<Rightarrow> bounds \<Rightarrow> bounds option res" where
  "measure_section sec st =
     (let base = s_vaddr sec; sz = ucast (s_vsize sec) :: u64; raw = s_raw sec in
      bindO (Ok (Option.bind (checked_sub sz 1) (checked_add base))) (\<lambda>en.
      let st1 = (if image_start st = None then st\<lparr>image_start := Some base, image_end := Some en\<rparr> else st) in
      bindO (if s_write sec \<and> length raw > 0
             then (if base > mask 32 then Ok None
                   else if \<not> fits_in 32 (length raw) then Ok None
                   else Ok (Some (reinit st1 @ to_le 4 (ucast base :: u32) @
                     to_le 4 (of_nat (length raw) :: u32) @ raw)))
             else Ok (Some (reinit st1))) (\<lambda>re.
      Ok (Some (st1\<lparr>reinit := re, image_start := map_option (\<lambda>x. min x base) (image_start st1),
        image_end := map_option (\<lambda>x. max x en) (image_end st1)\<rparr>)))))"

text \<open>The closure of the second walk copies the initialised bytes into the image.\<close>

definition copy_section :: "nat \<Rightarrow> u64 \<Rightarrow> Section \<Rightarrow> bytes \<Rightarrow> bytes option res" where
  "copy_section ub start sec flattened =
     (let off = s_vaddr sec - start in
      if off > mask ub then Ok None else
      let flat_off = unat off; to_copy = min (unat (s_vsize sec)) (length (s_raw sec)) in
      bindO (Ok (cadd ub flat_off to_copy)) (\<lambda>e.
        someR (copy_into flattened flat_off e (s_raw sec))))"

text \<open>A vector longer than \<open>isize::MAX\<close> bytes is a capacity overflow.\<close>

definition zeroed_vec :: "nat \<Rightarrow> nat \<Rightarrow> bytes res" where
  "zeroed_vec ub n = (if fits_in (ub - 1) n then Ok (replicate n 0) else Panic ''capacity overflow'')"

definition flatten_pe :: "nat \<Rightarrow> bytes option \<Rightarrow> (u32 \<times> u32 \<times> bytes \<times> bytes) option res" where
  "flatten_pe ub file =
     bindO (Ok file) (\<lambda>bs.
     bindO (pe_parse ub bs) (\<lambda>pe.
     bindO (pe_sections ub pe measure_section
         \<lparr>image_start = None, image_end = None, reinit = []\<rparr>) (\<lambda>st.
     bindO (Ok (image_start st)) (\<lambda>start.
     bindO (Ok (image_end st)) (\<lambda>en.
     bindO (Ok (Option.bind (checked_sub en start) (\<lambda>x. checked_add x 1))) (\<lambda>sz.
     if sz > mask ub then Ok None else
     bindO (someR (zeroed_vec ub (unat sz))) (\<lambda>zeroes.
     bindO (pe_sections ub pe (copy_section ub start) zeroes) (\<lambda>flattened.
     if entry_point pe < start \<or> entry_point pe > en then Ok None
     else if entry_point pe > mask 32 then Ok None
     else if start > mask 32 then Ok None
     else Ok (Some (ucast (entry_point pe), ucast start, flattened, reinit st))))))))))"

subsection \<open>The first walk\<close>

definition s_end :: "Section \<Rightarrow> u64" where
  "s_end sec = s_vaddr sec + (ucast (s_vsize sec) - 1)"

definition placed :: "Section \<Rightarrow> bool" where
  "placed sec \<longleftrightarrow> s_vsize sec \<noteq> 0 \<and> s_vaddr sec \<le> s_end sec \<and>
     (s_write sec \<and> s_raw sec \<noteq> [] \<longrightarrow> s_vaddr sec \<le> mask 32)"

definition record_of :: "Section \<Rightarrow> bytes" where
  "record_of sec = (if s_write sec \<and> s_raw sec \<noteq> []
     then to_le 4 (ucast (s_vaddr sec) :: u32) @ to_le 4 (of_nat (length (s_raw sec)) :: u32) @ s_raw sec
     else [])"

definition covers :: "u64 option \<Rightarrow> u64 option \<Rightarrow> Section \<Rightarrow> bool" where
  "covers a b sec \<longleftrightarrow> placed sec \<and>
     (\<exists>s e. a = Some s \<and> b = Some e \<and> s \<le> s_vaddr sec \<and> s_end sec \<le> e)"

lemma ucast_u32_0 [simp]: "(ucast (w :: u32) :: u64) = 0 \<longleftrightarrow> w = 0"
  by (simp add: word_unat_eq_iff unat_ucast_up)

lemma measure_section_Some:
  assumes "measure_section sec st = Ok (Some st')"
  shows "placed sec" "reinit st' = reinit st @ record_of sec"
    "image_start st' = Some (case image_start st of None \<Rightarrow> s_vaddr sec | Some x \<Rightarrow> min x (s_vaddr sec))"
    "image_start st \<noteq> None \<Longrightarrow> image_end st = Some e \<Longrightarrow> image_end st' = Some (max e (s_end sec))"
    "image_start st = None \<Longrightarrow> image_end st' = Some (s_end sec)"
proof -
  from assms obtain k where k: "checked_sub (ucast (s_vsize sec) :: u64) 1 = Some k"
    "checked_add (s_vaddr sec) k = Some (s_vaddr sec + k)"
    by (auto simp: measure_section_def Let_def bindO_Some bind_eq_Some_conv dest: checked_add_SomeD)
  have "s_vsize sec \<noteq> 0" "k = ucast (s_vsize sec) - 1"
    using k(1) by (auto simp: checked_sub_def split: if_splits)
  moreover from this k(2) have "s_vaddr sec \<le> s_end sec" by (simp add: checked_add_code s_end_def split: if_splits)
  moreover have "s_write sec \<and> s_raw sec \<noteq> [] \<longrightarrow> s_vaddr sec \<le> mask 32"
    using assms by (auto simp: measure_section_def Let_def bindO_Some not_less split: if_splits)
  ultimately show "placed sec" by (simp add: placed_def)
  from assms k \<open>k = _\<close>
  show "reinit st' = reinit st @ record_of sec"
    "image_start st' = Some (case image_start st of None \<Rightarrow> s_vaddr sec | Some x \<Rightarrow> min x (s_vaddr sec))"
    "image_start st \<noteq> None \<Longrightarrow> image_end st = Some e \<Longrightarrow> image_end st' = Some (max e (s_end sec))"
    "image_start st = None \<Longrightarrow> image_end st' = Some (s_end sec)"
    by (auto simp: measure_section_def Let_def bindO_Some record_of_def s_end_def split: if_splits option.splits)
qed

lemma measure_section_total: "\<exists>r. measure_section sec st = Ok r"
  by (auto simp: measure_section_def Let_def intro!: bindO_total)

definition consistent :: "bounds \<Rightarrow> bool" where
  "consistent st \<longleftrightarrow> (image_start st = None \<longleftrightarrow> image_end st = None)"

lemma measure_fold:
  "foldO measure_section ss st = Ok (Some st') \<Longrightarrow> consistent st \<Longrightarrow>
    consistent st' \<and> list_all placed ss \<and> reinit st' = reinit st @ concat (map record_of ss) \<and>
    (\<forall>s0 e0. image_start st = Some s0 \<longrightarrow> image_end st = Some e0 \<longrightarrow>
      (\<exists>s e. image_start st' = Some s \<and> image_end st' = Some e \<and> s \<le> s0 \<and> e0 \<le> e)) \<and>
    (\<forall>sec \<in> set ss. covers (image_start st') (image_end st') sec) \<and>
    (\<forall>s. image_start st' = Some s \<longrightarrow> image_start st = Some s \<or> s \<in> s_vaddr ` set ss) \<and>
    (\<forall>e. image_end st' = Some e \<longrightarrow> image_end st = Some e \<or> e \<in> s_end ` set ss)"
proof (induction ss arbitrary: st)
  case (Cons sec ss)
  from Cons.prems(1) obtain st1 where m: "measure_section sec st = Ok (Some st1)"
    and r: "foldO measure_section ss st1 = Ok (Some st')" by (auto simp: bindO_Some)
  note M = measure_section_Some [OF m]
  obtain s1 e1 where s1: "image_start st1 = Some s1" "image_end st1 = Some e1"
    "s1 \<le> s_vaddr sec" "s_end sec \<le> e1"
    "\<And>s0. image_start st = Some s0 \<Longrightarrow> s1 \<le> s0" "\<And>e0. image_end st = Some e0 \<Longrightarrow> e0 \<le> e1"
    "image_start st = Some s1 \<or> s1 = s_vaddr sec" "image_end st = Some e1 \<or> e1 = s_end sec"
  proof (cases "image_start st")
    case None
    with M(3,5) Cons.prems(2) that [of "s_vaddr sec" "s_end sec"] show ?thesis by (simp add: consistent_def)
  next
    case (Some a)
    then obtain b where "image_end st = Some b" using Cons.prems(2) by (auto simp: consistent_def)
    with Some M(3) M(4) [of b] show ?thesis
      by (intro that [of "min a (s_vaddr sec)" "max b (s_end sec)"]) (auto simp: min_def max_def)
  qed
  have "consistent st1" using s1 by (simp add: consistent_def)
  note IH = Cons.IH [OF r this]
  from IH s1(1,2) obtain s e where se: "image_start st' = Some s" "image_end st' = Some e" "s \<le> s1" "e1 \<le> e"
    by blast
  have "covers (image_start st') (image_end st') sec"
    using M(1) se s1(3,4) by (auto simp: covers_def intro: order_trans)
  with IH M(1,2) se s1 show ?case by (auto intro: order_trans)
qed (auto simp: list_all_iff)

subsection \<open>The second walk\<close>

definition hit :: "u64 \<Rightarrow> nat \<Rightarrow> Section \<Rightarrow> bool" where
  "hit start k sec \<longleftrightarrow> unat (s_vaddr sec - start) \<le> k \<and> k < unat (s_vaddr sec - start) + length (s_raw sec)"

text \<open>The byte at offset \<open>k\<close>: from the last section whose initialised bytes cover it.\<close>

definition image_byte :: "u64 \<Rightarrow> Section list \<Rightarrow> nat \<Rightarrow> u8 \<Rightarrow> u8" where
  "image_byte start ss k dflt = (case find (hit start k) (rev ss) of None \<Rightarrow> dflt
     | Some sec \<Rightarrow> s_raw sec ! (k - unat (s_vaddr sec - start)))"

lemma image_byte_snoc: "image_byte start (ss @ [sec]) k d =
  (if hit start k sec then s_raw sec ! (k - unat (s_vaddr sec - start)) else image_byte start ss k d)"
  by (simp add: image_byte_def)

lemma section_fits:
  assumes "placed sec" "s \<le> s_vaddr sec" "s_end sec \<le> e" "length (s_raw sec) \<le> unat (s_vsize sec)"
  shows "unat (s_vaddr sec - s) + length (s_raw sec) \<le> unat (e - s) + 1"
proof -
  have vs: "unat (s_end sec) = unat (s_vaddr sec) + unat (ucast (s_vsize sec) - 1 :: u64)"
    using assms(1) by (simp add: placed_def s_end_def flip: no_overflow_iff) (simp add: unat_word_ariths)
  have "unat (ucast (s_vsize sec) - 1 :: u64) = unat (s_vsize sec) - 1"
    using assms(1) by (subst unat_pred) (auto simp: placed_def unat_ucast_up)
  moreover have "unat (s_vsize sec) > 0" using assms(1) by (simp add: placed_def unat_gt_0)
  moreover have "s \<le> e" using assms by (auto simp: placed_def)
  ultimately show ?thesis
    using assms(2-4) vs by (auto simp: unat_sub word_le_nat_alt)
qed

lemma copy_section_Ok:
  assumes "placed sec" "s \<le> s_vaddr sec" "s_end sec \<le> e" "length (s_raw sec) \<le> unat (s_vsize sec)"
    "length img = unat (e - s) + 1" "length img < 2 ^ ub"
  shows "\<exists>img'. copy_section ub s sec img = Ok (Some img') \<and> length img' = length img \<and>
    (\<forall>k < length img. img' ! k =
       (if hit s k sec then s_raw sec ! (k - unat (s_vaddr sec - s)) else img ! k))"
proof -
  let ?o = "unat (s_vaddr sec - s)"
  note fit = section_fits [OF assms(1-4)]
  have "?o < 2 ^ ub" using fit assms(5,6) by linarith
  then have "s_vaddr sec - s \<le> mask ub" by (rule unat_le_mask)
  with fit assms(4-6) copy_into_Ok [of ?o "s_raw sec" img] show ?thesis
    by (auto simp: copy_section_def Let_def min_def hit_def cadd_def not_le)
qed

lemma foldO_append: "foldO f (xs @ ys) s = bindO (foldO f xs s) (foldO f ys)"
proof (induction xs arbitrary: s)
  case (Cons x xs)
  show ?case
  proof (cases "f x s")
    case (Ok r)
    with Cons.IH show ?thesis by (cases r) simp_all
  qed simp
qed simp

lemma copy_fold:
  assumes "\<forall>sec \<in> set ss. placed sec \<and> s \<le> s_vaddr sec \<and> s_end sec \<le> e \<and> length (s_raw sec) \<le> unat (s_vsize sec)"
    "length img = unat (e - s) + 1" "length img < 2 ^ ub"
  shows "\<exists>img'. foldO (copy_section ub s) ss img = Ok (Some img') \<and> length img' = length img \<and>
    (\<forall>k < length img. img' ! k = image_byte s ss k (img ! k))"
  using assms(1)
proof (induction ss rule: rev_induct)
  case Nil
  then show ?case by (simp add: image_byte_def)
next
  case (snoc sec ss)
  then obtain img1 where i: "foldO (copy_section ub s) ss img = Ok (Some img1)" "length img1 = length img"
    "\<forall>k < length img. img1 ! k = image_byte s ss k (img ! k)" by auto
  from copy_section_Ok [of sec s e img1 ub] snoc.prems assms(2,3) i(2) obtain img2 where
    "copy_section ub s sec img1 = Ok (Some img2)" "length img2 = length img"
    "\<forall>k < length img. img2 ! k = (if hit s k sec then s_raw sec ! (k - unat (s_vaddr sec - s)) else img1 ! k)"
    by auto
  with i show ?case by (simp add: foldO_append image_byte_snoc)
qed

lemma sections_loop_Some:
  "sections_loop ub pe f ixs s = Ok (Some s') \<Longrightarrow> i \<in> set ixs \<Longrightarrow> section_at ub pe i \<noteq> Ok None"
  by (induction ixs arbitrary: s) (auto simp: bindO_Some)

lemma sections_walk:
  assumes "header_ok ub pe" "pe_sections ub pe f s = Ok (Some s')"
  obtains ss where "all_sections ub pe = Some ss" "foldO f ss s = Ok (Some s')"
    "\<forall>sec \<in> set ss. length (s_raw sec) \<le> unat (s_vsize sec)"
proof (cases "all_sections ub pe")
  case None
  from all_sections_None [OF assms(1) this] assms(2) show ?thesis
    by (auto simp: pe_sections_def dest: sections_loop_Some)
next
  case (Some ss)
  note A = all_sections_Some [OF assms(1) Some]
  have "\<forall>sec \<in> set ss. length (s_raw sec) \<le> unat (s_vsize sec)"
    using A(1,2) section_at_raw by (metis in_set_conv_nth)
  with that Some A(3) assms(2) show ?thesis by metis
qed

subsection \<open>Flattening\<close>

definition flattened :: "nat \<Rightarrow> bytes \<Rightarrow> Section list \<Rightarrow> u64 \<Rightarrow> u64 \<Rightarrow> bytes \<Rightarrow> bytes \<Rightarrow> bool" where
  "flattened ub bs ss start en img re \<longleftrightarrow>
     start \<in> s_vaddr ` set ss \<and> en \<in> s_end ` set ss \<and> start \<le> en \<and>
     (\<forall>sec \<in> set ss. placed sec \<and> start \<le> s_vaddr sec \<and> s_end sec \<le> en \<and>
        length (s_raw sec) \<le> unat (s_vsize sec)) \<and>
     length img = unat (en - start) + 1 \<and> (\<forall>k < length img. img ! k = image_byte start ss k 0) \<and>
     re = concat (map record_of ss)"

lemma flatten_pe_correct:
  assumes "slice_len ub bs" "flatten_pe ub (Some bs) = Ok (Some (entry, base, img, re))"
  shows "\<exists>pe ss start en. pe_parse ub bs = Ok (Some pe) \<and> all_sections ub pe = Some ss \<and>
    flattened ub bs ss start en img re \<and> unat base = unat start \<and>
    unat entry = unat (entry_point pe) \<and> start \<le> entry_point pe \<and> entry_point pe \<le> en"
proof -
  from assms(2) obtain pe st start en z where
    pe: "pe_parse ub bs = Ok (Some pe)" and
    w1: "pe_sections ub pe measure_section \<lparr>image_start = None, image_end = None, reinit = []\<rparr> = Ok (Some st)" and
    b: "image_start st = Some start" "image_end st = Some en" and
    z: "Option.bind (checked_sub en start) (\<lambda>x. checked_add x 1) = Some z" and
    m: "z \<le> mask ub" and v: "unat z < 2 ^ (ub - 1)" and
    w2: "pe_sections ub pe (copy_section ub start) (replicate (unat z) 0) = Ok (Some img)" and
    e: "start \<le> entry_point pe" "entry_point pe \<le> en" "entry_point pe \<le> mask 32" "start \<le> mask 32"
       "entry = ucast (entry_point pe)" "base = ucast start" "re = reinit st"
    by (auto simp: flatten_pe_def bindO_Some zeroed_vec_def fits_in_def not_less split: if_splits)
  note H = pe_parse_header [OF assms(1) pe]
  obtain ss where ss: "all_sections ub pe = Some ss"
    "foldO measure_section ss \<lparr>image_start = None, image_end = None, reinit = []\<rparr> = Ok (Some st)"
    "\<forall>sec \<in> set ss. length (s_raw sec) \<le> unat (s_vsize sec)"
    by (rule sections_walk [OF H(1) w1]) blast
  have "consistent \<lparr>image_start = None, image_end = None, reinit = []\<rparr>" by (simp add: consistent_def)
  note M = measure_fold [OF ss(2) this]
  have secs: "\<forall>sec \<in> set ss. placed sec \<and> start \<le> s_vaddr sec \<and> s_end sec \<le> en \<and>
      length (s_raw sec) \<le> unat (s_vsize sec)"
    using M ss(3) b by (auto simp: covers_def)
  have se: "start \<in> s_vaddr ` set ss" "en \<in> s_end ` set ss" "re = concat (map record_of ss)"
    using M b e(7) by auto
  from z have zz: "start \<le> en" "unat z = unat (en - start) + 1"
    by (auto simp: bind_eq_Some_conv dest!: checked_sub_SomeD checked_add_SomeD)
  have "(2 :: nat) ^ (ub - 1) \<le> 2 ^ ub" by (rule power_increasing) simp_all
  with v have "unat z < 2 ^ ub" by linarith
  with copy_fold [OF secs, of "replicate (unat z) 0" ub] zz(2) obtain img' where
    "foldO (copy_section ub start) ss (replicate (unat z) 0) = Ok (Some img')" "length img' = unat z"
    "\<forall>k < unat z. img' ! k = image_byte start ss k (replicate (unat z) 0 ! k)" by auto
  with w2 all_sections_Some(3) [OF H(1) ss(1), of "copy_section ub start"] have img: "length img = unat z" "\<forall>k < unat z. img ! k = image_byte start ss k 0" by simp_all
  have "unat base = unat start" "unat entry = unat (entry_point pe)"
    using e(3-6) by (simp_all add: unat_ucast_down)
  with pe ss(1) secs se zz img e(1,2) show ?thesis by (auto simp: flattened_def)
qed

subsection \<open>Re-initialisation\<close>

text \<open>
  The loop of \<open>stage0.asm\<close> that consumes the stream on a fresh boot: \<open>ebx\<close> walks over the
  records from \<open>reinit\<close> to \<open>reinit_end\<close>, and each payload is copied to its address with
  \<open>rep movsb\<close>. A record that runs over the end of the stream is the value \<open>None\<close>.
\<close>

definition movsb :: "(u32 \<Rightarrow> u8) \<Rightarrow> u32 \<Rightarrow> bytes \<Rightarrow> u32 \<Rightarrow> u8" where
  "movsb mem edi payload = (\<lambda>x. if unat (x - edi) < length payload then payload ! unat (x - edi) else mem x)"

partial_function (option) reinit_parse :: "bytes \<Rightarrow> nat \<Rightarrow> (u32 \<Rightarrow> u8) \<Rightarrow> (u32 \<Rightarrow> u8) option" where
  "reinit_parse re ebx mem =
     (if ebx = length re then Some mem
      else Option.bind (get_range re ebx (ebx + 4)) (\<lambda>vaddr.
        Option.bind (get_range re (ebx + 4) (ebx + 8)) (\<lambda>sz.
        Option.bind (get_range re (ebx + 8) (ebx + 8 + unat (from_le sz :: u32))) (\<lambda>payload.
        reinit_parse re (ebx + unat (from_le sz :: u32) + 8) (movsb mem (from_le vaddr) payload)))))"

definition restore :: "Section list \<Rightarrow> (u32 \<Rightarrow> u8) \<Rightarrow> u32 \<Rightarrow> u8" where
  "restore ss mem = fold (\<lambda>sec m. movsb m (ucast (s_vaddr sec)) (s_raw sec))
     (filter (\<lambda>sec. s_write sec \<and> s_raw sec \<noteq> []) ss) mem"

lemma reinit_parse_records:
  "\<forall>sec \<in> set ss. length (s_raw sec) < 2 ^ 32 \<Longrightarrow>
    reinit_parse (pre @ concat (map record_of ss)) (length pre) mem = Some (restore ss mem)"
proof (induction ss arbitrary: pre mem)
  case Nil
  then show ?case by (subst reinit_parse.simps) (simp add: restore_def)
next
  case (Cons sec ss)
  show ?case
  proof (cases "s_write sec \<and> s_raw sec \<noteq> []")
    case False
    then have "record_of sec = []" "restore (sec # ss) mem = restore ss mem"
      by (auto simp: record_of_def restore_def)
    with Cons.IH [of pre mem] Cons.prems show ?thesis by simp
  next
    case True
    let ?a = "to_le 4 (ucast (s_vaddr sec) :: u32)" and ?n = "to_le 4 (of_nat (length (s_raw sec)) :: u32)"
    define R where "R = pre @ concat (map record_of (sec # ss))"
    have re: "R = pre @ ?a @ ?n @ s_raw sec @ concat (map record_of ss)"
      using True by (simp add: record_of_def R_def)
    have n: "unat (of_nat (length (s_raw sec)) :: u32) = length (s_raw sec)"
      using Cons.prems by (simp add: unat_of_nat take_bit_nat_eq_self_iff)
    have g: "get_range R (length pre) (length pre + 4) = Some ?a"
      "get_range R (length pre + 4) (length pre + 8) = Some ?n"
      "get_range R (length pre + 8) (length pre + 8 + length (s_raw sec)) = Some (s_raw sec)"
      unfolding re by (simp_all add: get_range_Some)
    have "length pre \<noteq> length R" unfolding re by simp
    then have "reinit_parse R (length pre) mem = reinit_parse R (length pre + length (s_raw sec) + 8)
        (movsb mem (ucast (s_vaddr sec)) (s_raw sec))"
      by (subst reinit_parse.simps) (simp add: g n from_le_to_le)
    also have "\<dots> = Some (restore ss (movsb mem (ucast (s_vaddr sec)) (s_raw sec)))"
      using Cons.IH [of "pre @ ?a @ ?n @ s_raw sec"] Cons.prems by (simp add: re ac_simps)
    finally show ?thesis using True by (simp add: restore_def R_def)
  qed
qed

text \<open>The memory after a fresh boot, where no two sections share initialised bytes.\<close>

definition raw_disjoint :: "u64 \<Rightarrow> Section list \<Rightarrow> bool" where
  "raw_disjoint start ss \<longleftrightarrow> (\<forall>s \<in> set ss. \<forall>t \<in> set ss. \<forall>k. hit start k s \<and> hit start k t \<longrightarrow> s = t)"

definition sample_pe :: bytes where
  "sample_pe = [0x4d, 0x5a] @ replicate 58 0 @ [0x40, 0, 0, 0] @
     [0x50, 0x45, 0, 0, 0x4c, 1, 1, 0] @ replicate 12 0 @ [0x20, 0, 0, 0] @
     replicate 16 0 @ [0, 1, 0, 0] @ replicate 8 0 @ [0, 0x80, 0, 0] @
     replicate 8 0 @ [8, 0, 0, 0] @ [0, 1, 0, 0] @ [4, 0, 0, 0] @ [0xa0, 0, 0, 0] @
     replicate 12 0 @ [0, 0, 0, 0xc0] @ [1, 2, 3, 4]"

lemma sample_flat:
  "flatten_pe 64 (Some sample_pe) =
    Ok (Some (0x8100, 0x8100, [1, 2, 3, 4, 0, 0, 0, 0], [0, 0x81, 0, 0, 4, 0, 0, 0, 1, 2, 3, 4]))"
  by code_simp

lemma restore_at:
  "restore ss mem x = (case find (\<lambda>sec. s_write sec \<and> unat (x - ucast (s_vaddr sec)) < length (s_raw sec)) (rev ss) of
     None \<Rightarrow> mem x | Some sec \<Rightarrow> s_raw sec ! unat (x - ucast (s_vaddr sec)))"
proof (induction ss rule: rev_induct)
  case (snoc sec ss)
  then show ?case by (auto simp: restore_def movsb_def)
qed (simp add: restore_def)

lemma unat_of_nat_diff:
  assumes "k < 2 ^ LENGTH('a)" "d < 2 ^ LENGTH('a)"
  shows "unat (of_nat k - of_nat d :: 'a::len word) = (if d \<le> k then k - d else 2 ^ LENGTH('a) - (d - k))"
proof (cases "d \<le> k")
  case True
  then have eq: "(of_nat k - of_nat d :: 'a word) = of_nat (k - d)" by simp
  have "unat (of_nat (k - d) :: 'a word) = k - d"
    unfolding unat_of_nat using assms(1) by (simp add: take_bit_nat_eq_self_iff)
  with True show ?thesis by (simp only: eq if_True)
next
  case False
  have "(of_nat (2 ^ LENGTH('a) - (d - k)) :: 'a word) = of_nat (2 ^ LENGTH('a)) - of_nat (d - k)"
    using assms(2) by (intro of_nat_diff) simp
  also have "\<dots> = of_nat k - of_nat d" using False by (simp add: of_nat_diff)
  finally have eq: "(of_nat k - of_nat d :: 'a word) = of_nat (2 ^ LENGTH('a) - (d - k))" by (rule sym)
  have "unat (of_nat (2 ^ LENGTH('a) - (d - k)) :: 'a word) = 2 ^ LENGTH('a) - (d - k)"
    unfolding unat_of_nat using False by (intro mod_less diff_less) simp_all
  with False show ?thesis by (simp only: eq if_False)
qed

lemma window_offset:
  assumes "start \<le> v" "v \<le> mask 32" "k < 2 ^ 32"
  shows "unat (ucast (start :: u64) + of_nat k - ucast v :: u32) =
    (if unat (v - start) \<le> k then k - unat (v - start) else 2 ^ 32 - (unat (v - start) - k))"
proof -
  define d where "d = unat (v - start)"
  have v: "unat v = unat start + d" using assms(1) by (simp add: d_def unat_sub word_le_nat_alt)
  have d: "d < 2 ^ 32" using le_mask_unat [OF assms(2)] v by simp
  have "(ucast v :: u32) = of_nat (unat v)" by simp
  also have "\<dots> = of_nat (unat start) + of_nat d" by (simp only: v of_nat_add)
  also have "\<dots> = ucast start + of_nat d" by simp
  finally have eq: "(ucast start + of_nat k - ucast v :: u32) = of_nat k - of_nat d" by simp
  show ?thesis unfolding d_def [symmetric] eq
    using unat_of_nat_diff [where 'a = 32, of k d] d assms(3) by simp
qed

lemma find_cong_set: "(\<And>x. x \<in> set xs \<Longrightarrow> P x = Q x) \<Longrightarrow> find P xs = find Q xs"
  by (induction xs) auto

lemma find_unique:
  assumes "x \<in> set xs" "P x" "\<And>y. y \<in> set xs \<Longrightarrow> P y \<Longrightarrow> y = x"
  shows "find P xs = Some x"
  using assms by (metis find_None_iff find_Some_iff not_None_eq nth_mem)

text \<open>What the fresh-boot loop makes of a byte of the image.\<close>

lemma restore_image:
  assumes "flattened ub bs ss start en img re" "en \<le> mask 32" "raw_disjoint start ss" "k < length img"
    and keep: "(\<forall>sec \<in> set ss. \<not> (s_write sec \<and> hit start k sec)) \<longrightarrow> mem (ucast start + of_nat k) = img ! k"
  shows "restore ss mem (ucast start + of_nat k) = img ! k"
proof -
  let ?x = "ucast start + of_nat k :: u32"
  note F = assms(1) [unfolded flattened_def]
  have en: "unat (en - start) + 1 \<le> 2 ^ 32"
    using F le_mask_unat [OF assms(2)] by (auto simp: unat_sub)
  then have k: "k < 2 ^ 32" using F assms(4) by auto
  have off: "unat (?x - ucast (s_vaddr sec)) < length (s_raw sec) \<longleftrightarrow> hit start k sec"
    "hit start k sec \<Longrightarrow> unat (?x - ucast (s_vaddr sec)) = k - unat (s_vaddr sec - start)"
    if sec: "sec \<in> set ss" "s_write sec" for sec
  proof -
    let ?o = "unat (s_vaddr sec - start)"
    from F sec(1) have p: "placed sec" "start \<le> s_vaddr sec" "s_end sec \<le> en"
      "length (s_raw sec) \<le> unat (s_vsize sec)" by auto
    have fit: "?o + length (s_raw sec) \<le> 2 ^ 32" using section_fits [OF p] en by linarith
    show "unat (?x - ucast (s_vaddr sec)) < length (s_raw sec) \<longleftrightarrow> hit start k sec"
      "hit start k sec \<Longrightarrow> unat (?x - ucast (s_vaddr sec)) = k - ?o"
    proof -
      consider "s_raw sec = []" | "s_vaddr sec \<le> mask 32" using p(1) sec(2) by (auto simp: placed_def)
      then have "(unat (?x - ucast (s_vaddr sec)) < length (s_raw sec) \<longleftrightarrow> hit start k sec) \<and>
        (hit start k sec \<longrightarrow> unat (?x - ucast (s_vaddr sec)) = k - ?o)"
      proof cases
        case 2
        note w = window_offset [OF p(2) 2 k]
        show ?thesis unfolding w hit_def using fit by auto
      qed (simp add: hit_def)
      then show "unat (?x - ucast (s_vaddr sec)) < length (s_raw sec) \<longleftrightarrow> hit start k sec"
        "hit start k sec \<Longrightarrow> unat (?x - ucast (s_vaddr sec)) = k - ?o" by auto
    qed
  qed
  have eq: "find (\<lambda>sec. s_write sec \<and> unat (?x - ucast (s_vaddr sec)) < length (s_raw sec)) (rev ss) =
      find (\<lambda>sec. s_write sec \<and> hit start k sec) (rev ss)"
    by (rule find_cong_set) (use off(1) in auto)
  show ?thesis
  proof (cases "\<exists>sec \<in> set ss. s_write sec \<and> hit start k sec")
    case True
    then obtain sec where sec: "sec \<in> set ss" "s_write sec" "hit start k sec" by blast
    have u: "t = sec" if "t \<in> set ss" "hit start k t" for t
      using assms(3) that sec unfolding raw_disjoint_def by blast
    have "find (\<lambda>sec. s_write sec \<and> hit start k sec) (rev ss) = Some sec" "find (hit start k) (rev ss) = Some sec"
      by (rule find_unique; (unfold set_rev)?; use sec u in blast)+
    with off(2) [OF sec] F assms(4) show ?thesis
      by (auto simp: restore_at eq image_byte_def)
  next
    case False
    then have "find (\<lambda>sec. s_write sec \<and> hit start k sec) (rev ss) = None" by (auto simp: find_None_iff)
    with False keep show ?thesis by (simp add: restore_at eq)
  qed
qed

subsection \<open>Properties\<close>

text \<open>C8: an image that flattens lies exactly between the lowest start and the highest end of
  its sections, every byte of it is the initialised byte of the last section covering it or
  zero, the entry point is inside it, and the re-initialisation data is the records of the
  writable initialised sections in order.\<close>

theorem flatten_pe_image:
  assumes "slice_len ub bs" "flatten_pe ub (Some bs) = Ok (Some (entry, base, img, re))"
  shows "\<exists>pe ss start en. pe_parse ub bs = Ok (Some pe) \<and> all_sections ub pe = Some ss \<and>
    flattened ub bs ss start en img re \<and> unat base = unat start \<and>
    unat entry = unat (entry_point pe) \<and> start \<le> entry_point pe \<and> entry_point pe \<le> en"
  using assms by (rule flatten_pe_correct)

lemma sample_pe_len: "slice_len 64 sample_pe"
  by (simp add: slice_len_def sample_pe_def)

theorem flatten_pe_image_witness:
  "\<exists>pe ss start en. pe_parse 64 sample_pe = Ok (Some pe) \<and> all_sections 64 pe = Some ss \<and>
    flattened 64 sample_pe ss start en [1, 2, 3, 4, 0, 0, 0, 0] [0, 0x81, 0, 0, 4, 0, 0, 0, 1, 2, 3, 4] \<and>
    unat start = 0x8100"
  using flatten_pe_image [OF sample_pe_len sample_flat] by force


definition sample_sec :: Section where
  "sample_sec = \<lparr>s_vaddr = 0x8100, s_vsize = 8, s_raw = [1, 2, 3, 4], s_read = True, s_write = True,
     s_exec = False\<rparr>"


end
