(* ===== verification/Net.thy ===== *)
theory Net
  imports Bytes
begin

text \<open>
  The driver independent network code (\<open>kernel/src/net.rs\<close>): packets, the one's complement
  checksum, the parsers for ethernet, IPv4 and UDP, the construction of UDP packets, the
  queues of the bound UDP ports and the delivery of received packets. A driver is a value of
  the record \<open>NetDriver\<close>, one field per method of the trait. The kernel runs on
  little-endian machines with 64-bit \<open>usize\<close>.
\<close>

unbundle bit_operations_syntax

named_theorems net_simps \<open>headers as explicit byte lists\<close>

subsection \<open>Packets\<close>

definition ETHTYPE_IPV4 :: u16 where "ETHTYPE_IPV4 = 0x0800"

definition IPPROTO_UDP :: u8 where "IPPROTO_UDP = 0x11"

type_synonym Ipv4Addr = u32

record Ethernet =
  dst_mac :: bytes
  src_mac :: bytes
  eth_typ :: u16
  eth_payload :: bytes

record Ip =
  ip_eth :: Ethernet
  src_ip :: Ipv4Addr
  dst_ip :: Ipv4Addr
  protocol :: u8
  ip_payload :: bytes

record Udp =
  udp_ip :: Ip
  dst_port :: u16
  src_port :: u16
  udp_payload :: bytes

text \<open>The buffer of a packet is an array of 4096 bytes in contiguous physical memory.\<close>

record Packet =
  pkt_raw :: bytes
  pkt_vaddr :: u64
  pkt_phys :: u64
  pkt_length :: nat

text \<open>The addresses are those of the contiguous allocation.\<close>

definition packet_new :: "u64 \<Rightarrow> u64 \<Rightarrow> Packet" where
  "packet_new vaddr phys = \<lparr>pkt_raw = replicate 4096 0, pkt_vaddr = vaddr, pkt_phys = phys, pkt_length = 0\<rparr>"

definition packet_raw :: "Packet \<Rightarrow> bytes res" where
  "packet_raw p = slice (pkt_raw p) 0 (pkt_length p)"

definition packet_set_len :: "Packet \<Rightarrow> nat \<Rightarrow> Packet res" where
  "packet_set_len p n =
     (if n \<le> 1514 \<and> n \<le> length (pkt_raw p) then Ok (p\<lparr>pkt_length := n\<rparr>)
      else Panic ''set_len() on packet OOB'')"

text \<open>\<open>dst[a..b]\<close> borrowed mutably and edited in place.\<close>

definition edit_range :: "bytes \<Rightarrow> nat \<Rightarrow> nat \<Rightarrow> (bytes \<Rightarrow> bytes res) \<Rightarrow> bytes res" where
  "edit_range dst a b f =
     bindR (slice dst a b) (\<lambda>s. bindR (f s) (\<lambda>s'. Ok (take a dst @ s' @ drop b dst)))"

subsection \<open>The checksum\<close>

text \<open>\<open>u16::to_be\<close> on a little-endian machine.\<close>

definition swap16 :: "u16 \<Rightarrow> u16" where
  "swap16 w = from_be (to_le 2 w)"

fun sum_pairs :: "u32 \<Rightarrow> bytes \<Rightarrow> u32" where
  "sum_pairs c (a # b # bs) = sum_pairs (c + ucast (from_le [a, b] :: u16)) bs"
| "sum_pairs c bs = c"

definition fold_carries :: "u32 \<Rightarrow> u32" where
  "fold_carries c = (c AND 0xffff) + drop_bit 16 c"

definition checksum :: "u32 \<Rightarrow> bytes \<Rightarrow> u16" where
  "checksum c bs =
     (let c = sum_pairs c bs;
          c = (if length bs mod 2 \<noteq> 0
               then c + ucast (push_bit 8 (ucast (bs ! (length bs - 1))) :: u16) else c);
          c = fold_carries c;
          c = fold_carries c
      in swap16 (NOT (ucast c)))"

subsection \<open>Parsing\<close>

text \<open>Reading an integer out of a slice that the index expression checks.\<close>

definition be16 :: "bytes \<Rightarrow> nat \<Rightarrow> u16 option res" where
  "be16 bs a = someR (bindR (slice bs a (a + 2)) (\<lambda>s. Ok (from_be s)))"

definition be32 :: "bytes \<Rightarrow> nat \<Rightarrow> u32 option res" where
  "be32 bs a = someR (bindR (slice bs a (a + 4)) (\<lambda>s. Ok (from_be s)))"

definition packet_eth :: "Packet \<Rightarrow> Ethernet option res" where
  "packet_eth p =
     bindR (packet_raw p) (\<lambda>raw.
     bindO (Ok (get_range raw 0 6)) (\<lambda>dst.
     bindO (Ok (get_range raw 6 0xc)) (\<lambda>src.
     bindO (Ok (get_range raw 0xc 0xe)) (\<lambda>typ.
     bindO (Ok (get_range raw 0xe (length raw))) (\<lambda>payload.
       Ok (Some \<lparr>dst_mac = dst, src_mac = src, eth_typ = from_be typ, eth_payload = payload\<rparr>))))))"

definition packet_ip :: "Packet \<Rightarrow> Ip option res" where
  "packet_ip p =
     bindO (packet_eth p) (\<lambda>eth.
     if eth_typ eth \<noteq> ETHTYPE_IPV4 then Ok None else
     bindO (Ok (get_range (eth_payload eth) 0 20)) (\<lambda>header.
     bindO (someR (nthR header 0)) (\<lambda>h0.
     let version = drop_bit 4 h0 AND 0xf; ihl = drop_bit 0 h0 AND 0xf in
     if version \<noteq> 4 \<or> ihl \<noteq> 5 then Ok None else
     bindO (be16 header 2) (\<lambda>total_length.
     bindO (someR (nthR header 6)) (\<lambda>h6.
     let flags = drop_bit 5 h6 AND 7 in
     if flags AND 5 \<noteq> 0 then Ok None else
     bindO (be16 header 6) (\<lambda>frag.
     if frag AND 0x1fff \<noteq> 0 then Ok None else
     bindO (someR (nthR header 9)) (\<lambda>proto.
     bindO (be32 header 12) (\<lambda>src.
     bindO (be32 header 16) (\<lambda>dst.
     if total_length < 20 \<or> unat total_length > length (eth_payload eth) then Ok None else
     if checksum 0 header \<noteq> 0 then Ok None else
     bindO (someR (slice (eth_payload eth) 20 (unat total_length))) (\<lambda>payload.
       Ok (Some \<lparr>ip_eth = eth, src_ip = src, dst_ip = dst, protocol = proto,
         ip_payload = payload\<rparr>)))))))))))"

text \<open>The part of the UDP checksum that covers the pseudo header.\<close>

definition pseudo_sum :: "Ip \<Rightarrow> u16 \<Rightarrow> u32" where
  "pseudo_sum i len =
     (let s = to_be 4 (src_ip i); d = to_be 4 (dst_ip i);
          c = 0 + ucast (from_le (take 2 s) :: u16);
          c = c + ucast (from_le (take 2 (drop 2 s)) :: u16);
          c = c + ucast (from_le (take 2 d) :: u16);
          c = c + ucast (from_le (take 2 (drop 2 d)) :: u16);
          c = c + ucast (swap16 (ucast (protocol i)));
          c = c + ucast (swap16 len)
      in c)"

definition packet_udp :: "Packet \<Rightarrow> Udp option res" where
  "packet_udp p =
     bindO (packet_ip p) (\<lambda>ip.
     bindO (Ok (get_range (ip_payload ip) 0 8)) (\<lambda>header.
     bindO (be16 header 0) (\<lambda>src.
     bindO (be16 header 2) (\<lambda>dst.
     bindO (be16 header 4) (\<lambda>len.
     bindO (be16 header 6) (\<lambda>orig_checksum.
     if orig_checksum \<noteq> 0 \<and> checksum (pseudo_sum ip len) (ip_payload ip) \<noteq> 0 then Ok None else
     if len < 8 \<or> unat len > length (ip_payload ip) then Ok None else
     bindO (someR (slice (ip_payload ip) 8 (unat len))) (\<lambda>payload.
       Ok (Some \<lparr>udp_ip = ip, dst_port = dst, src_port = src, udp_payload = payload\<rparr>))))))))"

subsection \<open>Construction of a UDP packet\<close>

definition fill_eth :: "bytes \<Rightarrow> bytes \<Rightarrow> bytes \<Rightarrow> bytes res" where
  "fill_eth src dst e =
     bindR (copy_into e 0 6 dst) (\<lambda>e.
     bindR (copy_into e 6 0xc src) (\<lambda>e.
     copy_into e 0xc 0xe (to_be 2 ETHTYPE_IPV4)))"

definition fill_ip :: "Ipv4Addr \<Rightarrow> Ipv4Addr \<Rightarrow> nat \<Rightarrow> bytes \<Rightarrow> bytes res" where
  "fill_ip src dst message_len i =
     bindR (updR i 0 0x45) (\<lambda>i.
     bindR (updR i 1 0) (\<lambda>i.
     bindR (copy_into i 2 4 (to_be 2 (word_of_nat (20 + 8 + message_len) :: u16))) (\<lambda>i.
     bindR (copy_into i 4 8 [0, 0, 0, 0]) (\<lambda>i.
     bindR (updR i 8 64) (\<lambda>i.
     bindR (updR i 9 IPPROTO_UDP) (\<lambda>i.
     bindR (copy_into i 10 12 [0, 0]) (\<lambda>i.
     bindR (copy_into i 12 16 (to_be 4 src)) (\<lambda>i.
     bindR (copy_into i 16 20 (to_be 4 dst)) (\<lambda>i.
     copy_into i 10 12 (to_be 2 (checksum 0 i)))))))))))"

definition fill_udp :: "u16 \<Rightarrow> u16 \<Rightarrow> nat \<Rightarrow> bytes \<Rightarrow> bytes res" where
  "fill_udp src dst message_len u =
     bindR (copy_into u 0 2 (to_be 2 src)) (\<lambda>u.
     bindR (copy_into u 2 4 (to_be 2 dst)) (\<lambda>u.
     bindR (copy_into u 4 6 (to_be 2 (word_of_nat (8 + message_len) :: u16))) (\<lambda>u.
     copy_into u 6 8 [0, 0])))"

definition create_udp_raw :: "Packet \<Rightarrow> bytes \<Rightarrow> bytes \<Rightarrow> Ipv4Addr \<Rightarrow> Ipv4Addr \<Rightarrow> u16 \<Rightarrow> u16 \<Rightarrow> nat
    \<Rightarrow> (nat \<times> Packet) res" where
  "create_udp_raw p src_eth dst_eth src dst sport dport message_len =
     bindR (edit_range (pkt_raw p) 0 14 (fill_eth src_eth dst_eth)) (\<lambda>raw.
     bindR (edit_range raw 14 (14 + 20) (fill_ip src dst message_len)) (\<lambda>raw.
     bindR (edit_range raw (14 + 20) (14 + 20 + 8) (fill_udp sport dport message_len)) (\<lambda>raw.
     bindR (packet_set_len (p\<lparr>pkt_raw := raw\<rparr>) (uadd 64 (14 + 20 + 8) message_len)) (\<lambda>p.
       Ok (14 + 20 + 8, p)))))"

text \<open>\<open>packet.raw_mut()[a..b].copy_from_slice(src)\<close>\<close>

definition packet_write :: "Packet \<Rightarrow> nat \<Rightarrow> nat \<Rightarrow> bytes \<Rightarrow> Packet res" where
  "packet_write p a b src =
     bindR (edit_range (pkt_raw p) 0 (pkt_length p) (\<lambda>s. copy_into s a b src)) (\<lambda>raw.
       Ok (p\<lparr>pkt_raw := raw\<rparr>))"


subsection \<open>The checksum is the one's complement sum\<close>

text \<open>
  The reference: the words of the data in network order, added with an end-around carry.
\<close>

fun be_words :: "bytes \<Rightarrow> nat list" where
  "be_words (a # b # bs) = (256 * unat a + unat b) # be_words bs"
| "be_words bs = []"

definition ones_add :: "nat \<Rightarrow> nat \<Rightarrow> nat" where
  "ones_add a b = (if a + b < 65536 then a + b else a + b - 65535)"

definition ones_sum :: "nat list \<Rightarrow> nat" where
  "ones_sum ws = fold ones_add ws 0"

text \<open>The sum the loop computes, without wrap-around.\<close>

fun le_sum :: "bytes \<Rightarrow> nat" where
  "le_sum (a # b # bs) = unat a + 256 * unat b + le_sum bs"
| "le_sum bs = 0"

lemma unat_from_le2: "unat (from_le [a, b] :: u16) = unat a + 256 * unat b"
proof -
  have d: "and (ucast a :: u16) (push_bit 8 (ucast b)) = 0"
    by (rule bit_word_eqI) (auto simp: bit_and_iff bit_push_bit_iff bit_ucast_iff dest: bit_imp_le_length)
  have "(from_le [a, b] :: u16) = ucast a + push_bit 8 (ucast b)"
    using d by (simp add: disjunctive_add_eq_or)
  moreover have "unat a < 256" "unat b < 256"
    using unsigned_less [of a, where 'a = nat] unsigned_less [of b, where 'a = nat] by simp_all
  ultimately show ?thesis
    by (simp add: unat_word_ariths push_bit_eq_mult unat_ucast_up)
qed

lemma unat_sum_pairs: "unat c + le_sum bs < 2 ^ 32 \<Longrightarrow> unat (sum_pairs c bs) = unat c + le_sum bs"
proof (induction c bs rule: sum_pairs.induct)
  case (1 c a b bs)
  have "unat (ucast (from_le [a, b] :: u16) :: u32) = unat a + 256 * unat b"
    by (simp only: unat_from_le2 unat_ucast_up [where 'a = 16 and 'b = 32] len_num0 len_num1 len_bit0)
  then have "unat (c + ucast (from_le [a, b] :: u16)) = unat c + unat a + 256 * unat b"
    using "1.prems" by (simp only: unat_word_ariths) simp
  with 1 show ?case by (simp del: from_le.simps)
qed simp_all

lemma unat_fold_carries: "unat (fold_carries c) = unat c mod 65536 + unat c div 65536"
proof -
  have "(0xffff :: u32) = mask 16" by (simp add: mask_eq_exp_minus_1)
  then have "c AND 0xffff = take_bit 16 c" by (simp add: take_bit_eq_mask)
  then have u: "unat (c AND 0xffff) = unat c mod 65536" "unat (drop_bit 16 c) = unat c div 65536"
    by (simp_all only: unsigned_take_bit_eq unat_drop_bit_eq) (simp_all add: take_bit_eq_mod drop_bit_eq_div)
  have "unat c < 2 ^ 32" using unsigned_less [of c, where 'a = nat] by simp
  then have "unat c mod 65536 + unat c div 65536 < 2 ^ 32" by simp
  then show ?thesis unfolding fold_carries_def unat_word_ariths u by simp
qed

definition fold2 :: "nat \<Rightarrow> nat" where
  "fold2 n = (let m = n mod 65536 + n div 65536 in m mod 65536 + m div 65536)"

definition swap_nat :: "nat \<Rightarrow> nat" where
  "swap_nat n = 256 * (n mod 256) + n div 256"

lemma unat_swap16: "unat (swap16 w) = swap_nat (unat w)"
proof -
  have "unat w < 65536" using unsigned_less [of w, where 'a = nat] by simp
  then have u: "unat (ucast w :: u8) = unat w mod 256" "unat (ucast (drop_bit 8 w) :: u8) = unat w div 256"
    by (simp_all only: unsigned_ucast_eq unat_drop_bit_eq) (simp_all add: take_bit_eq_mod drop_bit_eq_div)
  have "swap16 w = from_le [ucast (drop_bit 8 w), ucast w]"
    by (simp add: swap16_def from_be_def to_le_def upt_rec del: from_le.simps)
  then show ?thesis by (simp only: unat_from_le2 u swap_nat_def)
qed

lemma unat_not16: "unat (NOT w :: u16) = 65535 - unat w"
proof -
  have "NOT w = - 1 - w" by (simp add: not_eq_complement)
  moreover have "unat (- 1 - w) = unat (- 1 :: u16) - unat w" by (rule unat_sub) simp
  ultimately show ?thesis by (simp add: unsigned_minus_1_eq_mask mask_eq_exp_minus_1)
qed

lemma fold2_bound: "n < 2 ^ 32 \<Longrightarrow> fold2 n \<le> 65535"
proof -
  assume n: "n < 2 ^ 32"
  define m where "m = n mod 65536 + n div 65536"
  have "n div 65536 \<le> 65535" "n mod 65536 \<le> 65535" using n by (simp_all add: less_mult_imp_div_less)
  then have m: "m \<le> 131070" unfolding m_def by linarith
  show ?thesis
  proof (cases "m < 65536")
    case True
    then show ?thesis unfolding fold2_def Let_def m_def [symmetric] by simp
  next
    case False
    then have "m div 65536 = 1" "m mod 65536 = m - 65536" using m by (simp_all add: div_if mod_if)
    then show ?thesis unfolding fold2_def Let_def m_def [symmetric] using m False by linarith
  qed
qed

lemma fold2_mod: "fold2 n mod 65535 = n mod 65535"
proof -
  have *: "(m mod 65536 + m div 65536) mod 65535 = m mod (65535 :: nat)" for m
  proof -
    have "m mod 65535 = (m div 65536 * 65536 + m mod 65536) mod 65535" by simp
    also have "\<dots> = (m div 65536 * 65535 + (m div 65536 + m mod 65536)) mod 65535" by simp
    also have "\<dots> = (m mod 65536 + m div 65536) mod 65535" by (simp only: mod_mult_self3 add.commute)
    finally show ?thesis by simp
  qed
  show ?thesis unfolding fold2_def Let_def * ..
qed

lemma fold2_0: "fold2 n = 0 \<longleftrightarrow> n = 0"
proof -
  have z: "m mod 65536 + m div 65536 = 0 \<longleftrightarrow> m = 0" for m :: nat
    using div_mult_mod_eq [of m 65536] by (metis add_is_0 div_0 mod_0 mult_0)
  show ?thesis unfolding fold2_def Let_def z ..
qed

lemma swap_nat_pair: "b < 256 \<Longrightarrow> swap_nat (256 * a + b) = 256 * b + a"
  by (simp add: swap_nat_def)

lemma byte_pair:
  fixes m :: nat
  assumes "m \<le> 65535"
  obtains a b where "m = 256 * a + b" "a < 256" "b < 256"
proof
  show "m = 256 * (m div 256) + m mod 256" by simp
  show "m div 256 < 256" using assms by (simp add: less_mult_imp_div_less)
qed simp

lemma swap_nat_bound: "m \<le> 65535 \<Longrightarrow> swap_nat m \<le> 65535"
  by (erule byte_pair) (simp add: swap_nat_pair)

lemma swap_nat_0: "swap_nat m = 0 \<longleftrightarrow> m = 0"
  using div_mult_mod_eq [of m 256] by (auto simp: swap_nat_def simp del: div_mult_mod_eq)

lemma swap_nat_compl:
  assumes "m \<le> 65535"
  shows "swap_nat (65535 - m) = 65535 - swap_nat m"
proof -
  obtain a b where m: "m = 256 * a + b" "a < 256" "b < 256" using assms by (rule byte_pair)
  then have "65535 - m = 256 * (255 - a) + (255 - b)" by simp
  then have "swap_nat (65535 - m) = 256 * (255 - b) + (255 - a)" by (simp only: swap_nat_pair)
  also have "\<dots> = 65535 - (256 * b + a)" using m by simp
  finally show ?thesis using m by (simp only: swap_nat_pair)
qed

lemma swap_nat_mod: "swap_nat m mod 65535 = 256 * m mod 65535"
proof -
  define a b where "a = m div 256" and "b = m mod 256"
  then have m: "m = 256 * a + b" "b < 256" by simp_all
  then have "256 * m = a * 65535 + swap_nat m" by (simp add: swap_nat_pair)
  then show ?thesis by simp
qed

text \<open>The sum of all the data, as the code adds it: an odd last byte counts 256 times.\<close>

definition data_sum :: "bytes \<Rightarrow> nat" where
  "data_sum bs = le_sum bs + (if odd (length bs) then 256 * unat (last bs) else 0)"

lemma unat_checksum:
  assumes "unat c + data_sum bs < 2 ^ 32"
  shows "unat (checksum c bs) = 65535 - swap_nat (fold2 (unat c + data_sum bs))"
proof -
  have s: "unat (sum_pairs c bs) = unat c + le_sum bs"
    using assms by (intro unat_sum_pairs) (simp add: data_sum_def)
  define c' where "c' = (if length bs mod 2 \<noteq> 0
    then sum_pairs c bs + ucast (push_bit 8 (ucast (bs ! (length bs - 1))) :: u16) else sum_pairs c bs)"
  have b: "unat (ucast (push_bit 8 (ucast (x :: u8)) :: u16) :: u32) = 256 * unat x" for x
  proof -
    have "push_bit 8 (ucast x) = (from_le [0, x] :: u16)" by simp
    then have "unat (push_bit 8 (ucast x) :: u16) = 256 * unat x" by (simp only: unat_from_le2) simp
    then show ?thesis by (simp only: unat_ucast_up [where 'a = 16 and 'b = 32] len_num0 len_num1 len_bit0)
  qed
  have c': "unat c' = unat c + data_sum bs"
  proof (cases "odd (length bs)")
    case True
    then have "bs \<noteq> []" by auto
    then have "bs ! (length bs - 1) = last bs" by (simp add: last_conv_nth)
    with True have "c' = sum_pairs c bs + ucast (push_bit 8 (ucast (last bs)) :: u16)"
      by (simp add: c'_def odd_iff_mod_2_eq_one)
    then have "unat c' = (unat c + le_sum bs + 256 * unat (last bs)) mod 2 ^ 32"
      by (simp only: unat_word_ariths b s) simp
    with True assms show ?thesis by (simp add: data_sum_def)
  next
    case False
    then show ?thesis by (simp add: c'_def s data_sum_def even_iff_mod_2_eq_zero)
  qed
  have "unat (fold_carries (fold_carries c')) = fold2 (unat c')"
    by (simp only: unat_fold_carries fold2_def Let_def)
  moreover have le: "fold2 (unat c') \<le> 65535" using assms c' by (intro fold2_bound) simp
  ultimately have "unat (ucast (fold_carries (fold_carries c')) :: u16) = fold2 (unat c')"
    by (simp add: unsigned_ucast_eq take_bit_nat_eq_self_iff)
  then have "unat (checksum c bs) = swap_nat (65535 - fold2 (unat c'))"
    unfolding checksum_def Let_def c'_def [symmetric] by (simp only: unat_swap16 unat_not16)
  with le c' show ?thesis by (simp add: swap_nat_compl)
qed

lemma ones_add_le: "a \<le> 65535 \<Longrightarrow> b \<le> 65535 \<Longrightarrow> ones_add a b \<le> 65535"
  by (simp add: ones_add_def le_diff_conv)

lemma ones_add_mod: "ones_add a b mod 65535 = (a + b) mod 65535"
  by (auto simp: ones_add_def le_mod_geq)

lemma ones_add_0: "ones_add a b = 0 \<longleftrightarrow> a + b = 0"
  by (auto simp: ones_add_def)

lemma fold_ones_add:
  assumes "\<forall>w \<in> set ws. w \<le> 65535" "a \<le> 65535"
  shows "fold ones_add ws a \<le> 65535 \<and> fold ones_add ws a mod 65535 = (a + sum_list ws) mod 65535
    \<and> (fold ones_add ws a = 0 \<longleftrightarrow> a + sum_list ws = 0)"
  using assms
proof (induction ws arbitrary: a)
  case (Cons w ws)
  have "(ones_add w a + sum_list ws) mod 65535 = (ones_add w a mod 65535 + sum_list ws) mod 65535"
    by (simp add: mod_add_left_eq)
  also have "\<dots> = (a + (w + sum_list ws)) mod 65535" unfolding ones_add_mod mod_add_left_eq by (simp only: ac_simps)
  finally show ?case using Cons.IH [of "ones_add w a"] Cons.prems
    by (auto simp: ones_add_le ones_add_0)
qed simp

lemma be_words_le: "w \<in> set (be_words bs) \<Longrightarrow> w \<le> 65535"
proof (induction bs rule: be_words.induct)
  case (1 a b bs)
  have "unat a < 256" "unat b < 256"
    using unsigned_less [of a, where 'a = nat] unsigned_less [of b, where 'a = nat] by simp_all
  with 1 show ?case by auto
qed simp_all

lemma be_words_mod: "sum_list (be_words bs) mod 65535 = 256 * le_sum bs mod 65535"
proof (induction bs rule: be_words.induct)
  case (1 a b bs)
  have "256 * le_sum (a # b # bs) mod 65535 = ((unat b * 65535 + (256 * unat a + unat b)) + 256 * le_sum bs) mod 65535"
    by (simp add: algebra_simps)
  also have "\<dots> = ((256 * unat a + unat b) + sum_list (be_words bs)) mod 65535"
    by (rule mod_add_cong) (simp_all only: mod_mult_self3 1)
  finally show ?case by simp
qed simp_all

lemma be_words_0: "sum_list (be_words bs) = 0 \<longleftrightarrow> le_sum bs = 0"
  by (induction bs rule: be_words.induct) auto

lemma eq_mod_unique:
  fixes x y m :: nat
  assumes "x \<le> m" "y \<le> m" "x mod m = y mod m" "x = 0 \<longleftrightarrow> y = 0"
  shows "x = y"
proof -
  have *: "v = m" if "v \<le> m" "v mod m = m mod m" "v \<noteq> 0" for v :: nat
    using that dvd_imp_le [of m v] by (simp add: mod_eq_0_iff_dvd)
  show ?thesis
  proof (cases "x < m \<and> y < m")
    case True
    then show ?thesis using assms(3) by simp
  next
    case False
    then show ?thesis using assms * [of x] * [of y] by (cases "m = 0") auto
  qed
qed

lemmas eq_mod_65535 = eq_mod_unique [of _ 65535]

text \<open>Swapping the bytes of the folded sum gives the sum of the words in network order.\<close>

lemma ones_sum_le: "ones_sum (be_words bs) \<le> 65535"
  using fold_ones_add [of "be_words bs" 0] be_words_le by (auto simp: ones_sum_def)

lemma swap_fold_ones_sum:
  assumes "le_sum bs < 2 ^ 32"
  shows "swap_nat (fold2 (le_sum bs)) = ones_sum (be_words bs)"
proof (rule eq_mod_65535)
  have f: "fold ones_add (be_words bs) 0 \<le> 65535 \<and> fold ones_add (be_words bs) 0 mod 65535 = (0 + sum_list (be_words bs)) mod 65535
    \<and> (fold ones_add (be_words bs) 0 = 0 \<longleftrightarrow> 0 + sum_list (be_words bs) = 0)"
    by (rule fold_ones_add) (auto dest: be_words_le)
  show "swap_nat (fold2 (le_sum bs)) \<le> 65535" by (intro swap_nat_bound fold2_bound assms)
  show "ones_sum (be_words bs) \<le> 65535" using f by (simp add: ones_sum_def)
  have "256 * fold2 (le_sum bs) mod 65535 = 256 * le_sum bs mod 65535"
    by (metis fold2_mod mod_mult_right_eq)
  then show "swap_nat (fold2 (le_sum bs)) mod 65535 = ones_sum (be_words bs) mod 65535"
    using f by (simp add: ones_sum_def swap_nat_mod be_words_mod)
  show "swap_nat (fold2 (le_sum bs)) = 0 \<longleftrightarrow> ones_sum (be_words bs) = 0"
    using conjunct2 [OF conjunct2 [OF f]] unfolding swap_nat_0 fold2_0 ones_sum_def add_0 be_words_0 by (rule sym)
qed

lemma le_sum_bound: "le_sum bs \<le> 65535 * (length bs div 2)"
proof (induction bs rule: le_sum.induct)
  case (1 a b bs)
  have "unat a < 256" "unat b < 256"
    using unsigned_less [of a, where 'a = nat] unsigned_less [of b, where 'a = nat] by simp_all
  with 1 show ?case by simp
qed simp_all

text \<open>With an odd number of bytes the code adds the last one in the position of the low
  byte of a word.\<close>

definition code_padded :: "bytes \<Rightarrow> bytes" where
  "code_padded bs = (if odd (length bs) then butlast bs @ [0, last bs] else bs)"

lemma le_sum_append: "even (length xs) \<Longrightarrow> le_sum (xs @ ys) = le_sum xs + le_sum ys"
  by (induction xs rule: le_sum.induct) simp_all

lemma le_sum_odd: "odd (length xs) \<Longrightarrow> le_sum xs = le_sum (butlast xs)"
  by (induction xs rule: le_sum.induct) auto

lemma data_sum_padded: "data_sum bs = le_sum (code_padded bs)"
  by (auto simp: data_sum_def code_padded_def le_sum_append le_sum_odd)

lemma data_sum_bound: "data_sum bs \<le> 65535 * ((length bs + 1) div 2)"
proof -
  have "length (code_padded bs) \<le> length bs + 1" by (simp add: code_padded_def)
  then have "length (code_padded bs) div 2 \<le> (length bs + 1) div 2" by (rule div_le_mono)
  then have "65535 * (length (code_padded bs) div 2) \<le> 65535 * ((length bs + 1) div 2)" by (rule mult_le_mono2)
  with le_sum_bound [of "code_padded bs"] show ?thesis unfolding data_sum_padded by (rule le_trans)
qed

lemma data_sum_less:
  assumes "length bs \<le> 131070"
  shows "data_sum bs < 2 ^ 32"
proof -
  have "(length bs + 1) div 2 \<le> 65535" using assms by linarith
  then have "65535 * ((length bs + 1) div 2) \<le> 65535 * 65535" by (rule mult_le_mono2)
  with data_sum_bound [of bs] have "data_sum bs \<le> 65535 * 65535" by (rule le_trans)
  also have "\<dots> < (2 :: nat) ^ 32" by simp
  finally show ?thesis .
qed

lemma checksum_value:
  assumes "length bs \<le> 131070"
  shows "unat (checksum 0 bs) = 65535 - ones_sum (be_words (code_padded bs))"
proof -
  have d: "data_sum bs < 2 ^ 32" using assms by (rule data_sum_less)
  then have "unat (checksum 0 bs) = 65535 - swap_nat (fold2 (data_sum bs))" using unat_checksum [of 0 bs] by simp
  also have "swap_nat (fold2 (data_sum bs)) = ones_sum (be_words (code_padded bs))"
    using d unfolding data_sum_padded by (rule swap_fold_ones_sum)
  finally show ?thesis .
qed

text \<open>C14: Over at most 65535 words of data the checksum is the one's complement of the
  one's complement sum of the words in network order. An odd last byte is taken as the low
  half of its word.
\<close>

theorem checksum_ones_complement:
  assumes "length bs \<le> 131070"
  shows "unat (checksum 0 bs) = 65535 - ones_sum (be_words (code_padded bs))"
  using assms by (rule checksum_value)

theorem checksum_ones_complement_witness:
  "length [0x00, 0x01, 0xf2, 0x03, 0xf4, 0xf5, 0xf6, 0xf7 :: u8] \<le> 131070 \<and>
   unat (checksum 0 [0x00, 0x01, 0xf2, 0x03, 0xf4, 0xf5, 0xf6, 0xf7]) = 65535 - 0xddf2"
  using checksum_ones_complement [of "[0x00, 0x01, 0xf2, 0x03, 0xf4, 0xf5, 0xf6, 0xf7]"]
  by (simp add: code_padded_def ones_sum_def ones_add_def)

lemma checksum_cong:
  assumes "data_sum xs = data_sum ys" "data_sum ys < 2 ^ 32"
  shows "checksum 0 xs = checksum 0 ys"
proof -
  have "unat (checksum 0 xs) = unat (checksum 0 ys)"
    using assms unat_checksum [of 0 xs] unat_checksum [of 0 ys] by simp
  then show ?thesis by (simp add: word_unat_eq_iff)
qed

lemma swap_nat_swap: "x \<le> 65535 \<Longrightarrow> swap_nat (swap_nat x) = x"
  by (erule byte_pair) (simp only: swap_nat_pair)

lemma swap_nat_inj:
  assumes "x \<le> 65535" "y \<le> 65535" "swap_nat x = swap_nat y"
  shows "x = y"
proof -
  have "swap_nat (swap_nat x) = swap_nat (swap_nat y)" using assms(3) by (rule arg_cong)
  then show ?thesis unfolding swap_nat_swap [OF assms(1)] swap_nat_swap [OF assms(2)] .
qed

lemma checksum_eqD:
  assumes "checksum 0 xs = checksum 0 ys" "length xs \<le> 131070" "length ys \<le> 131070"
  shows "data_sum xs mod 65535 = data_sum ys mod 65535"
proof -
  have b: "data_sum zs < 2 ^ 32" if "length zs \<le> 131070" for zs
    using that by (rule data_sum_less)
  have f: "fold2 (data_sum xs) \<le> 65535" "fold2 (data_sum ys) \<le> 65535"
    using assms b fold2_bound by blast+
  have "65535 - swap_nat (fold2 (data_sum xs)) = 65535 - swap_nat (fold2 (data_sum ys))"
    using assms b unat_checksum [of 0 xs] unat_checksum [of 0 ys] by simp
  then have "swap_nat (fold2 (data_sum xs)) = swap_nat (fold2 (data_sum ys))"
    using swap_nat_bound [OF f(1)] swap_nat_bound [OF f(2)] by linarith
  then have "fold2 (data_sum xs) = fold2 (data_sum ys)" by (rule swap_nat_inj [OF f])
  then have "fold2 (data_sum xs) mod 65535 = fold2 (data_sum ys) mod 65535" by (rule arg_cong)
  then show ?thesis unfolding fold2_mod .
qed

text \<open>The standard pads data of odd length with a zero byte after the last byte, which does not
  change its checksum. The checksum of the code does not change only when the last byte is zero.
\<close>

theorem checksum_odd_length:
  assumes "odd (length bs)" "length bs < 131070"
  shows "checksum 0 (bs @ [0]) = checksum 0 bs \<longleftrightarrow> last bs = 0"
proof
  have ne: "bs \<noteq> []" using assms by auto
  have ev: "even (length (butlast bs))" using assms by auto
  have e: "bs @ [0] = butlast bs @ [last bs, 0]" using ne by simp
  have "data_sum (bs @ [0]) = le_sum (bs @ [0])" using assms by (simp add: data_sum_def)
  also have "\<dots> = le_sum (butlast bs @ [last bs, 0])" by (simp only: e)
  also have "\<dots> = le_sum (butlast bs) + unat (last bs)" by (simp only: le_sum_append [OF ev]) simp
  finally have d0: "data_sum (bs @ [0]) = le_sum (butlast bs) + unat (last bs)" .
  have d1: "data_sum bs = le_sum (butlast bs) + 256 * unat (last bs)"
    using assms ev by (simp add: data_sum_padded code_padded_def le_sum_append)
  {
    assume "checksum 0 (bs @ [0]) = checksum 0 bs"
    then have "data_sum bs mod 65535 = data_sum (bs @ [0]) mod 65535"
      using assms by (intro checksum_eqD) simp_all
    then have "65535 dvd data_sum bs - data_sum (bs @ [0])"
      using d0 d1 by (simp add: mod_eq_dvd_iff_nat)
    then have "65535 dvd 255 * unat (last bs)" using d0 d1 by simp
    moreover have "255 * unat (last bs) < 65535"
      using unsigned_less [of "last bs", where 'a = nat] by simp
    ultimately show "last bs = 0" using nat_dvd_not_less [of "255 * unat (last bs)" 65535] by (auto simp: unat_eq_0)
  }
  assume "last bs = 0"
  then have "data_sum (bs @ [0]) = data_sum bs" using d0 d1 by simp
  then show "checksum 0 (bs @ [0]) = checksum 0 bs"
    by (rule checksum_cong) (rule data_sum_less, rule less_imp_le, rule assms(2))
qed

theorem checksum_odd_length_witness: "checksum 0 ([0x01] @ [0]) \<noteq> checksum 0 [0x01]"
  using checksum_odd_length [of "[0x01]"] by simp

end
