(* ===== verification/Net_Udp.thy ===== *)
theory Net_Udp
  imports Net
begin

text \<open>
  What the parsers accept and what the constructor of UDP packets writes: a parsed packet is
  within its buffer and has a valid header, and a constructed packet is parsed back.
\<close>

unbundle bit_operations_syntax

subsection \<open>Headers as explicit byte lists\<close>

lemma to_be_2 [net_simps]: "to_be 2 w = [ucast (drop_bit 8 w), ucast w]"
  by (simp add: to_be_def to_le_def upt_rec)

lemma to_be_4 [net_simps]:
  "to_be 4 w = [ucast (drop_bit 24 w), ucast (drop_bit 16 w), ucast (drop_bit 8 w), ucast w]"
  by (simp add: to_be_def to_le_def upt_rec)

lemma fill_eth_Ok:
  assumes "length e = 14" "length src = 6" "length dst = 6"
  shows "fill_eth src dst e = Ok (dst @ src @ [8, 0])"
  using assms by (simp add: fill_eth_def copy_into_def ETHTYPE_IPV4_def to_be_2)

definition ip_header :: "Ipv4Addr \<Rightarrow> Ipv4Addr \<Rightarrow> nat \<Rightarrow> bytes \<Rightarrow> bytes" where
  "ip_header src dst n check = [0x45, 0] @ to_be 2 (word_of_nat (20 + 8 + n) :: u16) @ [0, 0, 0, 0, 64, 0x11] @
     check @ to_be 4 src @ to_be 4 dst"

lemma list_20:
  assumes "length s = 20"
  obtains a b c d e f g h i j k l m n q r t u v w where "s = [a, b, c, d, e, f, g, h, i, j, k, l, m, n, q, r, t, u, v, w]"
  using assms by (auto simp: numeral_eq_Suc length_Suc_conv)

lemma fill_ip_Ok:
  assumes "length s = 20"
  shows "fill_ip src dst n s = Ok (ip_header src dst n (to_be 2 (checksum 0 (ip_header src dst n [0, 0]))))"
  using assms
  by (rule list_20) (simp add: fill_ip_def updR_def copy_into_def IPPROTO_UDP_def net_simps ip_header_def)

lemma list_8:
  assumes "length s = 8"
  obtains a b c d e f g h where "s = [a, b, c, d, e, f, g, h]"
  using assms by (auto simp: numeral_eq_Suc length_Suc_conv)

definition udp_header :: "u16 \<Rightarrow> u16 \<Rightarrow> nat \<Rightarrow> bytes" where
  "udp_header src dst n = to_be 2 src @ to_be 2 dst @ to_be 2 (word_of_nat (8 + n) :: u16) @ [0, 0]"

lemma fill_udp_Ok: "length s = 8 \<Longrightarrow> fill_udp src dst n s = Ok (udp_header src dst n)"
  by (erule list_8) (simp add: fill_udp_def copy_into_def net_simps udp_header_def)

lemma from_be_2 [net_simps]: "from_be [ucast (drop_bit 8 w), ucast w] = (w :: u16)"
  using from_be_to_be [of 2 w] by (simp add: to_be_2)

lemma from_be_4 [net_simps]:
  "from_be [ucast (drop_bit 24 w), ucast (drop_bit 16 w), ucast (drop_bit 8 w), ucast w] = (w :: u32)"
  using from_be_to_be [of 4 w] by (simp add: to_be_4)

lemma from_be_zero [net_simps]: "from_be [0, 0] = (0 :: u16)"
  by (simp add: from_be_def)

subsection \<open>A checksum field that has been filled in is valid\<close>

lemma le_sum_to_be_2: "le_sum (to_be 2 (w :: u16)) = swap_nat (unat w)"
proof -
  have "unat (from_le (to_be 2 w) :: u16) = swap_nat (unat w)"
    using unat_swap16 [of w] unfolding swap16_def from_be_def to_be_def .
  then show ?thesis unfolding to_be_2 unat_from_le2 by simp
qed

lemma checksum_filled:
  assumes "even (length pre)" "even (length suf)" "length pre + length suf \<le> 131068" "le_sum pre \<noteq> 0"
  shows "checksum 0 (pre @ to_be 2 (checksum 0 (pre @ [0, 0] @ suf)) @ suf) = 0"
proof -
  define c where "c = checksum 0 (pre @ [0, 0] @ suf)"
  define k where "k = le_sum pre + le_sum suf"
  have ds: "data_sum (pre @ m @ suf) = k + le_sum m" if "length m = 2" for m
    using assms that by (simp add: data_sum_def le_sum_append k_def)
  have lt: "data_sum (pre @ m @ suf) < 2 ^ 32" if "length m = 2" for m
    using assms that by (intro data_sum_less) simp
  have f: "fold2 k \<le> 65535" using lt [of "[0, 0]"] ds [of "[0, 0]"] by (intro fold2_bound) simp
  have "unat c = 65535 - swap_nat (fold2 k)"
    using unat_checksum [of 0 "pre @ [0, 0] @ suf"] lt [of "[0, 0]"] ds [of "[0, 0]"] by (simp add: c_def)
  also have "\<dots> = swap_nat (65535 - fold2 k)" by (rule swap_nat_compl [OF f, symmetric])
  finally have "le_sum (to_be 2 c) = 65535 - fold2 k"
    unfolding le_sum_to_be_2 by (simp only: swap_nat_swap diff_le_self)
  then have n: "data_sum (pre @ to_be 2 c @ suf) = k + (65535 - fold2 k)" (is "?n = _") using ds [of "to_be 2 c"] by simp
  have "fold2 ?n = 65535"
  proof (rule eq_mod_65535)
    show "fold2 ?n \<le> 65535" using lt by (intro fold2_bound) simp
    have "fold2 ?n mod 65535 = (k mod 65535 + (65535 - fold2 k)) mod 65535"
      unfolding fold2_mod n mod_add_left_eq ..
    also have "\<dots> = (fold2 k + (65535 - fold2 k)) mod 65535"
      unfolding fold2_mod [of k, symmetric] mod_add_left_eq ..
    also have "fold2 k + (65535 - fold2 k) = 65535" using f by simp
    finally show "fold2 ?n mod 65535 = 65535 mod 65535" .
    have "?n \<noteq> 0" using n assms(4) by (simp add: k_def)
    then show "fold2 ?n = 0 \<longleftrightarrow> 65535 = (0 :: nat)" unfolding fold2_0 by simp
  qed simp
  then have "unat (checksum 0 (pre @ to_be 2 c @ suf)) = 65535 - swap_nat 65535"
    using unat_checksum [of 0 "pre @ to_be 2 c @ suf"] lt [of "to_be 2 c"] by simp
  then show ?thesis by (simp add: c_def swap_nat_def unat_eq_0)
qed

lemma ip_header_valid: "checksum 0 (ip_header src dst n (to_be 2 (checksum 0 (ip_header src dst n [0, 0])))) = 0"
proof -
  define pre where "pre = [0x45, 0] @ to_be 2 (word_of_nat (20 + 8 + n) :: u16) @ [0, 0, 0, 0, 64, 0x11]"
  have "checksum 0 (pre @ to_be 2 (checksum 0 (pre @ [0, 0] @ (to_be 4 src @ to_be 4 dst))) @ (to_be 4 src @ to_be 4 dst)) = 0"
    by (rule checksum_filled) (simp_all add: pre_def to_be_2)
  then show ?thesis by (simp add: ip_header_def pre_def)
qed

subsection \<open>Construction and parsing are inverse\<close>

definition packet_ok :: "Packet \<Rightarrow> bool" where
  "packet_ok p \<longleftrightarrow> length (pkt_raw p) = 4096 \<and> pkt_length p \<le> 1514"

lemma packet_raw_Ok: "packet_ok p \<Longrightarrow> packet_raw p = Ok (take (pkt_length p) (pkt_raw p))"
  by (simp add: packet_raw_def packet_ok_def)

lemma edit_range_Ok:
  "a \<le> b \<Longrightarrow> b \<le> length dst \<Longrightarrow> f (take (b - a) (drop a dst)) = Ok s \<Longrightarrow>
   edit_range dst a b f = Ok (take a dst @ s @ drop b dst)"
  by (simp add: edit_range_def)

definition frame_header :: "bytes \<Rightarrow> bytes \<Rightarrow> Ipv4Addr \<Rightarrow> Ipv4Addr \<Rightarrow> u16 \<Rightarrow> u16 \<Rightarrow> nat \<Rightarrow> bytes" where
  "frame_header src_eth dst_eth src dst sport dport n =
     (dst_eth @ src_eth @ [8, 0]) @ ip_header src dst n (to_be 2 (checksum 0 (ip_header src dst n [0, 0]))) @
     udp_header sport dport n"

lemma length_headers [simp]:
  "length (udp_header sport dport n) = 8"
  "length (ip_header src dst n check) = 18 + length check"
  by (simp_all add: udp_header_def ip_header_def)

lemma length_frame_header [simp]:
  "length src_eth = 6 \<Longrightarrow> length dst_eth = 6 \<Longrightarrow> length (frame_header src_eth dst_eth src dst sport dport n) = 42"
  by (simp add: frame_header_def)

lemma create_udp_raw_eq:
  assumes "length (pkt_raw p) = 4096" "length src_eth = 6" "length dst_eth = 6"
  shows "create_udp_raw p src_eth dst_eth src dst sport dport n =
    bindR (packet_set_len (p\<lparr>pkt_raw := frame_header src_eth dst_eth src dst sport dport n @ drop 42 (pkt_raw p)\<rparr>) (uadd 64 42 n))
      (\<lambda>p. Ok (42, p))"
proof -
  define h where "h = ip_header src dst n (to_be 2 (checksum 0 (ip_header src dst n [0, 0])))"
  define e where "e = dst_eth @ src_eth @ [8, 0 :: u8]"
  have l: "length h = 20" "length e = 14" using assms by (simp_all add: h_def e_def)
  have 1: "edit_range (pkt_raw p) 0 14 (fill_eth src_eth dst_eth) = Ok (e @ drop 14 (pkt_raw p))"
    using assms by (subst edit_range_Ok [where s = e]) (simp_all add: fill_eth_Ok e_def)
  have 2: "edit_range (e @ drop 14 (pkt_raw p)) 14 (14 + 20) (fill_ip src dst n) = Ok (e @ h @ drop 34 (pkt_raw p))"
    using assms l by (subst edit_range_Ok [where s = h]) (simp_all add: fill_ip_Ok h_def)
  have 3: "edit_range (e @ h @ drop 34 (pkt_raw p)) (14 + 20) (14 + 20 + 8) (fill_udp sport dport n)
      = Ok (e @ h @ udp_header sport dport n @ drop 42 (pkt_raw p))"
    using assms l by (subst edit_range_Ok [where s = "udp_header sport dport n"]) (simp_all add: fill_udp_Ok)
  show ?thesis unfolding create_udp_raw_def 1 bindR_simps 2 3 frame_header_def h_def [symmetric] e_def [symmetric]
    by simp
qed

lemma packet_set_len_Ok: "n \<le> 1514 \<Longrightarrow> length (pkt_raw p) = 4096 \<Longrightarrow> packet_set_len p n = Ok (p\<lparr>pkt_length := n\<rparr>)"
  by (simp add: packet_set_len_def)

lemma packet_write_Ok:
  assumes "b = a + length src" "b \<le> pkt_length p" "pkt_length p \<le> length (pkt_raw p)"
  shows "packet_write p a b src = Ok (p\<lparr>pkt_raw := take a (pkt_raw p) @ src @ drop b (pkt_raw p)\<rparr>)"
proof -
  have t: "drop b (take (pkt_length p) (pkt_raw p)) @ drop (pkt_length p) (pkt_raw p) = drop b (pkt_raw p)"
  proof -
    have "drop b (take (pkt_length p) (pkt_raw p) @ drop (pkt_length p) (pkt_raw p))
        = drop b (take (pkt_length p) (pkt_raw p)) @ drop (pkt_length p) (pkt_raw p)"
      using assms by (simp only: drop_append) simp
    then show ?thesis by simp
  qed
  show ?thesis unfolding packet_write_def
    using assms t
    by (subst edit_range_Ok [where s = "take a (pkt_raw p) @ src @ drop b (take (pkt_length p) (pkt_raw p))"])
      (simp_all add: copy_into_def min_def)
qed

lemma parse_frame:
  assumes len: "length src_eth = 6" "length dst_eth = 6" "length msg \<le> 1472"
    and raw: "packet_raw p = Ok (frame_header src_eth dst_eth src dst sport dport (length msg) @ msg)"
  defines "payload \<equiv> udp_header sport dport (length msg) @ msg"
  defines "h \<equiv> ip_header src dst (length msg) (to_be 2 (checksum 0 (ip_header src dst (length msg) [0, 0])))"
  shows "packet_udp p = Ok (Some \<lparr>udp_ip = \<lparr>ip_eth = \<lparr>dst_mac = dst_eth, src_mac = src_eth, eth_typ = ETHTYPE_IPV4,
      eth_payload = h @ payload\<rparr>, src_ip = src, dst_ip = dst, protocol = IPPROTO_UDP, ip_payload = payload\<rparr>,
      dst_port = dport, src_port = sport, udp_payload = msg\<rparr>)"
proof -
  have lh: "length h = 20" and v: "checksum 0 h = 0" by (simp_all add: h_def ip_header_valid)
  define E where "E = \<lparr>dst_mac = dst_eth, src_mac = src_eth, eth_typ = ETHTYPE_IPV4, eth_payload = h @ payload\<rparr>"
  define I where "I = \<lparr>ip_eth = E, src_ip = src, dst_ip = dst, protocol = IPPROTO_UDP, ip_payload = payload\<rparr>"
  have r: "frame_header src_eth dst_eth src dst sport dport (length msg) @ msg = dst_eth @ src_eth @ [8, 0] @ h @ payload"
    by (simp add: frame_header_def h_def payload_def)
  have 1: "packet_eth p = Ok (Some E)"
    unfolding packet_eth_def raw r using len lh
    by (simp add: get_range_def E_def from_be_def ETHTYPE_IPV4_def)
  have w: "unat (word_of_nat (28 + length msg) :: u16) = 28 + length msg"
    "unat (word_of_nat (8 + length msg) :: u16) = 8 + length msg"
    using len by (simp_all only: unat_of_nat) simp_all
  have g: "get_range (h @ payload) 0 20 = Some h" using lh by (simp add: get_range_def)
  have lp: "length payload = 8 + length msg" by (simp add: payload_def)
  define c where "c = checksum 0 (ip_header src dst (length msg) [0, 0])"
  have hx: "h = [0x45, 0] @ to_be 2 (word_of_nat (28 + length msg) :: u16) @ [0, 0, 0, 0, 64, 0x11] @ to_be 2 c @ to_be 4 src @ to_be 4 dst"
    by (simp add: h_def ip_header_def c_def)
  have f: "nthR h 0 = Ok 0x45" "be16 h 2 = Ok (Some (word_of_nat (28 + length msg)))" "nthR h 6 = Ok 0"
    "be16 h 6 = Ok (Some 0)" "nthR h 9 = Ok 0x11" "be32 h 12 = Ok (Some src)" "be32 h 16 = Ok (Some dst)"
    unfolding hx to_be_2 to_be_4 append.simps be16_def be32_def slice_def get_range_def nthR_def
    by (simp_all add: from_be_2 [unfolded of_nat_add] from_be_4 from_be_zero)
  have 2: "packet_ip p = Ok (Some I)"
    unfolding packet_ip_def 1 using lh v w lp
    by (simp add: E_def I_def g f IPPROTO_UDP_def word_less_nat_alt word_le_nat_alt)
  let ?u = "udp_header sport dport (length msg)"
  have gu: "get_range payload 0 8 = Some ?u" by (simp add: payload_def get_range_def)
  have fu: "be16 ?u 0 = Ok (Some sport)" "be16 ?u 2 = Ok (Some dport)"
    "be16 ?u 4 = Ok (Some (word_of_nat (8 + length msg)))" "be16 ?u 6 = Ok (Some 0)"
    unfolding udp_header_def to_be_2 append.simps be16_def slice_def get_range_def
    by (simp_all add: from_be_2 [unfolded of_nat_add] from_be_zero)
  have "packet_udp p = Ok (Some \<lparr>udp_ip = I, dst_port = dport, src_port = sport, udp_payload = msg\<rparr>)"
    unfolding packet_udp_def 2 using w lp
    by (simp add: I_def gu fu word_less_nat_alt word_le_nat_alt) (simp add: payload_def)
  then show ?thesis by (simp add: I_def E_def)
qed

text \<open>C15: A UDP packet that is constructed for a message of at most 1472 bytes, and whose message
  is then written at the returned offset, is parsed back to the same addresses, ports and
  message.
\<close>

theorem udp_round_trip:
  assumes "packet_ok p" "length src_eth = 6" "length dst_eth = 6" "length msg \<le> 1472"
  shows "\<exists>p1 p2 u. create_udp_raw p src_eth dst_eth src dst sport dport (length msg) = Ok (42, p1) \<and>
    packet_write p1 42 (42 + length msg) msg = Ok p2 \<and> packet_ok p2 \<and> pkt_phys p2 = pkt_phys p \<and>
    packet_udp p2 = Ok (Some u) \<and> udp_payload u = msg \<and> src_port u = sport \<and> dst_port u = dport \<and>
    src_ip (udp_ip u) = src \<and> dst_ip (udp_ip u) = dst \<and> protocol (udp_ip u) = IPPROTO_UDP \<and>
    src_mac (ip_eth (udp_ip u)) = src_eth \<and> dst_mac (ip_eth (udp_ip u)) = dst_eth"
proof -
  let ?n = "length msg" and ?h = "frame_header src_eth dst_eth src dst sport dport (length msg)"
  have p: "length (pkt_raw p) = 4096" using assms by (simp add: packet_ok_def)
  define p1 where "p1 = p\<lparr>pkt_raw := ?h @ drop 42 (pkt_raw p), pkt_length := 42 + ?n\<rparr>"
  define p2 where "p2 = p1\<lparr>pkt_raw := ?h @ msg @ drop (42 + ?n) (pkt_raw p)\<rparr>"
  have "uadd 64 42 ?n = 42 + ?n" using assms(4) by simp
  then have 1: "create_udp_raw p src_eth dst_eth src dst sport dport ?n = Ok (42, p1)"
    using assms p by (simp add: create_udp_raw_eq packet_set_len_Ok p1_def)
  have 2: "packet_write p1 42 (42 + ?n) msg = Ok p2"
    using assms p by (simp add: packet_write_Ok p1_def p2_def ac_simps)
  have 3: "packet_ok p2" "pkt_phys p2 = pkt_phys p" using assms p by (simp_all add: p1_def p2_def packet_ok_def)
  then have "packet_raw p2 = Ok (?h @ msg)" using assms by (simp add: packet_raw_Ok) (simp add: p1_def p2_def)
  from 1 2 3 parse_frame [OF assms(2-4) this] show ?thesis by auto
qed

theorem udp_round_trip_witness:
  "\<exists>p1 p2 u. create_udp_raw (packet_new 0 0) [1, 2, 3, 4, 5, 6] [7, 8, 9, 10, 11, 12] 0 (- 1) 68 67 (length [1, 2, 3 :: u8])
      = Ok (42, p1) \<and> packet_write p1 42 45 [1, 2, 3] = Ok p2 \<and>
    packet_udp p2 = Ok (Some u) \<and> udp_payload u = [1, 2, 3] \<and> dst_port u = 67"
  using udp_round_trip [of "packet_new 0 0" "[1, 2, 3, 4, 5, 6]" "[7, 8, 9, 10, 11, 12]" "[1, 2, 3]" 0 "- 1" 68 67]
  by (auto simp: packet_ok_def packet_new_def)

text \<open>A packet of \<open>create_udp_raw\<close> never exceeds the length of an ethernet frame: a message of
  more than 1472 bytes makes it panic.
\<close>

theorem create_udp_raw_too_long:
  assumes "packet_ok p" "length src_eth = 6" "length dst_eth = 6" "1472 < n" "n < 2 ^ 64 - 42"
  shows "create_udp_raw p src_eth dst_eth src dst sport dport n = Panic ''set_len() on packet OOB''"
proof -
  have "uadd 64 42 n = 42 + n" using assms(5) by simp
  then show ?thesis using assms by (simp add: create_udp_raw_eq packet_ok_def packet_set_len_def)
qed

theorem create_udp_raw_too_long_witness:
  "create_udp_raw (packet_new 0 0) [1, 2, 3, 4, 5, 6] [7, 8, 9, 10, 11, 12] 0 (- 1) 68 67 1473
    = Panic ''set_len() on packet OOB''"
  using create_udp_raw_too_long [of "packet_new 0 0" "[1, 2, 3, 4, 5, 6]" "[7, 8, 9, 10, 11, 12]" 1473 0 "- 1" 68 67]
  by (simp add: packet_ok_def packet_new_def)

subsection \<open>What the parsers accept\<close>

lemma be16_Ok [simp]: "a + 2 \<le> length bs \<Longrightarrow> be16 bs a = Ok (Some (from_be (take 2 (drop a bs))))"
  by (simp add: be16_def)

lemma be32_Ok [simp]: "a + 4 \<le> length bs \<Longrightarrow> be32 bs a = Ok (Some (from_be (take 4 (drop a bs))))"
  by (simp add: be32_def)

lemma checksum_zeroD: "checksum 0 bs = 0 \<Longrightarrow> length bs \<le> 131070 \<Longrightarrow> ones_sum (be_words (code_padded bs)) = 65535"
  using checksum_value [of bs] ones_sum_le [of "code_padded bs"] by simp

lemma version_ihl:
  assumes "drop_bit 4 h AND 0xf = 4" "drop_bit 0 h AND 0xf = (5 :: u8)"
  shows "h = 0x45"
proof -
  have m: "(0xf :: u8) = mask 4" by (simp add: mask_eq_exp_minus_1)
  have "take_bit 4 (drop_bit 4 h) = 4" "take_bit 4 h = 5"
    using assms unfolding m by (simp_all only: take_bit_eq_mask drop_bit_0 id_apply)
  then have "unat (take_bit 4 (drop_bit 4 h)) = 4" "unat (take_bit 4 h) = 5" by simp_all
  then have "unat h div 16 mod 16 = 4" "unat h mod 16 = 5"
    unfolding unsigned_take_bit_eq unat_drop_bit_eq by (simp_all add: take_bit_eq_mod drop_bit_eq_div)
  moreover have "unat h div 16 < 16" using unsigned_less [of h, where 'a = nat] by (intro less_mult_imp_div_less) simp
  ultimately have "unat h div 16 = 4" "unat h mod 16 = 5" by simp_all
  then have "unat h = 69" using div_mult_mod_eq [of "unat h" 16] by simp
  then show ?thesis by (simp add: word_unat_eq_iff)
qed

text \<open>The layers of a frame \<open>f\<close>: where each one starts and ends.\<close>

definition eth_layer :: "bytes \<Rightarrow> Ethernet \<Rightarrow> bool" where
  "eth_layer f e \<longleftrightarrow> 14 \<le> length f \<and> dst_mac e = take 6 f \<and> src_mac e = take 6 (drop 6 f) \<and>
     eth_typ e = from_be (take 2 (drop 12 f)) \<and> eth_payload e = drop 14 f"

definition ip_layer :: "bytes \<Rightarrow> Ip \<Rightarrow> bool" where
  "ip_layer f i \<longleftrightarrow> eth_layer f (ip_eth i) \<and> eth_typ (ip_eth i) = ETHTYPE_IPV4 \<and> f ! 14 = 0x45 \<and>
     ones_sum (be_words (take 20 (drop 14 f))) = 65535 \<and>
     (\<exists>total. 20 \<le> total \<and> 14 + total \<le> length f \<and> total = unat (from_be (take 2 (drop 16 f)) :: u16) \<and>
        ip_payload i = take (total - 20) (drop 34 f))"

definition udp_layer :: "bytes \<Rightarrow> Udp \<Rightarrow> bool" where
  "udp_layer f u \<longleftrightarrow> ip_layer f (udp_ip u) \<and> dst_port u = from_be (take 2 (drop 36 f)) \<and>
     (\<exists>len. 8 \<le> len \<and> len \<le> length (ip_payload (udp_ip u)) \<and> len = unat (from_be (take 2 (drop 38 f)) :: u16) \<and>
        udp_payload u = take (len - 8) (drop 42 f))"

lemma packet_eth_total:
  assumes "packet_ok p" "f = take (pkt_length p) (pkt_raw p)"
  shows "\<exists>r. packet_eth p = Ok r \<and> (\<forall>e. r = Some e \<longrightarrow> eth_layer f e)"
  using assms by (simp add: packet_eth_def packet_raw_Ok get_range_def eth_layer_def)

lemma packet_ip_total:
  assumes "packet_ok p" "f = take (pkt_length p) (pkt_raw p)"
  shows "\<exists>r. packet_ip p = Ok r \<and> (\<forall>i. r = Some i \<longrightarrow> ip_layer f i)"
proof -
  obtain r where r: "packet_eth p = Ok r" "\<And>e. r = Some e \<Longrightarrow> eth_layer f e"
    using packet_eth_total [OF assms] by auto
  show ?thesis
  proof (cases "\<exists>e. r = Some e \<and> eth_typ e = ETHTYPE_IPV4 \<and> 34 \<le> length f")
    case False
    show ?thesis
    proof (cases r)
      case (Some e)
      with r have "eth_layer f e" by simp
      with False Some r show ?thesis by (auto simp: packet_ip_def get_range_def eth_layer_def)
    qed (use r in \<open>auto simp: packet_ip_def\<close>)
  next
    case True
    then obtain e where e: "r = Some e" "eth_typ e = ETHTYPE_IPV4" "34 \<le> length f" "eth_layer f e"
      using r by auto
    define h where "h = take 20 (drop 14 f)"
    have h: "length h = 20" "get_range (eth_payload e) 0 20 = Some h" "h ! 0 = f ! 14" "take 2 (drop 2 h) = take 2 (drop 16 f)"
      using e by (simp_all add: h_def get_range_def eth_layer_def drop_take)
    have pl: "length (eth_payload e) = length f - 14" "eth_payload e = drop 14 f" using e by (simp_all add: eth_layer_def)
    have c: "code_padded h = h" by (simp add: code_padded_def h)
    have cs: "ones_sum (be_words (take 20 (drop 14 f))) = 65535" if "checksum 0 h = 0"
      using checksum_zeroD [OF that] c h by (simp add: h_def [symmetric])
    have v: "f ! 14 = 0x45" if "drop_bit 4 (f ! 14) AND 15 = 4" "f ! 14 AND 15 = 5"
      using that by (intro version_ihl) simp_all
    define t where "t = unat (from_be (take 2 (drop 16 f)) :: u16)"
    have sl: "slice (drop 14 f) 20 t = Ok (take (t - 20) (drop 34 f))" if "20 \<le> t" "t \<le> length f - 14"
      using that e by simp
    have layer: "ip_layer f \<lparr>ip_eth = e, src_ip = s, dst_ip = d, protocol = pr, ip_payload = take (t - 20) (drop 34 f)\<rparr>"
      if "checksum 0 h = 0" "20 \<le> t" "t \<le> length f - 14" "drop_bit 4 (f ! 14) AND 15 = 4" "f ! 14 AND 15 = 5" for s d pr
      unfolding ip_layer_def using that e cs v t_def by auto
    show ?thesis unfolding packet_ip_def r(1) e(1) bindO_simps using h e(2-)
      by (simp add: Let_def pl word_less_nat_alt t_def [symmetric] not_less) (intro impI, simp add: sl layer)
  qed
qed


lemma packet_udp_total:
  assumes "packet_ok p" "f = take (pkt_length p) (pkt_raw p)"
  shows "\<exists>r. packet_udp p = Ok r \<and> (\<forall>u. r = Some u \<longrightarrow> udp_layer f u)"
proof -
  obtain r where r: "packet_ip p = Ok r" "\<And>i. r = Some i \<Longrightarrow> ip_layer f i"
    using packet_ip_total [OF assms] by auto
  show ?thesis
  proof (cases r)
    case (Some i)
    with r have i: "ip_layer f i" by simp
    then obtain t where t: "20 \<le> t" "14 + t \<le> length f" "ip_payload i = take (t - 20) (drop 34 f)"
      by (auto simp: ip_layer_def)
    show ?thesis
    proof (cases "8 \<le> length (ip_payload i)")
      case True
      define h where "h = take 8 (ip_payload i)"
      have g: "length h = 8" "get_range (ip_payload i) 0 8 = Some h" using True by (simp_all add: h_def get_range_def)
      have d: "take 2 (drop 2 h) = take 2 (drop 36 f)" "take 2 (drop 4 h) = take 2 (drop 38 f)"
        using True t by (simp_all add: h_def drop_take min_absorb1)
      define n where "n = unat (from_be (take 2 (drop 38 f)) :: u16)"
      have sl: "take (n - 8) (drop 8 (ip_payload i)) = take (n - 8) (drop 42 f)" if "8 \<le> n" "n \<le> length (ip_payload i)"
        using that t by (simp add: drop_take min_absorb1)
      have layer: "udp_layer f \<lparr>udp_ip = i, dst_port = from_be (take 2 (drop 36 f)), src_port = s,
          udp_payload = take (n - 8) (drop 42 f)\<rparr>" if "8 \<le> n" "n \<le> length (ip_payload i)" for s
        unfolding udp_layer_def using that i n_def by auto
      show ?thesis unfolding packet_udp_def r(1) Some bindO_simps
        by (simp add: g d word_less_nat_alt n_def [symmetric] not_less) (intro conjI impI, simp_all add: sl layer)
    next
      case False
      with r Some show ?thesis by (auto simp: packet_udp_def get_range_def)
    qed
  qed (use r in \<open>auto simp: packet_udp_def\<close>)
qed


text \<open>C16: Parsing a received packet never panics. When it is accepted, every layer lies within the
  received bytes: the payload is the part of the frame the two length fields delimit, the
  version and header length are the supported ones and the header has a valid checksum.
\<close>

theorem packet_udp_sound:
  assumes "packet_ok p"
  shows "\<exists>r. packet_udp p = Ok r \<and> (\<forall>u. r = Some u \<longrightarrow> udp_layer (take (pkt_length p) (pkt_raw p)) u)"
  using packet_udp_total [OF assms refl] .

theorem packet_udp_sound_witness:
  "\<exists>r. packet_udp (packet_new 0 0) = Ok r \<and> packet_ok (packet_new 0 0)"
  using packet_udp_sound [of "packet_new 0 0"] by (auto simp: packet_ok_def packet_new_def)

text \<open>An IP packet with the protocol number of TCP whose payload has the shape of a UDP datagram.\<close>

definition tcp_frame :: bytes where
  "tcp_frame = [1, 2, 3, 4, 5, 6, 7, 8, 9, 10, 11, 12, 8, 0] @
     [0x45, 0, 0, 28, 0, 0, 0, 0, 64, 6, 0x66, 0xda, 10, 0, 0, 1, 10, 0, 0, 2] @ [0, 68, 0, 67, 0, 8, 0, 0]"

definition tcp_packet :: Packet where
  "tcp_packet = \<lparr>pkt_raw = tcp_frame @ replicate 4054 0, pkt_vaddr = 0, pkt_phys = 0, pkt_length = 42\<rparr>"

lemma tcp_packet_raw: "packet_raw tcp_packet = Ok tcp_frame"
  by (simp add: packet_raw_def tcp_packet_def tcp_frame_def)

text \<open>The protocol field of the IP header is not checked: a packet of another protocol (here 6,
  TCP) is delivered as a UDP datagram.
\<close>

theorem packet_udp_ignores_protocol:
  "packet_ok tcp_packet \<and>
   (case packet_udp tcp_packet of Ok (Some u) \<Rightarrow> protocol (udp_ip u) = 6 \<and> dst_port u = 67 | _ \<Rightarrow> False)"
proof
  show "packet_ok tcp_packet" by (simp add: packet_ok_def tcp_packet_def tcp_frame_def)
  show "case packet_udp tcp_packet of Ok (Some u) \<Rightarrow> protocol (udp_ip u) = 6 \<and> dst_port u = 67 | _ \<Rightarrow> False"
    unfolding packet_udp_def packet_ip_def packet_eth_def tcp_packet_raw by code_simp
qed

end
