(* ===== verification/NetDevice.thy ===== *)
theory NetDevice
  imports Net_Udp
begin

text \<open>
  The network device of \<open>kernel/src/net.rs\<close>: the queues of the bound UDP ports and the
  delivery of received packets, over the methods of a driver. The contract of a driver is the
  locale \<open>net_driver\<close>; the delivery is proved correct for every driver that keeps it.
\<close>

subsection \<open>Drivers and devices\<close>

text \<open>
  The trait \<open>NetDriver\<close>. A lease returns its packet with \<open>drv_release\<close> when it is dropped.
  The methods may wait for the hardware or walk page tables, so they may not return.
\<close>

record 'd NetDriver =
  drv_mac :: "'d \<Rightarrow> bytes"
  drv_recv :: "'d \<Rightarrow> (Packet option \<times> 'd) res option"
  drv_send :: "'d \<Rightarrow> Packet \<Rightarrow> 'd res option"
  drv_allocate :: "'d \<Rightarrow> (Packet \<times> 'd) res option"
  drv_release :: "'d \<Rightarrow> Packet \<Rightarrow> 'd res option"

record 'd NetDevice =
  nd_driver :: 'd
  nd_mac :: bytes
  udp_binds :: "u16 \<Rightarrow> Packet list option"

text \<open>The device before its lease is requested.\<close>

definition net_device :: "'d NetDriver \<Rightarrow> 'd \<Rightarrow> 'd NetDevice" where
  "net_device ops d = \<lparr>nd_driver = d, nd_mac = drv_mac ops d, udp_binds = (\<lambda>_. None)\<rparr>"

text \<open>A bind is its port.\<close>

definition bind_udp :: "'d NetDevice \<Rightarrow> u16 \<Rightarrow> u16 option \<times> 'd NetDevice" where
  "bind_udp dev port =
     (if udp_binds dev port = None then (Some port, dev\<lparr>udp_binds := (udp_binds dev)(port \<mapsto> [])\<rparr>)
      else (None, dev))"

definition unbind_udp :: "'d NetDriver \<Rightarrow> 'd NetDevice \<Rightarrow> u16 \<Rightarrow> 'd NetDevice res option" where
  "unbind_udp ops dev port =
     bindD (Some (expectR ''called `Option::unwrap()` on a `None` value'' (udp_binds dev port))) (\<lambda>queued_packets.
     bindD (foldD (drv_release ops) (nd_driver dev) queued_packets) (\<lambda>d.
       Some (Ok (dev\<lparr>nd_driver := d, udp_binds := (udp_binds dev)(port := None)\<rparr>))))"

text \<open>The closure \<open>func\<close> reads and updates the variables \<open>c\<close> it captures.\<close>

definition recv_udp :: "'d NetDriver \<Rightarrow> 'd NetDevice \<Rightarrow> u16 \<Rightarrow> (Packet \<Rightarrow> Udp \<Rightarrow> 'c \<Rightarrow> 't option \<times> 'c) \<Rightarrow> 'c
    \<Rightarrow> ('t option \<times> 'c \<times> 'd NetDevice) res option" where
  "recv_udp ops dev port func c =
     bindD (Some (expectR ''called `Option::unwrap()` on a `None` value'' (udp_binds dev port))) (\<lambda>ent.
     case ent of
       packet # rest \<Rightarrow>
         bindD (Some (packet_udp packet)) (\<lambda>u.
         bindD (Some (expectR ''called `Option::unwrap()` on a `None` value'' u)) (\<lambda>u.
         let (ret, c') = func packet u c in
         bindD (drv_release ops (nd_driver dev) packet) (\<lambda>d.
           Some (Ok (ret, c', dev\<lparr>nd_driver := d, udp_binds := (udp_binds dev)(port \<mapsto> rest)\<rparr>)))))
     | [] \<Rightarrow>
         bindD (drv_recv ops (nd_driver dev)) (\<lambda>(packet, d).
         case packet of
           None \<Rightarrow> Some (Ok (None, c, dev\<lparr>nd_driver := d\<rparr>))
         | Some packet \<Rightarrow>
             bindD (Some (packet_udp packet)) (\<lambda>u.
             case u of
               None \<Rightarrow> bindD (drv_release ops d packet) (\<lambda>d. Some (Ok (None, c, dev\<lparr>nd_driver := d\<rparr>)))
             | Some u \<Rightarrow>
                 if dst_port u = port then
                   let (ret, c') = func packet u c in
                   bindD (drv_release ops d packet) (\<lambda>d. Some (Ok (ret, c', dev\<lparr>nd_driver := d\<rparr>)))
                 else
                   (case udp_binds dev (dst_port u) of
                      None \<Rightarrow> bindD (drv_release ops d packet) (\<lambda>d. Some (Ok (None, c, dev\<lparr>nd_driver := d\<rparr>)))
                    | Some q \<Rightarrow> Some (Ok (None, c, dev\<lparr>nd_driver := d,
                        udp_binds := (udp_binds dev)(dst_port u \<mapsto> q @ [packet])\<rparr>))))))"

definition nd_send :: "'d NetDriver \<Rightarrow> 'd NetDevice \<Rightarrow> Packet \<Rightarrow> 'd NetDevice res option" where
  "nd_send ops dev packet =
     bindD (drv_send ops (nd_driver dev) packet) (\<lambda>d. Some (Ok (dev\<lparr>nd_driver := d\<rparr>)))"

definition nd_allocate_packet :: "'d NetDriver \<Rightarrow> 'd NetDevice \<Rightarrow> (Packet \<times> 'd NetDevice) res option" where
  "nd_allocate_packet ops dev =
     bindD (drv_allocate ops (nd_driver dev)) (\<lambda>(p, d). Some (Ok (p, dev\<lparr>nd_driver := d\<rparr>)))"

subsection \<open>The contract of a driver\<close>

text \<open>Every queued packet is a datagram for the port of its queue.\<close>

definition device_ok :: "('d \<Rightarrow> bool) \<Rightarrow> 'd NetDevice \<Rightarrow> bool" where
  "device_ok I dev \<longleftrightarrow> I (nd_driver dev) \<and>
     (\<forall>port q. udp_binds dev port = Some q \<longrightarrow>
        (\<forall>p \<in> set q. packet_ok p \<and> (\<exists>u. packet_udp p = Ok (Some u) \<and> dst_port u = port)))"

lemma device_okD:
  assumes "device_ok I dev" "udp_binds dev port = Some q" "p \<in> set q"
  shows "packet_ok p \<and> (\<exists>u. packet_udp p = Ok (Some u) \<and> dst_port u = port)"
  using assms unfolding device_ok_def by blast

text \<open>
  What the delivery promises: the port a packet is for, and the packet that is handed to the
  caller waiting on \<open>port\<close> when the driver has \<open>arrived\<close>, with the queues after it.
\<close>

definition port_of :: "Packet \<Rightarrow> u16 option" where
  "port_of p = (case packet_udp p of Ok (Some u) \<Rightarrow> Some (dst_port u) | _ \<Rightarrow> None)"

definition deliver :: "(u16 \<Rightarrow> Packet list option) \<Rightarrow> u16 \<Rightarrow> Packet option \<Rightarrow> Packet option \<times> (u16 \<Rightarrow> Packet list option)" where
  "deliver b port arrived =
     (case b port of
        Some (p # rest) \<Rightarrow> (Some p, b(port \<mapsto> rest))
      | _ \<Rightarrow>
        (case arrived of
           None \<Rightarrow> (None, b)
         | Some p \<Rightarrow>
             (case port_of p of
                None \<Rightarrow> (None, b)
              | Some k \<Rightarrow>
                  if k = port then (Some p, b)
                  else (case b k of None \<Rightarrow> (None, b) | Some q \<Rightarrow> (None, b(k \<mapsto> q @ [p]))))))"

definition handed :: "(Packet \<Rightarrow> Udp \<Rightarrow> 'c \<Rightarrow> 't option \<times> 'c) \<Rightarrow> u16 \<Rightarrow> 'c \<Rightarrow> Packet option \<Rightarrow> 't option \<Rightarrow> 'c \<Rightarrow> bool" where
  "handed func port c h ret c' =
     (case h of None \<Rightarrow> ret = None \<and> c' = c
      | Some p \<Rightarrow> \<exists>u. packet_udp p = Ok (Some u) \<and> dst_port u = port \<and> (ret, c') = func p u c)"

text \<open>
  \<open>I\<close> holds of the states the driver reaches, \<open>room\<close> of those where it takes a packet back
  without freeing memory. Received and allocated packets are within the limits of a packet
  buffer, and releasing a packet where there is room returns.
\<close>

locale net_driver =
  fixes ops :: "'d NetDriver" and I :: "'d \<Rightarrow> bool" and room :: "'d \<Rightarrow> bool"
  assumes recv_ok: "I d \<Longrightarrow> drv_recv ops d = Some (Ok (r, d')) \<Longrightarrow>
      I d' \<and> (room d \<longrightarrow> room d') \<and> (\<forall>p. r = Some p \<longrightarrow> packet_ok p)"
    and send_ok: "I d \<Longrightarrow> packet_ok p \<Longrightarrow> drv_send ops d p = Some (Ok d') \<Longrightarrow> I d'"
    and allocate_ok: "I d \<Longrightarrow> drv_allocate ops d = Some (Ok (p, d')) \<Longrightarrow> I d' \<and> packet_ok p"
    and release_ok: "I d \<Longrightarrow> packet_ok p \<Longrightarrow> room d \<Longrightarrow> \<exists>d'. drv_release ops d p = Some (Ok d') \<and> I d'"
begin

lemma bind_keeps: "device_ok I dev \<Longrightarrow> device_ok I (snd (bind_udp dev port))"
  by (auto simp: device_ok_def bind_udp_def)

lemma recv_queued:
  assumes "device_ok I dev" "udp_binds dev port = Some (p # rest)" "room (nd_driver dev)"
  shows "\<exists>ret c' dev'. recv_udp ops dev port func c = Some (Ok (ret, c', dev')) \<and> device_ok I dev' \<and>
    udp_binds dev' = (udp_binds dev)(port \<mapsto> rest) \<and> handed func port c (Some p) ret c'"
proof -
  obtain u where u: "packet_ok p" "packet_udp p = Ok (Some u)" "dst_port u = port"
    using device_okD [OF assms(1,2), of p] by auto
  have i: "I (nd_driver dev)" using assms by (simp add: device_ok_def)
  obtain d' where d: "drv_release ops (nd_driver dev) p = Some (Ok d')" "I d'" using release_ok [OF i u(1) assms(3)] by blast
  obtain ret c' where f: "func p u c = (ret, c')" by fastforce
  define dev' where "dev' = dev\<lparr>nd_driver := d', udp_binds := (udp_binds dev)(port \<mapsto> rest)\<rparr>"
  have "device_ok I dev'" unfolding device_ok_def dev'_def
    using d(2) device_okD [OF assms(1)] assms(2) by (auto split: if_splits)
  then show ?thesis using assms(2) u d f by (simp add: recv_udp_def handed_def dev'_def)
qed

lemma recv_arrived:
  assumes dev: "device_ok I dev" and b: "udp_binds dev port = Some []" and a: "drv_recv ops (nd_driver dev) = Some (Ok (arrived, d1))"
    and room: "room (nd_driver dev)"
  shows "\<exists>ret c' dev'. recv_udp ops dev port func c = Some (Ok (ret, c', dev')) \<and> device_ok I dev' \<and>
    udp_binds dev' = snd (deliver (udp_binds dev) port arrived) \<and>
    handed func port c (fst (deliver (udp_binds dev) port arrived)) ret c'"
proof (cases arrived)
  case None
  have "device_ok I (dev\<lparr>nd_driver := d1\<rparr>)" using dev recv_ok [OF _ a] by (simp add: device_ok_def)
  with None a b show ?thesis by (simp add: recv_udp_def deliver_def handed_def)
next
  case (Some p)
  have d1: "I d1" "packet_ok p" "room d1" using dev recv_ok [OF _ a] Some room by (simp_all add: device_ok_def)
  obtain d' where d: "drv_release ops d1 p = Some (Ok d')" "I d'" using release_ok [OF d1] by blast
  obtain r where r: "packet_udp p = Ok r" using packet_udp_total [OF d1(2) refl] by blast
  have dev': "device_ok I (dev\<lparr>nd_driver := d'\<rparr>)" using dev d(2) by (simp add: device_ok_def)
  show ?thesis
  proof (cases r)
    case None
    with Some a b d r dev' show ?thesis by (simp add: recv_udp_def deliver_def handed_def port_of_def)
  next
    case u: (Some u)
    show ?thesis
    proof (cases "dst_port u = port")
      case True
      obtain ret c' where f: "func p u c = (ret, c')" by fastforce
      show ?thesis using Some a b d r dev' u True f by (simp add: recv_udp_def deliver_def handed_def port_of_def)
    next
      case False
      show ?thesis
      proof (cases "udp_binds dev (dst_port u)")
        case None
        with Some a b d r dev' u False show ?thesis by (simp add: recv_udp_def deliver_def handed_def port_of_def)
      next
        case q: (Some q)
        have "device_ok I (dev\<lparr>nd_driver := d1, udp_binds := (udp_binds dev)(dst_port u \<mapsto> q @ [p])\<rparr>)"
          unfolding device_ok_def using d1 r u q device_okD [OF dev] by (auto split: if_splits)
        with Some a b d r u False q show ?thesis by (simp add: recv_udp_def deliver_def handed_def port_of_def)
      qed
    qed
  qed
qed

text \<open>The delivery does what it promises, whether or not packets are queued.\<close>

lemma recv_refines_deliver:
  assumes "device_ok I dev" "udp_binds dev port = Some q" "drv_recv ops (nd_driver dev) = Some (Ok (arrived, d1))"
    "room (nd_driver dev)"
  shows "\<exists>ret c' dev'. recv_udp ops dev port func c = Some (Ok (ret, c', dev')) \<and> device_ok I dev' \<and>
    udp_binds dev' = snd (deliver (udp_binds dev) port arrived) \<and>
    handed func port c (fst (deliver (udp_binds dev) port arrived)) ret c'"
proof (cases q)
  case Nil
  with assms show ?thesis by (intro recv_arrived) auto
next
  case (Cons p rest)
  with recv_queued [OF assms(1)] assms(2,4) show ?thesis by (simp add: deliver_def)
qed

end

end
