(* ===== verification/Dhcp.thy ===== *)
theory Dhcp
  imports NetDevice
begin

text \<open>
  The DHCP client (\<open>kernel/src/dhcp.rs\<close>): options and their encoding, the packet header, the
  packets sent and the two exchanges of a lease request.
\<close>

unbundle bit_operations_syntax

subsection \<open>Options\<close>

definition DHCP_COOKIE :: u32 where "DHCP_COOKIE = 0x63825363"

text \<open>\<open>u32::to_be\<close> and \<open>u32::from_be\<close> on a little-endian machine.\<close>

definition swap32 :: "u32 \<Rightarrow> u32" where
  "swap32 w = from_be (to_le 4 w)"

definition Opcode_Request :: u8 where "Opcode_Request = 1"

definition Opcode_Reply :: u8 where "Opcode_Reply = 2"

definition HardwareType_Ethernet :: u8 where "HardwareType_Ethernet = 1"

datatype MessageType = Discover | Offer | Request | Ack | Invalid

fun message_type_code :: "MessageType \<Rightarrow> u8" where
  "message_type_code Discover = 1"
| "message_type_code Offer = 2"
| "message_type_code Request = 3"
| "message_type_code Ack = 5"
| "message_type_code Invalid = 0xff"

definition message_type_from :: "u8 \<Rightarrow> MessageType" where
  "message_type_from v =
     (if v = 1 then Discover else if v = 2 then Offer else if v = 3 then Request
      else if v = 5 then Ack else Invalid)"

datatype DhcpOption =
    SubnetMask u32
  | BroadcastIp u32
  | RequestedIp u32
  | LeaseTime u32
  | MessageTypeOption MessageType
  | ServerIp u32
  | ParameterRequestList bytes
  | RenewalTime u32
  | Unknown u8 bytes
  | EndOption

datatype DhcpOptionId =
    Id_SubnetMask | Id_BroadcastIp | Id_RequestedIp | Id_LeaseTime | Id_MessageType | Id_ServerIp
  | Id_ParameterRequestList | Id_RenewalTime | Id_End

fun option_code :: "DhcpOptionId \<Rightarrow> u8" where
  "option_code Id_SubnetMask = 1"
| "option_code Id_BroadcastIp = 28"
| "option_code Id_RequestedIp = 50"
| "option_code Id_LeaseTime = 51"
| "option_code Id_MessageType = 53"
| "option_code Id_ServerIp = 54"
| "option_code Id_ParameterRequestList = 55"
| "option_code Id_RenewalTime = 58"
| "option_code Id_End = 255"

text \<open>\<open>payload.try_into().ok()?\<close> for an array of \<open>n\<close> bytes, followed by \<open>from_be_bytes\<close>.\<close>

definition array_be :: "nat \<Rightarrow> bytes \<Rightarrow> 'a::len word option" where
  "array_be n payload = (if length payload = n then Some (from_be payload) else None)"

definition option_value :: "u8 \<Rightarrow> bytes \<Rightarrow> DhcpOption option" where
  "option_value code payload =
     (if code = 1 then map_option SubnetMask (array_be 4 payload)
      else if code = 28 then map_option BroadcastIp (array_be 4 payload)
      else if code = 50 then map_option RequestedIp (array_be 4 payload)
      else if code = 51 then map_option LeaseTime (array_be 4 payload)
      else if code = 53 then map_option (MessageTypeOption \<circ> message_type_from) (array_be 1 payload)
      else if code = 54 then map_option ServerIp (array_be 4 payload)
      else if code = 55 then Some (ParameterRequestList payload)
      else if code = 58 then map_option RenewalTime (array_be 4 payload)
      else Some (Unknown code payload))"

text \<open>The option at the front of the message and the rest of the message.\<close>

definition option_parse :: "bytes \<Rightarrow> (DhcpOption \<times> bytes) option" where
  "option_parse ptr =
     (if \<not> 0 < length ptr then None
      else if \<not> 1 < length ptr then None
      else
        let code = ptr ! 0; len = unat (ptr ! 1) in
        case get_range ptr 2 (2 + len) of
          None \<Rightarrow> None
        | Some payload \<Rightarrow>
            if code = 255 then Some (EndOption, drop (length ptr) ptr)
            else map_option (\<lambda>v. (v, drop (2 + len) ptr)) (option_value code payload))"

text \<open>\<open>len().try_into().unwrap()\<close> into a byte.\<close>

definition byte_len :: "bytes \<Rightarrow> u8 res" where
  "byte_len bs = (if length bs < 256 then Ok (word_of_nat (length bs))
     else Panic ''called `Result::unwrap()` on an `Err` value'')"

fun option_serialize :: "DhcpOption \<Rightarrow> bytes \<Rightarrow> bytes res" where
  "option_serialize (SubnetMask m) buf = Ok (buf @ [option_code Id_SubnetMask, 4] @ to_be 4 m)"
| "option_serialize (BroadcastIp a) buf = Ok (buf @ [option_code Id_BroadcastIp, 4] @ to_be 4 a)"
| "option_serialize (RequestedIp a) buf = Ok (buf @ [option_code Id_RequestedIp, 4] @ to_be 4 a)"
| "option_serialize (LeaseTime t) buf = Ok (buf @ [option_code Id_LeaseTime, 4] @ to_be 4 t)"
| "option_serialize (MessageTypeOption t) buf = Ok (buf @ [option_code Id_MessageType, 1, message_type_code t])"
| "option_serialize (ServerIp a) buf = Ok (buf @ [option_code Id_ServerIp, 4] @ to_be 4 a)"
| "option_serialize (ParameterRequestList ps) buf =
     bindR (byte_len ps) (\<lambda>n. Ok (buf @ [option_code Id_ParameterRequestList, n] @ ps))"
| "option_serialize (RenewalTime t) buf = Ok (buf @ [option_code Id_RenewalTime, 4] @ to_be 4 t)"
| "option_serialize (Unknown typ payload) buf = bindR (byte_len payload) (\<lambda>n. Ok (buf @ [typ, n] @ payload))"
| "option_serialize EndOption buf = Ok (buf @ [option_code Id_End])"

text \<open>Every option the parser returns is shorter by at least its two header bytes.\<close>

lemma option_parse_shorter: "option_parse ptr = Some (v, rest) \<Longrightarrow> length rest < length ptr"
  by (auto simp: option_parse_def Let_def split: if_splits option.splits)

function parse_options :: "bytes \<Rightarrow> DhcpOption list" where
  "parse_options opts =
     (if length opts > 0 then
        (case option_parse opts of
           Some (v, rest) \<Rightarrow> v # parse_options rest
         | None \<Rightarrow> [])
      else [])"
  by auto
termination
  by (relation "measure length") (auto simp: option_parse_shorter)

declare parse_options.simps [simp del]

subsection \<open>Packets\<close>

text \<open>The packed header of 240 bytes.\<close>

record Header =
  h_op :: u8
  h_htype :: u8
  h_hlen :: u8
  h_hops :: u8
  h_xid :: u32
  h_secs :: u16
  h_flags :: u16
  h_ciaddr :: u32
  h_yiaddr :: u32
  h_siaddr :: u32
  h_giaddr :: u32
  h_chaddr :: bytes
  h_name :: "u64 list"
  h_file :: "u64 list"
  h_cookie :: u32

definition header_default :: Header where
  "header_default = \<lparr>h_op = 0, h_htype = 0, h_hlen = 0, h_hops = 0, h_xid = 0, h_secs = 0, h_flags = 0,
     h_ciaddr = 0, h_yiaddr = 0, h_siaddr = 0, h_giaddr = 0, h_chaddr = replicate 16 0,
     h_name = replicate 8 0, h_file = replicate 16 0, h_cookie = 0\<rparr>"

text \<open>The casts between the header and the bytes it occupies.\<close>

definition header_read :: "bytes \<Rightarrow> Header" where
  "header_read b = \<lparr>h_op = b ! 0, h_htype = b ! 1, h_hlen = b ! 2, h_hops = b ! 3,
     h_xid = from_le (take 4 (drop 4 b)), h_secs = from_le (take 2 (drop 8 b)), h_flags = from_le (take 2 (drop 10 b)),
     h_ciaddr = from_le (take 4 (drop 12 b)), h_yiaddr = from_le (take 4 (drop 16 b)),
     h_siaddr = from_le (take 4 (drop 20 b)), h_giaddr = from_le (take 4 (drop 24 b)),
     h_chaddr = take 16 (drop 28 b),
     h_name = map (\<lambda>i. from_le (take 8 (drop (44 + 8 * i) b))) [0..<8],
     h_file = map (\<lambda>i. from_le (take 8 (drop (108 + 8 * i) b))) [0..<16],
     h_cookie = from_le (take 4 (drop 236 b))\<rparr>"

definition header_bytes :: "Header \<Rightarrow> bytes" where
  "header_bytes h = [h_op h, h_htype h, h_hlen h, h_hops h] @ to_le 4 (h_xid h) @ to_le 2 (h_secs h) @
     to_le 2 (h_flags h) @ to_le 4 (h_ciaddr h) @ to_le 4 (h_yiaddr h) @ to_le 4 (h_siaddr h) @
     to_le 4 (h_giaddr h) @ h_chaddr h @ concat (map (to_le 8) (h_name h)) @ concat (map (to_le 8) (h_file h)) @
     to_le 4 (h_cookie h)"

definition parse_dhcp_packet :: "u32 \<Rightarrow> Udp \<Rightarrow> (Header \<times> DhcpOption list) option" where
  "parse_dhcp_packet xid u =
     (let message = udp_payload u in
      case get_range message 0 240 of
        None \<Rightarrow> None
      | Some raw \<Rightarrow>
          let header = header_read raw in
          if h_xid header \<noteq> xid then None
          else if h_op header \<noteq> Opcode_Reply \<or> h_htype header \<noteq> HardwareType_Ethernet \<or>
              h_hlen header \<noteq> 6 \<or> h_cookie header \<noteq> swap32 DHCP_COOKIE then None
          else Some (header, parse_options (drop 240 message)))"

definition create_dhcp_packet :: "Packet \<Rightarrow> u32 \<Rightarrow> bytes \<Rightarrow> bytes \<Rightarrow> Packet res" where
  "create_dhcp_packet packet xid mac opts =
     bindR (create_udp_raw packet mac (replicate 6 0xff) 0 (NOT 0) 68 67 (240 + length opts)) (\<lambda>(offset, packet).
     bindR (copy_into (h_chaddr header_default) 0 6 mac) (\<lambda>chaddr.
     let header = header_default\<lparr>h_op := Opcode_Request, h_htype := HardwareType_Ethernet, h_hlen := 6,
           h_xid := xid, h_chaddr := chaddr, h_cookie := swap32 DHCP_COOKIE\<rparr> in
     bindR (packet_write packet offset (offset + 240) (header_bytes header)) (\<lambda>packet.
     packet_write packet (offset + 240) (offset + 240 + length opts) opts)))"

subsection \<open>Requesting a lease\<close>

record Lease =
  client_ip :: Ipv4Addr
  server_ip :: Ipv4Addr
  broadcast_ip :: "Ipv4Addr option"
  subnet_mask :: "Ipv4Addr option"

text \<open>\<open>find_map\<close> with the pattern of one kind of option.\<close>

fun find_map :: "('a \<Rightarrow> 'b option) \<Rightarrow> 'a list \<Rightarrow> 'b option" where
  "find_map f [] = None"
| "find_map f (x # xs) = (case f x of Some y \<Rightarrow> Some y | None \<Rightarrow> find_map f xs)"

fun is_server_ip :: "DhcpOption \<Rightarrow> Ipv4Addr option" where
  "is_server_ip (ServerIp a) = Some a"
| "is_server_ip _ = None"

fun is_broadcast_ip :: "DhcpOption \<Rightarrow> Ipv4Addr option" where
  "is_broadcast_ip (BroadcastIp a) = Some a"
| "is_broadcast_ip _ = None"

fun is_subnet_mask :: "DhcpOption \<Rightarrow> Ipv4Addr option" where
  "is_subnet_mask (SubnetMask a) = Some a"
| "is_subnet_mask _ = None"

text \<open>The closures of the two waits. The first captures the offered and the server address, the
  second the broadcast address and the subnet mask.\<close>

definition offer_closure :: "u32 \<Rightarrow> bytes \<Rightarrow> Packet \<Rightarrow> Udp \<Rightarrow> Ipv4Addr option \<times> Ipv4Addr option
    \<Rightarrow> unit option \<times> Ipv4Addr option \<times> Ipv4Addr option" where
  "offer_closure xid mac pkt u c =
     (if dst_mac (ip_eth (udp_ip u)) \<noteq> mac then (None, c)
      else case parse_dhcp_packet xid u of
        None \<Rightarrow> (None, c)
      | Some (header, opts) \<Rightarrow>
          if MessageTypeOption Offer \<in> set opts
          then (Some (), Some (swap32 (h_yiaddr header)), find_map is_server_ip opts)
          else (None, c))"

definition ack_closure :: "u32 \<Rightarrow> bytes \<Rightarrow> Packet \<Rightarrow> Udp \<Rightarrow> Ipv4Addr option \<times> Ipv4Addr option
    \<Rightarrow> unit option \<times> Ipv4Addr option \<times> Ipv4Addr option" where
  "ack_closure xid mac pkt u c =
     (if dst_mac (ip_eth (udp_ip u)) \<noteq> mac then (None, c)
      else case parse_dhcp_packet xid u of
        None \<Rightarrow> (None, c)
      | Some (header, opts) \<Rightarrow>
          if MessageTypeOption Ack \<in> set opts
          then (Some (), find_map is_broadcast_ip opts, find_map is_subnet_mask opts)
          else (None, c))"

text \<open>\<open>while bind.recv(closure).is_none() {}\<close>\<close>

partial_function (option) recv_wait :: "'d NetDriver \<Rightarrow> 'd NetDevice \<Rightarrow> u16 \<Rightarrow>
    (Packet \<Rightarrow> Udp \<Rightarrow> 'c \<Rightarrow> unit option \<times> 'c) \<Rightarrow> 'c \<Rightarrow> ('c \<times> 'd NetDevice) res option" where
  "recv_wait ops dev port func c =
     bindD (recv_udp ops dev port func c) (\<lambda>(ret, c', dev').
       if ret = None then recv_wait ops dev' port func c' else Some (Ok (c', dev')))"

declare recv_wait.simps [simp del]

definition discover_options :: "bytes res" where
  "discover_options =
     bindR (option_serialize (MessageTypeOption Discover) []) (\<lambda>b.
     bindR (option_serialize (ParameterRequestList [option_code Id_MessageType, option_code Id_ServerIp]) b) (\<lambda>b.
     option_serialize EndOption b))"

definition request_options :: "Ipv4Addr \<Rightarrow> Ipv4Addr \<Rightarrow> bytes res" where
  "request_options offer server =
     bindR (option_serialize (MessageTypeOption Request) []) (\<lambda>b.
     bindR (option_serialize (RequestedIp offer) b) (\<lambda>b.
     bindR (option_serialize (ServerIp server) b) (\<lambda>b.
     bindR (option_serialize (ParameterRequestList
       [option_code Id_MessageType, option_code Id_BroadcastIp, option_code Id_SubnetMask]) b) (\<lambda>b.
     option_serialize EndOption b))))"

definition send_dhcp :: "'d NetDriver \<Rightarrow> 'd NetDevice \<Rightarrow> u32 \<Rightarrow> bytes \<Rightarrow> 'd NetDevice res option" where
  "send_dhcp ops dev xid opts =
     bindD (nd_allocate_packet ops dev) (\<lambda>(packet, dev).
     bindD (Some (create_dhcp_packet packet xid (nd_mac dev) opts)) (\<lambda>packet.
     nd_send ops dev packet))"

text \<open>Returning drops the bind, which unbinds the port.\<close>

definition drop_bind :: "'d NetDriver \<Rightarrow> 'a \<Rightarrow> 'd NetDevice \<Rightarrow> u16 \<Rightarrow> ('a \<times> 'd NetDevice) res option" where
  "drop_bind ops v dev port = bindD (unbind_udp ops dev port) (\<lambda>dev. Some (Ok (v, dev)))"

text \<open>The second half of the exchange: request the offered address and wait for the
  acknowledgement.\<close>

definition request_lease :: "'d NetDriver \<Rightarrow> 'd NetDevice \<Rightarrow> u32 \<Rightarrow> bytes \<Rightarrow> u16 \<Rightarrow> Ipv4Addr \<Rightarrow> Ipv4Addr
    \<Rightarrow> (Lease option \<times> 'd NetDevice) res option" where
  "request_lease ops dev xid mac port offer_ip server =
     bindD (Some (request_options offer_ip server)) (\<lambda>opts.
     bindD (send_dhcp ops dev xid opts) (\<lambda>dev.
     bindD (recv_wait ops dev port (ack_closure xid mac) (None, None)) (\<lambda>((broadcast, smask), dev).
       drop_bind ops (Some \<lparr>client_ip = offer_ip, server_ip = server, broadcast_ip = broadcast,
         subnet_mask = smask\<rparr>) dev port)))"

definition get_lease :: "'d NetDriver \<Rightarrow> u64 \<Rightarrow> 'd NetDevice \<Rightarrow> (Lease option \<times> 'd NetDevice) res option" where
  "get_lease ops tsc dev =
     (let xid = ucast tsc; mac = nd_mac dev; (bound, dev) = bind_udp dev 68 in
     bindD (Some (expectR ''Could not bind to port 68 for dhcp'' bound)) (\<lambda>port.
     bindD (Some discover_options) (\<lambda>opts.
     bindD (send_dhcp ops dev xid opts) (\<lambda>dev.
     bindD (recv_wait ops dev port (offer_closure xid mac) (None, None)) (\<lambda>(c, dev).
     case c of
       (Some offer_ip, Some server) \<Rightarrow> request_lease ops dev xid mac port offer_ip server
     | _ \<Rightarrow> drop_bind ops None dev port)))))"

text \<open>\<open>NetDevice::new\<close>, without the print of the lease.\<close>

definition netdevice_new :: "'d NetDriver \<Rightarrow> u64 \<Rightarrow> 'd \<Rightarrow> 'd NetDevice res option" where
  "netdevice_new ops tsc d =
     bindD (get_lease ops tsc (net_device ops d)) (\<lambda>(lease, dev). Some (Ok dev))"

subsection \<open>Options are parsed back\<close>

definition known_codes :: "u8 set" where
  "known_codes = {1, 28, 50, 51, 53, 54, 55, 58, 255}"

text \<open>Options whose encoding has a length byte that holds their length.\<close>

fun option_ok :: "DhcpOption \<Rightarrow> bool" where
  "option_ok (ParameterRequestList ps) \<longleftrightarrow> length ps < 256"
| "option_ok (Unknown typ payload) \<longleftrightarrow> length payload < 256 \<and> typ \<notin> known_codes"
| "option_ok EndOption \<longleftrightarrow> False"
| "option_ok _ \<longleftrightarrow> True"

fun option_bytes :: "DhcpOption \<Rightarrow> bytes" where
  "option_bytes (SubnetMask m) = [1, 4] @ to_be 4 m"
| "option_bytes (BroadcastIp a) = [28, 4] @ to_be 4 a"
| "option_bytes (RequestedIp a) = [50, 4] @ to_be 4 a"
| "option_bytes (LeaseTime t) = [51, 4] @ to_be 4 t"
| "option_bytes (MessageTypeOption t) = [53, 1, message_type_code t]"
| "option_bytes (ServerIp a) = [54, 4] @ to_be 4 a"
| "option_bytes (ParameterRequestList ps) = [55, word_of_nat (length ps)] @ ps"
| "option_bytes (RenewalTime t) = [58, 4] @ to_be 4 t"
| "option_bytes (Unknown typ payload) = [typ, word_of_nat (length payload)] @ payload"
| "option_bytes EndOption = [255]"

lemma option_serialize_Ok: "option_ok v \<Longrightarrow> option_serialize v buf = Ok (buf @ option_bytes v)"
  by (cases v) (simp_all add: byte_len_def)

lemma serialize_end: "option_serialize EndOption buf = Ok (buf @ [255])"
  by simp

lemma option_parse_cons:
  assumes "unat len = length payload" "code \<noteq> 255"
  shows "option_parse ([code, len] @ payload @ rest) = map_option (\<lambda>v. (v, rest)) (option_value code payload)"
  using assms by (simp add: option_parse_def get_range_def)

lemma option_parse_be:
  "code \<noteq> 255 \<Longrightarrow> option_parse ([code, 4] @ to_be 4 (w :: u32) @ rest) = map_option (\<lambda>v. (v, rest)) (option_value code (to_be 4 w))"
  by (rule option_parse_cons) simp_all

lemma message_type_inverse: "message_type_from (from_be [message_type_code t]) = t"
  by (cases t) (simp_all add: from_be_def message_type_from_def)

lemma array_be_to_be: "array_be 4 (to_be 4 w) = Some (w :: u32)"
  by (simp add: array_be_def from_be_to_be)

lemma unat_byte_len: "n < 256 \<Longrightarrow> unat (word_of_nat n :: u8) = n"
  by (simp only: unat_of_nat) simp

lemma option_parse_bytes:
  assumes "option_ok v"
  shows "option_parse (option_bytes v @ rest) = Some (v, rest)"
proof (cases v)
  case (MessageTypeOption t)
  have "option_parse ([53, 1] @ [message_type_code t] @ rest) = Some (MessageTypeOption t, rest)"
    by (subst option_parse_cons) (simp_all add: option_value_def array_be_def message_type_inverse)
  then show ?thesis using MessageTypeOption by simp
next
  case (ParameterRequestList ps)
  then have "option_parse ([55, word_of_nat (length ps)] @ ps @ rest) = Some (ParameterRequestList ps, rest)"
    using assms by (subst option_parse_cons) (simp_all add: option_value_def unat_byte_len)
  then show ?thesis using ParameterRequestList by simp
next
  case (Unknown ty payload)
  then have "option_parse ([ty, word_of_nat (length payload)] @ payload @ rest) = Some (Unknown ty payload, rest)"
    using assms by (subst option_parse_cons) (auto simp: option_value_def unat_byte_len known_codes_def)
  then show ?thesis using Unknown by simp
next
  case EndOption
  then show ?thesis using assms by simp
qed (simp_all add: option_parse_be [simplified] option_value_def array_be_to_be)

lemma parse_options_append:
  assumes "list_all option_ok vs"
  shows "parse_options (concat (map option_bytes vs) @ rest) = vs @ parse_options rest"
  using assms
proof (induction vs)
  case (Cons v vs)
  have "option_bytes v \<noteq> []" by (cases v) simp_all
  moreover have "option_parse (option_bytes v @ concat (map option_bytes vs) @ rest) = Some (v, concat (map option_bytes vs) @ rest)"
    using Cons.prems by (intro option_parse_bytes) simp
  ultimately show ?case using Cons by (subst parse_options.simps) simp
qed simp

lemma parse_end [simp]: "parse_options [255] = []"
  by (subst parse_options.simps) (simp add: option_parse_def)

lemma serialize_all:
  "list_all option_ok vs \<Longrightarrow> foldR (\<lambda>b v. option_serialize v b) buf vs = Ok (buf @ concat (map option_bytes vs))"
  by (induction vs arbitrary: buf) (simp_all add: option_serialize_Ok)

text \<open>C17: Options that are serialised into a buffer one after the other and closed with the end
  option are parsed back in the same order. The loop of the parser ends on every message.
\<close>

theorem options_round_trip:
  assumes "list_all option_ok vs"
  shows "\<exists>bs. foldR (\<lambda>b v. option_serialize v b) [] (vs @ [EndOption]) = Ok bs \<and> parse_options bs = vs"
  using assms by (simp add: foldR_append serialize_all parse_options_append)

theorem options_round_trip_witness:
  "\<exists>bs. foldR (\<lambda>b v. option_serialize v b) [] ([MessageTypeOption Discover, ParameterRequestList [53, 54]] @ [EndOption]) = Ok bs
    \<and> parse_options bs = [MessageTypeOption Discover, ParameterRequestList [53, 54]]"
  using options_round_trip [of "[MessageTypeOption Discover, ParameterRequestList [53, 54]]"] by simp

text \<open>The end option is written as the single byte 255, but the parser reads a length byte
  before it looks at the code: what the code itself writes is not recognised as an end option.
\<close>

theorem end_option_not_parsed:
  "\<exists>bs. option_serialize EndOption [] = Ok bs \<and> option_parse bs = None \<and>
    option_parse (bs @ [0]) = Some (EndOption, [])"
  by (simp add: option_parse_def get_range_def)

end
