(* ===== verification/Pci.thy ===== *)
theory Pci
  imports Bytes
begin

text \<open>
  PCI enumeration (\<open>kernel/src/pci.rs\<close>): reading the configuration space of every function
  through the address and data ports, and offering the devices found to the drivers. The
  configuration space is a parameter: writing an address to the address port and reading the
  data port gives the value the machine \<open>'h\<close> holds there.
\<close>

unbundle bit_operations_syntax

datatype BarType = Bits32 | Bits64

definition bar_type_from :: "u32 \<Rightarrow> BarType res" where
  "bar_type_from v = (if v = 0 then Ok Bits32 else if v = 2 then Ok Bits64 else Panic ''Invalid BAR type'')"

definition PCI_ADDRESS_ENABLE :: u32 where "PCI_ADDRESS_ENABLE = push_bit 31 1"

record PciHeader =
  vendor_id :: u16
  device_id :: u16
  command :: u16
  status :: u16
  revision :: u8
  prog_if :: u8
  sub_class :: u8
  class_code :: u8
  cache_line_size :: u8
  latency_timer :: u8
  header_type :: u8
  bist :: u8

record PciDevice =
  header :: PciHeader
  bar0 :: u32
  bar1 :: u32
  bar2 :: u32
  bar3 :: u32
  bar4 :: u32
  bar5 :: u32
  cardbus_cis_pointer :: u32
  subsystem_vendor_id :: u16
  subsystem_device_id :: u16
  expansion_rom_address :: u32
  capabilities :: u8
  reserved :: bytes
  interrupt_line :: u8
  interrupt_pin :: u8
  min_grant :: u8
  max_latency :: u8

text \<open>The casts of the registers, read as bytes, to the two structures.\<close>

definition registers_bytes :: "u32 list \<Rightarrow> bytes" where
  "registers_bytes rs = concat (map (to_le 4) rs)"

definition pci_header_read :: "bytes \<Rightarrow> PciHeader" where
  "pci_header_read b = \<lparr>vendor_id = from_le (take 2 b), device_id = from_le (take 2 (drop 2 b)),
     command = from_le (take 2 (drop 4 b)), status = from_le (take 2 (drop 6 b)), revision = b ! 8, prog_if = b ! 9,
     sub_class = b ! 10, class_code = b ! 11, cache_line_size = b ! 12, latency_timer = b ! 13, header_type = b ! 14,
     bist = b ! 15\<rparr>"

definition pci_device_read :: "bytes \<Rightarrow> PciDevice" where
  "pci_device_read b = \<lparr>header = pci_header_read b, bar0 = from_le (take 4 (drop 16 b)),
     bar1 = from_le (take 4 (drop 20 b)), bar2 = from_le (take 4 (drop 24 b)), bar3 = from_le (take 4 (drop 28 b)),
     bar4 = from_le (take 4 (drop 32 b)), bar5 = from_le (take 4 (drop 36 b)),
     cardbus_cis_pointer = from_le (take 4 (drop 40 b)), subsystem_vendor_id = from_le (take 2 (drop 44 b)),
     subsystem_device_id = from_le (take 2 (drop 46 b)), expansion_rom_address = from_le (take 4 (drop 48 b)),
     capabilities = b ! 52, reserved = take 7 (drop 53 b), interrupt_line = b ! 60, interrupt_pin = b ! 61,
     min_grant = b ! 62, max_latency = b ! 63\<rparr>"

text \<open>\<open>cpu::out32(PCI_CONFIG_ADDRESS, addr); cpu::in32(PCI_CONFIG_DATA)\<close>\<close>

type_synonym 'h config_space = "'h \<Rightarrow> u32 \<Rightarrow> u32 \<times> 'h"

fun read_registers :: "'h config_space \<Rightarrow> 'h \<Rightarrow> u32 \<Rightarrow> nat list \<Rightarrow> u32 list \<times> 'h" where
  "read_registers cfg h addr [] = ([], h)"
| "read_registers cfg h addr (rid # rids) =
     (let (r, h) = cfg h (addr OR word_of_nat (rid * 4)); (rs, h) = read_registers cfg h addr rids in (r # rs, h))"

definition bdf_address :: "nat \<Rightarrow> nat \<Rightarrow> nat \<Rightarrow> u32" where
  "bdf_address bus dev fn = PCI_ADDRESS_ENABLE OR push_bit 16 (word_of_nat bus) OR push_bit 11 (word_of_nat dev) OR
     push_bit 8 (word_of_nat fn)"

text \<open>One function: the device found there, if any.\<close>

definition pci_function :: "'h config_space \<Rightarrow> 'h \<Rightarrow> u32 \<Rightarrow> PciDevice option \<times> 'h" where
  "pci_function cfg h addr =
     (let (did_vid, h) = cfg h addr; vid = (ucast (drop_bit 0 did_vid) :: u16);
          did = (ucast (drop_bit 16 did_vid) :: u16) in
      if vid = 0xffff \<and> did = 0xffff then (None, h)
      else
        let (hs, h) = read_registers cfg h addr [0..<4]; hdr = pci_header_read (registers_bytes hs) in
        if header_type hdr \<noteq> 0 then (None, h)
        else let (ds, h) = read_registers cfg h addr [0..<16] in (Some (pci_device_read (registers_bytes ds)), h))"

text \<open>The drivers are asked in order; the first that handles the device is kept.\<close>

fun probe_drivers :: "(PciDevice \<Rightarrow> 's \<Rightarrow> ('d option \<times> 's) res option) list \<Rightarrow> PciDevice \<Rightarrow> 's \<Rightarrow> ('d option \<times> 's) res option" where
  "probe_drivers [] device s = Some (Ok (None, s))"
| "probe_drivers (probe # ps) device s =
     bindD (probe device s) (\<lambda>(r, s). case r of Some d \<Rightarrow> Some (Ok (Some d, s)) | None \<Rightarrow> probe_drivers ps device s)"

definition pci_addresses :: "u32 list" where
  "pci_addresses = concat (map (\<lambda>bus. concat (map (\<lambda>dev. map (bdf_address bus dev) [0..<8]) [0..<32])) [0..<256])"

text \<open>The state has the machine \<open>'h\<close> for the configuration space and \<open>'s\<close> for the drivers.\<close>

definition pci_step :: "'h config_space \<Rightarrow> (PciDevice \<Rightarrow> 's \<Rightarrow> ('d option \<times> 's) res option) list \<Rightarrow>
    'd list \<times> 'h \<times> 's \<Rightarrow> u32 \<Rightarrow> ('d list \<times> 'h \<times> 's) res option" where
  "pci_step cfg drivers st addr =
     (let (devs, h, s) = st; (found, h) = pci_function cfg h addr in
      case found of
        None \<Rightarrow> Some (Ok (devs, h, s))
      | Some device \<Rightarrow>
          bindD (probe_drivers drivers device s) (\<lambda>(r, s).
            Some (Ok (case r of None \<Rightarrow> devs | Some d \<Rightarrow> devs @ [d], h, s))))"

definition pci_init :: "'h config_space \<Rightarrow> (PciDevice \<Rightarrow> 's \<Rightarrow> ('d option \<times> 's) res option) list \<Rightarrow>
    'd list \<times> 'h \<times> 's \<Rightarrow> ('d list \<times> 'h \<times> 's) res option" where
  "pci_init cfg drivers st = foldD (pci_step cfg drivers) st pci_addresses"

definition destroy_devices :: "('d \<Rightarrow> 'd res) \<Rightarrow> 'd list \<Rightarrow> 'd list res" where
  "destroy_devices purge devs = foldR (\<lambda>ds d. bindR (purge d) (\<lambda>d. Ok (ds @ [d]))) [] devs"

subsection \<open>What is found\<close>

text \<open>A configuration space that does not change while it is read.\<close>

definition stable :: "(u32 \<Rightarrow> u32) \<Rightarrow> 'h config_space" where
  "stable f = (\<lambda>h a. (f a, h))"

lemma read_registers_stable: "read_registers (stable f) h addr rids = (map (\<lambda>rid. f (addr OR word_of_nat (rid * 4))) rids, h)"
  by (induction rids) (simp_all add: stable_def)

definition config_bytes :: "(u32 \<Rightarrow> u32) \<Rightarrow> u32 \<Rightarrow> nat \<Rightarrow> bytes" where
  "config_bytes f addr n = registers_bytes (map (\<lambda>rid. f (addr OR word_of_nat (rid * 4))) [0..<n])"

lemma to_le_4: "to_le 4 w = [ucast w, ucast (drop_bit 8 w), ucast (drop_bit 16 w), ucast (drop_bit 24 w)]"
  by (simp add: to_le_def upt_rec)

lemma header_type_byte: "header_type (pci_header_read (config_bytes f addr 4)) = ucast (drop_bit 16 (f (addr OR 12)))"
  by (simp add: pci_header_read_def config_bytes_def registers_bytes_def to_le_4 upt_rec)

lemma vid_did_absent: "(ucast (drop_bit 0 w) :: u16) = 0xffff \<and> (ucast (drop_bit 16 w) :: u16) = 0xffff \<longleftrightarrow> w = (- 1 :: u32)"
proof
  assume a: "(ucast (drop_bit 0 w) :: u16) = 0xffff \<and> (ucast (drop_bit 16 w) :: u16) = 0xffff"
  have m: "(0xffff :: u16) = - 1" by simp
  show "w = - 1"
  proof (rule bit_word_eqI)
    fix i :: nat assume i: "i < LENGTH(32)"
    show "bit w i = bit (- 1 :: u32) i"
    proof (cases "i < 16")
      case True
      have "bit (ucast (drop_bit 0 w) :: u16) i" using a True unfolding m by (simp add: bit_minus_1_iff)
      then show ?thesis using i by (simp add: bit_ucast_iff bit_drop_bit_eq bit_minus_1_iff)
    next
      case False
      have "bit (ucast (drop_bit 16 w) :: u16) (i - 16)" using a False i unfolding m by (simp add: bit_minus_1_iff)
      then show ?thesis using i False by (simp add: bit_ucast_iff bit_drop_bit_eq bit_minus_1_iff)
    qed
  qed
next
  have "(ucast (drop_bit 0 (- 1 :: u32)) :: u16) = 0xffff \<and> (ucast (drop_bit 16 (- 1 :: u32)) :: u16) = 0xffff"
    by code_simp
  then show "w = - 1 \<Longrightarrow> (ucast (drop_bit 0 w) :: u16) = 0xffff \<and> (ucast (drop_bit 16 w) :: u16) = 0xffff" by blast
qed


end
