(* ===== verification/E1000.thy ===== *)
theory E1000
  imports KernelMm Dhcp Pci
begin

text \<open>
  The driver of the Intel network cards (\<open>kernel/src/e1000.rs\<close>): the descriptor rings, the
  packet buffers and the registers. The card is a parameter: its registers, the descriptors it
  shares with the driver and the bytes it has written into a buffer.
\<close>

unbundle bit_operations_syntax

subsection \<open>The card\<close>

definition NUM_RX_DESCS :: nat where "NUM_RX_DESCS = 8"

definition NUM_TX_DESCS :: nat where "NUM_TX_DESCS = 16"

record NicRegisters =
  queue_enable :: bool
  ctrl :: nat
  imc :: nat
  rdbal :: nat
  rdbah :: nat
  rdlen :: nat
  rdh :: nat
  rdt :: nat
  tdbal :: nat
  tdbah :: nat
  tdlen :: nat
  tdh :: nat
  tdt :: nat
  ral0 :: nat
  rah0 :: nat
  rctl :: nat
  tctl :: nat
  rxdctl :: nat
  txdctl :: nat

record LegacyRxDesc =
  rx_buffer :: u64
  rx_len :: u16
  rx_checksum :: u16
  rx_status :: u8
  rx_errors :: u8
  rx_special :: u16

record LegacyTxDesc =
  tx_buffer :: u64
  tx_len :: u16
  tx_cso :: u8
  tx_cmd :: u8
  tx_status :: u8
  tx_css :: u8
  tx_special :: u16

definition rx_desc_default :: LegacyRxDesc where
  "rx_desc_default = \<lparr>rx_buffer = 0, rx_len = 0, rx_checksum = 0, rx_status = 0, rx_errors = 0, rx_special = 0\<rparr>"

definition tx_desc_default :: LegacyTxDesc where
  "tx_desc_default = \<lparr>tx_buffer = 0, tx_len = 0, tx_cso = 0, tx_cmd = 0, tx_status = 0, tx_css = 0, tx_special = 0\<rparr>"

text \<open>
  What the driver sees of a card in state \<open>'h\<close>: register reads and writes by index, volatile
  accesses to the descriptors, and the contents of the buffer at a physical address.
\<close>

record 'h NicHw =
  hw_read :: "'h \<Rightarrow> nat \<Rightarrow> u32 \<times> 'h"
  hw_write :: "'h \<Rightarrow> nat \<Rightarrow> u32 \<Rightarrow> 'h"
  hw_rx :: "'h \<Rightarrow> nat \<Rightarrow> LegacyRxDesc \<times> 'h"
  hw_set_rx :: "'h \<Rightarrow> nat \<Rightarrow> LegacyRxDesc \<Rightarrow> 'h"
  hw_tx :: "'h \<Rightarrow> nat \<Rightarrow> LegacyTxDesc \<times> 'h"
  hw_set_tx :: "'h \<Rightarrow> nat \<Rightarrow> LegacyTxDesc \<Rightarrow> 'h"
  hw_data :: "'h \<Rightarrow> u64 \<Rightarrow> nat \<Rightarrow> u8"

text \<open>The driver with the card and the memory manager it allocates from.\<close>

record 'h IntelGbit =
  regs :: NicRegisters
  mmio :: u64
  rx_descriptors :: PhysContig
  rx_buffers :: "Packet list"
  rx_head :: nat
  tx_descriptors :: PhysContig
  tx_head :: nat
  packets :: "Packet list"
  nic_mac :: bytes
  card :: 'h
  kernel :: Kernel

definition nic_read :: "'h NicHw \<Rightarrow> 'h IntelGbit \<Rightarrow> nat \<Rightarrow> (u32 \<times> 'h IntelGbit) res" where
  "nic_read hw nic reg_offset =
     (let reg = reg_offset div 4 in
      if reg < 32 * 1024 then (let (v, c) = hw_read hw (card nic) reg in Ok (v, nic\<lparr>card := c\<rparr>))
      else Panic ''index out of bounds'')"

definition nic_write :: "'h NicHw \<Rightarrow> 'h IntelGbit \<Rightarrow> nat \<Rightarrow> u32 \<Rightarrow> 'h IntelGbit res" where
  "nic_write hw nic reg_offset v =
     (let reg = reg_offset div 4 in
      if reg < 32 * 1024 then Ok (nic\<lparr>card := hw_write hw (card nic) reg v\<rparr>)
      else Panic ''index out of bounds'')"

subsection \<open>Packets of the driver\<close>

text \<open>\<open>Packet::new()\<close> and the drop of a packet: an array of 4096 bytes with alignment 1.\<close>

definition new_packet :: "Kernel \<Rightarrow> (Packet \<times> Kernel) res" where
  "new_packet k = bindR (phys_contig_new k 4096 1) (\<lambda>(pc, k). Ok (packet_new (pc_vaddr pc) (pc_paddr pc), k))"

definition drop_packet :: "Kernel \<Rightarrow> Packet \<Rightarrow> Kernel res option" where
  "drop_packet k p = phys_contig_drop k \<lparr>pc_vaddr = pkt_vaddr p, pc_paddr = pkt_phys p\<rparr> 4096"

text \<open>\<open>self.packets.pop().unwrap_or(Packet::new())\<close>: the argument is evaluated first in both
  cases, and dropped when the list has a packet.\<close>

definition nic_allocate_packet :: "'h IntelGbit \<Rightarrow> (Packet \<times> 'h IntelGbit) res option" where
  "nic_allocate_packet nic =
     (let popped = (if packets nic = [] then None else Some (last (packets nic))); rest = butlast (packets nic) in
      bindD (Some (new_packet (kernel nic))) (\<lambda>(fresh, k).
      case popped of
        None \<Rightarrow> Some (Ok (fresh, nic\<lparr>kernel := k\<rparr>))
      | Some p \<Rightarrow> bindD (drop_packet k fresh) (\<lambda>k. Some (Ok (p, nic\<lparr>packets := rest, kernel := k\<rparr>)))))"

definition PACKETS_CAPACITY :: nat where "PACKETS_CAPACITY = 128"

definition nic_release_packet :: "'h IntelGbit \<Rightarrow> Packet \<Rightarrow> 'h IntelGbit res option" where
  "nic_release_packet nic packet =
     (if length (packets nic) < PACKETS_CAPACITY then Some (Ok (nic\<lparr>packets := packets nic @ [packet]\<rparr>))
      else bindD (drop_packet (kernel nic) packet) (\<lambda>k. Some (Ok (nic\<lparr>kernel := k\<rparr>))))"

subsection \<open>Receiving and sending\<close>

definition nic_recv :: "'h NicHw \<Rightarrow> 'h IntelGbit \<Rightarrow> (Packet option \<times> 'h IntelGbit) res option" where
  "nic_recv hw nic =
     (if \<not> rx_head nic < NUM_RX_DESCS then Some (Panic ''index out of bounds'')
      else
        let (d, c) = hw_rx hw (card nic) (rx_head nic); nic = nic\<lparr>card := c\<rparr> in
        if rx_status d AND 1 = 0 then Some (Ok (None, nic))
        else
          let (d, c) = hw_rx hw (card nic) (rx_head nic); rxed = unat (rx_len d); nic = nic\<lparr>card := c\<rparr> in
          bindD (nic_allocate_packet nic) (\<lambda>(fresh, nic).
          bindD (Some (nthR (rx_buffers nic) (rx_head nic))) (\<lambda>old.
          let packet = old\<lparr>pkt_raw := map (hw_data hw (card nic) (pkt_phys old)) [0..<4096]\<rparr>;
              nic = nic\<lparr>rx_buffers := (rx_buffers nic)[rx_head nic := fresh]\<rparr>;
              nic = nic\<lparr>card := hw_set_rx hw (card nic) (rx_head nic) (rx_desc_default\<lparr>rx_buffer := pkt_phys fresh\<rparr>)\<rparr> in
          bindD (Some (nic_write hw nic (rdt (regs nic)) (word_of_nat (rx_head nic)))) (\<lambda>nic.
          let nic = nic\<lparr>rx_head := (rx_head nic + 1) mod NUM_RX_DESCS\<rparr> in
          bindD (Some (packet_set_len packet rxed)) (\<lambda>packet.
            Some (Ok (Some packet, nic)))))))"

partial_function (option) wait_sent :: "'h NicHw \<Rightarrow> 'h IntelGbit \<Rightarrow> 'h IntelGbit option" where
  "wait_sent hw nic =
     (let (d, c) = hw_tx hw (card nic) (tx_head nic); nic = nic\<lparr>card := c\<rparr> in
      if tx_status d AND 1 = 0 then wait_sent hw nic else Some nic)"

definition nic_send :: "'h NicHw \<Rightarrow> 'h IntelGbit \<Rightarrow> Packet \<Rightarrow> 'h IntelGbit res option" where
  "nic_send hw nic packet =
     (let tail = (tx_head nic + 1) mod NUM_TX_DESCS in
      if \<not> tx_head nic < NUM_TX_DESCS then Some (Panic ''index out of bounds'')
      else
        bindD (Some (packet_raw packet)) (\<lambda>raw.
        let nic = nic\<lparr>card := hw_set_tx hw (card nic) (tx_head nic)
              (tx_desc_default\<lparr>tx_buffer := pkt_phys packet, tx_cmd := push_bit 3 1 OR push_bit 1 1 OR push_bit 0 1,
                tx_len := word_of_nat (length raw)\<rparr>)\<rparr> in
        bindD (Some (nic_write hw nic (tdt (regs nic)) (word_of_nat tail))) (\<lambda>nic.
        case wait_sent hw nic of
          None \<Rightarrow> None
        | Some nic \<Rightarrow> nic_release_packet (nic\<lparr>tx_head := tail\<rparr>) packet)))"

definition IntelGbitDriver :: "'h NicHw \<Rightarrow> 'h IntelGbit NetDriver" where
  "IntelGbitDriver hw = \<lparr>drv_mac = nic_mac, drv_recv = nic_recv hw, drv_send = nic_send hw,
     drv_allocate = nic_allocate_packet, drv_release = nic_release_packet\<rparr>"

subsection \<open>Initialisation\<close>

definition nic_bar :: "PciDevice \<Rightarrow> u64 res" where
  "nic_bar device =
     (if bar0 device AND 1 \<noteq> 0 then Panic ''Intel gbit BAR0 was not a memory BAR''
      else
        bindR (bar_type_from (drop_bit 1 (bar0 device) AND 3)) (\<lambda>bar_type.
        let low_bits = ucast (bar0 device AND 0xfffffff0);
            bar = (case bar_type of Bits32 \<Rightarrow> low_bits | Bits64 \<Rightarrow> push_bit 32 (ucast (bar1 device)) OR low_bits) in
        if bar AND 0xfff \<noteq> 0 then Panic ''Non-4 KiB aligned Intel gbit nic?!'' else Ok bar))"

definition map_mmio :: "Kernel \<Rightarrow> u64 \<Rightarrow> (u64 \<times> Kernel) res" where
  "map_mmio k bar =
     bindR (alloc_virt_addr_4k k (128 * 1024)) (\<lambda>(vaddr, k).
     bindR (unwrapR (ba_page_table (k_args k))) (\<lambda>pt.
     bindR (unwrapR (checked_add bar (128 * 1024))) (\<lambda>_.
     bindR (foldR (\<lambda>k paddr.
         bindR (map_raw PhysicalMemory pt k (vaddr + (paddr - bar)) Page4K
           (paddr OR PAGE_NX OR PAGE_WRITE OR PAGE_CACHE_DISABLE OR PAGE_PRESENT)) (\<lambda>(r, k).
         bindR (expectR ''Failed to map in Intel gbit MMIO to virtual memory'' r) (\<lambda>_. Ok k)))
       k (map (\<lambda>i. bar + 4096 * word_of_nat i) [0..<32])) (\<lambda>k.
       Ok (vaddr, k)))))"

text \<open>The receive buffers and their descriptors.\<close>

fun fill_rx :: "'h NicHw \<Rightarrow> nat list \<Rightarrow> Packet list \<times> 'h \<times> Kernel \<Rightarrow> (Packet list \<times> 'h \<times> Kernel) res" where
  "fill_rx hw [] st = Ok st"
| "fill_rx hw (ii # iis) (bufs, c, k) =
     bindR (new_packet k) (\<lambda>(rx_buf, k).
     fill_rx hw iis (bufs @ [rx_buf], hw_set_rx hw c ii (rx_desc_default\<lparr>rx_buffer := pkt_phys rx_buf\<rparr>), k))"

definition nic_create :: "'h NicHw \<Rightarrow> PciDevice \<Rightarrow> NicRegisters \<Rightarrow> 'h \<Rightarrow> Kernel \<Rightarrow> 'h IntelGbit res" where
  "nic_create hw device rs c k =
     bindR (nic_bar device) (\<lambda>bar.
     bindR (map_mmio k bar) (\<lambda>(vaddr, k).
     bindR (phys_contig_new k 128 8) (\<lambda>(rxd, k).
     let c = fold (\<lambda>i c. hw_set_rx hw c i rx_desc_default) [0..<NUM_RX_DESCS] c in
     bindR (fill_rx hw [0..<NUM_RX_DESCS] ([], c, k)) (\<lambda>(bufs, c, k).
     bindR (phys_contig_new k 256 8) (\<lambda>(txd, k).
     let c = fold (\<lambda>i c. hw_set_tx hw c i tx_desc_default) [0..<NUM_TX_DESCS] c in
       Ok \<lparr>regs = rs, mmio = vaddr, rx_descriptors = rxd, rx_buffers = bufs, rx_head = 0, tx_descriptors = txd,
         tx_head = 0, packets = [], nic_mac = replicate 6 0, card = c, kernel = k\<rparr>)))))"

partial_function (option) wait_reset :: "'h NicHw \<Rightarrow> 'h IntelGbit \<Rightarrow> 'h IntelGbit res option" where
  "wait_reset hw nic =
     bindD (Some (nic_read hw nic (ctrl (regs nic)))) (\<lambda>(v, nic).
     if v AND push_bit 26 1 \<noteq> 0 then wait_reset hw nic else Some (Ok nic))"

definition enable_queue :: "'h NicHw \<Rightarrow> 'h IntelGbit \<Rightarrow> nat \<Rightarrow> 'h IntelGbit res" where
  "enable_queue hw nic reg =
     bindR (nic_read hw nic reg) (\<lambda>(v, nic). nic_write hw nic reg (push_bit 25 1 OR v))"

definition init_rx :: "'h NicHw \<Rightarrow> 'h IntelGbit \<Rightarrow> 'h IntelGbit res" where
  "init_rx hw nic =
     (let phys = pc_paddr (rx_descriptors nic) in
      bindR (nic_write hw nic (rdbah (regs nic)) (ucast (drop_bit 32 phys))) (\<lambda>nic.
      bindR (nic_write hw nic (rdbal (regs nic)) (ucast (drop_bit 0 phys))) (\<lambda>nic.
      bindR (nic_write hw nic (rdlen (regs nic)) (word_of_nat (NUM_RX_DESCS * 16))) (\<lambda>nic.
      bindR (nic_write hw nic (rdh (regs nic)) 0) (\<lambda>nic.
      nic_write hw nic (rdt (regs nic)) (word_of_nat NUM_RX_DESCS - 1))))))"

definition init_tx :: "'h NicHw \<Rightarrow> 'h IntelGbit \<Rightarrow> 'h IntelGbit res" where
  "init_tx hw nic =
     (let phys = pc_paddr (tx_descriptors nic) in
      bindR (nic_write hw nic (tdbah (regs nic)) (ucast (drop_bit 32 phys))) (\<lambda>nic.
      bindR (nic_write hw nic (tdbal (regs nic)) (ucast (drop_bit 0 phys))) (\<lambda>nic.
      bindR (nic_write hw nic (tdlen (regs nic)) (word_of_nat (NUM_TX_DESCS * 16))) (\<lambda>nic.
      bindR (nic_write hw nic (tdh (regs nic)) 0) (\<lambda>nic.
      nic_write hw nic (tdt (regs nic)) 0)))))"

definition read_mac :: "'h NicHw \<Rightarrow> 'h IntelGbit \<Rightarrow> 'h IntelGbit res" where
  "read_mac hw nic =
     bindR (nic_read hw nic (ral0 (regs nic))) (\<lambda>(ral, nic).
     bindR (nic_read hw nic (rah0 (regs nic))) (\<lambda>(rah, nic).
     if rah AND push_bit 31 1 = 0 then Panic ''Whoa, couldn't get MAC''
     else Ok (nic\<lparr>nic_mac := to_le 4 ral @ to_le 2 (ucast rah :: u16)\<rparr>)))"

definition intel_gbit_new :: "'h NicHw \<Rightarrow> PciDevice \<Rightarrow> NicRegisters \<Rightarrow> 'h \<Rightarrow> Kernel \<Rightarrow> 'h IntelGbit res option" where
  "intel_gbit_new hw device rs c k =
     bindD (Some (nic_create hw device rs c k)) (\<lambda>nic.
     bindD (Some (nic_read hw nic (ctrl (regs nic)))) (\<lambda>(v, nic).
     bindD (Some (nic_write hw nic (ctrl (regs nic)) (v OR push_bit 26 1))) (\<lambda>nic.
     bindD (wait_reset hw nic) (\<lambda>nic.
     bindD (Some (nic_write hw nic (imc (regs nic)) (NOT 0))) (\<lambda>nic.
     bindD (Some (if queue_enable (regs nic)
       then bindR (enable_queue hw nic (rxdctl (regs nic))) (\<lambda>nic. enable_queue hw nic (txdctl (regs nic)))
       else Ok nic)) (\<lambda>nic.
     bindD (Some (init_rx hw nic)) (\<lambda>nic.
     bindD (Some (init_tx hw nic)) (\<lambda>nic.
     bindD (Some (read_mac hw nic)) (\<lambda>nic.
     bindD (Some (nic_write hw nic (rctl (regs nic)) (push_bit 26 1 OR push_bit 15 1 OR push_bit 1 1))) (\<lambda>nic.
     Some (nic_write hw nic (tctl (regs nic)) (push_bit 1 1))))))))))))"

subsection \<open>Probing\<close>

definition E1000_REGS :: NicRegisters where
  "E1000_REGS = \<lparr>queue_enable = False, ctrl = 0x0000, imc = 0x00d8, rdbal = 0x2800, rdbah = 0x2804, rdlen = 0x2808,
     rdh = 0x2810, rdt = 0x2818, tdbal = 0x3800, tdbah = 0x3804, tdlen = 0x3808, tdh = 0x3810, tdt = 0x3818,
     ral0 = 0x5400, rah0 = 0x5404, rctl = 0x0100, tctl = 0x0400, rxdctl = 0x2828, txdctl = 0x3828\<rparr>"

definition HANDLED_DEVICES :: "(u16 \<times> u16 \<times> NicRegisters) list" where
  "HANDLED_DEVICES = [(0x8086, 0x100e, E1000_REGS), (0x8086, 0x10d3, E1000_REGS),
     (0x8086, 0x1533, \<lparr>queue_enable = True, ctrl = 0x0000, imc = 0x00d8, rdbal = 0x2800, rdbah = 0x2804,
       rdlen = 0x2808, rdh = 0x2810, rdt = 0x2818, tdbal = 0x3800, tdbah = 0x3804, tdlen = 0x3808, tdh = 0x3810,
       tdt = 0x3818, ral0 = 0x5400, rah0 = 0x5404, rctl = 0x0100, tctl = 0x0400, rxdctl = 0x2828, txdctl = 0x3828\<rparr>)]"

text \<open>\<open>stamp\<close> is the time stamp that names the transaction of the first lease.\<close>

definition e1000_probe :: "'h NicHw \<Rightarrow> u64 \<Rightarrow> PciDevice \<Rightarrow> 'h \<Rightarrow> Kernel \<Rightarrow> 'h IntelGbit NetDevice option res option" where
  "e1000_probe hw stamp device c k =
     (case find (\<lambda>(vid, did, rs). vendor_id (header device) = vid \<and> device_id (header device) = did) HANDLED_DEVICES of
        None \<Rightarrow> Some (Ok None)
      | Some (vid, did, rs) \<Rightarrow>
          bindD (intel_gbit_new hw device rs c k) (\<lambda>nic.
          bindD (netdevice_new (IntelGbitDriver hw) stamp nic) (\<lambda>dev. Some (Ok (Some dev)))))"

text \<open>\<open>NetDevice::purge\<close>\<close>

definition nd_purge :: "'d NetDevice \<Rightarrow> 'd NetDevice res" where
  "nd_purge dev = Panic ''Implement purge for net device''"

declare wait_sent.simps [simp del] wait_reset.simps [simp del]

subsection \<open>The contract of a network driver\<close>

definition nic_ok :: "'h IntelGbit \<Rightarrow> bool" where
  "nic_ok nic \<longleftrightarrow> rx_head nic < NUM_RX_DESCS \<and> tx_head nic < NUM_TX_DESCS \<and> length (rx_buffers nic) = NUM_RX_DESCS \<and>
     rdt (regs nic) div 4 < 32 * 1024 \<and> tdt (regs nic) div 4 < 32 * 1024 \<and>
     (\<forall>p \<in> set (rx_buffers nic) \<union> set (packets nic). packet_ok p) \<and> length (packets nic) \<le> PACKETS_CAPACITY"

definition nic_room :: "'h IntelGbit \<Rightarrow> bool" where
  "nic_room nic \<longleftrightarrow> length (packets nic) < PACKETS_CAPACITY"

lemma packet_new_ok: "packet_ok (packet_new v p)"
  by (simp add: packet_ok_def packet_new_def)

lemma new_packet_ok: "new_packet k = Ok (p, k') \<Longrightarrow> packet_ok p"
  by (auto simp: new_packet_def packet_new_ok)

lemma nic_allocate_ok:
  assumes "nic_ok nic" "nic_allocate_packet nic = Some (Ok (p, nic'))"
  shows "nic_ok nic' \<and> packet_ok p \<and> (nic_room nic \<longrightarrow> nic_room nic') \<and> rx_head nic' = rx_head nic \<and>
    rx_buffers nic' = rx_buffers nic"
proof (cases "packets nic = []")
  case True
  then show ?thesis using assms new_packet_ok by (auto simp: nic_allocate_packet_def nic_ok_def nic_room_def)
next
  case False
  from assms False obtain k where n: "nic' = nic\<lparr>packets := butlast (packets nic), kernel := k\<rparr>" "p = last (packets nic)"
    by (auto simp: nic_allocate_packet_def)
  have "set (butlast (packets nic)) \<subseteq> set (packets nic)" by (auto dest: in_set_butlastD)
  moreover have "packet_ok (last (packets nic))" using assms False by (simp add: nic_ok_def)
  ultimately show ?thesis using assms n by (auto simp: nic_ok_def nic_room_def)
qed

lemma nic_release_room:
  "nic_ok nic \<Longrightarrow> packet_ok p \<Longrightarrow> nic_room nic \<Longrightarrow> \<exists>nic'. nic_release_packet nic p = Some (Ok nic') \<and> nic_ok nic'"
  by (auto simp: nic_release_packet_def nic_room_def nic_ok_def)

lemma nic_release_ok:
  "nic_ok nic \<Longrightarrow> packet_ok p \<Longrightarrow> nic_release_packet nic p = Some (Ok nic') \<Longrightarrow> nic_ok nic'"
  by (auto simp: nic_release_packet_def nic_ok_def split: if_splits)

lemma nic_recv_ok:
  assumes ok: "nic_ok nic" and r: "nic_recv hw nic = Some (Ok (r, nic'))"
  shows "nic_ok nic' \<and> (nic_room nic \<longrightarrow> nic_room nic') \<and> (\<forall>p. r = Some p \<longrightarrow> packet_ok p)"
proof -
  obtain d c where d: "hw_rx hw (card nic) (rx_head nic) = (d, c)" by fastforce
  have ok1: "nic_ok (nic\<lparr>card := x\<rparr>)" and room1: "nic_room (nic\<lparr>card := x\<rparr>) = nic_room nic" for x
    using ok by (simp_all add: nic_ok_def nic_room_def)
  have h: "rx_head nic < NUM_RX_DESCS" using ok by (simp add: nic_ok_def)
  show ?thesis
  proof (cases "rx_status d AND 1 = 0")
    case True
    then show ?thesis using r d h ok1 room1 by (auto simp: nic_recv_def)
  next
    case False
    obtain d2 c2 where d2: "hw_rx hw c (rx_head nic) = (d2, c2)" by fastforce
    obtain fresh nic1 where a: "nic_allocate_packet (nic\<lparr>card := c2\<rparr>) = Some (Ok (fresh, nic1))"
      using r d d2 h False by (auto simp: nic_recv_def)
    from nic_allocate_ok [OF ok1 a] have n1: "nic_ok nic1" "packet_ok fresh" "nic_room nic \<longrightarrow> nic_room nic1"
      "rx_head nic1 = rx_head nic" by (simp_all add: room1)
    have l: "rx_head nic1 < length (rx_buffers nic1)" using n1 h by (simp add: nic_ok_def)
    from r d d2 h False a l obtain packet where
      p: "packet_set_len ((rx_buffers nic1 ! rx_head nic1)\<lparr>pkt_raw := map (hw_data hw (card nic1) (pkt_phys (rx_buffers nic1 ! rx_head nic1))) [0..<4096]\<rparr>)
        (unat (rx_len d2)) = Ok packet" "r = Some packet"
      by (auto simp: nic_recv_def Let_def)
    from p have "packet_ok packet" by (auto simp: packet_set_len_def packet_ok_def split: if_splits)
    moreover from r d d2 h False a l obtain c3 where
      "nic' = nic1\<lparr>rx_buffers := (rx_buffers nic1)[rx_head nic1 := fresh], card := c3, rx_head := (rx_head nic1 + 1) mod NUM_RX_DESCS\<rparr>"
      by (auto simp: nic_recv_def Let_def nic_write_def split: if_splits)
    then have "nic_ok nic'" "nic_room nic1 \<longrightarrow> nic_room nic'" using n1
      by (auto simp: nic_ok_def nic_room_def NUM_RX_DESCS_def dest!: set_update_subset_insert [THEN subsetD])
    ultimately show ?thesis using n1 p by simp
  qed
qed

lemma wait_sent_keeps:
  assumes "wait_sent hw nic = Some nic'"
  shows "\<exists>c. nic' = nic\<lparr>card := c\<rparr>"
proof (rule wait_sent.raw_induct [of "\<lambda>hw nic nic'. \<exists>c. nic' = nic\<lparr>card := c\<rparr>", OF _ assms])
  fix wait hw and nic nic' :: "'a IntelGbit"
  assume IH: "\<And>hw nic nic'. wait hw nic = Some nic' \<Longrightarrow> \<exists>c. nic' = nic\<lparr>card := c\<rparr>"
    and step: "(let (d, c) = hw_tx hw (card nic) (tx_head nic); nic = nic\<lparr>card := c\<rparr> in
      if tx_status d AND 1 = 0 then wait hw nic else Some nic) = Some nic'"
  obtain d c where d: "hw_tx hw (card nic) (tx_head nic) = (d, c)" by fastforce
  show "\<exists>c. nic' = nic\<lparr>card := c\<rparr>"
  proof (cases "tx_status d AND 1 = 0")
    case True
    with step d IH [of hw "nic\<lparr>card := c\<rparr>" nic'] show ?thesis by auto
  next
    case False
    with step d show ?thesis by auto
  qed
qed

lemma nic_send_ok:
  assumes "nic_ok nic" "packet_ok p" "nic_send hw nic p = Some (Ok nic')"
  shows "nic_ok nic'"
proof -
  from assms obtain c nic1 where n: "wait_sent hw (nic\<lparr>card := c\<rparr>) = Some nic1"
      "nic_release_packet (nic1\<lparr>tx_head := (tx_head nic + 1) mod NUM_TX_DESCS\<rparr>) p = Some (Ok nic')"
    by (auto simp: nic_send_def Let_def nic_write_def split: if_splits option.splits)
  from wait_sent_keeps [OF n(1)] obtain c' where "nic1 = nic\<lparr>card := c'\<rparr>" by auto
  then have "nic_ok (nic1\<lparr>tx_head := (tx_head nic + 1) mod NUM_TX_DESCS\<rparr>)"
    using assms(1) by (simp add: nic_ok_def NUM_TX_DESCS_def)
  from nic_release_ok [OF this assms(2) n(2)] show ?thesis .
qed

interpretation e1000: net_driver "IntelGbitDriver hw" nic_ok nic_room
proof
qed (auto simp: IntelGbitDriver_def intro: nic_send_ok nic_release_room dest: nic_recv_ok nic_allocate_ok)

text \<open>C23: The delivery of the network stack over this driver: when the driver has taken a packet from
  the card, or found none, and its list of free buffers has room, a poll of a bound port returns
  and does to the queues, and hands to the caller, exactly what the specification \<open>deliver\<close> says;
  every packet in a queue remains a datagram for its port.
\<close>

theorem e1000_delivery:
  assumes "device_ok nic_ok dev" "udp_binds dev port = Some q" "nic_recv hw (nd_driver dev) = Some (Ok (arrived, nic'))"
    "length (packets (nd_driver dev)) < PACKETS_CAPACITY"
  shows "\<exists>ret c' dev'. recv_udp (IntelGbitDriver hw) dev port func c = Some (Ok (ret, c', dev')) \<and> device_ok nic_ok dev' \<and>
    udp_binds dev' = snd (deliver (udp_binds dev) port arrived) \<and>
    handed func port c (fst (deliver (udp_binds dev) port arrived)) ret c'"
  using assms by (intro e1000.recv_refines_deliver) (auto simp: IntelGbitDriver_def nic_room_def)

text \<open>A card that has received nothing.\<close>

definition silent_card :: "unit NicHw" where
  "silent_card = \<lparr>hw_read = (\<lambda>h r. (0, h)), hw_write = (\<lambda>h r v. h), hw_rx = (\<lambda>h i. (rx_desc_default, h)),
     hw_set_rx = (\<lambda>h i d. h), hw_tx = (\<lambda>h i. (tx_desc_default, h)), hw_set_tx = (\<lambda>h i d. h), hw_data = (\<lambda>h a i. 0)\<rparr>"

definition example_kernel :: Kernel where
  "example_kernel = \<lparr>k_mem = (\<lambda>_. 0), k_args = \<lparr>ba_free_memory = None, ba_serial = None, ba_page_table = None,
     ba_trampoline_page_table = 0, ba_kernel_entry = None, ba_stack_vaddr = 0, ba_soft_reboot_addr = 0\<rparr>,
     k_core = \<lparr>address = 0, core_id = 0, interrupt_depth = 0, exception_depth = 0, interrupt_disable_outstanding = 0,
       apic_id_cell = 0, interrupt_flag = True\<rparr>, k_free_list = 0, k_numa = None, k_next_vaddr = 0\<rparr>"

definition example_nic :: "unit IntelGbit" where
  "example_nic = \<lparr>regs = E1000_REGS, mmio = 0, rx_descriptors = \<lparr>pc_vaddr = 0, pc_paddr = 0\<rparr>,
     rx_buffers = replicate 8 (packet_new 0 0), rx_head = 3, tx_descriptors = \<lparr>pc_vaddr = 0, pc_paddr = 0\<rparr>, tx_head = 0,
     packets = [], nic_mac = [1, 2, 3, 4, 5, 6], card = (), kernel = example_kernel\<rparr>"

lemma example_nic_ok: "nic_ok example_nic"
  by (simp add: nic_ok_def example_nic_def NUM_RX_DESCS_def NUM_TX_DESCS_def E1000_REGS_def packet_new_ok)

theorem e1000_delivery_witness:
  "\<exists>ret c' dev'. recv_udp (IntelGbitDriver silent_card) \<lparr>nd_driver = example_nic, nd_mac = [1, 2, 3, 4, 5, 6], udp_binds = [68 \<mapsto> []]\<rparr>
      68 (\<lambda>p u c. (Some (), c + (1 :: nat))) 0 = Some (Ok (ret, c', dev')) \<and> ret = None \<and> c' = 0"
proof -
  let ?dev = "\<lparr>nd_driver = example_nic, nd_mac = [1, 2, 3, 4, 5, 6], udp_binds = [68 \<mapsto> []]\<rparr>"
  have "device_ok nic_ok ?dev" by (auto simp: device_ok_def example_nic_ok split: if_splits)
  moreover have "nic_recv silent_card (nd_driver ?dev) = Some (Ok (None, example_nic))"
    by (simp add: nic_recv_def silent_card_def example_nic_def NUM_RX_DESCS_def rx_desc_default_def)
  moreover have "length (packets (nd_driver ?dev)) < PACKETS_CAPACITY" by (simp add: example_nic_def PACKETS_CAPACITY_def)
  ultimately show ?thesis
    using e1000_delivery [of ?dev 68 "[]" silent_card None example_nic "\<lambda>p u c. (Some (), c + (1 :: nat))" 0]
    by (auto simp: deliver_def handed_def)
qed

end
