(* ===== verification/Dhcp_Correct.thy ===== *)
theory Dhcp_Correct
  imports Dhcp
begin

text \<open>
  The packets of the DHCP client and the lease it returns: the header is read back as it was
  written, the packets sent are well-formed UDP packets, and a lease is built from an offer and
  an acknowledgement that were received for this client and this transaction.
\<close>

unbundle bit_operations_syntax

subsection \<open>The header\<close>

definition header_ok :: "Header \<Rightarrow> bool" where
  "header_ok h \<longleftrightarrow> length (h_chaddr h) = 16 \<and> length (h_name h) = 8 \<and> length (h_file h) = 16"

lemma length_words: "length (concat (map (to_le 8) ws)) = 8 * length ws"
  by (induction ws) simp_all

lemma length_header_bytes [simp]: "header_ok h \<Longrightarrow> length (header_bytes h) = 240"
  by (simp add: header_ok_def header_bytes_def length_words)

lemma nth_words: "i < length ws \<Longrightarrow> take 8 (drop (8 * i) (concat (map (to_le 8) ws) @ r)) = to_le 8 (ws ! i)"
proof (induction ws arbitrary: i)
  case (Cons w ws)
  then show ?case by (cases i) simp_all
qed simp

lemma read_words:
  assumes "length pre = off" "length ws = n"
  shows "map (\<lambda>i. from_le (take 8 (drop (off + 8 * i) (pre @ concat (map (to_le 8) ws) @ r)))) [0..<n] = (ws :: u64 list)"
proof (rule nth_equalityI)
  fix i assume "i < length (map (\<lambda>i. from_le (take 8 (drop (off + 8 * i) (pre @ concat (map (to_le 8) ws) @ r))) :: u64) [0..<n])"
  then have "i < length ws" using assms by simp
  with nth_words [OF this, of r] assms show "map (\<lambda>i. from_le (take 8 (drop (off + 8 * i) (pre @ concat (map (to_le 8) ws) @ r)))) [0..<n] ! i = ws ! i"
    by (simp add: from_le_to_le)
qed (simp add: assms)

lemma header_read_bytes: "header_ok h \<Longrightarrow> header_read (header_bytes h) = h"
proof -
  assume ok: "header_ok h"
  let ?pre = "[h_op h, h_htype h, h_hlen h, h_hops h] @ to_le 4 (h_xid h) @ to_le 2 (h_secs h) @
     to_le 2 (h_flags h) @ to_le 4 (h_ciaddr h) @ to_le 4 (h_yiaddr h) @ to_le 4 (h_siaddr h) @
     to_le 4 (h_giaddr h) @ h_chaddr h"
  let ?name = "concat (map (to_le 8) (h_name h))" and ?file = "concat (map (to_le 8) (h_file h))"
  have n: "map (\<lambda>i. from_le (take 8 (drop (44 + 8 * i) (header_bytes h)))) [0..<8] = h_name h"
    using read_words [of ?pre 44 "h_name h" 8 "?file @ to_le 4 (h_cookie h)"] ok by (simp add: header_bytes_def header_ok_def)
  have f: "map (\<lambda>i. from_le (take 8 (drop (108 + 8 * i) (header_bytes h)))) [0..<16] = h_file h"
    using read_words [of "?pre @ ?name" 108 "h_file h" 16 "to_le 4 (h_cookie h)"] ok
    by (simp add: header_bytes_def header_ok_def length_words)
  show ?thesis unfolding header_read_def n f
    using ok by (simp add: header_bytes_def header_ok_def length_words from_le_to_le)
qed

subsection \<open>The packets that are sent\<close>

definition request_header :: "u32 \<Rightarrow> bytes \<Rightarrow> Header" where
  "request_header xid mac = header_default\<lparr>h_op := Opcode_Request, h_htype := HardwareType_Ethernet, h_hlen := 6,
     h_xid := xid, h_chaddr := mac @ replicate 10 0, h_cookie := swap32 DHCP_COOKIE\<rparr>"

lemma request_header_ok: "length mac = 6 \<Longrightarrow> header_ok (request_header xid mac)"
  by (simp add: header_ok_def request_header_def header_default_def)

lemma create_dhcp_packet_Ok:
  assumes "packet_ok p" "length mac = 6" "length opts \<le> 1232"
  shows "\<exists>p'. create_dhcp_packet p xid mac opts = Ok p' \<and> packet_ok p' \<and>
    packet_raw p' = Ok (frame_header mac (replicate 6 0xff) 0 (NOT 0) 68 67 (240 + length opts) @
      header_bytes (request_header xid mac) @ opts)"
proof -
  let ?n = "240 + length opts"
  let ?h = "frame_header mac (replicate 6 0xff) 0 (NOT 0) 68 67 ?n"
  let ?b = "header_bytes (request_header xid mac)"
  have p: "length (pkt_raw p) = 4096" using assms by (simp add: packet_ok_def)
  define p1 where "p1 = p\<lparr>pkt_raw := ?h @ drop 42 (pkt_raw p), pkt_length := 42 + ?n\<rparr>"
  define p2 where "p2 = p1\<lparr>pkt_raw := ?h @ ?b @ drop 282 (pkt_raw p)\<rparr>"
  define p3 where "p3 = p2\<lparr>pkt_raw := ?h @ ?b @ opts @ drop (282 + length opts) (pkt_raw p)\<rparr>"
  have lb: "length ?b = 240" using request_header_ok [OF assms(2), THEN length_header_bytes] .
  have lh: "length ?h = 42" using assms by simp
  have "uadd 64 42 ?n = 42 + ?n" using assms by simp
  then have 1: "create_udp_raw p mac (replicate 6 0xff) 0 (NOT 0) 68 67 ?n = Ok (42, p1)"
    using assms p by (simp only: create_udp_raw_eq length_replicate) (simp add: packet_set_len_Ok p1_def)
  have 2: "packet_write p1 42 (42 + 240) ?b = Ok p2"
    using lb lh p assms by (subst packet_write_Ok) (simp_all add: p1_def p2_def)
  have 3: "packet_write p2 (42 + 240) (42 + 240 + length opts) opts = Ok p3"
    using lb lh p assms by (subst packet_write_Ok) (simp_all add: p1_def p2_def p3_def ac_simps)
  have c: "copy_into (h_chaddr header_default) 0 6 mac = Ok (mac @ replicate 10 0)"
    using assms by (simp add: header_default_def copy_into_def)
  have "create_dhcp_packet p xid mac opts = Ok p3"
    unfolding create_dhcp_packet_def 1 c bindR_simps prod.case Let_def request_header_def [symmetric] 2 3 ..
  moreover have ok: "packet_ok p3" using assms p lb lh by (simp add: packet_ok_def p1_def p2_def p3_def)
  moreover have "packet_raw p3 = Ok (?h @ ?b @ opts)"
    using lb lh unfolding packet_raw_Ok [OF ok] by (simp add: p1_def p2_def p3_def)
  ultimately show ?thesis by blast
qed

text \<open>C18: For at most 1232 bytes of options the packet of a request is built without a panic and is
  a UDP packet from port 68 to port 67, broadcast, that holds the request header with the
  transaction and the hardware address of the client, followed by the options.
\<close>

theorem create_dhcp_packet_parsed:
  assumes "packet_ok p" "length mac = 6" "length opts \<le> 1232"
  shows "\<exists>p' u. create_dhcp_packet p xid mac opts = Ok p' \<and> packet_ok p' \<and> packet_udp p' = Ok (Some u) \<and>
    src_port u = 68 \<and> dst_port u = 67 \<and> dst_mac (ip_eth (udp_ip u)) = replicate 6 0xff \<and>
    header_read (take 240 (udp_payload u)) = request_header xid mac \<and> drop 240 (udp_payload u) = opts"
proof -
  let ?m = "header_bytes (request_header xid mac) @ opts"
  obtain p' where p': "create_dhcp_packet p xid mac opts = Ok p'" "packet_ok p'"
      "packet_raw p' = Ok (frame_header mac (replicate 6 0xff) 0 (NOT 0) 68 67 (240 + length opts) @ ?m)"
    using create_dhcp_packet_Ok [OF assms] by blast
  have ok: "header_ok (request_header xid mac)" using assms by (simp add: request_header_ok)
  then have l: "240 + length opts = length ?m" by simp
  note u = parse_frame [OF assms(2) length_replicate, of ?m, OF _ p'(3) [unfolded l]]
  show ?thesis using p' ok assms u by (simp add: header_read_bytes)
qed

theorem create_dhcp_packet_parsed_witness:
  "\<exists>p' u. create_dhcp_packet (packet_new 0 0) 7 [1, 2, 3, 4, 5, 6] [255] = Ok p' \<and> packet_udp p' = Ok (Some u) \<and>
    drop 240 (udp_payload u) = [255]"
  using create_dhcp_packet_parsed [of "packet_new 0 0" "[1, 2, 3, 4, 5, 6]" "[255]" 7]
  by (auto simp: packet_ok_def packet_new_def)

subsection \<open>The lease\<close>

text \<open>The packet the next poll of a port looks at.\<close>

definition incoming :: "'d NetDriver \<Rightarrow> 'd NetDevice \<Rightarrow> u16 \<Rightarrow> Packet option" where
  "incoming ops dev port =
     (case udp_binds dev port of
        None \<Rightarrow> None
      | Some (p # q) \<Rightarrow> Some p
      | Some [] \<Rightarrow> (case drv_recv ops (nd_driver dev) of Some (Ok (a, d)) \<Rightarrow> a | _ \<Rightarrow> None))"

text \<open>The states of the device during the exchange.\<close>

inductive dhcp_run :: "'d NetDriver \<Rightarrow> 'd NetDevice \<Rightarrow> 'd NetDevice \<Rightarrow> bool" for ops dev where
  run_bind: "dhcp_run ops dev (snd (bind_udp dev 68))"
| run_send: "dhcp_run ops dev dev' \<Longrightarrow> send_dhcp ops dev' xid opts = Some (Ok dev'') \<Longrightarrow> dhcp_run ops dev dev''"
| run_recv: "dhcp_run ops dev dev' \<Longrightarrow>
    recv_udp ops dev' 68 (func :: Packet \<Rightarrow> Udp \<Rightarrow> Ipv4Addr option \<times> Ipv4Addr option \<Rightarrow> unit option \<times> Ipv4Addr option \<times> Ipv4Addr option) c
      = Some (Ok (ret, c', dev'')) \<Longrightarrow> dhcp_run ops dev dev''"

text \<open>A packet that was received during the exchange and parsed as a DHCP reply to this client.\<close>

definition reply_received :: "'d NetDriver \<Rightarrow> 'd NetDevice \<Rightarrow> u32 \<Rightarrow> Header \<Rightarrow> DhcpOption list \<Rightarrow> bool" where
  "reply_received ops dev xid hdr opts \<longleftrightarrow>
     (\<exists>dev1 p u. dhcp_run ops dev dev1 \<and> incoming ops dev1 68 = Some p \<and> packet_udp p = Ok (Some u) \<and>
        dst_mac (ip_eth (udp_ip u)) = nd_mac dev \<and> parse_dhcp_packet xid u = Some (hdr, opts))"

lemma recv_udp_incoming:
  assumes "recv_udp ops dev port func c = Some (Ok (Some r, c', dev'))"
  shows "\<exists>p u. incoming ops dev port = Some p \<and> packet_udp p = Ok (Some u) \<and> func p u c = (Some r, c')"
proof (cases "udp_binds dev port")
  case None
  with assms show ?thesis by (simp add: recv_udp_def)
next
  case q: (Some q)
  show ?thesis
  proof (cases q)
    case (Cons p rest)
    with assms q obtain u where "packet_udp p = Ok (Some u)" "func p u c = (Some r, c')"
      by (auto simp: recv_udp_def Let_def split: prod.splits)
    with q Cons show ?thesis by (simp add: incoming_def)
  next
    case Nil
    from assms q Nil obtain a d where a: "drv_recv ops (nd_driver dev) = Some (Ok (a, d))"
      by (auto simp: recv_udp_def)
    then obtain p where p: "a = Some p" using assms q Nil by (cases a) (auto simp: recv_udp_def)
    with a assms q Nil obtain u where u: "packet_udp p = Ok (Some u)"
      by (auto simp: recv_udp_def split: option.splits)
    have "func p u c = (Some r, c')"
      using assms q Nil a p u by (cases "func p u c") (auto simp: recv_udp_def split: if_splits option.splits)
    with q Nil a p u show ?thesis by (simp add: incoming_def)
  qed
qed

text \<open>The wait ends with a packet the closure accepts.\<close>

definition accepted_during :: "'d NetDriver \<Rightarrow> 'd NetDevice \<Rightarrow>
    (Packet \<Rightarrow> Udp \<Rightarrow> Ipv4Addr option \<times> Ipv4Addr option \<Rightarrow> unit option \<times> Ipv4Addr option \<times> Ipv4Addr option) \<Rightarrow>
    Ipv4Addr option \<times> Ipv4Addr option \<Rightarrow> bool" where
  "accepted_during ops dev func c' \<longleftrightarrow>
     (\<exists>dev2 p u c0. dhcp_run ops dev dev2 \<and> incoming ops dev2 68 = Some p \<and> packet_udp p = Ok (Some u) \<and> func p u c0 = (Some (), c'))"

lemma recv_wait_accepted:
  assumes "recv_wait ops dev1 68 func c = Some (Ok (c', dev'))" "dhcp_run ops dev dev1"
  shows "dhcp_run ops dev dev' \<and> accepted_during ops dev func c'"
proof -
  define P where "P = (\<lambda>o1 (d :: 'a NetDevice) po fu (cc :: Ipv4Addr option \<times> Ipv4Addr option) r. o1 = ops \<and> po = (68 :: u16) \<and> fu = func \<and> dhcp_run ops dev d
    \<and> r = Ok (c', dev') \<longrightarrow> dhcp_run ops dev dev' \<and> accepted_during ops dev func c')"
  have "P ops dev1 68 func c (Ok (c', dev'))"
  proof (rule recv_wait.raw_induct [of P, OF _ assms(1)])
    fix loop o1 d po fu cc r
    assume IH: "\<And>o1 d po fu cc r. loop o1 d po fu cc = Some r \<Longrightarrow> P o1 d po fu cc r"
      and step: "bindD (recv_udp o1 d po fu cc) (\<lambda>(ret, c', dev').
         if ret = None then loop o1 dev' po fu c' else Some (Ok (c', dev'))) = Some r"
    show "P o1 d po fu cc r" unfolding P_def
    proof (intro impI, elim conjE)
      assume eqs: "o1 = ops" "po = 68" "fu = func" and run: "dhcp_run ops dev d" and r: "r = Ok (c', dev')"
      obtain ret c2 d2 where v: "recv_udp ops d 68 func cc = Some (Ok (ret, c2, d2))"
        using step eqs r by (auto elim!: bindD_OkE)
      have run2: "dhcp_run ops dev d2" by (rule run_recv [OF run v])
      show "dhcp_run ops dev dev' \<and> accepted_during ops dev func c'"
      proof (cases ret)
        case None
        with step eqs v r have "loop ops d2 68 func c2 = Some (Ok (c', dev'))" by simp
        from IH [OF this] run2 show ?thesis by (simp add: P_def)
      next
        case (Some x)
        with step eqs v r have e: "c2 = c'" "d2 = dev'" by simp_all
        obtain p u where "incoming ops d 68 = Some p" "packet_udp p = Ok (Some u)" "func p u cc = (Some (), c')"
          using recv_udp_incoming [of ops d 68 func cc x c' dev'] v Some e by auto
        with run have "accepted_during ops dev func c'" unfolding accepted_during_def by blast
        with run2 e show ?thesis by simp
      qed
    qed
  qed
  with assms(2) show ?thesis by (simp add: P_def)
qed

lemma offer_accepted:
  assumes "accepted_during ops dev (offer_closure xid (nd_mac dev)) (Some ip, server)"
  shows "\<exists>hdr opts. reply_received ops dev xid hdr opts \<and> MessageTypeOption Offer \<in> set opts \<and>
    ip = swap32 (h_yiaddr hdr) \<and> server = find_map is_server_ip opts"
  using assms unfolding accepted_during_def reply_received_def offer_closure_def
  by (fastforce split: if_splits option.splits prod.splits)

lemma ack_accepted:
  assumes "accepted_during ops dev (ack_closure xid (nd_mac dev)) (broadcast, smask)"
  shows "\<exists>hdr opts. reply_received ops dev xid hdr opts \<and> MessageTypeOption Ack \<in> set opts \<and>
    broadcast = find_map is_broadcast_ip opts \<and> smask = find_map is_subnet_mask opts"
  using assms unfolding accepted_during_def reply_received_def ack_closure_def
  by (fastforce split: if_splits option.splits prod.splits)

lemma request_lease_sound:
  assumes "request_lease ops dev2 xid (nd_mac dev) 68 ip server = Some (Ok (Some l, dev'))" "dhcp_run ops dev dev2"
  shows "client_ip l = ip \<and> server_ip l = server \<and> udp_binds dev' 68 = None \<and>
    accepted_during ops dev (ack_closure xid (nd_mac dev)) (broadcast_ip l, subnet_mask l)"
proof -
  from assms(1) obtain o2 dev3 c dev4 where
    s2: "send_dhcp ops dev2 xid o2 = Some (Ok dev3)" and
    w2: "recv_wait ops dev3 68 (ack_closure xid (nd_mac dev)) (None, None) = Some (Ok (c, dev4))" and
    k: "drop_bind ops (Some \<lparr>client_ip = ip, server_ip = server, broadcast_ip = fst c,
         subnet_mask = snd c\<rparr>) dev4 68 = Some (Ok (Some l, dev'))"
    unfolding request_lease_def by (auto elim!: bindD_OkE)
  from k have "udp_binds dev' 68 = None" and l: "l = \<lparr>client_ip = ip, server_ip = server, broadcast_ip = fst c, subnet_mask = snd c\<rparr>"
    by (auto simp: drop_bind_def unbind_udp_def)
  moreover from recv_wait_accepted [OF w2 run_send [OF assms(2) s2]] have "accepted_during ops dev (ack_closure xid (nd_mac dev)) c" by simp
  ultimately show ?thesis by simp
qed

text \<open>C19: A lease is only returned when, during this exchange, a DHCP reply of this transaction was
  received for the hardware address of the device that offers the client address and names the
  server, and one that acknowledges and carries the broadcast address and the subnet mask. The
  port of the client is unbound again.
\<close>

theorem get_lease_sound:
  assumes "get_lease ops tsc dev = Some (Ok (Some l, dev'))"
  shows "udp_binds dev' 68 = None \<and>
    (\<exists>hdr opts. reply_received ops dev (ucast tsc) hdr opts \<and> MessageTypeOption Offer \<in> set opts \<and>
       client_ip l = swap32 (h_yiaddr hdr) \<and> find_map is_server_ip opts = Some (server_ip l)) \<and>
    (\<exists>hdr opts. reply_received ops dev (ucast tsc) hdr opts \<and> MessageTypeOption Ack \<in> set opts \<and>
       broadcast_ip l = find_map is_broadcast_ip opts \<and> subnet_mask l = find_map is_subnet_mask opts)"
proof -
  let ?xid = "ucast tsc :: u32" and ?mac = "nd_mac dev"
  obtain bound dev0 where b: "bind_udp dev 68 = (bound, dev0)" by fastforce
  from assms b obtain o1 dev1 off srv dev2 where
    s1: "send_dhcp ops dev0 ?xid o1 = Some (Ok dev1)" and
    w1: "recv_wait ops dev1 68 (offer_closure ?xid ?mac) (None, None) = Some (Ok ((off, srv), dev2))" and
    k: "(case (off, srv) of (Some offer_ip, Some server) \<Rightarrow> request_lease ops dev2 ?xid ?mac 68 offer_ip server
      | _ \<Rightarrow> drop_bind ops None dev2 68) = Some (Ok (Some l, dev'))"
    unfolding get_lease_def Let_def by (auto elim!: bindD_OkE simp: bind_udp_def split: if_splits)
  from k obtain ip server where o: "off = Some ip" "srv = Some server" and
    q: "request_lease ops dev2 ?xid ?mac 68 ip server = Some (Ok (Some l, dev'))"
    by (auto simp: drop_bind_def split: option.splits)
  have "dhcp_run ops dev dev0" using run_bind [of ops dev] b by simp
  from recv_wait_accepted [OF w1 run_send [OF this s1]] have r2: "dhcp_run ops dev dev2" and
    a1: "accepted_during ops dev (offer_closure ?xid ?mac) (Some ip, Some server)" by (simp_all add: o)
  from request_lease_sound [OF q r2] have l: "client_ip l = ip" "server_ip l = server" "udp_binds dev' 68 = None"
    "accepted_during ops dev (ack_closure ?xid ?mac) (broadcast_ip l, subnet_mask l)" by simp_all
  have "\<exists>hdr opts. reply_received ops dev ?xid hdr opts \<and> MessageTypeOption Offer \<in> set opts \<and>
      client_ip l = swap32 (h_yiaddr hdr) \<and> find_map is_server_ip opts = Some (server_ip l)"
    using offer_accepted [OF a1] l by (metis (no_types, lifting))
  with ack_accepted [OF l(4)] l(3) show ?thesis by blast
qed


text \<open>An exchange with a server at 10.0.0.1 that offers and acknowledges 10.0.0.2.\<close>

definition example_driver :: "Packet list NetDriver" where
  "example_driver = \<lparr>drv_mac = (\<lambda>_. [1, 2, 3, 4, 5, 6]),
     drv_recv = (\<lambda>ps. case ps of [] \<Rightarrow> Some (Ok (None, [])) | p # ps \<Rightarrow> Some (Ok (Some p, ps))),
     drv_send = (\<lambda>ps p. Some (Ok ps)), drv_allocate = (\<lambda>ps. Some (Ok (packet_new 0 0, ps))), drv_release = (\<lambda>ps p. Some (Ok ps))\<rparr>"

definition reply_message :: "MessageType \<Rightarrow> bytes" where
  "reply_message t = header_bytes (header_default\<lparr>h_op := 2, h_htype := 1, h_hlen := 6, h_xid := 7, h_yiaddr := swap32 0x0a000002,
     h_cookie := swap32 DHCP_COOKIE\<rparr>) @ concat (map option_bytes [MessageTypeOption t, ServerIp 0x0a000001]) @ [255]"

definition reply_packet :: "MessageType \<Rightarrow> Packet" where
  "reply_packet t = \<lparr>pkt_raw = frame_header [6, 5, 4, 3, 2, 1] [1, 2, 3, 4, 5, 6] 0x0a000001 0x0a000002 67 68 (length (reply_message t)) @
     reply_message t @ replicate 3804 0, pkt_vaddr = 0, pkt_phys = 0, pkt_length = 42 + length (reply_message t)\<rparr>"

lemma header_ok_reply: "header_ok (header_default\<lparr>h_op := a, h_htype := b, h_hlen := c, h_xid := x, h_yiaddr := y, h_cookie := z\<rparr>)"
  by (simp add: header_ok_def header_default_def)

lemma length_reply_message: "length (reply_message t) = 250"
  by (simp add: reply_message_def header_ok_reply)

lemma reply_packet_udp: "\<exists>u. packet_udp (reply_packet t) = Ok (Some u) \<and> dst_port u = 68 \<and>
  dst_mac (ip_eth (udp_ip u)) = [1, 2, 3, 4, 5, 6] \<and> udp_payload u = reply_message t"
proof -
  have "packet_raw (reply_packet t) = Ok (frame_header [6, 5, 4, 3, 2, 1] [1, 2, 3, 4, 5, 6] 0x0a000001 0x0a000002 67 68
      (length (reply_message t)) @ reply_message t)"
    by (simp add: packet_raw_def reply_packet_def length_reply_message)
  from parse_frame [OF _ _ _ this] show ?thesis by (simp add: length_reply_message)
qed

lemma reply_parsed:
  assumes "udp_payload u = reply_message t"
  shows "\<exists>hdr. parse_dhcp_packet 7 u = Some (hdr, [MessageTypeOption t, ServerIp 0x0a000001]) \<and> swap32 (h_yiaddr hdr) = 0x0a000002"
proof -
  have "parse_options (concat (map option_bytes [MessageTypeOption t, ServerIp 0x0a000001]) @ [255]) = [MessageTypeOption t, ServerIp 0x0a000001]"
    by (subst parse_options_append) simp_all
  moreover have "swap32 (swap32 0x0a000002) = 0x0a000002" by code_simp
  ultimately show ?thesis using assms unfolding parse_dhcp_packet_def Let_def reply_message_def
    by (simp add: get_range_def header_ok_reply header_read_bytes Opcode_Reply_def HardwareType_Ethernet_def)
qed

lemma example_send:
  assumes "length (nd_mac dev) = 6" "length opts \<le> 1232"
  shows "send_dhcp example_driver dev xid opts = Some (Ok dev)"
proof -
  have "packet_ok (packet_new 0 0)" by (simp add: packet_ok_def packet_new_def)
  from create_dhcp_packet_Ok [OF this assms] obtain p' where "create_dhcp_packet (packet_new 0 0) xid (nd_mac dev) opts = Ok p'" by blast
  then show ?thesis by (simp add: send_dhcp_def nd_allocate_packet_def nd_send_def example_driver_def)
qed

lemma example_wait:
  assumes "nd_driver dev = reply_packet t # ps" "udp_binds dev 68 = Some []"
    "\<And>u. udp_payload u = reply_message t \<Longrightarrow> dst_mac (ip_eth (udp_ip u)) = [1, 2, 3, 4, 5, 6] \<Longrightarrow>
      func (reply_packet t) u c = (Some (), c')"
  shows "recv_wait example_driver dev 68 func c = Some (Ok (c', dev\<lparr>nd_driver := ps\<rparr>))"
proof -
  obtain u where u: "packet_udp (reply_packet t) = Ok (Some u)" "dst_port u = 68"
      "dst_mac (ip_eth (udp_ip u)) = [1, 2, 3, 4, 5, 6]" "udp_payload u = reply_message t"
    using reply_packet_udp by blast
  have "recv_udp example_driver dev 68 func c = Some (Ok (Some (), c', dev\<lparr>nd_driver := ps\<rparr>))"
    using assms u by (simp add: recv_udp_def example_driver_def)
  then show ?thesis by (subst recv_wait.simps) simp
qed

lemma offer_example:
  "udp_payload u = reply_message Offer \<Longrightarrow> dst_mac (ip_eth (udp_ip u)) = [1, 2, 3, 4, 5, 6] \<Longrightarrow>
   offer_closure 7 [1, 2, 3, 4, 5, 6] p u c = (Some (), Some 0x0a000002, Some 0x0a000001)"
  using reply_parsed [of u Offer] by (auto simp: offer_closure_def)

lemma ack_example:
  "udp_payload u = reply_message Ack \<Longrightarrow> dst_mac (ip_eth (udp_ip u)) = [1, 2, 3, 4, 5, 6] \<Longrightarrow>
   ack_closure 7 [1, 2, 3, 4, 5, 6] p u c = (Some (), None, None)"
  using reply_parsed [of u Ack] by (auto simp: ack_closure_def)

definition example_device :: "Packet list NetDevice" where
  "example_device = net_device example_driver [reply_packet Offer, reply_packet Ack]"

lemma example_lease: "\<exists>dev'. get_lease example_driver 7 example_device =
  Some (Ok (Some \<lparr>client_ip = 0x0a000002, server_ip = 0x0a000001, broadcast_ip = None, subnet_mask = None\<rparr>, dev'))"
proof -
  let ?mac = "[1, 2, 3, 4, 5, 6 :: u8]"
  define d0 where "d0 = example_device\<lparr>udp_binds := [68 \<mapsto> []]\<rparr>"
  have d0: "bind_udp example_device 68 = (Some 68, d0)" "nd_mac d0 = ?mac" "nd_mac example_device = ?mac"
    "nd_driver d0 = [reply_packet Offer, reply_packet Ack]" "udp_binds d0 = [68 \<mapsto> []]"
    by (simp_all add: d0_def bind_udp_def example_device_def net_device_def example_driver_def)
  obtain o1 where o1: "discover_options = Ok o1" "length o1 \<le> 1232"
    by (simp add: discover_options_def byte_len_def)
  obtain o2 where o2: "request_options 0x0a000002 0x0a000001 = Ok o2" "length o2 \<le> 1232"
    by (simp add: request_options_def byte_len_def)
  define d1 where "d1 = d0\<lparr>nd_driver := [reply_packet Ack]\<rparr>"
  have w1: "recv_wait example_driver d0 68 (offer_closure 7 ?mac) (None, None) = Some (Ok ((Some 0x0a000002, Some 0x0a000001), d1))"
    unfolding d1_def by (rule example_wait [OF _ _ offer_example]) (simp_all add: d0)
  have w2: "recv_wait example_driver d1 68 (ack_closure 7 ?mac) (None, None) = Some (Ok ((None, None), d1\<lparr>nd_driver := []\<rparr>))"
    by (rule example_wait [OF _ _ ack_example]) (simp_all add: d0 d1_def)
  have s: "send_dhcp example_driver d0 7 o1 = Some (Ok d0)" "send_dhcp example_driver d1 7 o2 = Some (Ok d1)"
    using o1 o2 by (auto intro!: example_send simp: d0 d1_def)
  have "udp_binds d1 = [68 \<mapsto> []]" by (simp add: d1_def d0)
  then show ?thesis
    by (simp add: get_lease_def d0 o1 o2 s w1 w2 request_lease_def drop_bind_def unbind_udp_def)
qed

theorem get_lease_sound_witness:
  "\<exists>l dev'. get_lease example_driver 7 example_device = Some (Ok (Some l, dev')) \<and> udp_binds dev' 68 = None \<and>
    (\<exists>hdr opts. reply_received example_driver example_device 7 hdr opts \<and> client_ip l = swap32 (h_yiaddr hdr))"
proof -
  obtain l dev' where "get_lease example_driver 7 example_device = Some (Ok (Some l, dev'))" using example_lease by blast
  with get_lease_sound [OF this] show ?thesis by auto
qed

end
