(* ===== verification/Acpi.thy ===== *)
theory Acpi
  imports KernelMm
begin

text \<open>
  ACPI, \<open>kernel/src/acpi.rs\<close>: the states of the APICs of the system, the search for the root
  pointer, and the tables that list the processors (MADT) and the NUMA domains (SRAT). The tables
  are read byte by byte from the physical memory of the kernel. Launching the other cores needs the
  local APIC; it is part of the start of all cores in \<open>Smp\<close>.
\<close>

unbundle bit_operations_syntax

subsection \<open>States of the APICs\<close>

text \<open>The variant \<open>None\<close> of the source is \<open>NoApic\<close>.\<close>

datatype ApicState = Online | Launched | Offline | NoApic | Halted

primrec apic_state_code :: "ApicState \<Rightarrow> u8" where
  "apic_state_code Online = 1"
| "apic_state_code Launched = 2"
| "apic_state_code Offline = 3"
| "apic_state_code NoApic = 4"
| "apic_state_code Halted = 5"

definition apic_state_from :: "u8 \<Rightarrow> ApicState res" where
  "apic_state_from v =
     (if v = 1 then Ok Online else if v = 2 then Ok Launched else if v = 3 then Ok Offline
      else if v = 4 then Ok NoApic else if v = 5 then Ok Halted
      else Panic ''Invalid ApicState from `u8`'')"

text \<open>The statics of the module, with the counter inside \<open>core_checkin\<close>.\<close>

record AcpiState =
  total_cores :: u32
  apics :: "u8 list"
  cores_checked_in :: u32

definition acpi_start :: AcpiState where
  "acpi_start = \<lparr>total_cores = 0, apics = replicate MAX_CORES (apic_state_code NoApic), cores_checked_in = 0\<rparr>"

definition set_core_state :: "u32 \<Rightarrow> ApicState \<Rightarrow> AcpiState \<Rightarrow> AcpiState res" where
  "set_core_state ident st a =
     bindR (updR (apics a) (unat ident) (apic_state_code st)) (\<lambda>xs. Ok (a\<lparr>apics := xs\<rparr>))"

definition core_state :: "AcpiState \<Rightarrow> u32 \<Rightarrow> ApicState res" where
  "core_state a ident = bindR (nthR (apics a) (unat ident)) apic_state_from"

definition num_cores :: "AcpiState \<Rightarrow> u32 res" where
  "num_cores a =
     (let count = total_cores a in
      if count > 0 then Ok count else Panic ''total_cores() not ready until ACPI is initialized'')"

text \<open>
  Checking in, one definition for each access to the shared state: the compare-and-swap of the state
  of the core with the assertions on the state it had, the increment of the counter, and the test of
  the loop that waits for the other cores.
\<close>

definition checkin_swap :: "CoreLocals \<Rightarrow> AcpiState \<Rightarrow> (u8 \<times> AcpiState) res" where
  "checkin_swap c a =
     bindR (unwrapR (apic_id c)) (\<lambda>ident.
     bindR (nthR (apics a) (unat ident)) (\<lambda>old.
       Ok (old, if old = apic_state_code Launched
                then a\<lparr>apics := (apics a)[unat ident := apic_state_code Online]\<rparr> else a)))"

definition checkin_online :: "CoreLocals \<Rightarrow> AcpiState \<Rightarrow> AcpiState res" where
  "checkin_online c a =
     bindR (checkin_swap c a) (\<lambda>(old_state, a).
     if core_id c = 0 \<and> old_state \<noteq> apic_state_code Online then Panic ''BSP not marked online in APIC state''
     else if core_id c \<noteq> 0 \<and> old_state \<noteq> apic_state_code Launched then Panic ''Invalid core state transition''
     else Ok a)"

definition checkin_count :: "AcpiState \<Rightarrow> AcpiState" where
  "checkin_count a = a\<lparr>cores_checked_in := cores_checked_in a + 1\<rparr>"

definition checkin_done :: "AcpiState \<Rightarrow> bool res" where
  "checkin_done a = bindR (num_cores a) (\<lambda>n. Ok (cores_checked_in a = n))"

subsection \<open>Structures in memory\<close>

record Rsdp =
  rsdp_signature :: bytes
  rsdp_checksum :: u8
  rsdp_oem_id :: bytes
  rsdp_revision :: u8
  rsdt_addr :: u32
  rsdp_length :: u32
  xsdt_addr :: u64
  extended_checksum :: u8
  rsdp_reserved :: bytes

record AcpiHeader =
  hd_signature :: bytes
  hd_length :: u32
  hd_revision :: u8
  hd_checksum :: u8
  hd_oemid :: bytes
  hd_oem_table_id :: u64
  hd_oem_revision :: u32
  hd_creator_id :: u32
  hd_creator_revision :: u32

definition field_at :: "bytes \<Rightarrow> nat \<Rightarrow> nat \<Rightarrow> bytes" where
  "field_at b off n = take n (drop off b)"

definition rsdp_read :: "bytes \<Rightarrow> Rsdp" where
  "rsdp_read b = \<lparr>rsdp_signature = field_at b 0 8, rsdp_checksum = from_le (field_at b 8 1),
     rsdp_oem_id = field_at b 9 6, rsdp_revision = from_le (field_at b 15 1),
     rsdt_addr = from_le (field_at b 16 4), rsdp_length = from_le (field_at b 20 4),
     xsdt_addr = from_le (field_at b 24 8), extended_checksum = from_le (field_at b 32 1),
     rsdp_reserved = field_at b 33 3\<rparr>"

definition acpi_header_read :: "bytes \<Rightarrow> AcpiHeader" where
  "acpi_header_read b = \<lparr>hd_signature = field_at b 0 4, hd_length = from_le (field_at b 4 4),
     hd_revision = from_le (field_at b 8 1), hd_checksum = from_le (field_at b 9 1),
     hd_oemid = field_at b 10 6, hd_oem_table_id = from_le (field_at b 16 8),
     hd_oem_revision = from_le (field_at b 24 4), hd_creator_id = from_le (field_at b 28 4),
     hd_creator_revision = from_le (field_at b 32 4)\<rparr>"

definition ascii :: "string \<Rightarrow> bytes" where
  "ascii s = map (\<lambda>c. word_of_nat (of_char c)) s"

text \<open>\<open>read_phys\<close> of an integer of \<open>n\<close> bytes.\<close>

definition read_int :: "Kernel \<Rightarrow> u64 \<Rightarrow> nat \<Rightarrow> 'a::len word res" where
  "read_int k paddr n = bindR (read_phys k paddr n) (\<lambda>b. Ok (from_le b))"

text \<open>The iteration over \<open>a..b\<close>.\<close>

definition addr_range :: "u64 \<Rightarrow> u64 \<Rightarrow> u64 list" where
  "addr_range a b = map (\<lambda>i. a + word_of_nat i) [0..<unat b - unat a]"

definition parse_header :: "Kernel \<Rightarrow> u64 \<Rightarrow> (AcpiHeader \<times> u64 \<times> u64) res" where
  "parse_header k addr =
     bindR (read_phys k addr 36) (\<lambda>b.
     let head = acpi_header_read b in
     bindR (expectR ''Integer underflow on table length'' (checked_sub (hd_length head) 36)) (\<lambda>payload_len.
     bindR (foldR (\<lambda>acc paddr. bindR (read_int k paddr 1) (\<lambda>x. Ok (acc + x))) (0 :: u8)
       (addr_range addr (addr + ucast (hd_length head)))) (\<lambda>sum.
     if sum \<noteq> 0 then Panic ''Table checksum invalid''
     else Ok (head, addr + 36, ucast payload_len))))"

subsection \<open>The root pointer\<close>

text \<open>\<open>(start..=end).step_by(16)\<close>\<close>

definition scan_points :: "u64 \<Rightarrow> u64 \<Rightarrow> u64 list" where
  "scan_points a b = (if a \<le> b then map (\<lambda>i. a + 16 * word_of_nat i) [0..<(unat b - unat a) div 16 + 1] else [])"

fun scan_region :: "Kernel \<Rightarrow> u64 \<Rightarrow> u64 \<Rightarrow> u64 list \<Rightarrow> Rsdp option res" where
  "scan_region k a b [] = Ok None"
| "scan_region k a b (paddr # ps) =
     (let struct_end = a + 36 - 1 in
      if struct_end > b then Ok None
      else
        bindR (read_phys k paddr 36) (\<lambda>table.
        if rsdp_signature (rsdp_read table) \<noteq> ascii ''RSD PTR '' then scan_region k a b ps
        else
          bindR (read_phys k paddr 36) (\<lambda>table_bytes.
          if foldl (+) 0 table_bytes \<noteq> 0 then scan_region k a b ps
          else Ok (Some (rsdp_read table)))))"

fun rsdp_search :: "Kernel \<Rightarrow> (u64 \<times> u64) list \<Rightarrow> Rsdp option res" where
  "rsdp_search k [] = Ok None"
| "rsdp_search k ((a, b) # regions) =
     (let a' = (a + 0xf) AND NOT 0xf in
      bindR (scan_region k a' b (scan_points a' b)) (\<lambda>r.
      case r of Some t \<Rightarrow> Ok (Some t) | None \<Rightarrow> rsdp_search k regions))"

definition find_rsdp :: "Kernel \<Rightarrow> Rsdp res" where
  "find_rsdp k =
     bindR (read_int k 0x40e 2) (\<lambda>e.
     let ebda = ucast (e :: u16) in
     bindR (rsdp_search k [(ebda, ebda + 1024 - 1), (0xe0000, 0xfffff)])
       (expectR ''Failed to find RSDP for ACPI''))"

subsection \<open>Tables of entries\<close>

text \<open>
  The loops over the entries of the MADT and of the SRAT differ in the message of an assertion and
  in what is done with an entry of a type and length at an address.
\<close>

partial_function (option) entry_loop ::
  "Kernel \<Rightarrow> string \<Rightarrow> (u8 \<Rightarrow> u8 \<Rightarrow> u64 \<Rightarrow> 'a \<Rightarrow> 'a res) \<Rightarrow> u64 \<Rightarrow> u64 \<Rightarrow> 'a \<Rightarrow> 'a res option" where
  "entry_loop k msg entry pos e acc =
     (if pos + 2 > e then Some (Ok acc)
      else
        bindD (Some (read_int k (pos + 0) 1)) (\<lambda>t.
        bindD (Some (read_int k (pos + 1) 1)) (\<lambda>len.
        if pos + ucast len > e then Some (Ok acc)
        else if \<not> len \<ge> 2 then Some (Panic msg)
        else bindD (Some (entry t len pos acc)) (\<lambda>acc.
          entry_loop k msg entry (pos + ucast len) e acc))))"

definition APIC_ENABLED :: u32 where "APIC_ENABLED = push_bit 0 1"

definition APIC_ONLINE_CAPABLE :: u32 where "APIC_ONLINE_CAPABLE = push_bit 1 1"

definition madt_entry :: "Kernel \<Rightarrow> u8 \<Rightarrow> u8 \<Rightarrow> u64 \<Rightarrow> u32 list \<Rightarrow> u32 list res" where
  "madt_entry k t len ics acc =
     (if t = 0 then
        if len \<noteq> 8 then Panic ''Invalid LAPIC ICS entry''
        else
          bindR (read_int k (ics + 3) 1) (\<lambda>apic_id :: u8.
          bindR (read_int k (ics + 4) 4) (\<lambda>flags.
          if flags AND APIC_ENABLED \<noteq> 0 \<or> flags AND APIC_ONLINE_CAPABLE \<noteq> 0
          then Ok (acc @ [ucast apic_id]) else Ok acc))
      else if t = 9 then
        if len \<noteq> 16 then Panic ''Invalid x2apic ICS entry''
        else
          bindR (read_int k (ics + 4) 4) (\<lambda>apic_id.
          bindR (read_int k (ics + 8) 4) (\<lambda>flags.
          if flags AND APIC_ENABLED \<noteq> 0 \<or> flags AND APIC_ONLINE_CAPABLE \<noteq> 0
          then Ok (acc @ [apic_id]) else Ok acc))
      else Ok acc)"

definition parse_madt :: "Kernel \<Rightarrow> u64 \<Rightarrow> u32 list res option" where
  "parse_madt k ptr =
     bindD (Some (parse_header k ptr)) (\<lambda>(_, payload, sz).
       entry_loop k ''Bad length for MADT ICS entry'' (madt_entry k) (payload + 4 + 4) (payload + sz) [])"

text \<open>A \<open>BTreeMap\<close> is the list of its entries in the order of the keys.\<close>

fun btree_insert :: "'k::linorder \<Rightarrow> 'v \<Rightarrow> ('k \<times> 'v) list \<Rightarrow> 'v option \<times> ('k \<times> 'v) list" where
  "btree_insert x v [] = (None, [(x, v)])"
| "btree_insert x v ((y, w) # m) =
     (if x < y then (None, (x, v) # (y, w) # m)
      else if x = y then (Some w, (x, v) # m)
      else (let (r, m') = btree_insert x v m in (r, (y, w) # m')))"

definition insert_new :: "string \<Rightarrow> 'k::linorder \<Rightarrow> 'v \<Rightarrow> ('k \<times> 'v) list \<Rightarrow> ('k \<times> 'v) list res" where
  "insert_new msg x v m = (let (old, m') = btree_insert x v m in if old = None then Ok m' else Panic msg)"

definition FLAGS_ENABLED :: u32 where "FLAGS_ENABLED = push_bit 0 1"

type_synonym affinities = "(u32 \<times> u32) list \<times> (u32 \<times> u64 \<times> u64) list"

definition srat_apic :: "Kernel \<Rightarrow> u64 \<Rightarrow> affinities \<Rightarrow> affinities res" where
  "srat_apic k sra am =
     bindR (read_phys k (sra + 2) 1) (\<lambda>domain_low.
     bindR (read_phys k (sra + 9) 3) (\<lambda>domain_high.
     bindR (read_int k (sra + 3) 1) (\<lambda>apic_id :: u8.
     bindR (read_int k (sra + 4) 4) (\<lambda>flags.
     let domain = from_le (domain_low @ domain_high) in
     if flags AND FLAGS_ENABLED \<noteq> 0 then
       bindR (insert_new ''Duplicate LAPIC affinity domain'' (ucast apic_id) domain (fst am)) (\<lambda>a. Ok (a, snd am))
     else Ok am))))"

definition srat_memory :: "Kernel \<Rightarrow> u64 \<Rightarrow> affinities \<Rightarrow> affinities res" where
  "srat_memory k sra am =
     bindR (read_int k (sra + 2) 4) (\<lambda>domain.
     bindR (read_int k (sra + 8) 8) (\<lambda>base.
     bindR (read_int k (sra + 16) 8) (\<lambda>sz.
     bindR (read_int k (sra + 28) 4) (\<lambda>flags.
     if flags AND FLAGS_ENABLED \<noteq> 0 then
       bindR (insert_new ''Duplicate memory affinity domain'' domain (base, sz) (snd am)) (\<lambda>m. Ok (fst am, m))
     else Ok am))))"

definition srat_x2apic :: "Kernel \<Rightarrow> u64 \<Rightarrow> affinities \<Rightarrow> affinities res" where
  "srat_x2apic k sra am =
     bindR (read_int k (sra + 4) 4) (\<lambda>domain.
     bindR (read_int k (sra + 8) 4) (\<lambda>apic_id.
     bindR (read_int k (sra + 12) 4) (\<lambda>flags.
     if flags AND FLAGS_ENABLED \<noteq> 0 then
       bindR (insert_new ''Duplicate APIC affinity domain'' apic_id domain (fst am)) (\<lambda>a. Ok (a, snd am))
     else Ok am)))"

definition srat_entry :: "Kernel \<Rightarrow> u8 \<Rightarrow> u8 \<Rightarrow> u64 \<Rightarrow> affinities \<Rightarrow> affinities res" where
  "srat_entry k t len sra am =
     (if t = 0 then if len \<noteq> 16 then Panic ''Invalid APIC SRA entry'' else srat_apic k sra am
      else if t = 1 then if len \<noteq> 40 then Panic ''Invalid memory affinity SRA entry'' else srat_memory k sra am
      else if t = 2 then if len \<noteq> 24 then Panic ''Invalid x2apic SRA entry'' else srat_x2apic k sra am
      else Ok am)"

definition parse_srat :: "Kernel \<Rightarrow> u64 \<Rightarrow> affinities res option" where
  "parse_srat k ptr =
     bindD (Some (parse_header k ptr)) (\<lambda>(_, payload, sz).
       entry_loop k ''Bad length for SRAT SRA entry'' (srat_entry k) (payload + 4 + 8) (payload + sz) ([], []))"

subsection \<open>All tables\<close>

text \<open>One entry of the RSDT: the MADT and the SRAT that were found so far.\<close>

type_synonym found_tables = "u32 list option \<times> affinities option"

definition rsdt_entry :: "Kernel \<Rightarrow> u64 \<Rightarrow> found_tables \<Rightarrow> nat \<Rightarrow> found_tables res option" where
  "rsdt_entry k rsdt_payload found entry =
     bindD (Some (read_int k (rsdt_payload + word_of_nat entry * 4) 4)) (\<lambda>p.
     let table_ptr = ucast (p :: u32) in
     bindD (Some (read_phys k table_ptr 4)) (\<lambda>signature.
     if signature = ascii ''APIC'' then
       if fst found \<noteq> None then Some (Panic ''Multiple MADT ACPI table entries'')
       else bindD (parse_madt k table_ptr) (\<lambda>x. Some (Ok (Some x, snd found)))
     else if signature = ascii ''SRAT'' then
       if snd found \<noteq> None then Some (Panic ''Multiple SRAT ACPI table entries'')
       else bindD (parse_srat k table_ptr) (\<lambda>x. Some (Ok (fst found, Some x)))
     else Some (Ok found)))"

definition parse_tables :: "Kernel \<Rightarrow> found_tables res option" where
  "parse_tables k =
     bindD (Some (find_rsdp k)) (\<lambda>rsdp.
     bindD (Some (parse_header k (ucast (rsdt_addr rsdp)))) (\<lambda>(rsdt, rsdt_payload, rsdt_size).
     if hd_signature rsdt \<noteq> ascii ''RSDT'' then Some (Panic ''RSDT signature mismatch'')
     else if rsdt_size mod 4 \<noteq> 0 then Some (Panic ''Invalid table size for RSDT'')
     else foldD (rsdt_entry k rsdt_payload) (None, None) [0..<unat (rsdt_size div 4)]))"

text \<open>
  The initialisation up to the launch of the other cores: the NUMA ranges, the number of cores and
  the states of the APICs.
\<close>

definition register_apics :: "u32 list option \<Rightarrow> CoreLocals \<Rightarrow> AcpiState \<Rightarrow> AcpiState res" where
  "register_apics found c a =
     (let a = a\<lparr>total_cores := (case found of Some x \<Rightarrow> word_of_nat (length x) | None \<Rightarrow> 1)\<rparr> in
      bindR (case found of Some x \<Rightarrow> foldR (\<lambda>a i. set_core_state i Offline a) a x | None \<Rightarrow> Ok a) (\<lambda>a.
      bindR (unwrapR (apic_id c)) (\<lambda>i. set_core_state i Online a)))"

definition register_tables :: "found_tables \<Rightarrow> Kernel \<Rightarrow> AcpiState \<Rightarrow> (Kernel \<times> AcpiState) res" where
  "register_tables found k a =
     bindR (case snd found of Some (ad, md) \<Rightarrow> register_numa_nodes ad (map_of md) k | None \<Rightarrow> Ok k) (\<lambda>k.
     bindR (register_apics (fst found) (k_core k) a) (\<lambda>a. Ok (k, a)))"

end
