(* ===== verification/Acpi_Correct.thy ===== *)
theory Acpi_Correct
  imports Acpi
begin

text \<open>
  Correctness of the ACPI parser: the loops over tables end on every memory, a MADT and an SRAT that
  were laid out from lists of entries are read back, and the NUMA ranges of the cores are those of
  the tables.
\<close>

unbundle bit_operations_syntax

subsection \<open>Bytes in physical memory\<close>

definition holds :: "Kernel \<Rightarrow> u64 \<Rightarrow> bytes \<Rightarrow> bool" where
  "holds k p bs \<longleftrightarrow> unat p + length bs \<le> unat KERNEL_PHYS_WINDOW_SIZE \<and>
     (\<forall>i < length bs. k_mem k (KERNEL_PHYS_WINDOW_BASE + (p + word_of_nat i)) = bs ! i)"

lemma holds_nth:
  "holds k p bs \<Longrightarrow> i < length bs \<Longrightarrow> k_mem k (KERNEL_PHYS_WINDOW_BASE + (p + word_of_nat i)) = bs ! i"
  by (simp add: holds_def)

lemma window_size: "unat KERNEL_PHYS_WINDOW_SIZE = 0x1000000000"
  by (simp add: KERNEL_PHYS_WINDOW_SIZE_def)

lemma read_phys_bound:
  assumes "read_phys k p n = Ok b" "0 < n" "n < 2 ^ 64"
  shows "unat p + n \<le> unat KERNEL_PHYS_WINDOW_SIZE"
proof -
  have n: "unat (word_of_nat n :: u64) = n" using assms(3) by (simp add: unat_of_nat)
  from assms(1) obtain x e where x: "checked_sub (word_of_nat n) 1 = Some x" and e: "checked_add x p = Some e"
    "e < KERNEL_PHYS_WINDOW_SIZE"
    by (auto simp: read_phys_def window_end_def Option.bind_eq_Some_conv split: if_splits)
  from x have "unat x = n - 1" using assms(2) n by (auto simp: checked_sub_def unat_sub split: if_splits)
  moreover have "unat e = unat x + unat p" by (rule conjunct2 [OF checked_add_SomeD [OF e(1)]])
  ultimately show ?thesis using e(2) assms(2) by (simp add: word_less_nat_alt)
qed

lemma unat_window:
  fixes p :: u64
  assumes "unat p + n \<le> unat KERNEL_PHYS_WINDOW_SIZE" "i \<le> n"
  shows "unat (p + word_of_nat i) = unat p + i"
proof -
  have "unat p + i < 2 ^ 64" using assms unfolding window_size by simp
  then show ?thesis by (simp add: unat_word_ariths unat_of_nat)
qed

lemma read_phys_Ok:
  assumes "unat p + n \<le> unat KERNEL_PHYS_WINDOW_SIZE" "0 < n"
  shows "read_phys k p n = Ok (read_bytes (k_mem k) (KERNEL_PHYS_WINDOW_BASE + p) n)"
proof -
  have lt: "unat p + n \<le> 0x1000000000" using assms by (simp add: window_size)
  then have n: "unat (word_of_nat n :: u64) = n" by (simp add: unat_of_nat)
  then have 1: "(1 :: u64) \<le> word_of_nat n" using assms(2) by (simp add: word_le_nat_alt)
  have "unat (word_of_nat n - 1 :: u64) = n - 1" using unat_sub [OF 1] n by simp
  moreover from this have "unat (word_of_nat n - 1 + p) = n - 1 + unat p"
    using lt by (simp add: unat_word_ariths)
  ultimately show ?thesis using 1 lt assms
    by (simp add: read_phys_def window_end_def checked_sub_def checked_add_def word_less_nat_alt window_size)
qed

lemma holds_read:
  assumes "holds k p bs" "off + n \<le> length bs" "0 < n"
  shows "read_phys k (p + word_of_nat off) n = Ok (take n (drop off bs))"
proof -
  have b: "unat p + length bs \<le> unat KERNEL_PHYS_WINDOW_SIZE" using assms(1) by (simp add: holds_def)
  have "unat (p + word_of_nat off) + n \<le> unat KERNEL_PHYS_WINDOW_SIZE"
    using unat_window [OF b, of off] assms(2) b by simp
  moreover have "read_bytes (k_mem k) (KERNEL_PHYS_WINDOW_BASE + (p + word_of_nat off)) n = take n (drop off bs)"
  proof (rule nth_equalityI)
    fix i assume "i < length (read_bytes (k_mem k) (KERNEL_PHYS_WINDOW_BASE + (p + word_of_nat off)) n)"
    then have i: "i < n" by (simp add: read_bytes_def)
    have "k_mem k (KERNEL_PHYS_WINDOW_BASE + (p + word_of_nat (off + i))) = bs ! (off + i)"
      using assms(2) i by (intro holds_nth [OF assms(1)]) simp
    then show "read_bytes (k_mem k) (KERNEL_PHYS_WINDOW_BASE + (p + word_of_nat off)) n ! i = take n (drop off bs) ! i"
      using i assms(2) by (simp add: read_bytes_def algebra_simps)
  qed (use assms(2) in \<open>simp add: read_bytes_def\<close>)
  ultimately show ?thesis using read_phys_Ok [of "p + word_of_nat off" n k] assms(3) by simp
qed

lemma holds_append:
  assumes "holds k p (xs @ ys)"
  shows "holds k p xs" "holds k (p + word_of_nat (length xs)) ys"
proof -
  have b: "unat p + length (xs @ ys) \<le> unat KERNEL_PHYS_WINDOW_SIZE" using assms by (simp add: holds_def)
  show "holds k p xs" using assms by (auto simp: holds_def nth_append)
  have "k_mem k (KERNEL_PHYS_WINDOW_BASE + (p + word_of_nat (length xs + i))) = ys ! i" if "i < length ys" for i
    using holds_nth [OF assms, of "length xs + i"] that by (simp only: length_append nth_append_length_plus add_less_cancel_left)
  then show "holds k (p + word_of_nat (length xs)) ys"
    using unat_window [OF b, of "length xs"] b by (simp add: holds_def algebra_simps)
qed

text \<open>An integer at an offset, the two bytes that every entry starts with.\<close>

lemma holds_int:
  assumes "holds k p bs" "off + n \<le> length bs" "0 < n" "q = p + word_of_nat off"
  shows "read_int k q n = Ok (from_le (take n (drop off bs)))"
  using holds_read [OF assms(1-3)] assms(4) by (simp add: read_int_def)

lemma read_int_bound:
  assumes "read_int k p n = Ok x" "0 < n" "n < 2 ^ 64"
  shows "unat p + n \<le> unat KERNEL_PHYS_WINDOW_SIZE"
  using assms read_phys_bound by (auto simp: read_int_def)

lemma holds_byte:
  assumes "holds k p bs" "off < length bs" "q = p + word_of_nat off"
  shows "read_int k q 1 = Ok (bs ! off :: u8)"
proof -
  have "take 1 (drop off bs) = [bs ! off]" using assms(2) by (simp add: take_Suc hd_drop_conv_nth)
  moreover have "read_int k q 1 = Ok (from_le (take 1 (drop off bs)) :: u8)"
    using assms by (intro holds_int) auto
  ultimately show ?thesis by simp
qed

subsection \<open>The loop over entries\<close>

text \<open>It ends, because every entry takes at least two bytes and can only be read inside the window.\<close>

lemma entry_loop_returns: "\<exists>r. entry_loop k msg entry pos e acc = Some r"
proof (induction "unat e - unat pos" arbitrary: pos acc rule: less_induct)
  case less
  show ?case
  proof (cases "pos + 2 > e")
    case True
    then show ?thesis by (subst entry_loop.simps) simp
  next
    case False
    show ?thesis
    proof (cases "read_int k (pos + 1) 1 :: u8 res")
      case (Panic m)
      then show ?thesis using False by (cases "read_int k pos 1 :: u8 res") (subst entry_loop.simps, simp)+
    next
      case (Ok len)
      show ?thesis
      proof (cases "pos + ucast len > e \<or> \<not> 2 \<le> len")
        case True
        then show ?thesis using False Ok
          by (cases "read_int k pos 1 :: u8 res") (subst entry_loop.simps, auto)+
      next
        case ok: False
        show ?thesis
        proof (cases "read_int k pos 1 :: u8 res")
          case (Panic m)
          then show ?thesis using False by (subst entry_loop.simps) simp
        next
          case t: (Ok t)
          have b: "unat pos + 1 \<le> 0x1000000000" using read_int_bound [OF t] by (simp add: window_size)
          have l: "2 \<le> unat len" using ok by (simp add: word_le_nat_alt)
          have "unat len < 2 ^ 8" using unsigned_less [of len, where 'a = nat] by simp
          then have u: "unat (pos + ucast len) = unat pos + unat len"
            using b by (simp add: unat_word_ariths unsigned_ucast_eq take_bit_eq_mod)
          moreover have "unat (pos + ucast len) \<le> unat e" using ok by (simp add: word_le_nat_alt not_less)
          ultimately have "unat e - unat (pos + ucast len) < unat e - unat pos" using l by linarith
          note ih = less [OF this]
          show ?thesis
          proof (cases "entry t len pos acc")
            case (Panic m)
            then show ?thesis using False Ok t ok by (subst entry_loop.simps) simp
          next
            case (Ok acc')
            then show ?thesis using False \<open>read_int k (pos + 1) 1 = Ok len\<close> t ok ih [of acc']
              by (subst entry_loop.simps) simp
          qed
        qed
      qed
    qed
  qed
qed

text \<open>The bytes of an entry: its type, its length, and the rest.\<close>

definition entry_bytes :: "bytes \<Rightarrow> bool" where
  "entry_bytes b \<longleftrightarrow> 2 \<le> length b \<and> length b < 256 \<and> b ! 1 = word_of_nat (length b)"

lemma entry_loop_list:
  assumes "\<forall>c \<in> set es. entry_bytes (enc c)" "holds k pos (concat (map enc es))"
    and "e = pos + word_of_nat (length (concat (map enc es)))"
    and "\<And>c p acc. c \<in> set es \<Longrightarrow> holds k p (enc c) \<Longrightarrow> entry (enc c ! 0) (enc c ! 1) p acc = f c acc"
  shows "entry_loop k msg entry pos e acc = Some (foldR (\<lambda>acc c. f c acc) acc es)"
  using assms
proof (induction es arbitrary: pos acc)
  case Nil
  have "unat pos \<le> 0x1000000000" using Nil(2) by (simp add: holds_def window_size)
  then have "unat (pos + 2) = unat pos + 2" by (simp add: unat_word_ariths)
  then have "pos < pos + 2" by (simp add: word_less_nat_alt)
  then show ?case using Nil(3) by (subst entry_loop.simps) simp
next
  case (Cons c es)
  define b where "b = enc c"
  have b: "2 \<le> length b" "length b < 256" "b ! 1 = word_of_nat (length b)"
    using Cons.prems(1) by (simp_all add: entry_bytes_def b_def)
  have h: "holds k pos b" and t: "holds k (pos + word_of_nat (length b)) (concat (map enc es))"
    using holds_append [of k pos b "concat (map enc es)"] Cons.prems(2) by (simp_all add: b_def)
  define n where "n = length b + length (concat (map enc es))"
  have w: "unat pos + n \<le> unat KERNEL_PHYS_WINDOW_SIZE"
    using Cons.prems(2) by (simp add: holds_def n_def b_def)
  note u = unat_window [OF w]
  have e: "unat e = unat pos + n" using u [of n] Cons.prems(3) by (simp add: n_def b_def)
  have "unat (pos + 2) = unat pos + 2" using u [of 2] b(1) by (simp add: n_def)
  then have 1: "\<not> pos + 2 > e" using e b(1) by (simp add: word_less_nat_alt n_def)
  have len: "(ucast (b ! 1) :: u64) = word_of_nat (length b)"
  proof -
    have "unat (ucast (b ! 1) :: u64) = length b"
      using b by (simp add: unsigned_ucast_eq unat_of_nat take_bit_eq_mod)
    then show ?thesis using b by (intro word_unat_eq_iff [THEN iffD2]) (simp add: unat_of_nat)
  qed
  have 2: "\<not> pos + ucast (b ! 1) > e"
    unfolding len using u [of "length b"] e by (simp add: word_less_nat_alt n_def)
  have 3: "2 \<le> b ! 1" using b by (simp add: word_le_nat_alt unat_of_nat)
  have ne: "0 < length b" "1 < length b" using b(1) by auto
  have r: "read_int k (pos + 0) 1 = Ok (b ! 0)" "read_int k (pos + 1) 1 = Ok (b ! 1)"
    using holds_byte [OF h ne(1), of "pos + 0"] holds_byte [OF h ne(2), of "pos + 1"] by simp_all
  have en: "entry (b ! 0) (b ! 1) pos acc = f c acc" using Cons.prems(4) [of c] h by (simp add: b_def)
  have e2: "e = pos + word_of_nat (length b) + word_of_nat (length (concat (map enc es)))"
    using Cons.prems(3) by (simp add: algebra_simps b_def)
  have ih: "entry_loop k msg entry (pos + word_of_nat (length b)) e acc' = Some (foldR (\<lambda>acc c. f c acc) acc' es)" for acc'
    using Cons.prems(1,4) t e2 by (intro Cons.IH) auto
  show ?case
    using 1 2 3 r en ih len by (subst entry_loop.simps) (cases "f c acc"; simp)
qed

subsection \<open>Table headers\<close>

text \<open>A table in memory: a header of 36 bytes with the length and a checksum that makes the sum zero.\<close>

definition acpi_table :: "Kernel \<Rightarrow> u64 \<Rightarrow> bytes \<Rightarrow> bytes \<Rightarrow> bool" where
  "acpi_table k ptr hdr body \<longleftrightarrow> length hdr = 36 \<and> 36 + length body < 2 ^ 32 \<and>
     field_at hdr 4 4 = to_le 4 (word_of_nat (36 + length body) :: u32) \<and>
     sum_list (hdr @ body) = 0 \<and> holds k ptr (hdr @ body)"

lemma sum_bytes:
  assumes "holds k p bs" "n \<le> length bs"
  shows "foldR (\<lambda>acc paddr. bindR (read_int k paddr 1) (\<lambda>x. Ok (acc + x))) (acc :: u8)
    (map (\<lambda>i. p + word_of_nat i) [0..<n]) = Ok (acc + sum_list (take n bs))"
  using assms(2)
proof (induction n)
  case (Suc n)
  moreover have "read_int k (p + word_of_nat n) 1 = Ok (bs ! n)"
    using Suc.prems by (intro holds_byte [OF assms(1)]) auto
  ultimately show ?case by (simp add: foldR_append take_Suc_conv_app_nth)
qed simp

lemma parse_header_ok:
  assumes "acpi_table k ptr hdr body"
  shows "parse_header k ptr = Ok (acpi_header_read hdr, ptr + 36, word_of_nat (length body))"
proof -
  define n where "n = 36 + length body"
  have t: "length hdr = 36" "n < 2 ^ 32" "field_at hdr 4 4 = to_le 4 (word_of_nat n :: u32)"
    "sum_list (hdr @ body) = 0" and h: "holds k ptr (hdr @ body)"
    using assms by (simp_all add: acpi_table_def n_def)
  have r: "read_phys k ptr 36 = Ok hdr" using holds_read [OF h, of 0 36] t(1) by simp
  have l: "hd_length (acpi_header_read hdr) = word_of_nat n"
    by (simp add: acpi_header_read_def t(3) from_le_to_le)
  have un: "unat (word_of_nat n :: u32) = n" using t(2) by (simp add: unat_of_nat)
  have uc: "(ucast (word_of_nat n :: u32) :: u64) = word_of_nat n"
    using t(2) by (simp add: word_unat_eq_iff unsigned_ucast_eq unat_of_nat take_bit_eq_mod)
  have "unat ptr + n \<le> unat KERNEL_PHYS_WINDOW_SIZE" using h t(1) by (simp add: holds_def n_def)
  from unat_window [OF this, of n] have ar: "addr_range ptr (ptr + word_of_nat n) = map (\<lambda>i. ptr + word_of_nat i) [0..<n]"
    by (simp add: addr_range_def)
  have nl: "n \<le> length (hdr @ body)" "take n (hdr @ body) = hdr @ body" using t(1) by (simp_all add: n_def)
  have s: "foldR (\<lambda>acc paddr. bindR (read_int k paddr 1) (\<lambda>x. Ok (acc + x))) (0 :: u8)
      (addr_range ptr (ptr + ucast (word_of_nat n :: u32))) = Ok 0"
    using sum_bytes [OF h nl(1), of 0] unfolding uc ar nl(2) t(4) by simp
  have "(36 :: u32) \<le> word_of_nat n" using un by (simp add: word_le_nat_alt n_def)
  moreover from unat_sub [OF this] un have "unat (word_of_nat n - 36 :: u32) = length body" by (simp add: n_def)
  ultimately have c: "checked_sub (word_of_nat n) (36 :: u32) = Some (word_of_nat (length body))"
    "(ucast (word_of_nat (length body) :: u32) :: u64) = word_of_nat (length body)"
    using t(2) by (simp_all add: checked_sub_def word_unat_eq_iff unat_of_nat unsigned_ucast_eq take_bit_eq_mod n_def)
  show ?thesis unfolding parse_header_def r bindR_simps Let_def l s c expectR_simps by (simp add: c)
qed

subsection \<open>The MADT\<close>

datatype ics = LocalApic u8 u8 u32 | LocalX2Apic u32 u32 u32 | OtherIcs u8 bytes

primrec ics_bytes :: "ics \<Rightarrow> bytes" where
  "ics_bytes (LocalApic uid ident flags) = [0, 8, uid, ident] @ to_le 4 flags"
| "ics_bytes (LocalX2Apic ident flags uid) = [9, 16, 0, 0] @ to_le 4 ident @ to_le 4 flags @ to_le 4 uid"
| "ics_bytes (OtherIcs t bs) = [t, word_of_nat (length bs + 2)] @ bs"

primrec ics_ok :: "ics \<Rightarrow> bool" where
  "ics_ok (LocalApic uid ident flags) = True"
| "ics_ok (LocalX2Apic ident flags uid) = True"
| "ics_ok (OtherIcs t bs) = (t \<noteq> 0 \<and> t \<noteq> 9 \<and> length bs < 254)"

text \<open>A processor can be used when it is enabled or can be enabled.\<close>

definition usable_flags :: "u32 \<Rightarrow> bool" where
  "usable_flags f \<longleftrightarrow> bit f 0 \<or> bit f 1"

primrec ics_apics :: "ics \<Rightarrow> u32 list" where
  "ics_apics (LocalApic uid ident flags) = (if usable_flags flags then [ucast ident] else [])"
| "ics_apics (LocalX2Apic ident flags uid) = (if usable_flags flags then [ident] else [])"
| "ics_apics (OtherIcs t bs) = []"

lemma bit_test: "(w :: 'a::len word) AND push_bit n 1 \<noteq> 0 \<longleftrightarrow> bit w n"
  by (auto simp: bit_eq_iff [where ?'a = "'a word"] bit_and_iff bit_exp_iff dest: bit_imp_le_length)

lemma flag_tests [simp]:
  "w AND APIC_ENABLED = 0 \<longleftrightarrow> \<not> bit w 0" "w AND APIC_ONLINE_CAPABLE = 0 \<longleftrightarrow> \<not> bit w 1"
  "w AND FLAGS_ENABLED = 0 \<longleftrightarrow> \<not> bit w 0"
  unfolding APIC_ENABLED_def APIC_ONLINE_CAPABLE_def FLAGS_ENABLED_def using bit_test [of w] by blast+

lemma entry_bytes_ics: "ics_ok c \<Longrightarrow> entry_bytes (ics_bytes c)"
  by (cases c) (simp_all add: entry_bytes_def add.commute)

lemma take_drop_to_le:
  "take 4 (drop (length xs) (xs @ to_le 4 w @ ys)) = to_le 4 w"
  by simp

lemma madt_entry_ics:
  assumes "ics_ok c" "holds k p (ics_bytes c)"
  shows "madt_entry k (ics_bytes c ! 0) (ics_bytes c ! 1) p acc = Ok (acc @ ics_apics c)"
proof (cases c)
  case (LocalApic uid ident flags)
  have h: "holds k p ([0, 8, uid, ident] @ to_le 4 flags)" using assms(2) LocalApic by simp
  have "read_int k (p + 3) 1 = Ok ident" "read_int k (p + 4) 4 = Ok flags"
    using holds_byte [OF h, of 3 "p + 3"] holds_int [OF h, of 4 4 "p + 4", where 'a = 32]
    by (simp_all add: from_le_to_le)
  then show ?thesis
    by (simp add: LocalApic madt_entry_def usable_flags_def)
next
  case (LocalX2Apic ident flags uid)
  have h: "holds k p ([9, 16, 0, 0] @ to_le 4 ident @ to_le 4 flags @ to_le 4 uid)" using assms(2) LocalX2Apic by simp
  have "read_int k (p + 4) 4 = Ok ident" "read_int k (p + 8) 4 = Ok flags"
    using holds_int [OF h, of 4 4 "p + 4", where 'a = 32] holds_int [OF h, of 8 4 "p + 8", where 'a = 32]
    by (simp_all add: from_le_to_le)
  then show ?thesis
    by (simp add: LocalX2Apic madt_entry_def usable_flags_def)
next
  case (OtherIcs t bs)
  then show ?thesis using assms(1) by (simp add: madt_entry_def)
qed

lemma foldR_append_results:
  "foldR (\<lambda>acc x. Ok (acc @ f x)) acc xs = Ok (acc @ concat (map f xs))"
  by (induction xs arbitrary: acc) simp_all
subsection \<open>The SRAT\<close>

datatype sra =
    ApicAffinity u32 u8 u32 u8 u32
  | MemoryAffinity u32 u64 u64 u32
  | X2ApicAffinity u32 u32 u32 u32
  | OtherSra u8 bytes

primrec sra_bytes :: "sra \<Rightarrow> bytes" where
  "sra_bytes (ApicAffinity domain ident flags eid clock) =
     [0, 16, to_le 4 domain ! 0, ident] @ to_le 4 flags @ [eid] @ drop 1 (to_le 4 domain) @ to_le 4 clock"
| "sra_bytes (MemoryAffinity domain base sz flags) =
     [1, 40] @ to_le 4 domain @ [0, 0] @ to_le 8 base @ to_le 8 sz @ replicate 4 0 @ to_le 4 flags @ replicate 8 0"
| "sra_bytes (X2ApicAffinity domain ident flags clock) =
     [2, 24, 0, 0] @ to_le 4 domain @ to_le 4 ident @ to_le 4 flags @ to_le 4 clock @ replicate 4 0"
| "sra_bytes (OtherSra t bs) = [t, word_of_nat (length bs + 2)] @ bs"

primrec sra_ok :: "sra \<Rightarrow> bool" where
  "sra_ok (ApicAffinity domain ident flags eid clock) = True"
| "sra_ok (MemoryAffinity domain base sz flags) = True"
| "sra_ok (X2ApicAffinity domain ident flags clock) = True"
| "sra_ok (OtherSra t bs) = (t > 2 \<and> length bs < 254)"

text \<open>The associations an entry adds: APIC to domain, domain to memory.\<close>

primrec sra_apics :: "sra \<Rightarrow> (u32 \<times> u32) list" where
  "sra_apics (ApicAffinity domain ident flags eid clock) = (if bit flags 0 then [(ucast ident, domain)] else [])"
| "sra_apics (MemoryAffinity domain base sz flags) = []"
| "sra_apics (X2ApicAffinity domain ident flags clock) = (if bit flags 0 then [(ident, domain)] else [])"
| "sra_apics (OtherSra t bs) = []"

primrec sra_memory :: "sra \<Rightarrow> (u32 \<times> u64 \<times> u64) list" where
  "sra_memory (ApicAffinity domain ident flags eid clock) = []"
| "sra_memory (MemoryAffinity domain base sz flags) = (if bit flags 0 then [(domain, base, sz)] else [])"
| "sra_memory (X2ApicAffinity domain ident flags clock) = []"
| "sra_memory (OtherSra t bs) = []"

lemma entry_bytes_sra: "sra_ok c \<Longrightarrow> entry_bytes (sra_bytes c)"
  by (cases c) (simp_all add: entry_bytes_def add.commute)

lemma to_le_split: "to_le 4 w ! 0 # drop 1 (to_le 4 w) = to_le 4 w"
  by (rule nth_equalityI) (auto simp: nth_Cons split: nat.splits)

text \<open>Insertion into a tree map is the update of a map.\<close>

abbreviation keys_sorted :: "('k::linorder \<times> 'v) list \<Rightarrow> bool" where
  "keys_sorted m \<equiv> sorted_wrt (<) (map fst m)"

lemma map_of_above: "keys_sorted m \<Longrightarrow> \<forall>k \<in> set (map fst m). x < k \<Longrightarrow> map_of m (x :: 'k::linorder) = None"
  by (auto simp: map_of_eq_None_iff)

lemma btree_insert_update:
  assumes "keys_sorted m" "btree_insert x v m = (old, m')"
  shows "old = map_of m x \<and> map_of m' = (map_of m)(x \<mapsto> v) \<and> keys_sorted m' \<and> set (map fst m') = insert x (set (map fst m))"
  using assms
proof (induction m arbitrary: old m')
  case (Cons p m)
  obtain y w where p: "p = (y, w)" by force
  have s: "keys_sorted m" "\<forall>z \<in> set (map fst m). y < z" using Cons.prems(1) p by auto
  consider (lt) "x < y" | (eq) "x = y" | (gt) "y < x" by (rule linorder_cases)
  then show ?case
  proof cases
    case lt
    then have above: "\<forall>z \<in> set (map fst m). x < z" using s(2) by auto
    with s(1) have "map_of m x = None" by (rule map_of_above)
    then show ?thesis using Cons.prems lt p s above by (auto simp: fun_upd_twist)
  next
    case eq
    then show ?thesis using Cons.prems p s by auto
  next
    case gt
    obtain r n where n: "btree_insert x v m = (r, n)" by force
    note ih = Cons.IH [OF s(1) n]
    have ng: "\<not> x < y" "x \<noteq> y" using gt by auto
    have e: "old = r" "m' = (y, w) # n" "x \<noteq> y" using Cons.prems(2) ng p n by simp_all
    have "map_of m' = (map_of (p # m))(x \<mapsto> v)" using ih e p by (auto simp: fun_eq_iff)
    moreover have "keys_sorted m'" using ih e(2) s(2) gt by simp
    moreover have "set (map fst m') = insert x (set (map fst (p # m)))" using ih e p by auto
    moreover have "old = map_of (p # m) x" using ih e p by simp
    ultimately show ?thesis by blast
  qed
qed auto

lemma insert_new_ok:
  assumes "keys_sorted m"
  shows "if x \<in> set (map fst m) then insert_new msg x v m = Panic msg
    else \<exists>m'. insert_new msg x v m = Ok m' \<and> map_of m' = (map_of m)(x \<mapsto> v) \<and> keys_sorted m' \<and>
      set (map fst m') = insert x (set (map fst m))"
proof -
  obtain r m' where b: "btree_insert x v m = (r, m')" by force
  have "r = None \<longleftrightarrow> x \<notin> set (map fst m)" using btree_insert_update [OF assms b] by (auto simp: map_of_eq_None_iff)
  then show ?thesis using btree_insert_update [OF assms b] b by (auto simp: insert_new_def)
qed

text \<open>What one entry does, and the fields it is read from.\<close>

definition sra_apply :: "sra \<Rightarrow> affinities \<Rightarrow> affinities res" where
  "sra_apply c am =
     (case c of
        ApicAffinity domain ident flags eid clock \<Rightarrow>
          if bit flags 0 then bindR (insert_new ''Duplicate LAPIC affinity domain'' (ucast ident) domain (fst am)) (\<lambda>a. Ok (a, snd am))
          else Ok am
      | MemoryAffinity domain base sz flags \<Rightarrow>
          if bit flags 0 then bindR (insert_new ''Duplicate memory affinity domain'' domain (base, sz) (snd am)) (\<lambda>m. Ok (fst am, m))
          else Ok am
      | X2ApicAffinity domain ident flags clock \<Rightarrow>
          if bit flags 0 then bindR (insert_new ''Duplicate APIC affinity domain'' ident domain (fst am)) (\<lambda>a. Ok (a, snd am))
          else Ok am
      | OtherSra t bs \<Rightarrow> Ok am)"

lemma srat_entry_sra:
  assumes "sra_ok c" "holds k p (sra_bytes c)"
  shows "srat_entry k (sra_bytes c ! 0) (sra_bytes c ! 1) p am = sra_apply c am"
proof (cases c)
  case (ApicAffinity domain ident flags eid clock)
  note h = assms(2) [unfolded ApicAffinity sra_bytes.simps]
  have "read_phys k (p + 2) 1 = Ok [to_le 4 domain ! 0]" "read_phys k (p + 9) 3 = Ok (drop 1 (to_le 4 domain))"
    "read_int k (p + 3) 1 = Ok ident" "read_int k (p + 4) 4 = Ok flags"
    using holds_read [OF h, of 2 1] holds_read [OF h, of 9 3] holds_byte [OF h, of 3 "p + 3"]
      holds_int [OF h, of 4 4 "p + 4", where 'a = 32]
    by (simp_all add: from_le_to_le)
  then show ?thesis using to_le_split [of domain] from_le_to_le [of 4 domain]
    by (simp add: ApicAffinity srat_entry_def srat_apic_def sra_apply_def)
next
  case (MemoryAffinity domain base sz flags)
  note h = assms(2) [unfolded MemoryAffinity sra_bytes.simps]
  have "read_int k (p + 2) 4 = Ok domain" "read_int k (p + 8) 8 = Ok base" "read_int k (p + 16) 8 = Ok sz"
    "read_int k (p + 28) 4 = Ok flags"
    using holds_int [OF h, of 2 4 "p + 2", where 'a = 32] holds_int [OF h, of 8 8 "p + 8", where 'a = 64]
      holds_int [OF h, of 16 8 "p + 16", where 'a = 64] holds_int [OF h, of 28 4 "p + 28", where 'a = 32]
    by (simp_all add: from_le_to_le)
  then show ?thesis by (simp add: MemoryAffinity srat_entry_def srat_memory_def sra_apply_def)
next
  case (X2ApicAffinity domain ident flags clock)
  note h = assms(2) [unfolded X2ApicAffinity sra_bytes.simps]
  have "read_int k (p + 4) 4 = Ok domain" "read_int k (p + 8) 4 = Ok ident" "read_int k (p + 12) 4 = Ok flags"
    using holds_int [OF h, of 4 4 "p + 4", where 'a = 32] holds_int [OF h, of 8 4 "p + 8", where 'a = 32]
      holds_int [OF h, of 12 4 "p + 12", where 'a = 32]
    by (simp_all add: from_le_to_le)
  then show ?thesis by (simp add: X2ApicAffinity srat_entry_def srat_x2apic_def sra_apply_def)
next
  case (OtherSra t bs)
  then show ?thesis using assms(1) by (auto simp: srat_entry_def sra_apply_def)
qed
text \<open>Adding a list of new associations one by one.\<close>

definition extends :: "('k::linorder \<times> 'v) list \<Rightarrow> ('k \<times> 'v) list \<Rightarrow> ('k \<times> 'v) list \<Rightarrow> bool" where
  "extends m xs m' \<longleftrightarrow> keys_sorted m' \<and> map_of m' = map_of m ++ map_of xs \<and>
     set (map fst m') = set (map fst m) \<union> set (map fst xs)"

definition unbound :: "('k \<times> 'v) list \<Rightarrow> ('k \<times> 'v) list \<Rightarrow> bool" where
  "unbound m xs \<longleftrightarrow> distinct (map fst xs) \<and> set (map fst m) \<inter> set (map fst xs) = {}"

lemma extends_refl [simp]: "keys_sorted m \<Longrightarrow> extends m [] m"
  by (simp add: extends_def)

lemma map_add_disjoint:
  assumes "map_of m' = map_of m ++ map_of xs" "map_of m'' = map_of m' ++ map_of ys"
    and "distinct (map fst (xs @ ys))"
  shows "map_of m'' = map_of m ++ map_of (xs @ ys)"
proof -
  have "dom (map_of xs) \<inter> dom (map_of ys) = {}" using assms(3) by (auto simp: dom_map_of_conv_image_fst)
  then have "map_of xs ++ map_of ys = map_of ys ++ map_of xs" by (rule map_add_comm)
  then show ?thesis using assms(1,2) by (simp flip: map_add_assoc)
qed

lemma extends_trans:
  assumes "extends m xs m'" "extends m' ys m''" "unbound m xs" "unbound m' ys"
  shows "extends m (xs @ ys) m''"
proof -
  have "fst ` set xs \<inter> fst ` set ys = {}" using assms by (auto simp: extends_def unbound_def)
  with assms have "distinct (map fst (xs @ ys))" by (simp add: unbound_def)
  then show ?thesis using assms map_add_disjoint [of m' m xs m'' ys] by (auto simp: extends_def)
qed

lemma unbound_append: "extends m xs m' \<Longrightarrow> unbound m (xs @ ys) \<longleftrightarrow> unbound m xs \<and> unbound m' ys"
  by (auto simp: extends_def unbound_def)

lemma insert_new_extends:
  assumes "keys_sorted m"
  shows "if unbound m [(x, v)] then \<exists>m'. insert_new msg x v m = Ok m' \<and> extends m [(x, v)] m'
    else insert_new msg x v m = Panic msg"
  using insert_new_ok [OF assms, of x msg v] by (auto simp: unbound_def extends_def)

lemma unbound_Nil [simp]: "unbound m []"
  by (simp add: unbound_def)

lemma sra_apply_spec:
  assumes "keys_sorted a" "keys_sorted m"
  shows "if unbound a (sra_apics c) \<and> unbound m (sra_memory c)
    then \<exists>a' m'. sra_apply c (a, m) = Ok (a', m') \<and> extends a (sra_apics c) a' \<and> extends m (sra_memory c) m'
    else \<exists>msg. sra_apply c (a, m) = Panic msg"
proof (cases c)
  case (ApicAffinity domain ident flags eid clock)
  then show ?thesis
    using insert_new_extends [OF assms(1), of "ucast ident" domain "''Duplicate LAPIC affinity domain''"] assms
    by (cases "unbound a [(ucast ident, domain)]") (auto simp: sra_apply_def)
next
  case (MemoryAffinity domain base sz flags)
  then show ?thesis
    using insert_new_extends [OF assms(2), of domain "(base, sz)" "''Duplicate memory affinity domain''"] assms
    by (cases "unbound m [(domain, base, sz)]") (auto simp: sra_apply_def)
next
  case (X2ApicAffinity domain ident flags clock)
  then show ?thesis
    using insert_new_extends [OF assms(1), of ident domain "''Duplicate APIC affinity domain''"] assms
    by (cases "unbound a [(ident, domain)]") (auto simp: sra_apply_def)
qed (use assms in \<open>simp add: sra_apply_def\<close>)

lemma srat_fold:
  assumes "keys_sorted a" "keys_sorted m"
  shows "if unbound a (concat (map sra_apics es)) \<and> unbound m (concat (map sra_memory es))
    then \<exists>a' m'. foldR (\<lambda>am c. sra_apply c am) (a, m) es = Ok (a', m') \<and>
      extends a (concat (map sra_apics es)) a' \<and> extends m (concat (map sra_memory es)) m'
    else \<exists>msg. foldR (\<lambda>am c. sra_apply c am) (a, m) es = Panic msg"
  using assms
proof (induction es arbitrary: a m)
  case (Cons c es)
  show ?case
  proof (cases "unbound a (sra_apics c) \<and> unbound m (sra_memory c)")
    case True
    with sra_apply_spec [OF Cons.prems, of c] obtain a1 m1 where 1: "sra_apply c (a, m) = Ok (a1, m1)"
      "extends a (sra_apics c) a1" "extends m (sra_memory c) m1" by auto
    then have "keys_sorted a1" "keys_sorted m1" by (simp_all add: extends_def)
    from Cons.IH [OF this] show ?thesis
      using 1 True unbound_append [OF 1(2)] unbound_append [OF 1(3)]
      by (auto split: if_splits intro: extends_trans)
  next
    case False
    with sra_apply_spec [OF Cons.prems, of c] obtain msg where "sra_apply c (a, m) = Panic msg"
      by (auto split: if_splits)
    moreover have "\<not> (unbound a (concat (map sra_apics (c # es))) \<and> unbound m (concat (map sra_memory (c # es))))"
      using False by (auto simp: unbound_def)
    ultimately show ?thesis by simp
  qed
qed simp

text \<open>Both tables: a body of a fixed prefix and entries made from a list.\<close>

lemma parse_entries:
  assumes "acpi_table k ptr hdr (pre @ concat (map enc es))" "\<forall>c \<in> set es. entry_bytes (enc c)"
    and "\<And>c p acc. c \<in> set es \<Longrightarrow> holds k p (enc c) \<Longrightarrow> entry (enc c ! 0) (enc c ! 1) p acc = f c acc"
  shows "bindD (Some (parse_header k ptr)) (\<lambda>(_, payload, sz).
      entry_loop k msg entry (payload + word_of_nat (length pre)) (payload + sz) acc) =
    Some (foldR (\<lambda>acc c. f c acc) acc es)"
proof -
  have t: "length hdr = 36" and h: "holds k ptr (hdr @ pre @ concat (map enc es))"
    using assms(1) by (simp_all add: acpi_table_def)
  have "holds k (ptr + 36) (pre @ concat (map enc es))" using holds_append(2) [OF h] t by simp
  from holds_append(2) [OF this] have h2: "holds k (ptr + 36 + word_of_nat (length pre)) (concat (map enc es))" .
  have e: "ptr + 36 + word_of_nat (length (pre @ concat (map enc es))) =
    ptr + 36 + word_of_nat (length pre) + word_of_nat (length (concat (map enc es)))"
    by (simp add: algebra_simps)
  have "entry_loop k msg entry (ptr + 36 + word_of_nat (length pre))
      (ptr + 36 + word_of_nat (length (pre @ concat (map enc es)))) acc = Some (foldR (\<lambda>acc c. f c acc) acc es)"
    by (rule entry_loop_list [where enc = enc]) (fact assms(2) h2 e assms(3))+
  then show ?thesis using parse_header_ok [OF assms(1)] by simp
qed

text \<open>The range of memory the tables give an APIC.\<close>

definition numa_spec :: "sra list \<Rightarrow> u32 \<Rightarrow> Range option" where
  "numa_spec es i =
     Option.bind (map_of (concat (map sra_apics es)) i) (\<lambda>d.
     Option.bind (map_of (concat (map sra_memory es)) d) numa_range)"
lemma numa_fold:
  assumes "distinct (map fst A)" "\<forall>i \<in> set (map fst A). unat (i :: u32) < length t"
  shows "\<exists>t'. foldR (\<lambda>t (apic, domain). updR t (unat apic) (g domain)) t A = Ok t' \<and> length t' = length t \<and>
    (\<forall>i. unat i < length t \<longrightarrow> t' ! unat i = (case map_of A i of None \<Rightarrow> t ! unat i | Some d \<Rightarrow> g d))"
  using assms
proof (induction A arbitrary: t)
  case (Cons p A)
  obtain j d where p: "p = (j, d)" by force
  have j: "unat j < length t" using Cons.prems(2) p by simp
  have "distinct (map fst A)" "\<forall>i \<in> set (map fst A). unat i < length (t[unat j := g d])" using Cons.prems by auto
  from Cons.IH [OF this] obtain t' where t': "foldR (\<lambda>t (apic, domain). updR t (unat apic) (g domain)) (t[unat j := g d]) A = Ok t'"
    "length t' = length t"
    "\<And>i. unat i < length t \<Longrightarrow> t' ! unat i = (case map_of A i of None \<Rightarrow> t[unat j := g d] ! unat i | Some d \<Rightarrow> g d)"
    by auto
  have "map_of A j = None" using Cons.prems(1) p by (simp add: map_of_eq_None_iff)
  then have "t' ! unat i = (case map_of (p # A) i of None \<Rightarrow> t ! unat i | Some d \<Rightarrow> g d)" if "unat i < length t" for i
    using t'(3) [OF that] j p by (cases "i = j") (auto simp: nth_list_update word_unat_eq_iff split: option.splits)
  then show ?case using t' j p by auto
qed simp

lemma register_numa_ok:
  assumes "keys_sorted A" "\<forall>i \<in> set (map fst A). unat i < MAX_CORES"
  shows "\<exists>t. register_numa_nodes A dm k = Ok (k\<lparr>k_numa := Some t\<rparr>) \<and> length t = MAX_CORES \<and>
    (\<forall>i. unat i < MAX_CORES \<longrightarrow> t ! unat i = Option.bind (map_of A i) (\<lambda>d. Option.bind (dm d) numa_range))"
proof -
  have "distinct (map fst A)" using assms(1) by (simp add: strict_sorted_iff)
  moreover have "\<forall>i \<in> set (map fst A). unat i < length (replicate MAX_CORES (None :: Range option))" using assms(2) by simp
  ultimately obtain t where "foldR (\<lambda>t (apic, domain). updR t (unat apic) (Option.bind (dm domain) numa_range))
      (replicate MAX_CORES None) A = Ok t" "length t = MAX_CORES"
    "\<And>i. unat i < MAX_CORES \<Longrightarrow> t ! unat i = (case map_of A i of None \<Rightarrow> replicate MAX_CORES None ! unat i | Some d \<Rightarrow> Option.bind (dm d) numa_range)"
    using numa_fold [of A "replicate MAX_CORES None" "\<lambda>d. Option.bind (dm d) numa_range"] by auto
  then show ?thesis by (auto simp: register_numa_nodes_def split: option.splits)
qed

lemma memory_range_numa:
  "k_numa k = Some t \<Longrightarrow> length t = MAX_CORES \<Longrightarrow> apic_id c = Some i \<Longrightarrow> unat i < MAX_CORES \<Longrightarrow>
    memory_range (k\<lparr>k_core := c\<rparr>) = Ok (t ! unat i)"
  by (simp add: memory_range_def)

subsection \<open>Sample tables\<close>

definition sample_header :: "string \<Rightarrow> u32 \<Rightarrow> u8 \<Rightarrow> bytes" where
  "sample_header sig n ck = ascii sig @ to_le 4 n @ [1, ck] @ replicate 26 0"

definition memory_with :: "u64 \<Rightarrow> bytes \<Rightarrow> 64 memory" where
  "memory_with p bs = (\<lambda>a. bs ! unat (a - (KERNEL_PHYS_WINDOW_BASE + p)))"

lemma holds_memory_with:
  assumes "unat p + length bs \<le> unat KERNEL_PHYS_WINDOW_SIZE"
  shows "holds (k\<lparr>k_mem := memory_with p bs\<rparr>) p bs"
proof -
  have "unat (word_of_nat i :: u64) = i" if "i < length bs" for i
    using that assms unfolding window_size by (simp add: unat_of_nat)
  then show ?thesis using assms by (simp add: holds_def memory_with_def)
qed

lemma length_ascii [simp]: "length (ascii s) = length s"
  by (simp add: ascii_def)

lemma sample_table:
  assumes "length sig = 4" "length body < 0x10000000" "n = word_of_nat (36 + length body)"
    and "sum_list (sample_header sig n ck @ body) = 0"
  shows "acpi_table (k\<lparr>k_mem := memory_with 0x1000 (sample_header sig n ck @ body)\<rparr>) 0x1000 (sample_header sig n ck) body"
  unfolding acpi_table_def
proof (intro conjI)
  show "length (sample_header sig n ck) = 36" using assms(1) by (simp add: sample_header_def)
  then show "holds (k\<lparr>k_mem := memory_with 0x1000 (sample_header sig n ck @ body)\<rparr>) 0x1000 (sample_header sig n ck @ body)"
    using assms(2) by (intro holds_memory_with) (simp add: window_size)
  show "field_at (sample_header sig n ck) 4 4 = to_le 4 (word_of_nat (36 + length body) :: u32)"
    using assms(1,3) by (simp add: field_at_def sample_header_def)
qed (use assms(2,4) in simp_all)

subsection \<open>Properties\<close>

text \<open>C28: reading the ACPI tables always returns or panics, whatever bytes the memory holds; no cycle
  or zero length in a table can keep the boot processor in a loop.\<close>

theorem parse_tables_returns: "\<exists>r. parse_tables k = Some r"
proof -
  have m: "\<exists>r. parse_madt k p = Some r" for p
    using entry_loop_returns by (cases "parse_header k p") (auto simp: parse_madt_def)
  have s: "\<exists>r. parse_srat k p = Some r" for p
    using entry_loop_returns by (cases "parse_header k p") (auto simp: parse_srat_def)
  have bind: "\<exists>r. bindD x f = Some r" if "\<exists>r. x = Some r" "\<And>y. \<exists>r. f y = Some r" for x :: "'a res option" and f :: "'a \<Rightarrow> 'b res option"
    using that by (auto simp: bindD_def split: res.splits)
  have e: "\<exists>r. rsdt_entry k p found i = Some r" for p found i
    unfolding rsdt_entry_def Let_def using m s by (auto intro!: bind)
  have "\<exists>r. foldD (rsdt_entry k p) found is = Some r" for p found "is"
    by (induction "is" arbitrary: found) (auto intro!: bind e)
  then show ?thesis unfolding parse_tables_def by (auto intro!: bind)
qed

text \<open>C29: a MADT that was laid out from a list of interrupt controller structures gives exactly the
  identifiers of the processors that are enabled or can be enabled, in the order of the table,
  whether they have an 8-bit or a 32-bit identifier; every other structure is skipped.\<close>

theorem madt_round_trip:
  assumes "acpi_table k ptr hdr (pre @ concat (map ics_bytes es))" "length pre = 8" "\<forall>c \<in> set es. ics_ok c"
  shows "parse_madt k ptr = Some (Ok (concat (map ics_apics es)))"
proof -
  have "bindD (Some (parse_header k ptr)) (\<lambda>(_, payload, sz).
      entry_loop k ''Bad length for MADT ICS entry'' (madt_entry k) (payload + word_of_nat (length pre)) (payload + sz) []) =
    Some (foldR (\<lambda>acc c. Ok (acc @ ics_apics c)) [] es)"
    by (rule parse_entries) (use assms in \<open>blast intro: entry_bytes_ics madt_entry_ics\<close>)+
  then show ?thesis by (simp add: parse_madt_def assms(2) foldR_append_results add.assoc)
qed

theorem madt_round_trip_witness:
  "\<forall>k. parse_madt (k\<lparr>k_mem := memory_with 0x1000 (sample_header ''APIC'' 76 57 @ replicate 8 0 @
      concat (map ics_bytes [LocalApic 0 0 1, LocalApic 1 3 0, LocalX2Apic 300 2 0]))\<rparr>) 0x1000 = Some (Ok [0, 300])"
proof
  fix k
  let ?es = "[LocalApic 0 0 1, LocalApic 1 3 0, LocalX2Apic 300 2 0]"
  have "sum_list (sample_header ''APIC'' 76 57 @ replicate 8 0 @ concat (map ics_bytes ?es)) = 0" by code_simp
  from sample_table [OF _ _ _ this, of k]
  have "acpi_table (k\<lparr>k_mem := memory_with 0x1000 (sample_header ''APIC'' 76 57 @ replicate 8 0 @ concat (map ics_bytes ?es))\<rparr>)
    0x1000 (sample_header ''APIC'' 76 57) (replicate 8 0 @ concat (map ics_bytes ?es))" by simp
  from madt_round_trip [OF this] show "parse_madt (k\<lparr>k_mem := memory_with 0x1000 (sample_header ''APIC'' 76 57 @ replicate 8 0 @
      concat (map ics_bytes ?es))\<rparr>) 0x1000 = Some (Ok [0, 300])" by (simp add: usable_flags_def)
qed

text \<open>C30: an SRAT that was laid out from a list of affinity structures panics when an APIC or a memory
  domain is listed twice. Otherwise registering it gives every core the memory range of the domain
  its APIC belongs to, and no range to a core whose APIC or domain is not listed.\<close>

theorem srat_numa_ranges:
  assumes "acpi_table k ptr hdr (pre @ concat (map sra_bytes es))" "length pre = 12" "\<forall>c \<in> set es. sra_ok c"
    and "\<forall>i \<in> set (map fst (concat (map sra_apics es))). unat i < MAX_CORES"
  shows "if distinct (map fst (concat (map sra_apics es))) \<and> distinct (map fst (concat (map sra_memory es)))
    then \<exists>ad md k'. parse_srat k ptr = Some (Ok (ad, md)) \<and> register_numa_nodes ad (map_of md) k = Ok k' \<and>
      (\<forall>c i. apic_id c = Some i \<and> unat i < MAX_CORES \<longrightarrow> memory_range (k'\<lparr>k_core := c\<rparr>) = Ok (numa_spec es i))
    else \<exists>msg. parse_srat k ptr = Some (Panic msg)"
proof -
  have "bindD (Some (parse_header k ptr)) (\<lambda>(_, payload, sz).
      entry_loop k ''Bad length for SRAT SRA entry'' (srat_entry k) (payload + word_of_nat (length pre)) (payload + sz) ([], [])) =
    Some (foldR (\<lambda>am c. sra_apply c am) ([], []) es)"
    by (rule parse_entries) (use assms in \<open>blast intro: entry_bytes_sra srat_entry_sra\<close>)+
  then have p: "parse_srat k ptr = Some (foldR (\<lambda>am c. sra_apply c am) ([], []) es)"
    by (simp add: parse_srat_def assms(2) add.assoc)
  show ?thesis
  proof (cases "distinct (map fst (concat (map sra_apics es))) \<and> distinct (map fst (concat (map sra_memory es)))")
    case True
    then obtain ad md where r: "foldR (\<lambda>am c. sra_apply c am) ([], []) es = Ok (ad, md)"
      "extends [] (concat (map sra_apics es)) ad" "extends [] (concat (map sra_memory es)) md"
      using srat_fold [of "[]" "[]" es] by (auto simp: unbound_def)
    then have a: "keys_sorted ad" "\<forall>i \<in> set (map fst ad). unat i < MAX_CORES" "map_of ad = map_of (concat (map sra_apics es))"
      "map_of md = map_of (concat (map sra_memory es))"
      using assms(4) by (auto simp: extends_def)
    from register_numa_ok [OF a(1,2)] obtain t where "register_numa_nodes ad (map_of md) k = Ok (k\<lparr>k_numa := Some t\<rparr>)"
      "length t = MAX_CORES" "\<And>i. unat i < MAX_CORES \<Longrightarrow> t ! unat i = numa_spec es i"
      using a(3,4) unfolding numa_spec_def by metis
    then show ?thesis using True p r(1) memory_range_numa [of "k\<lparr>k_numa := Some t\<rparr>" t] by auto
  next
    case False
    then show ?thesis using srat_fold [of "[]" "[]" es] p by (auto simp: unbound_def split: if_splits)
  qed
qed

theorem srat_numa_ranges_witness:
  "\<forall>k. \<exists>ad md k'. parse_srat (k\<lparr>k_mem := memory_with 0x1000 (sample_header ''SRAT'' 104 228 @ replicate 12 0 @
      concat (map sra_bytes [ApicAffinity 7 0 1 0 0, MemoryAffinity 7 0x100000 0x200000 1]))\<rparr>) 0x1000 = Some (Ok (ad, md)) \<and>
    register_numa_nodes ad (map_of md) (k\<lparr>k_mem := memory_with 0x1000 (sample_header ''SRAT'' 104 228 @ replicate 12 0 @
      concat (map sra_bytes [ApicAffinity 7 0 1 0 0, MemoryAffinity 7 0x100000 0x200000 1]))\<rparr>) = Ok k' \<and>
    (\<forall>c. apic_id c = Some 0 \<longrightarrow> memory_range (k'\<lparr>k_core := c\<rparr>) = Ok (Some \<lparr>r_start = 0x100000, r_end = 0x2fffff\<rparr>))"
proof
  fix k :: Kernel
  let ?es = "[ApicAffinity 7 0 1 0 0, MemoryAffinity 7 0x100000 0x200000 1]"
  let ?k = "k\<lparr>k_mem := memory_with 0x1000 (sample_header ''SRAT'' 104 228 @ replicate 12 0 @ concat (map sra_bytes ?es))\<rparr>"
  have "sum_list (sample_header ''SRAT'' 104 228 @ replicate 12 0 @ concat (map sra_bytes ?es)) = 0" by code_simp
  from sample_table [OF _ _ _ this, of k]
  have "acpi_table ?k 0x1000 (sample_header ''SRAT'' 104 228) (replicate 12 0 @ concat (map sra_bytes ?es))" by simp
  note t = srat_numa_ranges [OF this]
  have "numa_spec ?es 0 = Some \<lparr>r_start = 0x100000, r_end = 0x2fffff\<rparr>" by code_simp
  then show "\<exists>ad md k'. parse_srat ?k 0x1000 = Some (Ok (ad, md)) \<and> register_numa_nodes ad (map_of md) ?k = Ok k' \<and>
    (\<forall>c. apic_id c = Some 0 \<longrightarrow> memory_range (k'\<lparr>k_core := c\<rparr>) = Ok (Some \<lparr>r_start = 0x100000, r_end = 0x2fffff\<rparr>))"
    using t by (fastforce simp: MAX_CORES_def)
qed

end
