(* ===== verification/Interrupts.thy ===== *)
theory Interrupts
  imports CoreReqs
begin

text \<open>
  The tables of \<open>kernel/src/interrupts.rs\<close>: registered handlers and the vectors that need an end of
  interrupt, the descriptors of the IDT, the task state segment and the GDT, and what \<open>init\<close> puts
  into them. A handler is a value of a type \<open>'f\<close> of function pointers; the addresses the allocator
  chose for the tables are arguments.
\<close>

unbundle bit_operations_syntax

subsection \<open>Handlers\<close>

record 'f Interrupts =
  dispatch :: "'f option list"

text \<open>The state is the structure of the core and the global table \<open>EOI_REQUIRED\<close>.\<close>

type_synonym 'f int_tables = "'f Interrupts \<times> bool list"

definition interrupts_new :: "'f Interrupts" where
  "interrupts_new = \<lparr>dispatch = replicate 256 None\<rparr>"

definition EOI_REQUIRED :: "bool list" where
  "EOI_REQUIRED = replicate 256 False"

definition add_handler :: "u8 \<Rightarrow> 'f \<Rightarrow> bool \<Rightarrow> 'f int_tables \<Rightarrow> 'f int_tables res" where
  "add_handler num handler needs_eoi t =
     bindR (nthR (dispatch (fst t)) (unat num)) (\<lambda>old.
     if old \<noteq> None then Panic ''Interrupt handler already installed for INT''
     else
       bindR (updR (dispatch (fst t)) (unat num) (Some handler)) (\<lambda>d.
       bindR (updR (snd t) (unat num) needs_eoi) (\<lambda>e. Ok ((fst t)\<lparr>dispatch := d\<rparr>, e))))"

definition remove_handler :: "u8 \<Rightarrow> 'f \<Rightarrow> 'f int_tables \<Rightarrow> 'f int_tables res" where
  "remove_handler num handler t =
     bindR (nthR (dispatch (fst t)) (unat num)) (\<lambda>old.
     if old \<noteq> Some handler then Panic ''Handler not installed or did not match for deregister''
     else
       bindR (updR (dispatch (fst t)) (unat num) None) (\<lambda>d.
       bindR (updR (snd t) (unat num) False) (\<lambda>e. Ok ((fst t)\<lparr>dispatch := d\<rparr>, e))))"

definition eoi_required :: "bool list \<Rightarrow> u128 list res" where
  "eoi_required tbl =
     foldR (\<lambda>ret ii.
       bindR (nthR tbl ii) (\<lambda>v.
       bindR (nthR ret (ii div 128)) (\<lambda>x.
         updR ret (ii div 128) (x OR push_bit (ii mod 128) (of_bool v)))))
       [0, 0] [0..<256]"

subsection \<open>Descriptors\<close>

record TablePtr =
  tp_limit :: u16
  tp_base :: u64

record Tss =
  tss_reserved1 :: u32
  tss_rsp :: "u64 list"
  tss_reserved2 :: u64
  tss_ist :: "u64 list"
  tss_reserved3 :: u64
  tss_reserved4 :: u16
  iopb_offset :: u16

definition tss_default :: Tss where
  "tss_default = \<lparr>tss_reserved1 = 0, tss_rsp = replicate 3 0, tss_reserved2 = 0, tss_ist = replicate 7 0,
     tss_reserved3 = 0, tss_reserved4 = 0, iopb_offset = 0\<rparr>"

text \<open>The packed structure has 104 bytes.\<close>

definition TSS_SIZE :: u64 where "TSS_SIZE = 4 + 3 * 8 + 8 + 7 * 8 + 8 + 2 + 2"

datatype IDTEntry = IDTEntry u32 u32 u32 u32

definition X64_INTERRUPT_GATE :: u32 where "X64_INTERRUPT_GATE = 0xe"

definition idt_entry_new :: "u16 \<Rightarrow> u64 \<Rightarrow> u32 \<Rightarrow> u32 \<Rightarrow> u32 \<Rightarrow> IDTEntry res" where
  "idt_entry_new cs offset ist t dpl =
     (if \<not> ist < 8 then Panic ''Invalid IDTEntry IST''
      else if \<not> t < 32 then Panic ''Invalid IDTEntry type''
      else if \<not> dpl < 4 then Panic ''Invalid IDTEntry dpl''
      else Ok (IDTEntry
        (push_bit 16 (ucast cs) OR ucast (offset AND 0xffff))
        (ucast (offset AND 0xffff0000) OR push_bit 15 1 OR push_bit 13 dpl OR push_bit 8 t OR ist)
        (ucast (drop_bit 32 offset))
        0))"

definition tss_low :: "u64 \<Rightarrow> u64" where
  "tss_low tss_base = 0x890000000000 OR push_bit 56 (drop_bit 24 tss_base AND 0xff) OR
     push_bit 16 (tss_base AND 0xffffff) OR (TSS_SIZE - 1)"

definition tss_high :: "u64 \<Rightarrow> u64" where
  "tss_high tss_base = drop_bit 32 tss_base"

definition kernel_gdt :: "u64 list" where
  "kernel_gdt = [0x0000000000000000, 0x00009a007c00ffff, 0x000092000000ffff, 0x00cf9a000000ffff,
     0x00cf92000000ffff, 0x00209a0000000000, 0x0000920000000000]"

text \<open>The entry points, one for each vector, at addresses the linker chose.\<close>

definition INT_HANDLERS :: "(nat \<Rightarrow> u64) \<Rightarrow> u64 list" where
  "INT_HANDLERS vec_interrupt = map vec_interrupt [0..<256]"

definition int_ist :: "nat \<Rightarrow> u32" where
  "int_ist int_id = (if int_id = 2 \<or> int_id = 8 \<or> int_id = 18 then 1 else 0)"

definition build_idt :: "(nat \<Rightarrow> u64) \<Rightarrow> IDTEntry list res" where
  "build_idt vec_interrupt =
     foldR (\<lambda>idt int_id.
       bindR (nthR (INT_HANDLERS vec_interrupt) int_id) (\<lambda>h.
       bindR (idt_entry_new 0x28 h (int_ist int_id) X64_INTERRUPT_GATE 0) (\<lambda>e. Ok (idt @ [e]))))
       [] [0..<256]"

text \<open>What the processor is given: the tables in memory and the operands of \<open>lgdt\<close>, \<open>ltr\<close> and \<open>lidt\<close>.\<close>

record LoadedTables =
  lt_tss :: Tss
  lt_gdt :: "u64 list"
  lt_gdtr :: TablePtr
  lt_task :: u16
  lt_idt :: "IDTEntry list"
  lt_idtr :: TablePtr

definition CRIT_STACK_SIZE :: u64 where "CRIT_STACK_SIZE = 32 * 1024"

definition interrupts_init ::
  "(nat \<Rightarrow> u64) \<Rightarrow> u64 \<Rightarrow> u64 \<Rightarrow> u64 \<Rightarrow> u64 \<Rightarrow> 'f Interrupts option \<Rightarrow> (LoadedTables \<times> 'f Interrupts option) res" where
  "interrupts_init vec_interrupt tss_base crit_stack gdt_addr idt_addr interrupts =
     (if interrupts \<noteq> None then Panic ''Interrupts have already been initialized''
      else
        let tss = tss_default\<lparr>tss_ist := (tss_ist tss_default)[0 := crit_stack + CRIT_STACK_SIZE]\<rparr>;
            gdt = kernel_gdt @ [tss_low tss_base] @ [tss_high tss_base];
            gdt_ptr = \<lparr>tp_limit = word_of_nat (8 * length gdt) - 1, tp_base = gdt_addr\<rparr> in
        bindR (build_idt vec_interrupt) (\<lambda>idt.
        if 16 * length idt \<noteq> 4096 then Panic ''assertion failed: core::mem::size_of_val(&idt[..]) == 4096''
        else Ok (\<lparr>lt_tss = tss, lt_gdt = gdt, lt_gdtr = gdt_ptr, lt_task = 0x38, lt_idt = idt,
               lt_idtr = \<lparr>tp_limit = 0xfff, tp_base = idt_addr\<rparr>\<rparr>, Some interrupts_new)))"

subsection \<open>Reading the descriptors as the processor does\<close>

text \<open>The fields of a 64-bit gate and of the descriptor of a 64-bit task state segment.\<close>

record Gate =
  gate_selector :: u16
  gate_offset :: u64
  gate_ist :: nat
  gate_type :: nat
  gate_dpl :: nat
  gate_present :: bool

primrec decode_gate :: "IDTEntry \<Rightarrow> Gate" where
  "decode_gate (IDTEntry a b c d) = \<lparr>
     gate_selector = ucast (drop_bit 16 a),
     gate_offset = push_bit 32 (ucast c) OR push_bit 16 (drop_bit 16 (ucast b)) OR take_bit 16 (ucast a),
     gate_ist = unat (take_bit 3 b),
     gate_type = unat (take_bit 4 (drop_bit 8 b)),
     gate_dpl = unat (take_bit 2 (drop_bit 13 b)),
     gate_present = bit b 15\<rparr>"

definition segment_base :: "u64 \<Rightarrow> u64 \<Rightarrow> u64" where
  "segment_base low high = push_bit 32 (take_bit 32 high) OR push_bit 24 (take_bit 8 (drop_bit 56 low)) OR
     take_bit 24 (drop_bit 16 low)"

definition segment_limit :: "u64 \<Rightarrow> nat" where
  "segment_limit low = unat (push_bit 16 (take_bit 4 (drop_bit 48 low)) OR take_bit 16 low)"

definition segment_type :: "u64 \<Rightarrow> nat" where
  "segment_type low = unat (take_bit 4 (drop_bit 40 low))"

lemma bit_below: "(w :: 'a::len word) < 2 ^ n \<Longrightarrow> bit w i \<Longrightarrow> i < n"
proof (rule ccontr)
  assume w: "w < 2 ^ n" "bit w i" "\<not> i < n"
  then have "i < LENGTH('a)" by (simp add: bit_imp_le_length)
  then have "n < LENGTH('a)" using w(3) by simp
  then have "unat (2 ^ n :: 'a word) = 2 ^ n"
    using unat_of_nat [of "2 ^ n", where 'a = 'a] by (simp add: power_strict_increasing_iff)
  then have "unat w < 2 ^ n" using w(1) by (simp add: word_less_nat_alt)
  then have "take_bit n (unat w) = unat w" by (simp add: take_bit_nat_eq_self)
  then have "bit (unat w) i \<longleftrightarrow> i < n \<and> bit (unat w) i" by (metis bit_take_bit_iff)
  then show False using w(2,3) by (simp add: bit_unsigned_iff)
qed

lemma masks:
  "bit (0xffff :: u64) i \<longleftrightarrow> i < 16" "bit (0xffff0000 :: u64) i \<longleftrightarrow> 16 \<le> i \<and> i < 32"
  "bit (0xff :: u64) i \<longleftrightarrow> i < 8" "bit (0xffffff :: u64) i \<longleftrightarrow> i < 24"
proof -
  have m: "(0xffff :: u64) = mask 16" "(0xffff0000 :: u64) = push_bit 16 (mask 16)" "(0xff :: u64) = mask 8"
    "(0xffffff :: u64) = mask 24" by (simp_all add: mask_eq_exp_minus_1)
  show "bit (0xffff :: u64) i \<longleftrightarrow> i < 16" "bit (0xffff0000 :: u64) i \<longleftrightarrow> 16 \<le> i \<and> i < 32"
    "bit (0xff :: u64) i \<longleftrightarrow> i < 8" "bit (0xffffff :: u64) i \<longleftrightarrow> i < 24"
    unfolding m by (auto simp: bit_mask_iff bit_push_bit_iff)
qed

text \<open>The second word of an entry, bit by bit.\<close>

definition gate_word :: "u64 \<Rightarrow> u32 \<Rightarrow> u32 \<Rightarrow> u32 \<Rightarrow> u32" where
  "gate_word offset ist t dpl =
     ucast (offset AND 0xffff0000) OR push_bit 15 1 OR push_bit 13 dpl OR push_bit 8 t OR ist"

lemma bit_gate_word:
  assumes "ist < 8" "t < 32" "dpl < 4"
  shows "bit (gate_word offset ist t dpl) i \<longleftrightarrow> i < 32 \<and>
    (if i < 3 then bit ist i else if i < 8 then False else if i < 13 then bit t (i - 8)
     else if i < 15 then bit dpl (i - 13) else if i = 15 then True else bit offset i)"
proof -
  have lt: "bit ist j \<Longrightarrow> j < 3" "bit t j \<Longrightarrow> j < 5" "bit dpl j \<Longrightarrow> j < 2" for j
    using bit_below [of ist 3] bit_below [of t 5] bit_below [of dpl 2] assms by auto
  have "bit (gate_word offset ist t dpl) i \<longleftrightarrow> i < 32 \<and>
    (16 \<le> i \<and> bit offset i \<or> i = 15 \<or> 13 \<le> i \<and> bit dpl (i - 13) \<or> 8 \<le> i \<and> bit t (i - 8) \<or> bit ist i)"
    unfolding gate_word_def
    by (simp only: bit_or_iff bit_ucast_iff bit_and_iff masks bit_push_bit_iff bit_1_iff) (auto dest: bit_imp_le_length)
  then show ?thesis using lt(1) [of i] lt(2) [of "i - 8"] lt(3) [of "i - 13"] by auto
qed

lemma idt_entry_new_eq:
  assumes "ist < 8" "t < 32" "dpl < 4"
  shows "idt_entry_new cs offset ist t dpl = Ok (IDTEntry
    (push_bit 16 (ucast cs) OR ucast (offset AND 0xffff)) (gate_word offset ist t dpl) (ucast (drop_bit 32 offset)) 0)"
  using assms by (simp add: idt_entry_new_def gate_word_def)

lemma gate_fields:
  assumes "ist < 8" "t < 32" "dpl < 4"
  shows "take_bit 3 (gate_word offset ist t dpl) = ist" "take_bit 4 (drop_bit 8 (gate_word offset ist t dpl)) = take_bit 4 t"
    "take_bit 2 (drop_bit 13 (gate_word offset ist t dpl)) = dpl" "bit (gate_word offset ist t dpl) 15"
proof -
  have lt: "bit ist j \<Longrightarrow> j < 3" "bit dpl j \<Longrightarrow> j < 2" for j
    using bit_below [of ist 3] bit_below [of dpl 2] assms by auto
  note b = bit_gate_word [OF assms]
  show "take_bit 3 (gate_word offset ist t dpl) = ist"
    by (rule bit_word_eqI) (auto simp: b bit_take_bit_iff dest: lt)
  show "take_bit 4 (drop_bit 8 (gate_word offset ist t dpl)) = take_bit 4 t"
    by (rule bit_word_eqI) (auto simp: b bit_take_bit_iff bit_drop_bit_eq)
  show "take_bit 2 (drop_bit 13 (gate_word offset ist t dpl)) = dpl"
    by (rule bit_word_eqI) (auto simp: b bit_take_bit_iff bit_drop_bit_eq dest: lt)
  show "bit (gate_word offset ist t dpl) 15" by (simp add: b)
qed

lemma decode_idt_entry:
  assumes "ist < 8" "t < 32" "dpl < 4"
  shows "\<exists>e. idt_entry_new cs offset ist t dpl = Ok e \<and> decode_gate e = \<lparr>gate_selector = cs, gate_offset = offset,
    gate_ist = unat ist, gate_type = unat (take_bit 4 t), gate_dpl = unat dpl, gate_present = True\<rparr>"
proof -
  define a :: u32 where "a = push_bit 16 (ucast cs) OR ucast (offset AND 0xffff)"
  have a: "bit a i \<longleftrightarrow> i < 32 \<and> (if i < 16 then bit offset i else bit cs (i - 16))" for i
    unfolding a_def by (simp only: bit_or_iff bit_push_bit_iff bit_ucast_iff bit_and_iff masks) (auto dest: bit_imp_le_length)
  have "ucast (drop_bit 16 a) = cs"
    by (rule bit_word_eqI) (auto simp: bit_ucast_iff bit_drop_bit_eq a)
  moreover have "push_bit 32 (ucast (ucast (drop_bit 32 offset) :: u32)) OR
      push_bit 16 (drop_bit 16 (ucast (gate_word offset ist t dpl))) OR take_bit 16 (ucast a) = offset"
  proof (rule bit_word_eqI)
    fix i assume "i < LENGTH(64)"
    then have i: "i < 64" by simp
    consider "i < 16" | "16 \<le> i" "i < 32" | "32 \<le> i" by linarith
    then show "bit (push_bit 32 (ucast (ucast (drop_bit 32 offset) :: u32)) OR
        push_bit 16 (drop_bit 16 (ucast (gate_word offset ist t dpl))) OR take_bit 16 (ucast a) :: u64) i = bit offset i"
      by cases (use i in \<open>simp_all add: bit_or_iff bit_push_bit_iff bit_ucast_iff bit_drop_bit_eq bit_take_bit_iff a
        bit_gate_word [OF assms] less_diff_conv2\<close>)
  qed
  ultimately show ?thesis using gate_fields [OF assms] by (simp add: idt_entry_new_eq [OF assms] flip: a_def)
qed

subsection \<open>The tables after initialisation\<close>

lemma build_idt_ok:
  "\<exists>idt. build_idt vec = Ok idt \<and> length idt = 256 \<and>
    (\<forall>i < 256. decode_gate (idt ! i) = \<lparr>gate_selector = 0x28, gate_offset = vec i, gate_ist = unat (int_ist i),
      gate_type = 0xe, gate_dpl = 0, gate_present = True\<rparr>)"
proof -
  have g: "\<exists>e. idt_entry_new 0x28 (vec i) (int_ist i) X64_INTERRUPT_GATE 0 = Ok e \<and>
    decode_gate e = \<lparr>gate_selector = 0x28, gate_offset = vec i, gate_ist = unat (int_ist i),
      gate_type = 0xe, gate_dpl = 0, gate_present = True\<rparr>" for i
    using decode_idt_entry [of "int_ist i" X64_INTERRUPT_GATE 0 "0x28" "vec i"]
    by (simp add: int_ist_def X64_INTERRUPT_GATE_def)
  have "\<exists>idt. foldR (\<lambda>idt int_id.
       bindR (nthR (INT_HANDLERS vec) int_id) (\<lambda>h.
       bindR (idt_entry_new 0x28 h (int_ist int_id) X64_INTERRUPT_GATE 0) (\<lambda>e. Ok (idt @ [e])))) [] [0..<n] = Ok idt \<and>
    length idt = n \<and> (\<forall>i < n. decode_gate (idt ! i) = \<lparr>gate_selector = 0x28, gate_offset = vec i, gate_ist = unat (int_ist i),
      gate_type = 0xe, gate_dpl = 0, gate_present = True\<rparr>)" if "n \<le> 256" for n
    using that
  proof (induction n)
    case (Suc n)
    then obtain idt where idt: "foldR (\<lambda>idt int_id.
       bindR (nthR (INT_HANDLERS vec) int_id) (\<lambda>h.
       bindR (idt_entry_new 0x28 h (int_ist int_id) X64_INTERRUPT_GATE 0) (\<lambda>e. Ok (idt @ [e])))) [] [0..<n] = Ok idt"
      "length idt = n" "\<And>i. i < n \<Longrightarrow> decode_gate (idt ! i) = \<lparr>gate_selector = 0x28, gate_offset = vec i,
        gate_ist = unat (int_ist i), gate_type = 0xe, gate_dpl = 0, gate_present = True\<rparr>" by auto
    have v: "nthR (INT_HANDLERS vec) n = Ok (vec n)" using Suc.prems by (simp add: INT_HANDLERS_def nthR_def del: upt_Suc)
    from g [of n] obtain e where e: "idt_entry_new 0x28 (vec n) (int_ist n) X64_INTERRUPT_GATE 0 = Ok e"
      "decode_gate e = \<lparr>gate_selector = 0x28, gate_offset = vec n, gate_ist = unat (int_ist n),
        gate_type = 0xe, gate_dpl = 0, gate_present = True\<rparr>" by blast
    show ?case using idt v e by (auto simp: foldR_append nth_append less_Suc_eq)
  qed simp
  from this [of 256] show ?thesis unfolding build_idt_def by blast
qed

lemma bit_tss_low:
  "bit (tss_low b) i \<longleftrightarrow> i < 64 \<and>
    (if i < 16 then bit (103 :: u64) i else if i < 40 then bit b (i - 16) else if i < 56 then bit (0x89 :: u64) (i - 40)
     else bit b (i - 32))"
proof -
  have c: "0x890000000000 = (push_bit 40 0x89 :: u64)" "TSS_SIZE - 1 = 103" by (simp_all add: TSS_SIZE_def)
  have lt: "bit (103 :: u64) j \<Longrightarrow> j < 7" "bit (0x89 :: u64) j \<Longrightarrow> j < 8" for j
    using bit_below [of "103 :: u64" 7 j] bit_below [of "0x89 :: u64" 8 j] by simp_all
  have m: "bit (drop_bit 24 b AND 0xff) j \<longleftrightarrow> j < 8 \<and> bit b (j + 24)" "bit (b AND 0xffffff) j \<longleftrightarrow> j < 24 \<and> bit b j" for j
    by (simp_all only: bit_and_iff bit_drop_bit_eq masks) (auto simp: add.commute)
  have "bit (tss_low b) i \<longleftrightarrow> i < 64 \<and> (40 \<le> i \<and> bit (0x89 :: u64) (i - 40) \<or> 56 \<le> i \<and> i - 56 < 8 \<and> bit b (i - 56 + 24) \<or>
      16 \<le> i \<and> i - 16 < 24 \<and> bit b (i - 16) \<or> bit (103 :: u64) i)"
    unfolding tss_low_def c
    by (simp only: bit_or_iff bit_push_bit_iff m) (auto dest: bit_imp_le_length)
  then show ?thesis using lt(1) [of i] lt(2) [of "i - 40"] by (auto simp: less_diff_conv2)
qed

lemma tss_descriptor:
  "segment_base (tss_low b) (tss_high b) = b" "segment_limit (tss_low b) = 103" "segment_type (tss_low b) = 9"
  "bit (tss_low b) 47"
proof -
  show "segment_base (tss_low b) (tss_high b) = b"
  proof (rule bit_word_eqI)
    fix i assume "i < LENGTH(64)"
    then have i: "i < 64" by simp
    consider "i < 24" | "24 \<le> i" "i < 32" | "32 \<le> i" by linarith
    then show "bit (segment_base (tss_low b) (tss_high b)) i = bit b i"
      by cases (use i in \<open>simp_all add: segment_base_def tss_high_def bit_or_iff bit_push_bit_iff bit_take_bit_iff
        bit_drop_bit_eq bit_tss_low less_diff_conv2\<close>)
  qed
  have lt: "j < 7" if "bit (103 :: u64) j" for j using bit_below [of "103 :: u64" 7 j] that by simp
  have "take_bit 16 (tss_low b) = 103"
    by (rule bit_word_eqI) (use lt in \<open>fastforce simp: bit_take_bit_iff bit_tss_low\<close>)
  moreover have "take_bit 4 (drop_bit 48 (tss_low b)) = 0"
  proof (rule bit_word_eqI)
    fix n
    have "\<not> bit (0x89 :: u64) (n + 8)" using bit_below [of "0x89 :: u64" 8 "n + 8"] by auto
    then show "bit (take_bit 4 (drop_bit 48 (tss_low b))) n = bit 0 n"
      by (auto simp: bit_take_bit_iff bit_drop_bit_eq bit_tss_low add.commute)
  qed
  ultimately show "segment_limit (tss_low b) = 103" by (simp add: segment_limit_def)
  have "take_bit 4 (drop_bit 40 (tss_low b)) = take_bit 4 0x89"
    by (rule bit_word_eqI) (simp only: bit_take_bit_iff bit_drop_bit_eq o_def bit_tss_low, auto)
  then show "segment_type (tss_low b) = 9" by (simp add: segment_type_def)
  show "bit (tss_low b) 47" by (simp add: bit_tss_low)
qed

text \<open>The table of vectors that need an end of interrupt, as two bit masks.\<close>

lemma eoi_required_bits:
  assumes "length tbl = 256"
  shows "\<exists>lo hi. eoi_required tbl = Ok [lo, hi] \<and>
    (\<forall>i < 128. (bit lo i \<longleftrightarrow> tbl ! i) \<and> (bit hi i \<longleftrightarrow> tbl ! (128 + i)))"
proof -
  define f where "f = (\<lambda>(ret :: u128 list) ii. bindR (nthR tbl ii) (\<lambda>v. bindR (nthR ret (ii div 128)) (\<lambda>x.
    updR ret (ii div 128) (x OR push_bit (ii mod 128) (of_bool v)))))"
  have b: "bit (push_bit k (of_bool v :: u128)) i \<longleftrightarrow> i < 128 \<and> i = k \<and> v" for k v i
    by (auto simp: bit_push_bit_iff bit_of_bool_iff)
  have lo: "\<exists>lo. foldR f [0, 0] [0..<n] = Ok [lo, 0] \<and> (\<forall>i < 128. bit lo i \<longleftrightarrow> i < n \<and> tbl ! i)" if "n \<le> 128" for n
    using that
  proof (induction n)
    case (Suc n)
    then obtain lo where lo: "foldR f [0, 0] [0..<n] = Ok [lo, 0]" "\<forall>i < 128. bit lo i \<longleftrightarrow> i < n \<and> tbl ! i" by auto
    have "f [lo, 0] n = Ok [lo OR push_bit n (of_bool (tbl ! n)), 0]"
      using Suc.prems assms by (simp add: f_def)
    moreover have "\<forall>i < 128. bit (lo OR push_bit n (of_bool (tbl ! n))) i \<longleftrightarrow> i < Suc n \<and> tbl ! i"
      using lo(2) unfolding bit_or_iff b by (auto simp: less_Suc_eq)
    ultimately show ?case using lo(1) by (simp add: foldR_append)
  qed simp
  from lo [of 128] obtain lo where lo: "foldR f [0, 0] [0..<128] = Ok [lo, 0]" "\<forall>i < 128. bit lo i \<longleftrightarrow> tbl ! i" by auto
  have hi: "\<exists>hi. foldR f [lo, 0] [128..<128 + n] = Ok [lo, hi] \<and> (\<forall>i < 128. bit hi i \<longleftrightarrow> i < n \<and> tbl ! (128 + i))" if "n \<le> 128" for n
    using that
  proof (induction n)
    case (Suc n)
    then obtain hi where hi: "foldR f [lo, 0] [128..<128 + n] = Ok [lo, hi]" "\<forall>i < 128. bit hi i \<longleftrightarrow> i < n \<and> tbl ! (128 + i)"
      by auto
    have "(128 + n) div 128 = 1" "(128 + n) mod 128 = n" using Suc.prems by simp_all
    then have "f [lo, hi] (128 + n) = Ok [lo, hi OR push_bit n (of_bool (tbl ! (128 + n)))]"
      using Suc.prems assms unfolding f_def by (simp only: nthR_Ok) simp
    moreover have "\<forall>i < 128. bit (hi OR push_bit n (of_bool (tbl ! (128 + n)))) i \<longleftrightarrow> i < Suc n \<and> tbl ! (128 + i)"
      using hi(2) unfolding bit_or_iff b by (auto simp: less_Suc_eq)
    moreover have "[128..<128 + Suc n] = [128..<128 + n] @ [128 + n]" by (simp only: add_Suc_right upt_Suc) simp
    ultimately show ?case using hi(1) by (simp only: foldR_append bindR_simps foldR.simps) auto
  qed simp
  have "[0..<256] = [0..<128] @ [128..<128 + 128]" using upt_add_eq_append [of 0 128 128] by simp
  then have "eoi_required tbl = foldR f [lo, 0] [128..<128 + 128]"
    using lo(1) unfolding eoi_required_def f_def [symmetric] by (simp only: foldR_append bindR_simps)
  with hi [of 128] lo(2) show ?thesis by auto
qed

text \<open>C31: after the initialisation every one of the 256 vectors has a present interrupt gate that enters
  its own handler in the 64-bit code segment of the kernel, on the critical stack exactly for NMI,
  double fault and machine check. The task register selects a descriptor, inside the limit of the
  GDT, of an available task state segment with the address of the structure and its exact size.\<close>

theorem interrupts_init_tables:
  "\<exists>lt. interrupts_init vec tss_base crit_stack gdt_addr idt_addr None = Ok (lt, Some interrupts_new) \<and>
    length (lt_idt lt) = 256 \<and> unat (tp_limit (lt_idtr lt)) + 1 = 16 * 256 \<and> tp_base (lt_idtr lt) = idt_addr \<and>
    (\<forall>i < 256. decode_gate (lt_idt lt ! i) = \<lparr>gate_selector = 0x28, gate_offset = vec i,
       gate_ist = (if i = 2 \<or> i = 8 \<or> i = 18 then 1 else 0), gate_type = 14, gate_dpl = 0, gate_present = True\<rparr>) \<and>
    tss_ist (lt_tss lt) ! 0 = crit_stack + 0x8000 \<and>
    unat (tp_limit (lt_gdtr lt)) + 1 = 8 * length (lt_gdt lt) \<and> tp_base (lt_gdtr lt) = gdt_addr \<and>
    (let j = unat (lt_task lt) div 8; low = lt_gdt lt ! j; high = lt_gdt lt ! (j + 1) in
      j + 1 < length (lt_gdt lt) \<and> segment_base low high = tss_base \<and> segment_limit low + 1 = unat TSS_SIZE \<and>
      segment_type low = 9 \<and> bit low 47) \<and>
    lt_gdt lt ! (0x28 div 8) = 0x00209a0000000000"
proof -
  obtain idt where idt: "build_idt vec = Ok idt" "length idt = 256"
    "\<And>i. i < 256 \<Longrightarrow> decode_gate (idt ! i) = \<lparr>gate_selector = 0x28, gate_offset = vec i, gate_ist = unat (int_ist i),
      gate_type = 0xe, gate_dpl = 0, gate_present = True\<rparr>"
    using build_idt_ok [of vec] by blast
  show ?thesis using idt tss_descriptor [of tss_base]
    by (simp add: interrupts_init_def tss_default_def kernel_gdt_def CRIT_STACK_SIZE_def int_ist_def TSS_SIZE_def Let_def)
qed
theorem interrupts_init_tables_witness:
  "\<exists>lt. interrupts_init (\<lambda>i. 0xffff800000001000 + 16 * word_of_nat i) 0xffff900012345678 0x5000 0x6000 0x7000 (None :: nat Interrupts option) =
      Ok (lt, Some interrupts_new) \<and>
    decode_gate (lt_idt lt ! 8) = \<lparr>gate_selector = 0x28, gate_offset = 0xffff800000001080, gate_ist = 1, gate_type = 14,
      gate_dpl = 0, gate_present = True\<rparr> \<and> tss_ist (lt_tss lt) ! 0 = 0xd000"
proof -
  from interrupts_init_tables [of "\<lambda>i. 0xffff800000001000 + 16 * word_of_nat i" "0xffff900012345678" "0x5000" "0x6000" "0x7000"]
  obtain lt where lt: "interrupts_init (\<lambda>i. 0xffff800000001000 + 16 * word_of_nat i) 0xffff900012345678 0x5000 0x6000 0x7000
      (None :: nat Interrupts option) = Ok (lt, Some interrupts_new)"
    "\<And>i. i < 256 \<Longrightarrow> decode_gate (lt_idt lt ! i) = \<lparr>gate_selector = 0x28, gate_offset = 0xffff800000001000 + 16 * word_of_nat i,
      gate_ist = (if i = 2 \<or> i = 8 \<or> i = 18 then 1 else 0), gate_type = 14, gate_dpl = 0, gate_present = True\<rparr>"
    "tss_ist (lt_tss lt) ! 0 = 0x5000 + 0x8000" by blast
  from lt(2) [of 8] have "decode_gate (lt_idt lt ! 8) = \<lparr>gate_selector = 0x28, gate_offset = 0xffff800000001080, gate_ist = 1,
      gate_type = 14, gate_dpl = 0, gate_present = True\<rparr>" by simp
  with lt(1,3) show ?thesis by auto
qed

end
