(* ===== verification/IntStub.thy ===== *)
theory IntStub
  imports Interrupts PageTable
begin

text \<open>
  The assembly entry points of \<open>kernel/src/interrupts.rs\<close>: the stub of every vector, which saves four
  registers and loads the arguments, and \<open>enter_rust\<close>, which builds the structure with all registers
  on the stack, calls \<open>interrupt_handler\<close> and restores the registers. The instructions the code uses
  are interpreted on the general registers, the vector registers and a byte memory.
\<close>

unbundle bit_operations_syntax

subsection \<open>Instructions\<close>

datatype reg = RAX | RBX | RCX | RDX | RSI | RDI | RBP | RSP | R8 | R9 | R10 | R11 | R12 | R13 | R14 | R15

record Cpu86 =
  gpr :: "reg \<Rightarrow> u64"
  xmm :: "nat \<Rightarrow> u128"
  ram :: "64 memory"

datatype instr =
    Push reg
  | PushMem reg u64
  | Pop reg
  | PopMem reg u64
  | MovReg reg reg
  | MovImm reg u64
  | Load reg reg u64
  | Lea reg reg u64
  | AddImm reg u64
  | SubImm reg u64
  | AndImm reg u64
  | MovdquStore reg nat
  | MovdquLoad nat reg

definition set_gpr :: "reg \<Rightarrow> u64 \<Rightarrow> Cpu86 \<Rightarrow> Cpu86" where
  "set_gpr r v s = s\<lparr>gpr := (gpr s)(r := v)\<rparr>"

definition push_value :: "u64 \<Rightarrow> Cpu86 \<Rightarrow> Cpu86" where
  "push_value v s = (let sp = gpr s RSP - 8 in (set_gpr RSP sp s)\<lparr>ram := store64 (ram s) sp v\<rparr>)"

definition pop_value :: "Cpu86 \<Rightarrow> u64 \<times> Cpu86" where
  "pop_value s = (load64 (ram s) (gpr s RSP), set_gpr RSP (gpr s RSP + 8) s)"

primrec exec :: "instr \<Rightarrow> Cpu86 \<Rightarrow> Cpu86" where
  "exec (Push r) s = push_value (gpr s r) s"
| "exec (PushMem b d) s = push_value (load64 (ram s) (gpr s b + d)) s"
| "exec (Pop r) s = (let (v, s') = pop_value s in set_gpr r v s')"
| "exec (PopMem b d) s = (let (v, s') = pop_value s in s'\<lparr>ram := store64 (ram s') (gpr s' b + d) v\<rparr>)"
| "exec (MovReg r q) s = set_gpr r (gpr s q) s"
| "exec (MovImm r v) s = set_gpr r v s"
| "exec (Load r b d) s = set_gpr r (load64 (ram s) (gpr s b + d)) s"
| "exec (Lea r b d) s = set_gpr r (gpr s b + d) s"
| "exec (AddImm r v) s = set_gpr r (gpr s r + v) s"
| "exec (SubImm r v) s = set_gpr r (gpr s r - v) s"
| "exec (AndImm r v) s = set_gpr r (gpr s r AND v) s"
| "exec (MovdquStore b i) s = s\<lparr>ram := store_bytes (ram s) (gpr s b) (to_le 16 (xmm s i))\<rparr>"
| "exec (MovdquLoad i b) s = s\<lparr>xmm := (xmm s)(i := from_le (read_bytes (ram s) (gpr s b) 16))\<rparr>"

definition exec_all :: "instr list \<Rightarrow> Cpu86 \<Rightarrow> Cpu86" where
  "exec_all is s = fold exec is s"

subsection \<open>The code\<close>

definition XMMPUSH :: "nat \<Rightarrow> instr list" where
  "XMMPUSH i = [SubImm RSP 16, MovdquStore RSP i]"

definition XMMPOP :: "nat \<Rightarrow> instr list" where
  "XMMPOP i = [MovdquLoad i RSP, AddImm RSP 16]"

definition save_gprs :: "instr list" where
  "save_gprs = [Push RAX, Push RBX, PushMem R15 0x10, PushMem R15 0x08, Push RSI, Push RDI, Push RBP,
     PushMem R15 0x00, Push R9, Push R10, Push R11, Push R12, Push R13, Push R14, PushMem R15 0x18]"

definition restore_gprs :: "instr list" where
  "restore_gprs = [PopMem R15 0x18, Pop R14, Pop R13, Pop R12, Pop R11, Pop R10, Pop R9, PopMem R15 0x00,
     Pop RBP, Pop RDI, Pop RSI, PopMem R15 0x08, PopMem R15 0x10, Pop RBX, Pop RAX]"

text \<open>\<open>enter_rust\<close> before and after the call of the handler; the final \<open>ret\<close> is in the stub.\<close>

definition enter_rust_save :: "instr list" where
  "enter_rust_save = save_gprs @
     XMMPUSH 0 @ XMMPUSH 1 @ XMMPUSH 2 @ XMMPUSH 3 @ XMMPUSH 4 @ XMMPUSH 5 @ XMMPUSH 6 @ XMMPUSH 7 @
     XMMPUSH 8 @ XMMPUSH 9 @ XMMPUSH 10 @ XMMPUSH 11 @ XMMPUSH 12 @ XMMPUSH 13 @ XMMPUSH 14 @ XMMPUSH 15 @
     [MovReg R9 RSP, MovReg RBP RSP, SubImm RSP 0x20, AndImm RSP (NOT 0xf)]"

definition enter_rust_restore :: "instr list" where
  "enter_rust_restore = [MovReg RSP RBP] @
     XMMPOP 15 @ XMMPOP 14 @ XMMPOP 13 @ XMMPOP 12 @ XMMPOP 11 @ XMMPOP 10 @ XMMPOP 9 @ XMMPOP 8 @
     XMMPOP 7 @ XMMPOP 6 @ XMMPOP 5 @ XMMPOP 4 @ XMMPOP 3 @ XMMPOP 2 @ XMMPOP 1 @ XMMPOP 0 @ restore_gprs"

text \<open>The macro that makes the stub of a vector, before and after the call of \<open>enter_rust\<close>.\<close>

definition stub_save :: "nat \<Rightarrow> bool \<Rightarrow> instr list" where
  "stub_save int_id has_error_code = [Push R15, Push RCX, Push RDX, Push R8, MovReg R15 RSP] @
     (if has_error_code
      then [MovImm RCX (word_of_nat int_id), Lea RDX RSP 0x28, Load R8 RSP 0x20, SubImm RSP 8]
      else [MovImm RCX (word_of_nat int_id), Lea RDX RSP 0x20, MovImm R8 0])"

definition stub_restore :: "bool \<Rightarrow> instr list" where
  "stub_restore has_error_code = (if has_error_code then [AddImm RSP 8] else []) @
     [Pop R8, Pop RDX, Pop RCX, Pop R15] @ (if has_error_code then [AddImm RSP 8] else [])"

definition has_error_code :: "nat \<Rightarrow> bool" where
  "has_error_code int_id = (int_id \<in> set [8, 10, 11, 12, 13, 14, 17])"

record InterruptFrame =
  fr_rip :: u64
  fr_cs :: u64
  fr_rflags :: u64
  fr_rsp :: u64
  fr_ss :: u64

definition iretq :: "Cpu86 \<Rightarrow> InterruptFrame \<times> Cpu86" where
  "iretq s =
     (let sp = gpr s RSP;
          f = \<lparr>fr_rip = load64 (ram s) sp, fr_cs = load64 (ram s) (sp + 8), fr_rflags = load64 (ram s) (sp + 16),
               fr_rsp = load64 (ram s) (sp + 24), fr_ss = load64 (ram s) (sp + 32)\<rparr>
      in (f, set_gpr RSP (fr_rsp f) s))"

text \<open>
  The state in which \<open>interrupt_handler\<close> is called, where \<open>ra\<close> is the address after the call of
  \<open>enter_rust\<close>; and what happens after the handler returned: \<open>None\<close> when \<open>ret\<close> would jump elsewhere,
  otherwise the frame that is loaded and the registers.
\<close>

definition stub_call :: "nat \<Rightarrow> u64 \<Rightarrow> Cpu86 \<Rightarrow> Cpu86" where
  "stub_call int_id ra s =
     exec_all enter_rust_save (push_value ra (exec_all (stub_save int_id (has_error_code int_id)) s))"

definition stub_return :: "nat \<Rightarrow> u64 \<Rightarrow> Cpu86 \<Rightarrow> (InterruptFrame \<times> Cpu86) option" where
  "stub_return int_id ra s =
     (let (target, s) = pop_value (exec_all enter_rust_restore s) in
      if target \<noteq> ra then None
      else Some (iretq (exec_all (stub_restore (has_error_code int_id)) s)))"

definition vec_interrupt :: "nat \<Rightarrow> u64 \<Rightarrow> (Cpu86 \<Rightarrow> Cpu86) \<Rightarrow> Cpu86 \<Rightarrow> (InterruptFrame \<times> Cpu86) option" where
  "vec_interrupt int_id ra handler s = stub_return int_id ra (handler (stub_call int_id ra s))"

subsection \<open>The structures of the handler\<close>

record AllRegs =
  ar_xmm15 :: u128
  ar_xmm14 :: u128
  ar_xmm13 :: u128
  ar_xmm12 :: u128
  ar_xmm11 :: u128
  ar_xmm10 :: u128
  ar_xmm9 :: u128
  ar_xmm8 :: u128
  ar_xmm7 :: u128
  ar_xmm6 :: u128
  ar_xmm5 :: u128
  ar_xmm4 :: u128
  ar_xmm3 :: u128
  ar_xmm2 :: u128
  ar_xmm1 :: u128
  ar_xmm0 :: u128
  ar_r15 :: u64
  ar_r14 :: u64
  ar_r13 :: u64
  ar_r12 :: u64
  ar_r11 :: u64
  ar_r10 :: u64
  ar_r9 :: u64
  ar_r8 :: u64
  ar_rbp :: u64
  ar_rdi :: u64
  ar_rsi :: u64
  ar_rdx :: u64
  ar_rcx :: u64
  ar_rbx :: u64
  ar_rax :: u64

definition all_regs_xmm :: "AllRegs \<Rightarrow> u128 list" where
  "all_regs_xmm a = [ar_xmm15 a, ar_xmm14 a, ar_xmm13 a, ar_xmm12 a, ar_xmm11 a, ar_xmm10 a, ar_xmm9 a, ar_xmm8 a,
     ar_xmm7 a, ar_xmm6 a, ar_xmm5 a, ar_xmm4 a, ar_xmm3 a, ar_xmm2 a, ar_xmm1 a, ar_xmm0 a]"

definition all_regs_gpr :: "AllRegs \<Rightarrow> u64 list" where
  "all_regs_gpr a = [ar_r15 a, ar_r14 a, ar_r13 a, ar_r12 a, ar_r11 a, ar_r10 a, ar_r9 a, ar_r8 a, ar_rbp a,
     ar_rdi a, ar_rsi a, ar_rdx a, ar_rcx a, ar_rbx a, ar_rax a]"

definition quads :: "u64 list \<Rightarrow> bytes" where
  "quads vs = concat (map (to_le 8) vs)"

definition all_regs_bytes :: "AllRegs \<Rightarrow> bytes" where
  "all_regs_bytes a = concat (map (to_le 16) (all_regs_xmm a)) @ quads (all_regs_gpr a)"

definition frame_quads :: "InterruptFrame \<Rightarrow> u64 list" where
  "frame_quads f = [fr_rip f, fr_cs f, fr_rflags f, fr_rsp f, fr_ss f]"

text \<open>The registers of a state, as the structure.\<close>

definition snapshot :: "Cpu86 \<Rightarrow> AllRegs" where
  "snapshot s = \<lparr>ar_xmm15 = xmm s 15, ar_xmm14 = xmm s 14, ar_xmm13 = xmm s 13, ar_xmm12 = xmm s 12,
     ar_xmm11 = xmm s 11, ar_xmm10 = xmm s 10, ar_xmm9 = xmm s 9, ar_xmm8 = xmm s 8, ar_xmm7 = xmm s 7,
     ar_xmm6 = xmm s 6, ar_xmm5 = xmm s 5, ar_xmm4 = xmm s 4, ar_xmm3 = xmm s 3, ar_xmm2 = xmm s 2,
     ar_xmm1 = xmm s 1, ar_xmm0 = xmm s 0, ar_r15 = gpr s R15, ar_r14 = gpr s R14, ar_r13 = gpr s R13,
     ar_r12 = gpr s R12, ar_r11 = gpr s R11, ar_r10 = gpr s R10, ar_r9 = gpr s R9, ar_r8 = gpr s R8,
     ar_rbp = gpr s RBP, ar_rdi = gpr s RDI, ar_rsi = gpr s RSI, ar_rdx = gpr s RDX, ar_rcx = gpr s RCX,
     ar_rbx = gpr s RBX, ar_rax = gpr s RAX\<rparr>"

end
