(* ===== verification/Apic.thy ===== *)
theory Apic
  imports Acpi_Correct IntStub Serial
begin

text \<open>
  The local APIC, \<open>kernel/src/apic.rs\<close>, and the interrupt handler of \<open>kernel/src/interrupts.rs\<close> that
  ends interrupts through it. The processor's model specific registers and the memory-mapped
  registers of the APIC are locations of a hardware state \<open>'h\<close>; enabling interrupts delivers the
  vectors the hardware chooses. Ports are those of the serial driver.
\<close>

unbundle bit_operations_syntax

subsection \<open>Hardware\<close>

datatype location = Msr u32 | Mmio u64

record 'h CpuHw =
  hw_rd :: "'h \<Rightarrow> location \<Rightarrow> u64 \<times> 'h"
  hw_wr :: "'h \<Rightarrow> location \<Rightarrow> u64 \<Rightarrow> 'h"
  hw_sti :: "'h \<Rightarrow> u8 list \<times> 'h"
  hw_cli :: "'h \<Rightarrow> 'h"

subsection \<open>Registers\<close>

definition IA32_APIC_BASE_EXTD :: u64 where "IA32_APIC_BASE_EXTD = push_bit 10 1"

definition IA32_APIC_BASE_EN :: u64 where "IA32_APIC_BASE_EN = push_bit 11 1"

definition IA32_APIC_BASE :: u32 where "IA32_APIC_BASE = 0x1b"

definition APIC_BASE :: u64 where "APIC_BASE = 0xfee00000"

definition APIC_TIMER_VECTOR :: u8 where "APIC_TIMER_VECTOR = 0xe0"

definition LVT_MASK :: u32 where "LVT_MASK = push_bit 16 1"

datatype Register =
    ApicId | EndOfInterrupt | SpuriousInterruptVector
  | Isr0 | Isr1 | Isr2 | Isr3 | Isr4 | Isr5 | Isr6 | Isr7
  | Irr0 | Irr1 | Irr2 | Irr3 | Irr4 | Irr5 | Irr6 | Irr7
  | LvtTimer | InitialCount | DivideConfiguration

primrec register_offset :: "Register \<Rightarrow> u64" where
  "register_offset ApicId = 0x20"
| "register_offset EndOfInterrupt = 0xb0"
| "register_offset SpuriousInterruptVector = 0xf0"
| "register_offset Isr0 = 0x100"
| "register_offset Isr1 = 0x110"
| "register_offset Isr2 = 0x120"
| "register_offset Isr3 = 0x130"
| "register_offset Isr4 = 0x140"
| "register_offset Isr5 = 0x150"
| "register_offset Isr6 = 0x160"
| "register_offset Isr7 = 0x170"
| "register_offset Irr0 = 0x200"
| "register_offset Irr1 = 0x210"
| "register_offset Irr2 = 0x220"
| "register_offset Irr3 = 0x230"
| "register_offset Irr4 = 0x240"
| "register_offset Irr5 = 0x250"
| "register_offset Irr6 = 0x260"
| "register_offset Irr7 = 0x270"
| "register_offset LvtTimer = 0x320"
| "register_offset InitialCount = 0x380"
| "register_offset DivideConfiguration = 0x3e0"

subsection \<open>The structure\<close>

record TimerState =
  dcr :: u32
  icr :: u32
  lvt :: u32

definition timer_state_default :: TimerState where
  "timer_state_default = \<lparr>dcr = 0, icr = 0, lvt = 0\<rparr>"

text \<open>In xAPIC mode the registers are a slice of 1024 words at a virtual address.\<close>

datatype ApicMode = XApic u64 | X2Apic

record Apic =
  mode :: ApicMode
  orig_ia32_apic_base :: u64
  orig_svr :: u32
  orig_pic_a1 :: u8
  orig_pic_21 :: u8
  orig_timer_state :: TimerState

subsection \<open>Accesses\<close>

text \<open>The location of a word of the mapping, an access to which is bounds checked.\<close>

definition mapping_word :: "u64 \<Rightarrow> u64 \<Rightarrow> location res" where
  "mapping_word mapping i = (if i < 1024 then Ok (Mmio (mapping + 4 * i)) else Panic ''index out of bounds'')"

definition read_apic :: "'h CpuHw \<Rightarrow> Apic \<Rightarrow> Register \<Rightarrow> 'h \<Rightarrow> (u32 \<times> 'h) res" where
  "read_apic hw a reg h =
     (let offset = register_offset reg in
      case mode a of
        XApic mapping \<Rightarrow> bindR (mapping_word mapping (offset div 4)) (\<lambda>l. let (v, h) = hw_rd hw h l in Ok (ucast v, h))
      | X2Apic \<Rightarrow> let (v, h) = hw_rd hw h (Msr (0x800 + ucast offset div 16)) in Ok (ucast v, h))"

definition write_apic :: "'h CpuHw \<Rightarrow> Apic \<Rightarrow> Register \<Rightarrow> u32 \<Rightarrow> 'h \<Rightarrow> 'h res" where
  "write_apic hw a reg v h =
     (let offset = register_offset reg in
      case mode a of
        XApic mapping \<Rightarrow> bindR (mapping_word mapping (offset div 4)) (\<lambda>l. Ok (hw_wr hw h l (ucast v)))
      | X2Apic \<Rightarrow> Ok (hw_wr hw h (Msr (0x800 + ucast offset div 16)) (ucast v)))"

definition write_icr :: "'h CpuHw \<Rightarrow> Apic \<Rightarrow> u64 \<Rightarrow> 'h \<Rightarrow> 'h res" where
  "write_icr hw a v h =
     (case mode a of
        XApic mapping \<Rightarrow>
          bindR (mapping_word mapping (0x310 div 4)) (\<lambda>l.
          let h = hw_wr hw h l (ucast (ucast (drop_bit 32 v) :: u32)) in
          bindR (mapping_word mapping (0x300 div 4)) (\<lambda>l.
            Ok (hw_wr hw h l (ucast (ucast (drop_bit 0 v) :: u32)))))
      | X2Apic \<Rightarrow> Ok (hw_wr hw h (Msr 0x830) v))"

definition ipi :: "'h CpuHw \<Rightarrow> Apic \<Rightarrow> u32 \<Rightarrow> u32 \<Rightarrow> 'h \<Rightarrow> 'h res" where
  "ipi hw a dest_apic_id cmd h =
     (let dest = (case mode a of XApic _ \<Rightarrow> push_bit 24 dest_apic_id | X2Apic \<Rightarrow> dest_apic_id) in
      write_icr hw a (push_bit 32 (ucast dest) OR ucast cmd) h)"

definition apic_ident :: "'h CpuHw \<Rightarrow> Apic \<Rightarrow> 'h \<Rightarrow> (u32 \<times> 'h) res" where
  "apic_ident hw a h =
     bindR (read_apic hw a ApicId h) (\<lambda>(v, h).
       Ok (case mode a of XApic _ \<Rightarrow> drop_bit 24 v | X2Apic \<Rightarrow> v, h))"

text \<open>The 256 bits of the request and of the in-service registers, as two integers.\<close>

definition read_vector :: "'h CpuHw \<Rightarrow> Apic \<Rightarrow> Register list \<Rightarrow> 'h \<Rightarrow> (u128 list \<times> 'h) res" where
  "read_vector hw a to_load h =
     bindR (foldR (\<lambda>(bs, h) (ii, reg).
       bindR (read_apic hw a reg h) (\<lambda>(v, h).
       bindR (copy_into bs (ii * 4) ((ii + 1) * 4) (to_le 4 v)) (\<lambda>bs. Ok (bs, h))))
       (replicate 32 0, h) (enumerate 0 to_load)) (\<lambda>(bs, h).
     Ok ([from_le (take 16 bs), from_le (drop 16 bs)], h))"

definition irr :: "'h CpuHw \<Rightarrow> Apic \<Rightarrow> 'h \<Rightarrow> (u128 list \<times> 'h) res" where
  "irr hw a h = read_vector hw a [Irr0, Irr1, Irr2, Irr3, Irr4, Irr5, Irr6, Irr7] h"

definition isr :: "'h CpuHw \<Rightarrow> Apic \<Rightarrow> 'h \<Rightarrow> (u128 list \<times> 'h) res" where
  "isr hw a h = read_vector hw a [Isr0, Isr1, Isr2, Isr3, Isr4, Isr5, Isr6, Isr7] h"

subsection \<open>The state of a core\<close>

text \<open>The only handler of the kernel is that of the timer; others are numbered.\<close>

datatype InterruptDispatch = TimerInterrupt | OtherDispatch nat

record 'h Machine =
  m_hw :: 'h
  m_io :: Io
  m_kernel :: Kernel
  m_apic :: "Apic option"
  m_interrupts :: "InterruptDispatch Interrupts option"
  m_interrupts_locked :: bool
  m_serial_locked :: bool
  m_eoi_required :: "bool list"
  m_draining :: bool
  m_acpi :: AcpiState
  m_reboot_requested :: bool

definition on_hw :: "('h \<Rightarrow> 'h res) \<Rightarrow> 'h Machine \<Rightarrow> 'h Machine res" where
  "on_hw f m = bindR (f (m_hw m)) (\<lambda>h. Ok (m\<lparr>m_hw := h\<rparr>))"

definition on_core :: "(CoreLocals \<Rightarrow> CoreLocals res) \<Rightarrow> 'h Machine \<Rightarrow> 'h Machine res" where
  "on_core f m = bindR (f (k_core (m_kernel m))) (\<lambda>c. Ok (m\<lparr>m_kernel := (m_kernel m)\<lparr>k_core := c\<rparr>\<rparr>))"

text \<open>The end of an interrupt goes through the APIC of the core without its lock.\<close>

definition eoi :: "'h CpuHw \<Rightarrow> 'h Machine \<Rightarrow> 'h Machine res" where
  "eoi hw m =
     (case m_apic m of
        Some a \<Rightarrow> on_hw (write_apic hw a EndOfInterrupt 0) m
      | None \<Rightarrow> Ok m)"

definition enable_timer :: "'h CpuHw \<Rightarrow> Apic \<Rightarrow> 'h Machine \<Rightarrow> 'h Machine res" where
  "enable_timer hw a m =
     bindR (on_hw (write_apic hw a InitialCount 0) m) (\<lambda>m.
     bindR (unwrapR (m_interrupts m)) (\<lambda>t.
     bindR (add_handler APIC_TIMER_VECTOR TimerInterrupt True (t, m_eoi_required m)) (\<lambda>(t, e).
     let m = m\<lparr>m_interrupts := Some t, m_eoi_required := e\<rparr> in
     bindR (on_hw (write_apic hw a DivideConfiguration 0) m) (\<lambda>m.
     bindR (on_hw (write_apic hw a LvtTimer (push_bit 17 1 OR ucast APIC_TIMER_VECTOR)) m) (\<lambda>m.
       on_hw (write_apic hw a InitialCount 10000000) m)))))"

definition mask_timer :: "'h CpuHw \<Rightarrow> Apic \<Rightarrow> 'h \<Rightarrow> 'h res" where
  "mask_timer hw a h = bindR (read_apic hw a LvtTimer h) (\<lambda>(v, h). write_apic hw a LvtTimer (LVT_MASK OR v) h)"

definition disable_timer :: "'h CpuHw \<Rightarrow> Apic \<Rightarrow> 'h Machine \<Rightarrow> 'h Machine res" where
  "disable_timer hw a m =
     bindR (on_hw (mask_timer hw a) m) (\<lambda>m.
     bindR (on_hw (write_apic hw a InitialCount 0) m) (\<lambda>m.
     if m_interrupts_locked m then Panic ''Failed to get interrupt lock to disable APIC timer''
     else
       bindR (unwrapR (m_interrupts m)) (\<lambda>t.
       bindR (remove_handler APIC_TIMER_VECTOR TimerInterrupt (t, m_eoi_required m)) (\<lambda>(t, e).
         Ok (m\<lparr>m_interrupts := Some t, m_eoi_required := e\<rparr>)))))"

subsection \<open>The interrupt handler\<close>

datatype int_end = Returned | HaltedForever

text \<open>Dispatch: \<open>call\<close> runs a handler and says whether it handled the interrupt.\<close>

type_synonym 'h dispatcher = "InterruptDispatch \<Rightarrow> u8 \<Rightarrow> 'h Machine \<Rightarrow> (bool \<times> 'h Machine) res"

definition dispatch_handler :: "'h dispatcher \<Rightarrow> u8 \<Rightarrow> 'h Machine \<Rightarrow> (bool \<times> 'h Machine) res" where
  "dispatch_handler call number m =
     (if m_interrupts_locked m then Panic ''Failed to get interrupts lock''
      else
        bindR (unwrapR (m_interrupts m)) (\<lambda>t.
        bindR (nthR (dispatch t) (unat number)) (\<lambda>handler.
        case handler of None \<Rightarrow> Ok (False, m) | Some f \<Rightarrow> call f number m)))"

text \<open>The guards of the two nesting counters are dropped in reverse order.\<close>

definition drop_refs :: "u8 \<Rightarrow> 'h Machine \<Rightarrow> (int_end \<times> 'h Machine) res" where
  "drop_refs number m =
     bindR (if number < 32 then on_core leave_exception m else Ok m) (\<lambda>m.
     bindR (on_core leave_interrupt m) (\<lambda>m. Ok (Returned, m)))"

definition interrupt_handler :: "'h CpuHw \<Rightarrow> 'h dispatcher \<Rightarrow> u8 \<Rightarrow> 'h Machine \<Rightarrow> (int_end \<times> 'h Machine) res" where
  "interrupt_handler hw call number m =
     bindR (on_core enter_interrupt m) (\<lambda>m.
     bindR (if number < 32 then on_core enter_exception m else Ok m) (\<lambda>m.
     if number = 2 then
       if core_id (k_core (m_kernel m)) = 0 then Panic ''Panic occured on another core''
       else
         bindR (unwrapR (apic_id (k_core (m_kernel m)))) (\<lambda>i.
         bindR (set_core_state i Halted (m_acpi m)) (\<lambda>a. Ok (HaltedForever, m\<lparr>m_acpi := a\<rparr>)))
     else
       let draining_eois = m_draining m in
       bindR (if draining_eois then Ok (False, m) else dispatch_handler call number m) (\<lambda>(handled, m).
       bindR (nthR (m_eoi_required m) (unat number)) (\<lambda>required.
       if required then
         bindR (eoi hw m) (\<lambda>m.
         if draining_eois \<or> handled then drop_refs number m else Panic ''Interrupt'')
       else if handled then drop_refs number m else Panic ''Interrupt''))))"
subsection \<open>Dropping the APIC\<close>

partial_function (option) drain_isr :: "'h CpuHw \<Rightarrow> Apic \<Rightarrow> 'h Machine \<Rightarrow> 'h Machine res option" where
  "drain_isr hw a m =
     bindD (Some (isr hw a (m_hw m))) (\<lambda>(v, h).
     let m = m\<lparr>m_hw := h\<rparr> in
     if v ! 0 = 0 \<and> v ! 1 = 0 then Some (Ok m)
     else bindD (Some (eoi hw m)) (\<lambda>m. drain_isr hw a m))"

text \<open>The interrupts that arrive once interrupts are enabled run the handler, one after the other.\<close>

definition deliver :: "'h CpuHw \<Rightarrow> 'h dispatcher \<Rightarrow> 'h Machine \<Rightarrow> u8 list \<Rightarrow> 'h Machine res option" where
  "deliver hw call m vs =
     foldD (\<lambda>m v. bindD (Some (interrupt_handler hw call v m)) (\<lambda>(r, m).
       case r of Returned \<Rightarrow> Some (Ok m) | HaltedForever \<Rightarrow> None)) m vs"

partial_function (option) drain_irr :: "'h CpuHw \<Rightarrow> 'h dispatcher \<Rightarrow> Apic \<Rightarrow> 'h Machine \<Rightarrow> 'h Machine res option" where
  "drain_irr hw call a m =
     bindD (Some (irr hw a (m_hw m))) (\<lambda>(v, h).
     let m = m\<lparr>m_hw := h\<rparr> in
     bindD (Some (eoi_required (m_eoi_required m))) (\<lambda>can_eoi.
     let pending_handleable = (v ! 0 AND can_eoi ! 0 \<noteq> 0 \<or> v ! 1 AND can_eoi ! 1 \<noteq> 0) in
     if \<not> pending_handleable then Some (Ok m)
     else
       let (vs, h) = hw_sti hw (m_hw m) in
       bindD (deliver hw call (m\<lparr>m_hw := h\<rparr>) vs) (\<lambda>m. drain_irr hw call a m)))"

declare drain_isr.simps [simp del] drain_irr.simps [simp del]

definition restore_timer :: "'h CpuHw \<Rightarrow> Apic \<Rightarrow> 'h \<Rightarrow> 'h res" where
  "restore_timer hw a h =
     bindR (write_apic hw a DivideConfiguration (dcr (orig_timer_state a)) h) (\<lambda>h.
     bindR (write_apic hw a LvtTimer (lvt (orig_timer_state a)) h) (\<lambda>h.
       write_apic hw a InitialCount (icr (orig_timer_state a)) h))"

definition restore_base :: "'h CpuHw \<Rightarrow> Apic \<Rightarrow> 'h \<Rightarrow> 'h" where
  "restore_base hw a h =
     hw_wr hw h (Msr IA32_APIC_BASE) (orig_ia32_apic_base a OR
       (case mode a of X2Apic \<Rightarrow> IA32_APIC_BASE_EXTD | XApic _ \<Rightarrow> 0))"

definition apic_drop :: "'h CpuHw \<Rightarrow> 'h dispatcher \<Rightarrow> Apic \<Rightarrow> 'h Machine \<Rightarrow> 'h Machine res option" where
  "apic_drop hw call a m =
     bindD (Some (on_hw (mask_timer hw a) m)) (\<lambda>m.
     bindD (drain_isr hw a m) (\<lambda>m.
     let m = m\<lparr>m_draining := True\<rparr> in
     bindD (drain_irr hw call a m) (\<lambda>m.
     let m = m\<lparr>m_hw := hw_cli hw (m_hw m)\<rparr> in
     bindD (Some (on_hw (restore_timer hw a) m)) (\<lambda>m.
     bindD (Some (on_hw (write_apic hw a SpuriousInterruptVector (orig_svr a)) m)) (\<lambda>m.
     if orig_ia32_apic_base a AND IA32_APIC_BASE_EN = 0 then Some (Panic ''Disabling the APIC is not supported'')
     else
       let m = m\<lparr>m_hw := restore_base hw a (m_hw m)\<rparr>;
           io = out8 (m_io m) 0xa1 (orig_pic_a1 a);
           io = out8 io 0x21 (orig_pic_21 a)
       in Some (Ok (m\<lparr>m_io := io\<rparr>)))))))"

subsection \<open>Initialisation\<close>

text \<open>The new value of the base register: our address, enabled, and x2APIC mode where supported.\<close>

definition new_apic_base :: "CPUFeatures \<Rightarrow> u64 \<Rightarrow> u64" where
  "new_apic_base f orig =
     (orig AND NOT 0x0000000ffffff000) OR APIC_BASE OR IA32_APIC_BASE_EN OR
     (if x2apic f then IA32_APIC_BASE_EXTD else 0)"

definition apic_mapping :: "Kernel \<Rightarrow> (u64 \<times> Kernel) res" where
  "apic_mapping k =
     bindR (alloc_virt_addr_4k k 4096) (\<lambda>(vaddr, k).
     bindR (unwrapR (ba_page_table (k_args k))) (\<lambda>pt.
     bindR (map_raw PhysicalMemory pt k vaddr Page4K
       (APIC_BASE OR PAGE_NX OR PAGE_WRITE OR PAGE_CACHE_DISABLE OR PAGE_PRESENT)) (\<lambda>(r, k).
     bindR (expectR ''Failed to map in APIC to virtual memory'' r) (\<lambda>_. Ok (vaddr, k)))))"

definition apic_mode :: "CPUFeatures \<Rightarrow> Kernel \<Rightarrow> (ApicMode \<times> Kernel) res" where
  "apic_mode f k =
     (if \<not> x2apic f then bindR (apic_mapping k) (\<lambda>(vaddr, k). Ok (XApic vaddr, k)) else Ok (X2Apic, k))"

text \<open>The registers whose values are saved for the drop.\<close>

definition save_registers :: "'h CpuHw \<Rightarrow> Apic \<Rightarrow> 'h \<Rightarrow> (Apic \<times> 'h) res" where
  "save_registers hw a h =
     bindR (read_apic hw a SpuriousInterruptVector h) (\<lambda>(v, h).
     let a = a\<lparr>orig_svr := v\<rparr> in
     bindR (read_apic hw a DivideConfiguration h) (\<lambda>(d, h).
     bindR (read_apic hw a InitialCount h) (\<lambda>(i, h).
     bindR (read_apic hw a LvtTimer h) (\<lambda>(l, h).
       Ok (a\<lparr>orig_timer_state := \<lparr>dcr = d, icr = i, lvt = l\<rparr>\<rparr>, h)))))"

definition apic_init :: "'h CpuHw \<Rightarrow> io_env \<Rightarrow> (u32 \<Rightarrow> u32 \<Rightarrow> u32 \<times> u32 \<times> u32 \<times> u32) \<Rightarrow> 'h Machine \<Rightarrow> 'h Machine res" where
  "apic_init hw env cpuid m =
     (if \<not> (APIC_BASE > 0 \<and> APIC_BASE = APIC_BASE AND 0x0000000ffffff000) then Panic ''Invalid APIC base address''
      else if m_apic m \<noteq> None then Panic ''APIC was already initialized''
      else
        let f = get_cpu_features cpuid in
        if \<not> apic f then Panic ''APIC is not available on this system''
        else
          let (orig_base, h) = hw_rd hw (m_hw m) (Msr IA32_APIC_BASE) in
          if orig_base AND IA32_APIC_BASE_EN = 0 then Panic ''APIC was disabled during BIOS''
          else
            let (a1, io) = in8 env (m_io m) 0xa1;
                (b21, io) = in8 env io 0x21;
                io = out8 io 0xa1 0xff;
                io = out8 io 0x21 0xff;
                h = hw_wr hw h (Msr IA32_APIC_BASE) (new_apic_base f orig_base)
            in
            bindR (apic_mode f (m_kernel m)) (\<lambda>(md, k).
            let a = \<lparr>mode = md, orig_ia32_apic_base = orig_base, orig_svr = 0, orig_pic_a1 = a1, orig_pic_21 = b21,
                  orig_timer_state = timer_state_default\<rparr> in
            bindR (save_registers hw a h) (\<lambda>(a, h).
            bindR (write_apic hw a SpuriousInterruptVector (push_bit 8 1 OR 0xff) h) (\<lambda>h.
            bindR (apic_ident hw a h) (\<lambda>(i, h).
              Ok (m\<lparr>m_hw := h, m_io := io, m_kernel := k\<lparr>k_core := set_apic_id i (k_core k)\<rparr>, m_apic := Some a\<rparr>))))))"

end
