(* ===== verification/Apic_Correct.thy ===== *)
theory Apic_Correct
  imports Apic KernelMm_Correct
begin

text \<open>
  Correctness of the local APIC driver and of the interrupt handler: what the handler does on every
  path, and that dropping the APIC after its initialisation returns
  and puts the registers and the interrupt masks back to what the initialisation found. What is
  assumed of the hardware is written out as predicates on the hardware operations.
\<close>

unbundle bit_operations_syntax

subsection \<open>Register locations\<close>

definition reg_loc :: "ApicMode \<Rightarrow> Register \<Rightarrow> location" where
  "reg_loc md r = (case md of XApic p \<Rightarrow> Mmio (p + register_offset r) | X2Apic \<Rightarrow> Msr (0x800 + ucast (register_offset r) div 16))"

lemma mapping_word_register: "mapping_word p (register_offset r div 4) = Ok (Mmio (p + register_offset r))"
  by (cases r) (simp_all add: mapping_word_def)

lemma read_apic_loc: "read_apic hw a r h = (let (v, h) = hw_rd hw h (reg_loc (mode a) r) in Ok (ucast v, h))"
  by (auto simp: read_apic_def reg_loc_def mapping_word_register split: ApicMode.splits)

lemma write_apic_loc: "write_apic hw a r v h = Ok (hw_wr hw h (reg_loc (mode a) r) (ucast v))"
  by (auto simp: write_apic_def reg_loc_def mapping_word_register split: ApicMode.splits)

lemma register_offset_small: "register_offset r < 0x1000"
  by (cases r) simp_all

lemma register_offset_inj: "register_offset r = register_offset q \<Longrightarrow> r = q"
  by (cases r; cases q) simp_all

lemma register_msr_inj: "ucast (register_offset r) div (16 :: u32) = ucast (register_offset q) div 16 \<Longrightarrow> r = q"
  by (cases r; cases q) simp_all

lemma reg_loc_inj: "reg_loc md r = reg_loc md q \<longleftrightarrow> r = q"
  using register_offset_inj register_msr_inj by (auto simp: reg_loc_def split: ApicMode.splits)

lemma reg_loc_not_base: "reg_loc md r \<noteq> Msr IA32_APIC_BASE"
  by (cases md; cases r) (simp_all add: reg_loc_def IA32_APIC_BASE_def)
subsection \<open>What is assumed of the hardware\<close>

definition isr_regs :: "Register list" where
  "isr_regs = [Isr0, Isr1, Isr2, Isr3, Isr4, Isr5, Isr6, Isr7]"

definition irr_regs :: "Register list" where
  "irr_regs = [Irr0, Irr1, Irr2, Irr3, Irr4, Irr5, Irr6, Irr7]"

definition saved_regs :: "Register list" where
  "saved_regs = [SpuriousInterruptVector, DivideConfiguration, InitialCount, LvtTimer]"

definition stored :: "ApicMode \<Rightarrow> location set" where
  "stored md = insert (Msr IA32_APIC_BASE) (reg_loc md ` set saved_regs)"

definition observed :: "ApicMode \<Rightarrow> location set" where
  "observed md = stored md \<union> reg_loc md ` set (isr_regs @ irr_regs)"

text \<open>
  \<open>obs\<close> is what the locations hold: a read returns it and changes none of it, a write of a legal value
  to a stored register is read back and changes no other one, and neither enabling nor disabling
  interrupts changes a stored register.
\<close>

definition register_file :: "'h CpuHw \<Rightarrow> ApicMode \<Rightarrow> (location \<Rightarrow> u64 \<Rightarrow> bool) \<Rightarrow> ('h \<Rightarrow> location \<Rightarrow> u64) \<Rightarrow> bool" where
  "register_file hw md legal obs \<longleftrightarrow>
     (\<forall>h l. \<forall>l' \<in> observed md. obs (snd (hw_rd hw h l)) l' = obs h l') \<and>
     (\<forall>h. \<forall>l \<in> observed md. fst (hw_rd hw h l) = obs h l) \<and>
     (\<forall>h. \<forall>l \<in> stored md. legal l (obs h l)) \<and>
     (\<forall>h l v. \<forall>l' \<in> stored md. l' \<noteq> l \<longrightarrow> obs (hw_wr hw h l v) l' = obs h l') \<and>
     (\<forall>h v. \<forall>l \<in> stored md. legal l v \<longrightarrow> obs (hw_wr hw h l v) l = v) \<and>
     (\<forall>h. \<forall>l \<in> stored md. obs (snd (hw_sti hw h)) l = obs h l \<and> obs (hw_cli hw h) l = obs h l)"

text \<open>The APIC registers have 32 bits, and x2APIC mode may be kept in the base register.\<close>

definition legal_values :: "ApicMode \<Rightarrow> (location \<Rightarrow> u64 \<Rightarrow> bool) \<Rightarrow> bool" where
  "legal_values md legal \<longleftrightarrow>
     (\<forall>v. \<forall>r \<in> set saved_regs. legal (reg_loc md r) v \<longrightarrow> v < 2 ^ 32) \<and>
     (\<forall>v. legal (Msr IA32_APIC_BASE) v \<longrightarrow> md = X2Apic \<longrightarrow> legal (Msr IA32_APIC_BASE) (v OR IA32_APIC_BASE_EXTD))"

text \<open>The vectors in service and the vectors that are pending, and how they change.\<close>

definition vectors_in :: "ApicMode \<Rightarrow> Register list \<Rightarrow> (location \<Rightarrow> u64) \<Rightarrow> nat set" where
  "vectors_in md regs ob = {v. v < 256 \<and> bit (ob (reg_loc md (regs ! (v div 32)))) (v mod 32)}"

definition interrupt_laws :: "'h CpuHw \<Rightarrow> ApicMode \<Rightarrow> ('h \<Rightarrow> location \<Rightarrow> u64) \<Rightarrow> bool" where
  "interrupt_laws hw md obs \<longleftrightarrow>
     (\<forall>h v. let s = vectors_in md isr_regs (obs h); h' = hw_wr hw h (reg_loc md EndOfInterrupt) v in
        vectors_in md isr_regs (obs h') = (if s = {} then {} else s - {Max s}) \<and>
        vectors_in md irr_regs (obs h') = vectors_in md irr_regs (obs h)) \<and>
     (\<forall>h v. \<forall>r \<in> set saved_regs. vectors_in md isr_regs (obs (hw_wr hw h (reg_loc md r) v)) = vectors_in md isr_regs (obs h) \<and>
        vectors_in md irr_regs (obs (hw_wr hw h (reg_loc md r) v)) = vectors_in md irr_regs (obs h)) \<and>
     (\<forall>h. let (vs, h') = hw_sti hw h; p = vectors_in md irr_regs (obs h) in
        unat ` set vs \<subseteq> p \<and> vectors_in md irr_regs (obs h') = p - unat ` set vs \<and> (p \<noteq> {} \<longrightarrow> vs \<noteq> []))"

subsection \<open>Reading 256 bits\<close>

lemma nth_concat_equal:
  assumes "\<forall>x \<in> set xs. length (f x) = k" "i < k * length xs"
  shows "concat (map f xs) ! i = f (xs ! (i div k)) ! (i mod k)"
  using assms
proof (induction xs arbitrary: i)
  case (Cons x xs)
  show ?case
  proof (cases "i < k")
    case True
    then show ?thesis using Cons.prems by (simp add: nth_append)
  next
    case False
    then have k: "0 < k" using Cons.prems(2) by (cases k) auto
    have "(i - k) div k = i div k - 1" "(i - k) mod k = i mod k" "0 < i div k"
      using False k by (simp_all add: le_div_geq le_mod_geq)
    moreover have "i - k < k * length xs" using False Cons.prems(2) by simp
    ultimately show ?thesis using False Cons by (simp add: nth_append nth_Cons')
  qed
qed simp

lemma rd_obs:
  assumes "register_file hw md legal obs" "l \<in> observed md"
  shows "\<exists>h'. hw_rd hw h l = (obs h l, h') \<and> (\<forall>l' \<in> observed md. obs h' l' = obs h l')"
proof -
  have "fst (hw_rd hw h l) = obs h l" "\<forall>l' \<in> observed md. obs (snd (hw_rd hw h l)) l' = obs h l'"
    using assms by (simp_all add: register_file_def)
  then show ?thesis by (cases "hw_rd hw h l") auto
qed

lemma read_vector_fold:
  assumes "register_file hw md legal obs" "reg_loc md ` set regs \<subseteq> observed md" "mode a = md" "4 * (n + length regs) \<le> 32" "length pre = 4 * n"
  shows "\<exists>h'. foldR (\<lambda>(bs, h) (ii, reg). bindR (read_apic hw a reg h) (\<lambda>(v, h).
       bindR (copy_into bs (ii * 4) ((ii + 1) * 4) (to_le 4 v)) (\<lambda>bs. Ok (bs, h)))) (pre @ replicate (32 - 4 * n) 0, h) (enumerate n regs) =
      Ok (pre @ concat (map (\<lambda>r. to_le 4 (ucast (obs h (reg_loc md r)) :: u32)) regs) @ replicate (32 - 4 * (n + length regs)) 0, h') \<and>
    (\<forall>l \<in> observed md. obs h' l = obs h l)"
  using assms
proof (induction regs arbitrary: n pre h)
  case (Cons r regs)
  from rd_obs [OF Cons.prems(1), of "reg_loc md r" h] Cons.prems(2) obtain h1 where
    h1: "hw_rd hw h (reg_loc md r) = (obs h (reg_loc md r), h1)" "\<forall>l \<in> observed md. obs h1 l = obs h l" by auto
  define x where "x = to_le 4 (ucast (obs h (reg_loc md r)) :: u32)"
  have lx: "length x = 4" by (simp add: x_def)
  have z: "replicate (32 - 4 * n) (0 :: u8) = replicate 4 0 @ replicate (32 - 4 * Suc n) 0"
    using Cons.prems(4) by (simp flip: replicate_add)
  have "copy_into (pre @ replicate (32 - 4 * n) 0) (n * 4) ((n + 1) * 4) x = Ok ((pre @ x) @ replicate (32 - 4 * Suc n) 0)"
    unfolding z copy_into_def using Cons.prems(4,5) lx by simp
  moreover have "length (pre @ x) = 4 * Suc n" "4 * (Suc n + length regs) \<le> 32" using Cons.prems(4,5) lx by simp_all
  moreover have sub: "reg_loc md ` set regs \<subseteq> observed md" using Cons.prems(2) by simp
  moreover have "map (\<lambda>r. to_le 4 (ucast (obs h1 (reg_loc md r)) :: u32)) regs =
    map (\<lambda>r. to_le 4 (ucast (obs h (reg_loc md r)) :: u32)) regs" using h1(2) sub by (intro map_cong) auto
  ultimately show ?case
    using Cons.IH [OF Cons.prems(1) _ Cons.prems(3), of "Suc n" "pre @ x" h1] h1 Cons.prems(2,3)
    by (auto simp: read_apic_loc x_def cong: map_cong)
qed simp

lemma read_vector_ok:
  assumes "register_file hw md legal obs" "reg_loc md ` set regs \<subseteq> observed md" "mode a = md" "length regs = 8"
  shows "\<exists>lo hi h'. read_vector hw a regs h = Ok ([lo, hi], h') \<and> (\<forall>l \<in> observed md. obs h' l = obs h l) \<and>
    (\<forall>i < 128. (bit lo i \<longleftrightarrow> i \<in> vectors_in md regs (obs h)) \<and> (bit hi i \<longleftrightarrow> 128 + i \<in> vectors_in md regs (obs h)))"
proof -
  define bs where "bs = concat (map (\<lambda>r. to_le 4 (ucast (obs h (reg_loc md r)) :: u32)) regs)"
  from read_vector_fold [OF assms(1-3), of 0 "[]" h] assms(4) obtain h' where
    h': "read_vector hw a regs h = Ok ([from_le (take 16 bs), from_le (drop 16 bs)], h')" "\<forall>l \<in> observed md. obs h' l = obs h l"
    unfolding read_vector_def bs_def by auto
  have l: "length bs = 32" using assms(4) by (simp add: bs_def length_concat o_def sum_list_triv)
  have b: "bit (bs ! (v div 8)) (v mod 8) \<longleftrightarrow> v \<in> vectors_in md regs (obs h)" if "v < 256" for v
  proof -
    have "bs ! (v div 8) = to_le 4 (ucast (obs h (reg_loc md (regs ! (v div 8 div 4)))) :: u32) ! (v div 8 mod 4)"
      unfolding bs_def using that assms(4) by (intro nth_concat_equal) auto
    moreover have "8 * (v div 8 mod 4) + v mod 8 = v mod 32" "v div 8 div 4 = v div 32"
      by (simp_all add: div_mult2_eq [symmetric] mod_mult2_eq [of v 8 4, simplified] add.commute)
    ultimately show ?thesis using that by (simp add: vectors_in_def bit_to_le_nth bit_ucast_iff)
  qed
  have "bit (from_le (take 16 bs) :: u128) i \<longleftrightarrow> i \<in> vectors_in md regs (obs h)" if "i < 128" for i
    using that l b [of i] by (simp add: bit_from_le less_mult_imp_div_less)
  moreover have "bit (from_le (drop 16 bs) :: u128) i \<longleftrightarrow> 128 + i \<in> vectors_in md regs (obs h)" if "i < 128" for i
  proof -
    have "(128 + i) div 8 = 16 + i div 8" "(128 + i) mod 8 = i mod 8" by presburger+
    then show ?thesis using that l b [of "128 + i"] by (simp add: bit_from_le less_mult_imp_div_less)
  qed
  ultimately show ?thesis using h' by blast
qed
lemma vectors_in_cong:
  assumes "\<forall>l \<in> observed md. ob l = ob' l"
  shows "vectors_in md isr_regs ob = vectors_in md isr_regs ob'" "vectors_in md irr_regs ob = vectors_in md irr_regs ob'"
proof -
  have "reg_loc md (isr_regs ! (v div 32)) \<in> observed md" "reg_loc md (irr_regs ! (v div 32)) \<in> observed md" if "v < 256" for v
  proof -
    have "v div 32 < length isr_regs" "v div 32 < length irr_regs" using that by (auto simp: isr_regs_def irr_regs_def)
    then show "reg_loc md (isr_regs ! (v div 32)) \<in> observed md" "reg_loc md (irr_regs ! (v div 32)) \<in> observed md"
      using nth_mem by (auto simp: observed_def)
  qed
  then show "vectors_in md isr_regs ob = vectors_in md isr_regs ob'" "vectors_in md irr_regs ob = vectors_in md irr_regs ob'"
    using assms unfolding vectors_in_def by auto
qed

lemma stored_observed: "l \<in> stored md \<Longrightarrow> l \<in> observed md"
  by (simp add: observed_def)

lemma two_words_zero:
  assumes "\<forall>i < 128. (bit (lo :: u128) i \<longleftrightarrow> i \<in> S) \<and> (bit (hi :: u128) i \<longleftrightarrow> 128 + i \<in> S)" "S \<subseteq> {..<256}"
  shows "lo = 0 \<and> hi = 0 \<longleftrightarrow> S = {}"
proof
  assume z: "lo = 0 \<and> hi = 0"
  show "S = {}"
  proof (rule ccontr)
    assume "S \<noteq> {}"
    then obtain v where v: "v \<in> S" "v < 256" using assms(2) by auto
    show False
    proof (cases "v < 128")
      case False
      then have "v - 128 < 128" "128 + (v - 128) = v" using v(2) by auto
      then have "bit hi (v - 128)" using assms(1) v(1) by metis
      then show False using z by simp
    qed (use assms(1) v z in auto)
  qed
next
  assume "S = {}"
  then show "lo = 0 \<and> hi = 0" using assms(1) by (auto intro!: bit_word_eqI)
qed

lemma isr_ok:
  assumes "register_file hw md legal obs" "mode a = md"
  shows "\<exists>lo hi h'. isr hw a h = Ok ([lo, hi], h') \<and> (\<forall>l \<in> observed md. obs h' l = obs h l) \<and>
    (lo = 0 \<and> hi = 0 \<longleftrightarrow> vectors_in md isr_regs (obs h) = {})"
proof -
  have "reg_loc md ` set isr_regs \<subseteq> observed md" "length isr_regs = 8" by (auto simp: observed_def isr_regs_def)
  from read_vector_ok [OF assms(1) this(1) assms(2) this(2), of h] obtain lo hi h' where
    r: "read_vector hw a isr_regs h = Ok ([lo, hi], h')" "\<forall>l \<in> observed md. obs h' l = obs h l"
    "\<forall>i < 128. (bit lo i \<longleftrightarrow> i \<in> vectors_in md isr_regs (obs h)) \<and> (bit hi i \<longleftrightarrow> 128 + i \<in> vectors_in md isr_regs (obs h))"
    by blast
  have "vectors_in md isr_regs (obs h) \<subseteq> {..<256}" by (auto simp: vectors_in_def)
  from two_words_zero [OF r(3) this] r(1,2) show ?thesis unfolding isr_def isr_regs_def by blast
qed

subsection \<open>The interrupts in service\<close>

lemma finite_vectors [simp]: "finite (vectors_in md regs ob)"
  by (simp add: vectors_in_def)

lemma eoi_machine: "m_apic m = Some a \<Longrightarrow> mode a = md \<Longrightarrow>
  eoi hw m = Ok (m\<lparr>m_hw := hw_wr hw (m_hw m) (reg_loc md EndOfInterrupt) 0\<rparr>)"
  by (simp add: eoi_def on_hw_def write_apic_loc)

lemma eoi_not_stored: "reg_loc md EndOfInterrupt \<notin> stored md"
  using reg_loc_not_base by (auto simp: stored_def reg_loc_inj saved_regs_def)

lemma eoi_keeps:
  assumes "register_file hw md legal obs" "interrupt_laws hw md obs"
  shows "\<forall>l \<in> stored md. obs (hw_wr hw h (reg_loc md EndOfInterrupt) v) l = obs h l"
    "vectors_in md irr_regs (obs (hw_wr hw h (reg_loc md EndOfInterrupt) v)) = vectors_in md irr_regs (obs h)"
    "vectors_in md isr_regs (obs (hw_wr hw h (reg_loc md EndOfInterrupt) v)) =
      (if vectors_in md isr_regs (obs h) = {} then {} else vectors_in md isr_regs (obs h) - {Max (vectors_in md isr_regs (obs h))})"
proof -
  show "\<forall>l \<in> stored md. obs (hw_wr hw h (reg_loc md EndOfInterrupt) v) l = obs h l"
    using assms(1) eoi_not_stored [of md] unfolding register_file_def by metis
qed (use assms(2) in \<open>simp_all add: interrupt_laws_def Let_def\<close>)

lemma drain_isr_ok:
  assumes "register_file hw md legal obs" "interrupt_laws hw md obs" "mode a = md" "m_apic m = Some b" "mode b = md"
  shows "\<exists>h. drain_isr hw a m = Some (Ok (m\<lparr>m_hw := h\<rparr>)) \<and> vectors_in md isr_regs (obs h) = {} \<and>
    (\<forall>l \<in> stored md. obs h l = obs (m_hw m) l) \<and> vectors_in md irr_regs (obs h) = vectors_in md irr_regs (obs (m_hw m))"
  using assms(4)
proof (induction "card (vectors_in md isr_regs (obs (m_hw m)))" arbitrary: m rule: less_induct)
  case less
  let ?S = "vectors_in md isr_regs (obs (m_hw m))"
  from isr_ok [OF assms(1,3), of "m_hw m"] obtain lo hi h1 where
    i: "isr hw a (m_hw m) = Ok ([lo, hi], h1)" "\<forall>l \<in> observed md. obs h1 l = obs (m_hw m) l" "lo = 0 \<and> hi = 0 \<longleftrightarrow> ?S = {}" by blast
  note v1 = vectors_in_cong [OF i(2)]
  show ?case
  proof (cases "?S = {}")
    case True
    then have "drain_isr hw a m = Some (Ok (m\<lparr>m_hw := h1\<rparr>))" using i by (subst drain_isr.simps) simp
    then show ?thesis using i(2) v1 True stored_observed by auto
  next
    case False
    define m1 where "m1 = m\<lparr>m_hw := hw_wr hw h1 (reg_loc md EndOfInterrupt) 0\<rparr>"
    have "eoi hw (m\<lparr>m_hw := h1\<rparr>) = Ok m1" using eoi_machine [of "m\<lparr>m_hw := h1\<rparr>" b md hw] less.prems assms(5) by (simp add: m1_def)
    then have e: "drain_isr hw a m = drain_isr hw a m1" using i False by (subst drain_isr.simps) auto
    note k = eoi_keeps [OF assms(1,2), of h1 0]
    have "vectors_in md isr_regs (obs (m_hw m1)) = ?S - {Max ?S}" using k(3) v1(1) False by (simp add: m1_def)
    then have "card (vectors_in md isr_regs (obs (m_hw m1))) < card ?S"
      using False by (simp add: card_Diff_singleton card_gt_0_iff)
    moreover have "m_apic m1 = Some b" using less.prems by (simp add: m1_def)
    ultimately obtain h where h: "drain_isr hw a m1 = Some (Ok (m1\<lparr>m_hw := h\<rparr>))" "vectors_in md isr_regs (obs h) = {}"
      "\<forall>l \<in> stored md. obs h l = obs (m_hw m1) l" "vectors_in md irr_regs (obs h) = vectors_in md irr_regs (obs (m_hw m1))"
      using less.hyps by blast
    have "\<forall>l \<in> stored md. obs h l = obs (m_hw m) l" using h(3) k(1) i(2) stored_observed by (simp add: m1_def)
    then show ?thesis using h e k(2) v1(2) by (auto simp: m1_def)
  qed
qed
subsection \<open>Nesting of interrupts\<close>

definition nests :: "CoreLocals \<Rightarrow> bool" where
  "nests c \<longleftrightarrow> interrupt_depth c \<noteq> - 1 \<and> exception_depth c \<noteq> - 1"

definition entered :: "u8 \<Rightarrow> CoreLocals \<Rightarrow> CoreLocals" where
  "entered number c = (let c = c\<lparr>interrupt_depth := interrupt_depth c + 1\<rparr> in
     if number < 32 then c\<lparr>exception_depth := exception_depth c + 1\<rparr> else c)"

definition set_core :: "CoreLocals \<Rightarrow> 'h Machine \<Rightarrow> 'h Machine" where
  "set_core c m = m\<lparr>m_kernel := (m_kernel m)\<lparr>k_core := c\<rparr>\<rparr>"

abbreviation core_of :: "'h Machine \<Rightarrow> CoreLocals" where
  "core_of m \<equiv> k_core (m_kernel m)"

lemma checked_succ: "checked_add (r :: u64) 1 = (if r = - 1 then None else Some (r + 1))"
proof -
  have "unat r + 1 < 2 ^ 64 \<longleftrightarrow> r \<noteq> - 1"
    using unsigned_less [of r, where 'a = nat] by (auto simp: word_unat_eq_iff unsigned_minus_1_eq_mask mask_eq_exp_minus_1)
  then show ?thesis by (simp add: checked_add_def)
qed

lemma checked_pred: "r \<noteq> - 1 \<Longrightarrow> checked_sub (r + 1) (1 :: u64) = Some r"
proof -
  assume "r \<noteq> - 1"
  then have "r + 1 \<noteq> 0" by (metis add_eq_0_iff add.commute)
  then show ?thesis by (simp add: checked_sub_def word_le_nat_alt unat_gt_0 Suc_le_eq)
qed

lemma enter_ok:
  assumes "nests (core_of m)"
  shows "bindR (on_core enter_interrupt m) (\<lambda>m. if number < 32 then on_core enter_exception m else Ok m) =
    Ok (set_core (entered number (core_of m)) m)"
  using assms
  by (simp add: on_core_def enter_interrupt_def enter_exception_def auto_increment_def checked_succ nests_def entered_def set_core_def)

lemma drop_refs_ok:
  assumes "nests c" "core_of m = entered number c"
  shows "drop_refs number m = Ok (Returned, set_core c m)"
  using assms
  by (simp add: drop_refs_def on_core_def leave_interrupt_def leave_exception_def auto_drop_def checked_pred nests_def entered_def set_core_def)

lemma interrupt_handler_entered:
  assumes "nests (core_of m)"
  shows "interrupt_handler hw call number m =
    (let m = set_core (entered number (core_of m)) m in
     if number = 2 then
       if core_id (core_of m) = 0 then Panic ''Panic occured on another core''
       else
         bindR (unwrapR (apic_id (core_of m))) (\<lambda>i.
         bindR (set_core_state i Halted (m_acpi m)) (\<lambda>a. Ok (HaltedForever, m\<lparr>m_acpi := a\<rparr>)))
     else
       bindR (if m_draining m then Ok (False, m) else dispatch_handler call number m) (\<lambda>(handled, m').
       bindR (nthR (m_eoi_required m') (unat number)) (\<lambda>required.
       if required then
         bindR (eoi hw m') (\<lambda>m'.
         if m_draining m \<or> handled then drop_refs number m' else Panic ''Interrupt'')
       else if handled then drop_refs number m' else Panic ''Interrupt'')))"
  using enter_ok [OF assms, of number]
  by (auto simp: interrupt_handler_def Let_def bindR_eq_Ok intro!: bindR_cong)

text \<open>While the APIC is drained the handler only ends the interrupt.\<close>

lemma draining_handler:
  assumes "nests (core_of m)" "m_draining m" "length (m_eoi_required m) = 256" "m_eoi_required m ! unat v" "v \<noteq> 2"
    and "m_apic m = Some b" "mode b = md"
  shows "interrupt_handler hw call v m = Ok (Returned, m\<lparr>m_hw := hw_wr hw (m_hw m) (reg_loc md EndOfInterrupt) 0\<rparr>)"
proof -
  have "unat v < 256" using unsigned_less [of v, where 'a = nat] by simp
  moreover have "set_core (core_of m) ((set_core (entered v (core_of m)) m)\<lparr>m_hw := h\<rparr>) = m\<lparr>m_hw := h\<rparr>" for h
    by (simp add: set_core_def)
  ultimately show ?thesis
    using assms drop_refs_ok [OF assms(1), of "(set_core (entered v (core_of m)) m)\<lparr>m_hw := hw_wr hw (m_hw m) (reg_loc md EndOfInterrupt) 0\<rparr>" v]
      eoi_machine [of "set_core (entered v (core_of m)) m" b md hw]
    by (simp add: interrupt_handler_entered set_core_def)
qed
subsection \<open>The pending interrupts\<close>

definition drainable :: "'h Machine \<Rightarrow> ApicMode \<Rightarrow> bool" where
  "drainable m md \<longleftrightarrow> nests (core_of m) \<and> m_draining m \<and> length (m_eoi_required m) = 256 \<and> \<not> m_eoi_required m ! 2 \<and>
     (\<exists>b. m_apic m = Some b \<and> mode b = md)"

lemma deliver_ok:
  assumes "register_file hw md legal obs" "interrupt_laws hw md obs" "drainable m md" "\<forall>v \<in> set vs. m_eoi_required m ! unat v"
  shows "\<exists>h. deliver hw call m vs = Some (Ok (m\<lparr>m_hw := h\<rparr>)) \<and> (\<forall>l \<in> stored md. obs h l = obs (m_hw m) l) \<and>
    vectors_in md irr_regs (obs h) = vectors_in md irr_regs (obs (m_hw m))"
  using assms(3,4)
proof (induction vs arbitrary: m)
  case Nil
  then show ?case by (auto simp: deliver_def intro!: exI [of _ "m_hw m"])
next
  case (Cons v vs)
  let ?m = "m\<lparr>m_hw := hw_wr hw (m_hw m) (reg_loc md EndOfInterrupt) 0\<rparr>"
  obtain b where b: "m_apic m = Some b" "mode b = md" using Cons.prems(1) by (auto simp: drainable_def)
  have "v \<noteq> 2" using Cons.prems by (auto simp: drainable_def)
  then have i: "interrupt_handler hw call v m = Ok (Returned, ?m)"
    using Cons.prems b by (intro draining_handler) (auto simp: drainable_def)
  have "drainable ?m md" "\<forall>v \<in> set vs. m_eoi_required ?m ! unat v" using Cons.prems by (auto simp: drainable_def)
  from Cons.IH [OF this] eoi_keeps [OF assms(1,2), of "m_hw m" 0] i show ?case by (auto simp: deliver_def)
qed

lemma irr_ok:
  assumes "register_file hw md legal obs" "mode a = md" "length req = 256"
  shows "\<exists>v h' can. irr hw a h = Ok (v, h') \<and> eoi_required req = Ok can \<and> (\<forall>l \<in> observed md. obs h' l = obs h l) \<and>
    (v ! 0 AND can ! 0 \<noteq> 0 \<or> v ! 1 AND can ! 1 \<noteq> 0 \<longleftrightarrow> (\<exists>x \<in> vectors_in md irr_regs (obs h). req ! x))"
proof -
  have "reg_loc md ` set irr_regs \<subseteq> observed md" "length irr_regs = 8" by (auto simp: observed_def irr_regs_def)
  from read_vector_ok [OF assms(1) this(1) assms(2) this(2), of h] obtain lo hi h' where
    r: "read_vector hw a irr_regs h = Ok ([lo, hi], h')" "\<forall>l \<in> observed md. obs h' l = obs h l"
    "\<forall>i < 128. (bit lo i \<longleftrightarrow> i \<in> vectors_in md irr_regs (obs h)) \<and> (bit hi i \<longleftrightarrow> 128 + i \<in> vectors_in md irr_regs (obs h))"
    by blast
  obtain clo chi where c: "eoi_required req = Ok [clo, chi]" "\<forall>i < 128. (bit clo i \<longleftrightarrow> req ! i) \<and> (bit chi i \<longleftrightarrow> req ! (128 + i))"
    using eoi_required_bits [OF assms(3)] by blast
  let ?S = "{x \<in> vectors_in md irr_regs (obs h). req ! x}"
  have "\<forall>i < 128. (bit (lo AND clo) i \<longleftrightarrow> i \<in> ?S) \<and> (bit (hi AND chi) i \<longleftrightarrow> 128 + i \<in> ?S)"
    using r(3) c(2) by (simp add: bit_and_iff)
  moreover have "?S \<subseteq> {..<256}" by (auto simp: vectors_in_def)
  ultimately have "lo AND clo = 0 \<and> hi AND chi = 0 \<longleftrightarrow> ?S = {}" by (rule two_words_zero)
  then have "lo AND clo \<noteq> 0 \<or> hi AND chi \<noteq> 0 \<longleftrightarrow> (\<exists>x \<in> vectors_in md irr_regs (obs h). req ! x)" by blast
  moreover have "irr hw a h = Ok ([lo, hi], h')" using r(1) by (simp add: irr_def irr_regs_def)
  ultimately show ?thesis using r(2) c(1) by (intro exI [of _ "[lo, hi]"] exI [of _ h'] exI [of _ "[clo, chi]"]) simp
qed

lemma sti_law:
  assumes "interrupt_laws hw md obs" "hw_sti hw h = (vs, h')"
  shows "unat ` set vs \<subseteq> vectors_in md irr_regs (obs h)"
    "vectors_in md irr_regs (obs h') = vectors_in md irr_regs (obs h) - unat ` set vs"
    "vectors_in md irr_regs (obs h) \<noteq> {} \<Longrightarrow> vs \<noteq> []"
proof -
  from assms(1) have "let (vs, h') = hw_sti hw h; p = vectors_in md irr_regs (obs h) in
      unat ` set vs \<subseteq> p \<and> vectors_in md irr_regs (obs h') = p - unat ` set vs \<and> (p \<noteq> {} \<longrightarrow> vs \<noteq> [])"
    unfolding interrupt_laws_def by blast
  then have a: "unat ` set vs \<subseteq> vectors_in md irr_regs (obs h) \<and>
      vectors_in md irr_regs (obs h') = vectors_in md irr_regs (obs h) - unat ` set vs \<and>
      (vectors_in md irr_regs (obs h) \<noteq> {} \<longrightarrow> vs \<noteq> [])" unfolding Let_def assms(2) by simp
  then show "unat ` set vs \<subseteq> vectors_in md irr_regs (obs h)"
    "vectors_in md irr_regs (obs h') = vectors_in md irr_regs (obs h) - unat ` set vs"
    "vectors_in md irr_regs (obs h) \<noteq> {} \<Longrightarrow> vs \<noteq> []" by blast+
qed

lemma drain_irr_ok:
  assumes "register_file hw md legal obs" "interrupt_laws hw md obs" "mode a = md" "drainable m md"
    and "\<forall>x \<in> vectors_in md irr_regs (obs (m_hw m)). m_eoi_required m ! x"
  shows "\<exists>h. drain_irr hw call a m = Some (Ok (m\<lparr>m_hw := h\<rparr>)) \<and> (\<forall>l \<in> stored md. obs h l = obs (m_hw m) l) \<and>
    vectors_in md irr_regs (obs h) = {}"
  using assms(4,5)
proof (induction "card (vectors_in md irr_regs (obs (m_hw m)))" arbitrary: m rule: less_induct)
  case less
  let ?P = "vectors_in md irr_regs (obs (m_hw m))"
  have "length (m_eoi_required m) = 256" using less.prems(1) by (simp add: drainable_def)
  from irr_ok [OF assms(1,3) this, of "m_hw m"] obtain v h1 can where
    i: "irr hw a (m_hw m) = Ok (v, h1)" "eoi_required (m_eoi_required m) = Ok can" "\<forall>l \<in> observed md. obs h1 l = obs (m_hw m) l"
    "v ! 0 AND can ! 0 \<noteq> 0 \<or> v ! 1 AND can ! 1 \<noteq> 0 \<longleftrightarrow> (\<exists>x \<in> ?P. m_eoi_required m ! x)" by blast
  note v1 = vectors_in_cong [OF i(3)]
  show ?case
  proof (cases "?P = {}")
    case True
    then have "\<not> (v ! 0 AND can ! 0 \<noteq> 0 \<or> v ! 1 AND can ! 1 \<noteq> 0)" using i(4) by blast
    then have "drain_irr hw call a m = Some (Ok (m\<lparr>m_hw := h1\<rparr>))" using i by (subst drain_irr.simps) simp
    then show ?thesis using i(3) v1 True stored_observed by auto
  next
    case False
    then have pend: "v ! 0 AND can ! 0 \<noteq> 0 \<or> v ! 1 AND can ! 1 \<noteq> 0" using i(4) less.prems(2) by blast
    obtain vs h2 where s: "hw_sti hw h1 = (vs, h2)" by fastforce
    have law: "unat ` set vs \<subseteq> ?P" "vectors_in md irr_regs (obs h2) = ?P - unat ` set vs" "vs \<noteq> []"
      using sti_law [OF assms(2) s] v1(2) False by simp_all
    have st2: "\<forall>l \<in> stored md. obs h2 l = obs (m_hw m) l"
      using assms(1) i(3) s stored_observed unfolding register_file_def by (metis snd_conv)
    define m2 where "m2 = m\<lparr>m_hw := h2\<rparr>"
    have d2: "drainable m2 md" "\<forall>v \<in> set vs. m_eoi_required m2 ! unat v"
      using less.prems law(1) by (auto simp: drainable_def m2_def)
    from deliver_ok [OF assms(1,2) d2, of call] obtain h3 where h3: "deliver hw call m2 vs = Some (Ok (m2\<lparr>m_hw := h3\<rparr>))"
      "\<forall>l \<in> stored md. obs h3 l = obs h2 l" "vectors_in md irr_regs (obs h3) = ?P - unat ` set vs"
      using law(2) by (auto simp: m2_def)
    define m3 where "m3 = m\<lparr>m_hw := h3\<rparr>"
    have e: "drain_irr hw call a m = drain_irr hw call a m3"
      using i(1,2) pend s h3(1) by (subst drain_irr.simps) (auto simp: m2_def m3_def)
    have "?P - unat ` set vs \<subset> ?P" using law(1,3) by (cases vs) auto
    then have "card (vectors_in md irr_regs (obs (m_hw m3))) < card ?P" using h3(3) by (simp add: m3_def psubset_card_mono)
    moreover have "drainable m3 md" "\<forall>x \<in> vectors_in md irr_regs (obs (m_hw m3)). m_eoi_required m3 ! x"
      using less.prems h3(3) by (auto simp: drainable_def m3_def)
    ultimately obtain h where "drain_irr hw call a m3 = Some (Ok (m3\<lparr>m_hw := h\<rparr>))" "\<forall>l \<in> stored md. obs h l = obs (m_hw m3) l"
      "vectors_in md irr_regs (obs h) = {}" using less.hyps by blast
    then show ?thesis using e st2 h3(2) by (auto simp: m3_def)
  qed
qed
subsection \<open>Saving and restoring\<close>

lemma ucast_32_64: "v < 2 ^ 32 \<Longrightarrow> ucast (ucast v :: u32) = (v :: u64)"
  using bit_below [of v 32] by (auto intro!: bit_word_eqI simp: bit_ucast_iff)

text \<open>What the structure remembers of a hardware state.\<close>

definition remembers :: "ApicMode \<Rightarrow> (location \<Rightarrow> u64) \<Rightarrow> Apic \<Rightarrow> bool" where
  "remembers md ob a \<longleftrightarrow> mode a = md \<and> orig_ia32_apic_base a = ob (Msr IA32_APIC_BASE) \<and>
     ob (Msr IA32_APIC_BASE) AND IA32_APIC_BASE_EN \<noteq> 0 \<and>
     orig_svr a = ucast (ob (reg_loc md SpuriousInterruptVector)) \<and>
     dcr (orig_timer_state a) = ucast (ob (reg_loc md DivideConfiguration)) \<and>
     icr (orig_timer_state a) = ucast (ob (reg_loc md InitialCount)) \<and>
     lvt (orig_timer_state a) = ucast (ob (reg_loc md LvtTimer))"

lemma saved_stored: "r \<in> set saved_regs \<Longrightarrow> reg_loc md r \<in> stored md" "Msr IA32_APIC_BASE \<in> stored md"
  by (simp_all add: stored_def)

lemma save_registers_ok:
  assumes "register_file hw md legal obs" "mode a = md"
  shows "\<exists>h' t. save_registers hw a h = Ok (a\<lparr>orig_svr := ucast (obs h (reg_loc md SpuriousInterruptVector)), orig_timer_state := t\<rparr>, h') \<and>
    t = \<lparr>dcr = ucast (obs h (reg_loc md DivideConfiguration)), icr = ucast (obs h (reg_loc md InitialCount)),
      lvt = ucast (obs h (reg_loc md LvtTimer))\<rparr>"
proof -
  have o: "reg_loc md SpuriousInterruptVector \<in> observed md" "reg_loc md DivideConfiguration \<in> observed md"
    "reg_loc md InitialCount \<in> observed md" "reg_loc md LvtTimer \<in> observed md"
    by (simp_all add: saved_stored stored_observed saved_regs_def)
  from rd_obs [OF assms(1) o(1), of h] obtain h1 where
    1: "hw_rd hw h (reg_loc md SpuriousInterruptVector) = (obs h (reg_loc md SpuriousInterruptVector), h1)" "\<forall>l \<in> observed md. obs h1 l = obs h l" by auto
  from rd_obs [OF assms(1) o(2), of h1] obtain h2 where
    2: "hw_rd hw h1 (reg_loc md DivideConfiguration) = (obs h1 (reg_loc md DivideConfiguration), h2)" "\<forall>l \<in> observed md. obs h2 l = obs h1 l" by auto
  from rd_obs [OF assms(1) o(3), of h2] obtain h3 where
    3: "hw_rd hw h2 (reg_loc md InitialCount) = (obs h2 (reg_loc md InitialCount), h3)" "\<forall>l \<in> observed md. obs h3 l = obs h2 l" by auto
  from rd_obs [OF assms(1) o(4), of h3] obtain h4 where
    4: "hw_rd hw h3 (reg_loc md LvtTimer) = (obs h3 (reg_loc md LvtTimer), h4)" by auto
  show ?thesis using 1 2 3 4 o assms(2) by (simp add: save_registers_def read_apic_loc)
qed

lemma apic_init_remembers:
  assumes "apic_init hw env cpuid m = Ok m1" "m_apic m1 = Some a" "mode a = md" "register_file hw md legal obs"
  shows "remembers md (obs (m_hw m)) a \<and> orig_pic_a1 a = env (io_clock (m_io m)) (io_log (m_io m)) 0xa1 \<and>
    orig_pic_21 a = env (io_clock (m_io m) + 1) (io_log (m_io m)) 0x21"
proof -
  let ?f = "get_cpu_features cpuid"
  from rd_obs [OF assms(4) stored_observed [OF saved_stored(2)], of "m_hw m"] obtain h1 where
    1: "hw_rd hw (m_hw m) (Msr IA32_APIC_BASE) = (obs (m_hw m) (Msr IA32_APIC_BASE), h1)" "\<forall>l \<in> observed md. obs h1 l = obs (m_hw m) l" by auto
  define h2 where "h2 = hw_wr hw h1 (Msr IA32_APIC_BASE) (new_apic_base ?f (obs (m_hw m) (Msr IA32_APIC_BASE)))"
  have en: "obs (m_hw m) (Msr IA32_APIC_BASE) AND IA32_APIC_BASE_EN \<noteq> 0"
    using assms(1) 1(1) by (auto simp: apic_init_def Let_def split: if_splits)
  obtain md' k a0 where md': "apic_mode ?f (m_kernel m) = Ok (md', k)" and
    a0: "a0 = \<lparr>mode = md', orig_ia32_apic_base = obs (m_hw m) (Msr IA32_APIC_BASE), orig_svr = 0,
      orig_pic_a1 = env (io_clock (m_io m)) (io_log (m_io m)) 0xa1, orig_pic_21 = env (io_clock (m_io m) + 1) (io_log (m_io m)) 0x21,
      orig_timer_state = timer_state_default\<rparr>" and
    rest: "bindR (save_registers hw a0 h2) (\<lambda>(a, h).
            bindR (write_apic hw a SpuriousInterruptVector (push_bit 8 1 OR 0xff) h) (\<lambda>h.
            bindR (apic_ident hw a h) (\<lambda>(i, h).
              Ok (m\<lparr>m_hw := h, m_io := out8 (out8 (snd (in8 env (snd (in8 env (m_io m) 0xa1)) 0x21)) 0xa1 0xff) 0x21 0xff,
                m_kernel := k\<lparr>k_core := set_apic_id i (k_core k)\<rparr>, m_apic := Some a\<rparr>)))) = Ok m1"
    using assms(1) 1(1) by (auto simp: apic_init_def Let_def h2_def in8_def split: if_splits)
  have md: "md' = md" using rest assms(2,3) a0
    by (auto simp: save_registers_def read_apic_loc Let_def split: prod.splits)
  have m0: "mode a0 = md" using a0 md by simp
  from save_registers_ok [OF assms(4) m0, of h2] rest assms(2)
  have a: "a = a0\<lparr>orig_svr := ucast (obs h2 (reg_loc md SpuriousInterruptVector)), orig_timer_state :=
      \<lparr>dcr = ucast (obs h2 (reg_loc md DivideConfiguration)), icr = ucast (obs h2 (reg_loc md InitialCount)),
      lvt = ucast (obs h2 (reg_loc md LvtTimer))\<rparr>\<rparr>" by (auto simp: split: prod.splits)
  have "obs h2 (reg_loc md r) = obs (m_hw m) (reg_loc md r)" if "r \<in> set saved_regs" for r
  proof -
    have "obs h2 (reg_loc md r) = obs h1 (reg_loc md r)"
      using assms(4) reg_loc_not_base [of md r] saved_stored(1) [OF that, of md] unfolding h2_def register_file_def by blast
    then show ?thesis using 1(2) stored_observed [OF saved_stored(1) [OF that]] by simp
  qed
  then show ?thesis using a a0 en md by (simp add: remembers_def saved_regs_def)
qed
lemma wr_stored:
  assumes "register_file hw md legal obs" "l \<in> stored md" "legal l v"
  shows "\<forall>l' \<in> stored md. obs (hw_wr hw h l v) l' = (if l' = l then v else obs h l')"
proof
  fix l' assume l': "l' \<in> stored md"
  have "obs (hw_wr hw h l v) l = v" using assms unfolding register_file_def by blast
  moreover have "l' \<noteq> l \<Longrightarrow> obs (hw_wr hw h l v) l' = obs h l'" using assms(1) l' unfolding register_file_def by blast
  ultimately show "obs (hw_wr hw h l v) l' = (if l' = l then v else obs h l')" by simp
qed

lemma mask_timer_ok:
  assumes "register_file hw md legal obs" "interrupt_laws hw md obs" "mode a = md"
  shows "\<exists>h'. mask_timer hw a h = Ok h' \<and> vectors_in md irr_regs (obs h') = vectors_in md irr_regs (obs h)"
proof -
  have o: "reg_loc md LvtTimer \<in> observed md" by (simp add: saved_stored stored_observed saved_regs_def)
  from rd_obs [OF assms(1) o, of h] obtain h1 where
    1: "hw_rd hw h (reg_loc md LvtTimer) = (obs h (reg_loc md LvtTimer), h1)" "\<forall>l \<in> observed md. obs h1 l = obs h l" by auto
  have "vectors_in md irr_regs (obs (hw_wr hw h1 (reg_loc md LvtTimer) v)) = vectors_in md irr_regs (obs h1)" for v
    using assms(2) by (simp add: interrupt_laws_def saved_regs_def)
  then show ?thesis using 1 vectors_in_cong(2) [OF 1(2)] assms(3) by (simp add: mask_timer_def read_apic_loc write_apic_loc)
qed

text \<open>The register writes at the end of the drop.\<close>

definition written_back :: "'h CpuHw \<Rightarrow> Apic \<Rightarrow> 'h \<Rightarrow> 'h" where
  "written_back hw a h =
     (let w = (\<lambda>r v h. hw_wr hw h (reg_loc (mode a) r) (ucast (v :: u32)))
      in restore_base hw a (w SpuriousInterruptVector (orig_svr a)
        (w InitialCount (icr (orig_timer_state a)) (w LvtTimer (lvt (orig_timer_state a)) (w DivideConfiguration (dcr (orig_timer_state a)) h)))))"

lemma written_back_obs:
  assumes "register_file hw md legal obs" "legal_values md legal" "remembers md (obs h0) a"
  shows "(\<forall>r \<in> set saved_regs. obs (written_back hw a h) (reg_loc md r) = obs h0 (reg_loc md r)) \<and>
    obs (written_back hw a h) (Msr IA32_APIC_BASE) = obs h0 (Msr IA32_APIC_BASE) OR (if md = X2Apic then IA32_APIC_BASE_EXTD else 0)"
proof -
  have lg: "legal (reg_loc md r) (obs h0 (reg_loc md r))" "obs h0 (reg_loc md r) < 2 ^ 32" if "r \<in> set saved_regs" for r
  proof -
    show "legal (reg_loc md r) (obs h0 (reg_loc md r))"
      using assms(1) saved_stored(1) [OF that, of md] unfolding register_file_def by blast
    then show "obs h0 (reg_loc md r) < 2 ^ 32" using assms(2) that unfolding legal_values_def by blast
  qed
  have lb: "legal (Msr IA32_APIC_BASE) (obs h0 (Msr IA32_APIC_BASE) OR (if md = X2Apic then IA32_APIC_BASE_EXTD else 0))"
    using assms(1,2) saved_stored(2) [of md] unfolding register_file_def legal_values_def by auto
  define w where "w r h = hw_wr hw h (reg_loc md r) (obs h0 (reg_loc md r))" for r h
  have w: "obs (w r h) (reg_loc md q) = (if q = r then obs h0 (reg_loc md r) else obs h (reg_loc md q))"
    if "r \<in> set saved_regs" "q \<in> set saved_regs" for r q h
    using wr_stored [OF assms(1) saved_stored(1) [OF that(1)] lg(1) [OF that(1)], of h] saved_stored(1) [OF that(2), of md]
    by (simp add: w_def reg_loc_inj)
  have e: "written_back hw a h = hw_wr hw (w SpuriousInterruptVector (w InitialCount (w LvtTimer (w DivideConfiguration h))))
      (Msr IA32_APIC_BASE) (obs h0 (Msr IA32_APIC_BASE) OR (if md = X2Apic then IA32_APIC_BASE_EXTD else 0))"
    using assms(3) lg(2) unfolding remembers_def written_back_def restore_base_def w_def
    by (simp add: Let_def ucast_32_64 saved_regs_def split: ApicMode.splits)
  note b = wr_stored [OF assms(1) saved_stored(2) lb]
  show ?thesis
  proof (intro conjI ballI)
    fix r assume r: "r \<in> set saved_regs"
    have "obs (written_back hw a h) (reg_loc md r) =
        obs (w SpuriousInterruptVector (w InitialCount (w LvtTimer (w DivideConfiguration h)))) (reg_loc md r)"
      using b saved_stored(1) [OF r, of md] reg_loc_not_base [of md r] unfolding e by simp
    also have "\<dots> = obs h0 (reg_loc md r)" using r w by (auto simp: saved_regs_def)
    finally show "obs (written_back hw a h) (reg_loc md r) = obs h0 (reg_loc md r)" .
  qed (use b saved_stored(2) [of md] in \<open>simp add: e\<close>)
qed

lemma apic_drop_ok:
  assumes "register_file hw md legal obs" "interrupt_laws hw md obs" "mode a = md" "m_apic m = Some a"
    and "nests (core_of m)" "length (m_eoi_required m) = 256" "\<not> m_eoi_required m ! 2"
    and "\<forall>x \<in> vectors_in md irr_regs (obs (m_hw m)). m_eoi_required m ! x" "orig_ia32_apic_base a AND IA32_APIC_BASE_EN \<noteq> 0"
  shows "\<exists>h. apic_drop hw call a m = Some (Ok (m\<lparr>m_hw := written_back hw a h, m_draining := True,
      m_io := out8 (out8 (m_io m) 0xa1 (orig_pic_a1 a)) 0x21 (orig_pic_21 a)\<rparr>))"
proof -
  from mask_timer_ok [OF assms(1-3), of "m_hw m"] obtain h1 where 1: "mask_timer hw a (m_hw m) = Ok h1"
    "vectors_in md irr_regs (obs h1) = vectors_in md irr_regs (obs (m_hw m))" by blast
  have "m_apic (m\<lparr>m_hw := h1\<rparr>) = Some a" using assms(4) by simp
  from drain_isr_ok [OF assms(1-3) this assms(3)] obtain h2 where
    2: "drain_isr hw a (m\<lparr>m_hw := h1\<rparr>) = Some (Ok (m\<lparr>m_hw := h2\<rparr>))" "vectors_in md irr_regs (obs h2) = vectors_in md irr_regs (obs h1)"
    by auto
  define m2 where "m2 = m\<lparr>m_hw := h2, m_draining := True\<rparr>"
  have d: "drainable m2 md" "\<forall>x \<in> vectors_in md irr_regs (obs (m_hw m2)). m_eoi_required m2 ! x"
    using assms 1(2) 2(2) by (auto simp: drainable_def m2_def)
  from drain_irr_ok [OF assms(1-3) d, of call] obtain h3 where 3: "drain_irr hw call a m2 = Some (Ok (m2\<lparr>m_hw := h3\<rparr>))" by blast
  show ?thesis
    using 1(1) 2(1) 3 assms(3,9)
    by (intro exI [of _ "hw_cli hw h3"])
      (simp add: apic_drop_def on_hw_def restore_timer_def write_apic_loc written_back_def m2_def Let_def)
qed


text \<open>A processor in x2APIC mode with one interrupt, that of the timer, which may be pending and in service.\<close>

record sample_apic =
  sa_base :: u64
  sa_regs :: "u32 \<Rightarrow> u32"
  sa_pending :: bool
  sa_service :: bool

definition sample_obs :: "sample_apic \<Rightarrow> location \<Rightarrow> u64" where
  "sample_obs h l = (case l of Mmio _ \<Rightarrow> 0 | Msr i \<Rightarrow>
     if i = IA32_APIC_BASE then sa_base h
     else if i \<in> {0x80f, 0x832, 0x838, 0x83e} then ucast (sa_regs h i)
     else if i = 0x817 then of_bool (sa_service h)
     else if i = 0x827 then of_bool (sa_pending h)
     else 0)"

definition sample_hw :: "sample_apic CpuHw" where
  "sample_hw = \<lparr>hw_rd = (\<lambda>h l. (sample_obs h l, h)),
     hw_wr = (\<lambda>h l v. case l of Mmio _ \<Rightarrow> h | Msr i \<Rightarrow>
       if i = IA32_APIC_BASE then h\<lparr>sa_base := v\<rparr>
       else if i = 0x80b then h\<lparr>sa_service := False\<rparr>
       else h\<lparr>sa_regs := (sa_regs h)(i := ucast v)\<rparr>),
     hw_sti = (\<lambda>h. if sa_pending h then ([0xe0], h\<lparr>sa_pending := False, sa_service := True\<rparr>) else ([], h)),
     hw_cli = (\<lambda>h. h)\<rparr>"

definition sample_legal :: "location \<Rightarrow> u64 \<Rightarrow> bool" where
  "sample_legal l v \<longleftrightarrow> l = Msr IA32_APIC_BASE \<or> v < 2 ^ 32"

definition sample_machine :: "sample_apic Machine" where
  "sample_machine = \<lparr>m_hw = \<lparr>sa_base = 0xfee00900, sa_regs = (\<lambda>_. 0x1234), sa_pending = False, sa_service = False\<rparr>,
     m_io = \<lparr>io_clock = 0, io_log = []\<rparr>, m_kernel = sample_kernel, m_apic = None, m_interrupts = None,
     m_interrupts_locked = False, m_serial_locked = False, m_eoi_required = replicate 256 False, m_draining = False,
     m_acpi = acpi_start, m_reboot_requested = False\<rparr>"

lemma sample_reg_loc: "reg_loc X2Apic r = Msr (case r of ApicId \<Rightarrow> 0x802 | EndOfInterrupt \<Rightarrow> 0x80b | SpuriousInterruptVector \<Rightarrow> 0x80f
    | Isr0 \<Rightarrow> 0x810 | Isr1 \<Rightarrow> 0x811 | Isr2 \<Rightarrow> 0x812 | Isr3 \<Rightarrow> 0x813 | Isr4 \<Rightarrow> 0x814 | Isr5 \<Rightarrow> 0x815 | Isr6 \<Rightarrow> 0x816 | Isr7 \<Rightarrow> 0x817
    | Irr0 \<Rightarrow> 0x820 | Irr1 \<Rightarrow> 0x821 | Irr2 \<Rightarrow> 0x822 | Irr3 \<Rightarrow> 0x823 | Irr4 \<Rightarrow> 0x824 | Irr5 \<Rightarrow> 0x825 | Irr6 \<Rightarrow> 0x826 | Irr7 \<Rightarrow> 0x827
    | LvtTimer \<Rightarrow> 0x832 | InitialCount \<Rightarrow> 0x838 | DivideConfiguration \<Rightarrow> 0x83e)"
  by (cases r) (simp_all add: reg_loc_def)

lemma ucast_32_below: "(ucast (v :: u32) :: u64) < 0x100000000"
  using unsigned_less [of v, where 'a = nat] by (simp add: word_less_nat_alt unsigned_ucast_eq take_bit_nat_eq_self)

lemma sample_register_file: "register_file sample_hw X2Apic sample_legal sample_obs"
  by (auto simp: register_file_def sample_hw_def sample_obs_def sample_legal_def stored_def observed_def saved_regs_def isr_regs_def
      irr_regs_def sample_reg_loc IA32_APIC_BASE_def ucast_32_64 ucast_32_below split: location.splits)

lemma sample_legal_values: "legal_values X2Apic sample_legal"
  by (simp add: legal_values_def sample_legal_def saved_regs_def sample_reg_loc IA32_APIC_BASE_def)

lemma sample_vectors:
  "vectors_in X2Apic isr_regs (sample_obs h) = (if sa_service h then {224} else {})"
  "vectors_in X2Apic irr_regs (sample_obs h) = (if sa_pending h then {224} else {})"
proof -
  have v: "{v. v < 256 \<and> bit (w (v div 32)) (v mod 32)} = (if b then {224} else {})"
    if "\<forall>k < 7. w k = 0" "w 7 = of_bool b" for w :: "nat \<Rightarrow> u64" and b
  proof -
    have "v < 256 \<and> bit (w (v div 32)) (v mod 32) \<longleftrightarrow> b \<and> v = 224" for v
    proof (cases "v div 32 < 7")
      case False
      then have "v < 256 \<longleftrightarrow> v div 32 = 7" by auto
      then show ?thesis using that(2) by (cases b) (auto simp: bit_1_iff elim!: dvdE)
    qed (use that(1) in auto)
    then show ?thesis by auto
  qed
  have 7: "k < 7 \<Longrightarrow> k \<in> {0, 1, 2, 3, 4, 5, 6}" for k :: nat by auto
  show "vectors_in X2Apic isr_regs (sample_obs h) = (if sa_service h then {224} else {})"
    unfolding vectors_in_def
    by (rule v) (auto dest!: 7 simp: isr_regs_def sample_reg_loc sample_obs_def IA32_APIC_BASE_def)
  show "vectors_in X2Apic irr_regs (sample_obs h) = (if sa_pending h then {224} else {})"
    unfolding vectors_in_def
    by (rule v) (auto dest!: 7 simp: irr_regs_def sample_reg_loc sample_obs_def IA32_APIC_BASE_def)
qed

lemma sample_interrupt_laws: "interrupt_laws sample_hw X2Apic sample_obs"
  by (simp add: interrupt_laws_def sample_vectors sample_hw_def Let_def saved_regs_def sample_reg_loc IA32_APIC_BASE_def)


end
