(* ===== verification/IntStub_Correct.thy ===== *)
theory IntStub_Correct
  imports IntStub
begin

text \<open>
  Correctness of the interrupt stubs: what the handler is given, and that the registers and the
  frame it leaves are those execution continues with.
\<close>

unbundle bit_operations_syntax

subsection \<open>Bytes on the stack\<close>

definition bytes_at :: "64 memory \<Rightarrow> u64 \<Rightarrow> bytes \<Rightarrow> bool" where
  "bytes_at m a bs \<longleftrightarrow> length bs < 2 ^ 63 \<and> (\<forall>i < length bs. m (a + word_of_nat i) = bs ! i)"

lemma bytes_at_nth: "bytes_at m a bs \<Longrightarrow> i < length bs \<Longrightarrow> m (a + word_of_nat i) = bs ! i"
  by (simp add: bytes_at_def)

lemma unat_small: "n < 2 ^ 63 \<Longrightarrow> unat (word_of_nat n :: u64) = n"
  by (simp add: unat_of_nat)

text \<open>Pushing bytes, reading them, and replacing bytes inside.\<close>

lemma bytes_at_push:
  assumes "bytes_at m a bs" "length xs + length bs < 2 ^ 63" "b = a - word_of_nat (length xs)"
  shows "bytes_at (store_bytes m b xs) b (xs @ bs)"
  unfolding bytes_at_def
proof (intro conjI allI impI)
  fix i assume i: "i < length (xs @ bs)"
  have u: "unat (word_of_nat i :: u64) = i" using i assms(2) by (intro unat_small) simp
  show "store_bytes m b xs (b + word_of_nat i) = (xs @ bs) ! i"
  proof (cases "i < length xs")
    case True
    then show ?thesis using u by (simp add: store_bytes_def nth_append)
  next
    case False
    have "b + word_of_nat i = a + word_of_nat (i - length xs)"
      using False assms(3) by (simp add: of_nat_diff)
    moreover have "m (a + word_of_nat (i - length xs)) = bs ! (i - length xs)"
      using False i by (intro bytes_at_nth [OF assms(1)]) simp
    ultimately have "m (b + word_of_nat i) = bs ! (i - length xs)" by (simp only:)
    then show ?thesis using False u by (simp add: store_bytes_def nth_append)
  qed
qed (use assms(2) in simp)

lemma bytes_at_read:
  assumes "bytes_at m a bs" "off + n \<le> length bs" "p = a + word_of_nat off"
  shows "read_bytes m p n = take n (drop off bs)"
proof (rule nth_equalityI)
  fix i assume "i < length (read_bytes m p n)"
  then have i: "i < n" by (simp add: read_bytes_def)
  have "m (a + word_of_nat (off + i)) = bs ! (off + i)"
    using assms(2) i by (intro bytes_at_nth [OF assms(1)]) simp
  then show "read_bytes m p n ! i = take n (drop off bs) ! i"
    using i assms(2,3) by (simp add: read_bytes_def algebra_simps)
qed (use assms(2) in \<open>simp add: read_bytes_def\<close>)

lemma bytes_at_drop:
  assumes "bytes_at m a (xs @ bs)" "b = a + word_of_nat (length xs)"
  shows "bytes_at m b bs"
proof -
  have "m (a + word_of_nat (length xs + i)) = bs ! i" if "i < length bs" for i
    using bytes_at_nth [OF assms(1), of "length xs + i"] that by (simp only: nth_append_length_plus length_append add_less_cancel_left)
  then show ?thesis using assms by (simp add: bytes_at_def algebra_simps)
qed

lemma bytes_at_replace:
  assumes "bytes_at m a (pre @ old @ post)" "length xs = length old" "p = a + word_of_nat (length pre)"
  shows "bytes_at (store_bytes m p xs) a (pre @ xs @ post)"
  unfolding bytes_at_def
proof (intro conjI allI impI)
  have l: "length (pre @ old @ post) < 2 ^ 63" using assms(1) by (simp add: bytes_at_def)
  then show "length (pre @ xs @ post) < 2 ^ 63" using assms(2) by simp
  fix i assume i: "i < length (pre @ xs @ post)"
  have at: "m (a + word_of_nat i) = (pre @ old @ post) ! i"
    using i assms(2) by (intro bytes_at_nth [OF assms(1)]) simp
  have il: "i < 2 ^ 63" using i l assms(2) by simp
  show "store_bytes m p xs (a + word_of_nat i) = (pre @ xs @ post) ! i"
  proof (cases "length pre \<le> i")
    case True
    then have "a + word_of_nat i - p = word_of_nat (i - length pre)" using assms(3) by (simp add: of_nat_diff)
    moreover have "unat (word_of_nat (i - length pre) :: u64) = i - length pre" using il by (intro unat_small) simp
    ultimately have "unat (a + word_of_nat i - p) = i - length pre" by (simp only:)
    then show ?thesis using True at assms(2) by (auto simp: store_bytes_def nth_append)
  next
    case False
    define d where "d = length pre - i"
    have d: "0 < d" "d < 2 ^ 63" "length xs + d \<le> 2 ^ 63" using False l assms(2) by (simp_all add: d_def)
    have "a + word_of_nat i - p = - word_of_nat d" using False assms(3) by (simp add: of_nat_diff d_def)
    then have z: "(a + word_of_nat i - p) + word_of_nat d = 0" by simp
    have "\<not> unat (a + word_of_nat i - p) < length xs"
    proof
      assume "unat (a + word_of_nat i - p) < length xs"
      then have "unat ((a + word_of_nat i - p) + word_of_nat d) = unat (a + word_of_nat i - p) + d"
        using d unat_small [of d] by (simp add: unat_word_ariths)
      then show False using d(1) unfolding z by simp
    qed
    then show ?thesis using False at by (simp add: store_bytes_def nth_append)
  qed
qed

lemma load64_bytes:
  assumes "bytes_at m a bs" "take 8 (drop off bs) = to_le 8 v" "off + 8 \<le> length bs" "p = a + word_of_nat off"
  shows "load64 m p = v"
  using bytes_at_read [OF assms(1,3,4)] assms(2) by (simp add: load64_def from_le_to_le)

subsection \<open>Sequences of pushes and pops\<close>

lemma exec_all_simps [simp]:
  "exec_all [] s = s" "exec_all (i # is) s = exec_all is (exec i s)" "exec_all (is @ js) s = exec_all js (exec_all is s)"
  by (simp_all add: exec_all_def)

text \<open>An instruction that pushes a register or a value already on the stack.\<close>

definition pushes :: "Cpu86 \<Rightarrow> bytes \<Rightarrow> instr \<Rightarrow> u64 \<Rightarrow> bool" where
  "pushes s bs i v \<longleftrightarrow> (\<exists>r. i = Push r \<and> r \<noteq> RSP \<and> v = gpr s r) \<or>
     (\<exists>r d off. i = PushMem r d \<and> r \<noteq> RSP \<and> gpr s r + d = gpr s RSP + word_of_nat off \<and> off + 8 \<le> length bs \<and>
        take 8 (drop off bs) = to_le 8 v)"

definition at_stack :: "Cpu86 \<Rightarrow> bytes \<Rightarrow> bool" where
  "at_stack s bs \<longleftrightarrow> bytes_at (ram s) (gpr s RSP) bs"

lemma push_value_stack:
  assumes "at_stack s bs" "length bs + 8 < 2 ^ 63"
  shows "at_stack (push_value v s) (to_le 8 v @ bs)" "gpr (push_value v s) = (gpr s)(RSP := gpr s RSP - 8)"
    "xmm (push_value v s) = xmm s"
  using bytes_at_push [of "ram s" "gpr s RSP" bs "to_le 8 v" "gpr s RSP - 8"] assms
  by (simp_all add: push_value_def set_gpr_def at_stack_def store64_def Let_def)

lemma exec_push:
  assumes "pushes s bs i v" "at_stack s bs"
  shows "exec i s = push_value v s"
  using assms load64_bytes [of "ram s" "gpr s RSP" bs]
  by (auto simp: pushes_def at_stack_def)

lemma pushes_keep:
  assumes "pushes s bs i v" "gpr s' = (gpr s)(RSP := gpr s RSP - 8)" "length xs = 8"
  shows "pushes s' (xs @ bs) i v"
proof (cases "\<exists>r. i = Push r \<and> r \<noteq> RSP \<and> v = gpr s r")
  case False
  with assms(1) obtain r d off where i: "i = PushMem r d" "r \<noteq> RSP" "gpr s r + d = gpr s RSP + word_of_nat off"
    "off + 8 \<le> length bs" "take 8 (drop off bs) = to_le 8 v" by (auto simp: pushes_def)
  have "gpr s' r + d = gpr s' RSP + word_of_nat (off + 8)" using i(2,3) assms(2) by simp
  moreover have "(off + 8) + 8 \<le> length (xs @ bs)" using i(4) assms(3) by simp
  moreover have "take 8 (drop (off + 8) (xs @ bs)) = to_le 8 v" using i(5) assms(3) by simp
  ultimately show ?thesis using i(1,2) unfolding pushes_def by blast
qed (use assms in \<open>auto simp: pushes_def\<close>)

lemma quads_simps [simp]:
  "quads [] = []" "quads (v # vs) = to_le 8 v @ quads vs" "quads (vs @ ws) = quads vs @ quads ws"
  "length (quads vs) = 8 * length vs"
  by (simp_all add: quads_def length_concat o_def sum_list_triv)

lemma exec_pushes:
  assumes "list_all2 (pushes s bs) is vs" "at_stack s bs" "length bs + 8 * length is < 2 ^ 63"
  shows "at_stack (exec_all is s) (quads (rev vs) @ bs) \<and>
    gpr (exec_all is s) = (gpr s)(RSP := gpr s RSP - word_of_nat (8 * length is)) \<and> xmm (exec_all is s) = xmm s"
  using assms
proof (induction "is" arbitrary: s bs vs)
  case (Cons i "is")
  then obtain v ws where vs: "vs = v # ws" "pushes s bs i v" "list_all2 (pushes s bs) is ws" by (auto simp: list_all2_Cons1)
  have e: "exec i s = push_value v s" using exec_push vs(2) Cons.prems(2) by blast
  note p = push_value_stack [OF Cons.prems(2), of v]
  have l: "length bs + 8 < 2 ^ 63" using Cons.prems(3) by simp
  have "list_all2 (pushes (push_value v s) (to_le 8 v @ bs)) is ws"
    by (rule list_all2_mono [OF vs(3)]) (use p(2) [OF l] in \<open>auto intro: pushes_keep\<close>)
  from Cons.IH [OF this p(1) [OF l]] Cons.prems(3)
  show ?case using p [OF l] vs(1) e by (auto simp: algebra_simps)
qed auto

lemma exec_xmmpush:
  assumes "at_stack s bs" "length bs + 16 < 2 ^ 63"
  shows "at_stack (exec_all (XMMPUSH i) s) (to_le 16 (xmm s i) @ bs)"
    "gpr (exec_all (XMMPUSH i) s) = (gpr s)(RSP := gpr s RSP - 16)" "xmm (exec_all (XMMPUSH i) s) = xmm s"
  using bytes_at_push [of "ram s" "gpr s RSP" bs "to_le 16 (xmm s i)" "gpr s RSP - 16"] assms
  by (simp_all add: XMMPUSH_def set_gpr_def at_stack_def)

definition xmms :: "u128 list \<Rightarrow> bytes" where
  "xmms vs = concat (map (to_le 16) vs)"

lemma xmms_simps [simp]:
  "xmms [] = []" "xmms (v # vs) = to_le 16 v @ xmms vs" "xmms (vs @ ws) = xmms vs @ xmms ws"
  "length (xmms vs) = 16 * length vs"
  by (simp_all add: xmms_def length_concat o_def sum_list_triv)

lemma exec_xmmpushes:
  assumes "at_stack s bs" "length bs + 16 * length js < 2 ^ 63"
  shows "at_stack (exec_all (concat (map XMMPUSH js)) s) (xmms (rev (map (xmm s) js)) @ bs) \<and>
    gpr (exec_all (concat (map XMMPUSH js)) s) = (gpr s)(RSP := gpr s RSP - word_of_nat (16 * length js)) \<and>
    xmm (exec_all (concat (map XMMPUSH js)) s) = xmm s"
  using assms
proof (induction js arbitrary: s bs)
  case (Cons j js)
  have l: "length bs + 16 < 2 ^ 63" using Cons.prems(2) by simp
  note p = exec_xmmpush [OF Cons.prems(1) l, of j]
  have "length (to_le 16 (xmm s j) @ bs) + 16 * length js < 2 ^ 63" using Cons.prems(2) by simp
  from Cons.IH [OF p(1) this] show ?case using p by (auto simp: algebra_simps)
qed auto
text \<open>Pops into registers, and into the four slots \<open>r15\<close> points to.\<close>

fun pop_all :: "instr list \<Rightarrow> u64 list \<Rightarrow> (reg \<Rightarrow> u64) \<times> u64 list \<Rightarrow> (reg \<Rightarrow> u64) \<times> u64 list" where
  "pop_all (Pop r # is) (v # vs) (g, sl) = pop_all is vs (g(r := v), sl)"
| "pop_all (PopMem b d # is) (v # vs) (g, sl) = pop_all is vs (g, sl[unat d div 8 := v])"
| "pop_all is vs gs = gs"

primrec pops_ok :: "instr \<Rightarrow> bool" where
  "pops_ok (Pop r) = (r \<noteq> RSP \<and> r \<noteq> R15)"
| "pops_ok (PopMem b d) = (b = R15 \<and> (\<exists>j < 4. d = word_of_nat (8 * j)))"
| "pops_ok (Push r) = False"
| "pops_ok (PushMem b d) = False"
| "pops_ok (MovReg r q) = False"
| "pops_ok (MovImm r v) = False"
| "pops_ok (Load r b d) = False"
| "pops_ok (Lea r b d) = False"
| "pops_ok (AddImm r v) = False"
| "pops_ok (SubImm r v) = False"
| "pops_ok (AndImm r v) = False"
| "pops_ok (MovdquStore b i) = False"
| "pops_ok (MovdquLoad i b) = False"

lemma pop_value_stack:
  assumes "at_stack s (to_le 8 v @ bs)"
  shows "fst (pop_value s) = v" "at_stack (snd (pop_value s)) bs"
    "gpr (snd (pop_value s)) = (gpr s)(RSP := gpr s RSP + 8)" "xmm (snd (pop_value s)) = xmm s" "ram (snd (pop_value s)) = ram s"
  using load64_bytes [of "ram s" "gpr s RSP" "to_le 8 v @ bs" 0 v "gpr s RSP"]
    bytes_at_drop [of "ram s" "gpr s RSP" "to_le 8 v" bs "gpr s RSP + 8"] assms
  by (simp_all add: pop_value_def set_gpr_def at_stack_def)

lemma quads_update:
  assumes "j < length sl"
  shows "quads sl = quads (take j sl) @ to_le 8 (sl ! j) @ quads (drop (Suc j) sl)"
    "quads (sl[j := v]) = quads (take j sl) @ to_le 8 v @ quads (drop (Suc j) sl)"
proof -
  have "quads (take j sl @ sl ! j # drop (Suc j) sl) = quads (take j sl) @ to_le 8 (sl ! j) @ quads (drop (Suc j) sl)"
    by (simp only: quads_simps append.simps)
  then show "quads sl = quads (take j sl) @ to_le 8 (sl ! j) @ quads (drop (Suc j) sl)"
    using id_take_nth_drop [OF assms] by simp
  show "quads (sl[j := v]) = quads (take j sl) @ to_le 8 v @ quads (drop (Suc j) sl)"
    using assms by (simp add: upd_conv_take_nth_drop)
qed

lemma exec_pops:
  assumes "list_all pops_ok is" "length vs = length is" "length sl = 4"
    and "at_stack s (quads vs @ pre @ quads sl @ post)"
    and "gpr s R15 = gpr s RSP + word_of_nat (8 * length vs + length pre)"
    and "\<forall>r. r \<noteq> RSP \<longrightarrow> g0 r = gpr s r" "pop_all is vs (g0, sl) = (g, sl')"
  shows "at_stack (exec_all is s) (pre @ quads sl' @ post) \<and>
    gpr (exec_all is s) = g(RSP := gpr s RSP + word_of_nat (8 * length vs)) \<and> xmm (exec_all is s) = xmm s \<and> length sl' = 4"
  using assms
proof (induction "is" arbitrary: s vs sl g0)
  case (Cons i "is")
  from Cons.prems(2) obtain v ws where vs: "vs = v # ws" "length ws = length is" by (cases vs) auto
  have st: "at_stack s (to_le 8 v @ quads ws @ pre @ quads sl @ post)" using Cons.prems(4) vs(1) by simp
  note p = pop_value_stack [OF st]
  let ?s = "snd (pop_value s)"
  have ok: "list_all pops_ok is" "pops_ok i" using Cons.prems(1) by simp_all
  show ?case
  proof (cases i)
    case (Pop r)
    then have r: "r \<noteq> RSP" "r \<noteq> R15" using ok(2) by simp_all
    have e: "exec i s = set_gpr r v ?s" using Pop p(1) by (simp add: case_prod_beta)
    have g: "gpr (set_gpr r v ?s) = (gpr s)(RSP := gpr s RSP + 8, r := v)" by (simp add: set_gpr_def p)
    have 1: "at_stack (set_gpr r v ?s) (quads ws @ pre @ quads sl @ post)" using p(2) r(1) by (simp add: at_stack_def set_gpr_def)
    have 2: "gpr (set_gpr r v ?s) R15 = gpr (set_gpr r v ?s) RSP + word_of_nat (8 * length ws + length pre)"
      using Cons.prems(5) r vs by (simp add: g algebra_simps)
    have 3: "\<forall>q. q \<noteq> RSP \<longrightarrow> (g0(r := v)) q = gpr (set_gpr r v ?s) q" using Cons.prems(6) by (simp add: g)
    have 4: "pop_all is ws (g0(r := v), sl) = (g, sl')" using Cons.prems(7) Pop vs(1) by simp
    have x: "xmm (set_gpr r v ?s) = xmm s" by (simp add: set_gpr_def p)
    have rsp: "gpr (set_gpr r v ?s) RSP = gpr s RSP + 8" using r(1) by (simp add: g)
    from Cons.IH [OF ok(1) vs(2) Cons.prems(3) 1 2 3 4] show ?thesis
      unfolding exec_all_simps e x rsp vs(1) by (simp add: algebra_simps)
  next
    case (PopMem b d)
    then obtain j where j: "b = R15" "j < 4" "d = word_of_nat (8 * j)" using ok(2) by auto
    let ?t = "?s\<lparr>ram := store64 (ram s) (gpr s R15 + d) v\<rparr>"
    have e: "exec i s = ?t" using PopMem p j(1) by (simp add: case_prod_beta)
    have old: "bytes_at (ram ?s) (gpr ?s RSP) ((quads ws @ pre @ quads (take j sl)) @ to_le 8 (sl ! j) @ quads (drop (Suc j) sl) @ post)"
      using p(2) quads_update(1) [of j sl] j(2) Cons.prems(3) by (simp add: at_stack_def)
    have pos: "gpr s R15 + d = gpr ?s RSP + word_of_nat (length (quads ws @ pre @ quads (take j sl)))"
      using Cons.prems(3,5) vs j by (simp add: p algebra_simps)
    have "bytes_at (store_bytes (ram ?s) (gpr s R15 + d) (to_le 8 v)) (gpr ?s RSP)
        ((quads ws @ pre @ quads (take j sl)) @ to_le 8 v @ quads (drop (Suc j) sl) @ post)"
      by (rule bytes_at_replace [OF old _ pos]) (simp only: length_to_le)
    then have 1: "at_stack ?t (quads ws @ pre @ quads (sl[j := v]) @ post)"
      using quads_update(2) [of j sl v] j(2) Cons.prems(3) by (simp add: at_stack_def store64_def p(5))
    have 2: "gpr ?t R15 = gpr ?t RSP + word_of_nat (8 * length ws + length pre)"
      using Cons.prems(5) vs by (simp add: p algebra_simps)
    have 3: "\<forall>q. q \<noteq> RSP \<longrightarrow> g0 q = gpr ?t q" using Cons.prems(6) by (simp add: p)
    have "unat d div 8 = j" using j(2,3) unat_small [of "8 * j"] by simp
    then have 4: "pop_all is ws (g0, sl[j := v]) = (g, sl')" using Cons.prems(7) PopMem vs(1) by simp
    have 5: "length (sl[j := v]) = 4" using Cons.prems(3) by simp
    from Cons.IH [OF ok(1) vs(2) 5 1 2 3 4] show ?thesis
      unfolding exec_all_simps e vs(1) by (simp add: p algebra_simps)
  qed (use ok(2) in simp_all)
qed (auto simp: fun_eq_iff)

lemma exec_xmmpop:
  assumes "at_stack s (to_le 16 v @ bs)"
  shows "at_stack (exec_all (XMMPOP i) s) bs" "gpr (exec_all (XMMPOP i) s) = (gpr s)(RSP := gpr s RSP + 16)"
    "xmm (exec_all (XMMPOP i) s) = (xmm s)(i := v)"
  using bytes_at_read [of "ram s" "gpr s RSP" "to_le 16 v @ bs" 0 16 "gpr s RSP"]
    bytes_at_drop [of "ram s" "gpr s RSP" "to_le 16 v" bs "gpr s RSP + 16"] assms
  by (simp_all add: XMMPOP_def set_gpr_def at_stack_def from_le_to_le)

lemma exec_xmmpops:
  assumes "at_stack s (xmms vs @ bs)" "length vs = length js"
  shows "at_stack (exec_all (concat (map XMMPOP js)) s) bs \<and>
    gpr (exec_all (concat (map XMMPOP js)) s) = (gpr s)(RSP := gpr s RSP + word_of_nat (16 * length js)) \<and>
    xmm (exec_all (concat (map XMMPOP js)) s) = fold (\<lambda>(j, v) x. x(j := v)) (zip js vs) (xmm s)"
  using assms
proof (induction js arbitrary: s vs)
  case (Cons j js)
  then obtain v ws where vs: "vs = v # ws" "length ws = length js" by (cases vs) auto
  have "at_stack s (to_le 16 v @ xmms ws @ bs)" using Cons.prems(1) vs(1) by simp
  note p = exec_xmmpop [OF this, of j]
  from Cons.IH [OF p(1) vs(2)] show ?case using p vs by (auto simp: algebra_simps)
qed simp
subsection \<open>Entry\<close>

lemma stack_room: "at_stack s bs \<Longrightarrow> length bs + 8 < 2 ^ 63 \<Longrightarrow>
  \<exists>v. at_stack (s\<lparr>gpr := (gpr s)(RSP := gpr s RSP - 8)\<rparr>) (to_le 8 (v :: u64) @ bs)"
proof -
  assume a: "at_stack s bs" "length bs + 8 < 2 ^ 63"
  define xs where "xs = read_bytes (ram s) (gpr s RSP - 8) 8"
  have "to_le 8 (from_le xs :: u64) = xs" by (rule to_le_from_le) (simp_all add: xs_def read_bytes_def)
  moreover have "store_bytes (ram s) (gpr s RSP - 8) xs = ram s"
  proof
    fix x
    have "xs ! unat (x - (gpr s RSP - 8)) = ram s x" if "unat (x - (gpr s RSP - 8)) < 8"
      using that by (simp add: xs_def read_bytes_def)
    then show "store_bytes (ram s) (gpr s RSP - 8) xs x = ram s x" by (simp add: store_bytes_def xs_def read_bytes_def)
  qed
  moreover have "bytes_at (store_bytes (ram s) (gpr s RSP - 8) xs) (gpr s RSP - 8) (xs @ bs)"
    using a by (intro bytes_at_push) (simp_all add: at_stack_def xs_def read_bytes_def)
  ultimately show ?thesis unfolding at_stack_def by (intro exI [of _ "from_le xs"]) simp
qed

text \<open>The bytes of the stub below the frame: alignment, the four registers, the error code.\<close>

definition stub_slots :: "Cpu86 \<Rightarrow> u64 list" where
  "stub_slots s = [gpr s R8, gpr s RDX, gpr s RCX, gpr s R15]"

lemma stub_pushes:
  assumes "at_stack s bs" "length bs < 0x1000"
  shows "at_stack (exec_all [Push R15, Push RCX, Push RDX, Push R8] s) (quads (stub_slots s) @ bs) \<and>
    gpr (exec_all [Push R15, Push RCX, Push RDX, Push R8] s) = (gpr s)(RSP := gpr s RSP - 32) \<and>
    xmm (exec_all [Push R15, Push RCX, Push RDX, Push R8] s) = xmm s"
  using exec_pushes [of s bs "[Push R15, Push RCX, Push RDX, Push R8]" "[gpr s R15, gpr s RCX, gpr s RDX, gpr s R8]"] assms
  by (simp add: pushes_def stub_slots_def)

lemma at_stack_gpr:
  "at_stack s bs \<Longrightarrow> ram s' = ram s \<Longrightarrow> gpr s' RSP = gpr s RSP \<Longrightarrow> at_stack s' bs"
  by (simp add: at_stack_def)

lemma stub_save_ok:
  assumes "at_stack s (quads (es @ fs))" "length fs = 5" "es = (if err then [e] else [])"
  shows "\<exists>pad. length pad = length es \<and>
    at_stack (exec_all (stub_save n err) s) (quads (pad @ stub_slots s @ es @ fs)) \<and>
    gpr (exec_all (stub_save n err) s) = (gpr s)(R15 := gpr s RSP - 32, RCX := word_of_nat n,
      RDX := gpr s RSP + word_of_nat (8 * length es), R8 := (if err then e else 0),
      RSP := gpr s RSP - 32 - word_of_nat (8 * length es)) \<and>
    xmm (exec_all (stub_save n err) s) = xmm s"
proof -
  define t where "t = exec_all [Push R15, Push RCX, Push RDX, Push R8] s"
  have l: "length (quads (es @ fs)) < 0x1000" using assms(2,3) by simp
  from stub_pushes [OF assms(1) l] have t: "at_stack t (quads (stub_slots s) @ quads (es @ fs))"
    "gpr t = (gpr s)(RSP := gpr s RSP - 32)" "xmm t = xmm s" by (simp_all add: t_def)
  show ?thesis
  proof (cases err)
    case False
    have e: "exec_all (stub_save n err) s = t\<lparr>gpr := (gpr t)(R15 := gpr t RSP, RCX := word_of_nat n, RDX := gpr t RSP + 0x20, R8 := 0)\<rparr>"
      using False by (simp add: stub_save_def t_def set_gpr_def)
    show ?thesis unfolding e using False assms(3) t by (auto simp: at_stack_def fun_eq_iff)
  next
    case True
    have "load64 (ram t) (gpr t RSP + 0x20) = e"
      using t(1) True assms(3) by (intro load64_bytes [of "ram t" "gpr t RSP" "quads (stub_slots s) @ quads (es @ fs)" 32])
        (simp_all add: at_stack_def stub_slots_def)
    then have e: "exec_all (stub_save n err) s = t\<lparr>gpr := (gpr t)(R15 := gpr t RSP, RCX := word_of_nat n,
        RDX := gpr t RSP + 0x28, R8 := e, RSP := gpr t RSP - 8)\<rparr>"
      using True by (simp add: stub_save_def t_def set_gpr_def)
    have "length (quads (stub_slots s) @ quads (es @ fs)) + 8 < 2 ^ 63" using assms(2,3) by (simp add: stub_slots_def)
    from stack_room [OF t(1) this] obtain v :: u64 where
      "at_stack (t\<lparr>gpr := (gpr t)(RSP := gpr t RSP - 8)\<rparr>) (to_le 8 v @ quads (stub_slots s) @ quads (es @ fs))" by blast
    then show ?thesis unfolding e using True assms(3) t
      by (intro exI [of _ "[v]"]) (auto simp: at_stack_def fun_eq_iff)
  qed
qed
definition xmm_order :: "nat list" where
  "xmm_order = [0, 1, 2, 3, 4, 5, 6, 7, 8, 9, 10, 11, 12, 13, 14, 15]"

lemma enter_rust_save_code:
  "enter_rust_save = save_gprs @ concat (map XMMPUSH xmm_order) @
     [MovReg R9 RSP, MovReg RBP RSP, SubImm RSP 0x20, AndImm RSP (NOT 0xf)]"
  "enter_rust_restore = [MovReg RSP RBP] @ concat (map XMMPOP (rev xmm_order)) @ restore_gprs"
  by (simp_all add: enter_rust_save_def enter_rust_restore_def xmm_order_def)

lemma xmm_snapshot: "xmms (rev (map (xmm s) xmm_order)) = xmms (all_regs_xmm (snapshot s))"
  by (simp add: xmm_order_def all_regs_xmm_def snapshot_def)

lemma save_gprs_ok:
  assumes "at_stack s (pre @ quads sl @ post)" "length sl = 4" "gpr s R15 = gpr s RSP + word_of_nat (length pre)"
    and "length pre + length post < 0x1000"
  shows "at_stack (exec_all save_gprs s) (quads [sl ! 3, gpr s R14, gpr s R13, gpr s R12, gpr s R11, gpr s R10, gpr s R9,
      sl ! 0, gpr s RBP, gpr s RDI, gpr s RSI, sl ! 1, sl ! 2, gpr s RBX, gpr s RAX] @ pre @ quads sl @ post) \<and>
    gpr (exec_all save_gprs s) = (gpr s)(RSP := gpr s RSP - 120) \<and> xmm (exec_all save_gprs s) = xmm s"
proof -
  obtain a b c d where sl: "sl = [a, b, c, d]"
    using assms(2) by (auto simp: length_Suc_conv numeral_eq_Suc)
  have m: "pushes s (pre @ quads sl @ post) (PushMem R15 w) v" if "w = word_of_nat k" "k + 8 \<le> 32"
    "take 8 (drop k (quads sl)) = to_le 8 v" for w v k
  proof -
    have "gpr s R15 + w = gpr s RSP + word_of_nat (length pre + k)" using assms(3) that(1) by simp
    moreover have "length pre + k + 8 \<le> length (pre @ quads sl @ post)" using that(2) sl by simp
    moreover have "take 8 (drop (length pre + k) (pre @ quads sl @ post)) = to_le 8 v" using that(2,3) sl by simp
    ultimately show ?thesis unfolding pushes_def by blast
  qed
  have r: "pushes s (pre @ quads sl @ post) (Push r) (gpr s r)" if "r \<noteq> RSP" for r
    using that by (simp add: pushes_def)
  have l: "list_all2 (pushes s (pre @ quads sl @ post)) save_gprs (rev [sl ! 3, gpr s R14, gpr s R13, gpr s R12, gpr s R11,
      gpr s R10, gpr s R9, sl ! 0, gpr s RBP, gpr s RDI, gpr s RSI, sl ! 1, sl ! 2, gpr s RBX, gpr s RAX])"
    unfolding save_gprs_def sl
    using m [of "0x10" 16 c] m [of "8" 8 b] m [of 0 0 a] m [of "0x18" 24 d] r sl by simp
  have n: "length save_gprs = 15" by (simp add: save_gprs_def)
  have "length (pre @ quads sl @ post) + 8 * length save_gprs < 2 ^ 63" using assms(2,4) n by simp
  from exec_pushes [OF l assms(1) this] show ?thesis unfolding n rev_rev_ident by simp
qed
text \<open>The whole entry: the arguments of the handler and the structure with the registers.\<close>

definition called_with :: "nat \<Rightarrow> u64 \<Rightarrow> Cpu86 \<Rightarrow> u64 list \<Rightarrow> u64 list \<Rightarrow> u64 list \<Rightarrow> Cpu86 \<Rightarrow> bool" where
  "called_with n ra s pad es fs c \<longleftrightarrow>
     (let p = gpr s RSP - word_of_nat (416 + 8 * length es) in
      gpr c RCX = word_of_nat n \<and> gpr c RDX = gpr s RSP + word_of_nat (8 * length es) \<and>
      gpr c R8 = (case es of [] \<Rightarrow> 0 | e # _ \<Rightarrow> e) \<and> gpr c R9 = p \<and> gpr c RBP = p \<and>
      gpr c RSP = (p - 0x20) AND NOT 0xf \<and> gpr c R15 = gpr s RSP - 32 \<and>
      bytes_at (ram c) p (all_regs_bytes (snapshot s) @ quads ([ra] @ pad @ stub_slots s @ es @ fs)))"

lemma stub_call_ok:
  assumes "at_stack s (quads (es @ fs))" "length fs = 5" "es = (if has_error_code n then [e] else [])"
  shows "\<exists>pad. length pad = length es \<and> called_with n ra s pad es fs (stub_call n ra s)"
proof -
  define s1 where "s1 = exec_all (stub_save n (has_error_code n)) s"
  from stub_save_ok [OF assms(1,2), of "has_error_code n" e n] assms(3) obtain pad where pad: "length pad = length es"
    and s1: "at_stack s1 (quads (pad @ stub_slots s @ es @ fs))"
    and g1: "gpr s1 = (gpr s)(R15 := gpr s RSP - 32, RCX := word_of_nat n, RDX := gpr s RSP + word_of_nat (8 * length es),
        R8 := (if has_error_code n then e else 0), RSP := gpr s RSP - 32 - word_of_nat (8 * length es))"
    and x1: "xmm s1 = xmm s" unfolding s1_def by blast
  have le: "length es \<le> 1" using assms(3) by simp
  define t where "t = push_value ra s1"
  have "length (quads (pad @ stub_slots s @ es @ fs)) + 8 < 2 ^ 63" using pad le assms(2) by (simp add: stub_slots_def)
  note p = push_value_stack [OF s1 this, of ra]
  have t: "at_stack t (quads ([ra] @ pad) @ quads (stub_slots s) @ quads (es @ fs))" using p(1) by (simp add: t_def)
  have tr: "gpr t RSP = gpr s RSP - word_of_nat (40 + 8 * length es)" using p(2) by (simp add: t_def g1)
  have t15: "gpr t R15 = gpr t RSP + word_of_nat (length (quads ([ra] @ pad)))" using pad p(2) by (simp add: t_def g1)
  have "length (stub_slots s) = 4" "length (quads ([ra] @ pad)) + length (quads (es @ fs)) < 0x1000"
    using pad le assms(2) by (simp_all add: stub_slots_def)
  note sv = save_gprs_ok [OF t this(1) t15 this(2)]
  define u where "u = exec_all save_gprs t"
  define ar where "ar = snapshot s"
  have q: "[stub_slots s ! 3, gpr t R14, gpr t R13, gpr t R12, gpr t R11, gpr t R10, gpr t R9, stub_slots s ! 0, gpr t RBP, gpr t RDI,
      gpr t RSI, stub_slots s ! 1, stub_slots s ! 2, gpr t RBX, gpr t RAX] = all_regs_gpr ar"
    using p(2) by (simp add: t_def g1 all_regs_gpr_def ar_def snapshot_def stub_slots_def)
  from sv [unfolded q] have u: "at_stack u (quads (all_regs_gpr ar) @ quads ([ra] @ pad @ stub_slots s @ es @ fs))"
    "gpr u = (gpr t)(RSP := gpr t RSP - 120)" "xmm u = xmm s" using p(3) by (simp_all add: u_def t_def x1)
  have "length (quads (all_regs_gpr ar) @ quads ([ra] @ pad @ stub_slots s @ es @ fs)) + 16 * length xmm_order < 2 ^ 63"
    using pad le assms(2) by (simp add: all_regs_gpr_def stub_slots_def xmm_order_def)
  note xp = exec_xmmpushes [OF u(1) this]
  define w where "w = exec_all (concat (map XMMPUSH xmm_order)) u"
  have w: "at_stack w (all_regs_bytes ar @ quads ([ra] @ pad @ stub_slots s @ es @ fs))"
    "gpr w = (gpr u)(RSP := gpr u RSP - 256)"
    using xp unfolding w_def u(3) xmm_snapshot all_regs_bytes_def ar_def xmms_def [symmetric] by (simp_all add: xmm_order_def)
  have sc: "stub_call n ra s = w\<lparr>gpr := (gpr w)(R9 := gpr w RSP, RBP := gpr w RSP, RSP := (gpr w RSP - 0x20) AND NOT 0xf)\<rparr>"
    by (simp add: stub_call_def enter_rust_save_code w_def u_def t_def s1_def set_gpr_def)
  define q where "q = gpr s RSP - word_of_nat (416 + 8 * length es)"
  have wq: "gpr w RSP = q" by (simp add: w(2) u(2) tr q_def)
  have wb: "bytes_at (ram w) q (all_regs_bytes (snapshot s) @ quads ([ra] @ pad @ stub_slots s @ es @ fs))"
    using w(1) wq by (simp only: at_stack_def ar_def)
  have r8: "(if has_error_code n then e else 0) = (case es of [] \<Rightarrow> 0 | e # _ \<Rightarrow> e)" using assms(3) by simp
  have "called_with n ra s pad es fs (stub_call n ra s)"
    unfolding called_with_def Let_def q_def [symmetric] sc wq using wb r8
    by (simp add: w(2) u(2) p(2) t_def g1)
  with pad show ?thesis by blast
qed
subsection \<open>Return\<close>

lemma restore_pops: "list_all pops_ok restore_gprs"
proof -
  have "\<exists>j < 4. (0x18 :: u64) = word_of_nat (8 * j)" "\<exists>j < 4. (0 :: u64) = word_of_nat (8 * j)"
    "\<exists>j < 4. (8 :: u64) = word_of_nat (8 * j)" "\<exists>j < 4. (0x10 :: u64) = word_of_nat (8 * j)"
    by (rule exI [of _ 3], simp) (rule exI [of _ 0], simp, rule exI [of _ 1], simp, rule exI [of _ 2], simp)
  then show ?thesis by (simp add: restore_gprs_def)
qed

text \<open>The registers after the restoring pops and the four slots for the stub.\<close>

definition restored :: "AllRegs \<Rightarrow> (reg \<Rightarrow> u64) \<Rightarrow> reg \<Rightarrow> u64" where
  "restored a g = g(R14 := ar_r14 a, R13 := ar_r13 a, R12 := ar_r12 a, R11 := ar_r11 a, R10 := ar_r10 a, R9 := ar_r9 a,
     RBP := ar_rbp a, RDI := ar_rdi a, RSI := ar_rsi a, RBX := ar_rbx a, RAX := ar_rax a)"

lemma pop_all_restore:
  assumes "length sl = 4"
  shows "pop_all restore_gprs (all_regs_gpr a) (g, sl) = (restored a g, [ar_r8 a, ar_rdx a, ar_rcx a, ar_r15 a])"
proof -
  obtain w0 w1 w2 w3 where "sl = [w0, w1, w2, w3]"
    using assms by (auto simp: length_Suc_conv numeral_eq_Suc)
  then show ?thesis by (simp add: restore_gprs_def all_regs_gpr_def restored_def)
qed

lemma xmm_restored:
  "fold (\<lambda>(j, v) x. x(j := v)) (zip (rev xmm_order) (all_regs_xmm a)) x =
    x(15 := ar_xmm15 a, 14 := ar_xmm14 a, 13 := ar_xmm13 a, 12 := ar_xmm12 a, 11 := ar_xmm11 a, 10 := ar_xmm10 a,
      9 := ar_xmm9 a, 8 := ar_xmm8 a, 7 := ar_xmm7 a, 6 := ar_xmm6 a, 5 := ar_xmm5 a, 4 := ar_xmm4 a, 3 := ar_xmm3 a,
      2 := ar_xmm2 a, 1 := ar_xmm1 a, 0 := ar_xmm0 a)"
  by (simp add: xmm_order_def all_regs_xmm_def)

definition xmm_loaded :: "AllRegs \<Rightarrow> (nat \<Rightarrow> u128) \<Rightarrow> nat \<Rightarrow> u128" where
  "xmm_loaded a x = fold (\<lambda>(j, v) x. x(j := v)) (zip (rev xmm_order) (all_regs_xmm a)) x"

lemma enter_rust_restore_ok:
  assumes "bytes_at (ram s) (gpr s RBP) (all_regs_bytes a @ quads ([ra] @ pad @ sl @ post))" "length sl = 4"
    and "gpr s R15 = gpr s RBP + word_of_nat (384 + 8 * length pad)"
  shows "at_stack (exec_all enter_rust_restore s) (quads ([ra] @ pad @ [ar_r8 a, ar_rdx a, ar_rcx a, ar_r15 a] @ post)) \<and>
    gpr (exec_all enter_rust_restore s) = (restored a (gpr s))(RSP := gpr s RBP + 376) \<and>
    xmm (exec_all enter_rust_restore s) = xmm_loaded a (xmm s)"
proof -
  define t where "t = set_gpr RSP (gpr s RBP) s"
  have t: "at_stack t (xmms (all_regs_xmm a) @ quads (all_regs_gpr a) @ quads ([ra] @ pad @ sl @ post))"
    "gpr t = (gpr s)(RSP := gpr s RBP)" "xmm t = xmm s"
    using assms(1) by (simp_all add: at_stack_def t_def set_gpr_def all_regs_bytes_def xmms_def)
  have xo: "length xmm_order = 16" by (simp add: xmm_order_def)
  then have "length (all_regs_xmm a) = length (rev xmm_order)" by (simp add: all_regs_xmm_def)
  note x = exec_xmmpops [OF t(1) this]
  define u where "u = exec_all (concat (map XMMPOP (rev xmm_order))) t"
  have u: "at_stack u (quads (all_regs_gpr a) @ quads ([ra] @ pad) @ quads sl @ quads post)"
    "gpr u = (gpr s)(RSP := gpr s RBP + 256)" "xmm u = xmm_loaded a (xmm s)"
    using x t xo by (simp_all add: u_def xmm_loaded_def)
  have "length (all_regs_gpr a) = length restore_gprs" by (simp add: all_regs_gpr_def restore_gprs_def)
  moreover have "gpr u R15 = gpr u RSP + word_of_nat (8 * length (all_regs_gpr a) + length (quads ([ra] @ pad)))"
    using assms(3) by (simp add: u(2) all_regs_gpr_def)
  ultimately have "at_stack (exec_all restore_gprs u) (quads ([ra] @ pad) @ quads [ar_r8 a, ar_rdx a, ar_rcx a, ar_r15 a] @ quads post) \<and>
    gpr (exec_all restore_gprs u) = (restored a (gpr u))(RSP := gpr u RSP + word_of_nat (8 * length (all_regs_gpr a))) \<and>
    xmm (exec_all restore_gprs u) = xmm u \<and> length [ar_r8 a, ar_rdx a, ar_rcx a, ar_r15 a] = 4"
    using restore_pops u(1) assms(2) pop_all_restore by (intro exec_pops) auto
  moreover have "exec_all enter_rust_restore s = exec_all restore_gprs u"
    by (simp add: enter_rust_save_code(2) u_def t_def)
  ultimately show ?thesis
    using u(2,3) by (auto simp: all_regs_gpr_def restored_def fun_eq_iff)
qed
lemma exec_pop:
  assumes "at_stack s (to_le 8 v @ bs)" "r \<noteq> RSP"
  shows "at_stack (exec (Pop r) s) bs" "gpr (exec (Pop r) s) = (gpr s)(RSP := gpr s RSP + 8, r := v)"
    "xmm (exec (Pop r) s) = xmm s"
  using pop_value_stack [OF assms(1)] assms(2) by (simp_all add: case_prod_beta set_gpr_def at_stack_def)

lemma exec_skip:
  assumes "at_stack s (to_le 8 (v :: u64) @ bs)"
  shows "at_stack (exec (AddImm RSP 8) s) bs" "gpr (exec (AddImm RSP 8) s) = (gpr s)(RSP := gpr s RSP + 8)"
    "xmm (exec (AddImm RSP 8) s) = xmm s"
  using bytes_at_drop [of "ram s" "gpr s RSP" "to_le 8 v" bs "gpr s RSP + 8"] assms
  by (simp_all add: at_stack_def set_gpr_def)

lemma stub_restore_ok:
  assumes "at_stack s (quads (pad @ [w0, w1, w2, w3] @ es @ fs))"
    and "length pad = (if err then 1 else 0)" "length es = (if err then 1 else 0)"
  shows "at_stack (exec_all (stub_restore err) s) (quads fs) \<and> xmm (exec_all (stub_restore err) s) = xmm s \<and>
    (\<exists>sp. gpr (exec_all (stub_restore err) s) = (gpr s)(R8 := w0, RDX := w1, RCX := w2, R15 := w3, RSP := sp))"
proof -
  have four: "at_stack (exec_all [Pop R8, Pop RDX, Pop RCX, Pop R15] t) bs \<and>
    xmm (exec_all [Pop R8, Pop RDX, Pop RCX, Pop R15] t) = xmm t \<and>
    gpr (exec_all [Pop R8, Pop RDX, Pop RCX, Pop R15] t) = (gpr t)(R8 := w0, RDX := w1, RCX := w2, R15 := w3, RSP := gpr t RSP + 32)"
    if "at_stack t (to_le 8 w0 @ to_le 8 w1 @ to_le 8 w2 @ to_le 8 w3 @ bs)" for t bs
  proof -
    note a = exec_pop [OF that, of R8]
    note b = exec_pop [OF a(1), of RDX]
    note c = exec_pop [OF b(1), of RCX]
    note d = exec_pop [OF c(1), of R15]
    show ?thesis using a b c d by (auto simp: fun_eq_iff simp del: exec.simps)
  qed
  show ?thesis
  proof (cases err)
    case False
    with assms have "at_stack s (to_le 8 w0 @ to_le 8 w1 @ to_le 8 w2 @ to_le 8 w3 @ quads fs)" by simp
    from four [OF this] show ?thesis using False by (auto simp: stub_restore_def simp del: exec.simps)
  next
    case True
    with assms obtain v e where ve: "pad = [v]" "es = [e]" by (auto simp: length_Suc_conv)
    have "at_stack s (to_le 8 v @ to_le 8 w0 @ to_le 8 w1 @ to_le 8 w2 @ to_le 8 w3 @ to_le 8 e @ quads fs)" using assms(1) ve by simp
    note k = exec_skip [OF this]
    note f = four [OF k(1)]
    note l = exec_skip [OF conjunct1 [OF f]]
    have "exec_all (stub_restore err) s = exec (AddImm RSP 8) (exec_all [Pop R8, Pop RDX, Pop RCX, Pop R15] (exec (AddImm RSP 8) s))"
      using True by (simp add: stub_restore_def del: exec.simps)
    then show ?thesis using k f l by (auto simp: fun_eq_iff simp del: exec.simps exec_all_simps)
  qed
qed

lemma iretq_frame: "at_stack s (quads (frame_quads f)) \<Longrightarrow> iretq s = (f, set_gpr RSP (fr_rsp f) s)"
proof -
  assume "at_stack s (quads (frame_quads f))"
  then have b: "bytes_at (ram s) (gpr s RSP) (quads (frame_quads f))" by (simp add: at_stack_def)
  have "load64 (ram s) (gpr s RSP) = fr_rip f" "load64 (ram s) (gpr s RSP + 8) = fr_cs f"
    "load64 (ram s) (gpr s RSP + 16) = fr_rflags f" "load64 (ram s) (gpr s RSP + 24) = fr_rsp f"
    "load64 (ram s) (gpr s RSP + 32) = fr_ss f"
    using load64_bytes [OF b, of 0 "fr_rip f" "gpr s RSP"] load64_bytes [OF b, of 8 "fr_cs f" "gpr s RSP + 8"]
      load64_bytes [OF b, of 16 "fr_rflags f" "gpr s RSP + 16"] load64_bytes [OF b, of 24 "fr_rsp f" "gpr s RSP + 24"]
      load64_bytes [OF b, of 32 "fr_ss f" "gpr s RSP + 32"]
    by (simp_all add: frame_quads_def)
  then show ?thesis by (simp add: iretq_def)
qed

text \<open>What the compiled handler must respect: it keeps \<open>rbp\<close> and \<open>r15\<close>, as the calling convention
  demands, and the return address. The registers and the frame may be changed through the pointers.\<close>

definition handler_left :: "nat \<Rightarrow> u64 \<Rightarrow> Cpu86 \<Rightarrow> AllRegs \<Rightarrow> InterruptFrame \<Rightarrow> Cpu86 \<Rightarrow> bool" where
  "handler_left n ra c a f c' \<longleftrightarrow> gpr c' RBP = gpr c RBP \<and> gpr c' R15 = gpr c R15 \<and>
     (\<exists>pad sl es. length pad = (if has_error_code n then 1 else 0) \<and> length sl = 4 \<and> length es = length pad \<and>
        bytes_at (ram c') (gpr c R9) (all_regs_bytes a @ quads ([ra] @ pad @ sl @ es @ frame_quads f)))"

lemma stub_return_ok:
  assumes "called_with n ra s pad0 es0 fs c" "length es0 = (if has_error_code n then 1 else 0)" "handler_left n ra c a f c'"
  shows "\<exists>s'. stub_return n ra c' = Some (f, s') \<and> snapshot s' = a \<and> gpr s' RSP = fr_rsp f"
proof -
  from assms(3) obtain pad sl es where l: "length pad = (if has_error_code n then 1 else 0)" "length sl = 4" "length es = length pad"
    and b: "bytes_at (ram c') (gpr c R9) (all_regs_bytes a @ quads ([ra] @ pad @ sl @ es @ frame_quads f))"
    and g: "gpr c' RBP = gpr c RBP" "gpr c' R15 = gpr c R15" by (auto simp: handler_left_def)
  have c: "gpr c R9 = gpr c RBP" "gpr c R15 = gpr c RBP + word_of_nat (384 + 8 * length pad)"
    using assms(1,2) l(1) by (simp_all add: called_with_def Let_def)
  define t where "t = exec_all enter_rust_restore c'"
  have "bytes_at (ram c') (gpr c' RBP) (all_regs_bytes a @ quads ([ra] @ pad @ sl @ es @ frame_quads f))"
    "gpr c' R15 = gpr c' RBP + word_of_nat (384 + 8 * length pad)" using b c g by simp_all
  from enter_rust_restore_ok [OF this(1) l(2) this(2)]
  have t: "at_stack t (to_le 8 ra @ quads (pad @ [ar_r8 a, ar_rdx a, ar_rcx a, ar_r15 a] @ es @ frame_quads f))"
    "gpr t = (restored a (gpr c'))(RSP := gpr c' RBP + 376)" "xmm t = xmm_loaded a (xmm c')"
    by (simp_all add: t_def)
  note p = pop_value_stack [OF t(1)]
  have le: "length es = (if has_error_code n then 1 else 0)" using l(1,3) by simp
  note r = stub_restore_ok [OF p(2) l(1) le]
  define u where "u = exec_all (stub_restore (has_error_code n)) (snd (pop_value t))"
  from r obtain sp where u: "at_stack u (quads (frame_quads f))" "xmm u = xmm_loaded a (xmm c')"
    "gpr u = (gpr t)(R8 := ar_r8 a, RDX := ar_rdx a, RCX := ar_rcx a, R15 := ar_r15 a, RSP := sp)"
    using p(3,4) t(3) by (auto simp: u_def fun_eq_iff)
  have "stub_return n ra c' = Some (f, set_gpr RSP (fr_rsp f) u)"
    using p(1) iretq_frame [OF u(1)] by (simp add: stub_return_def case_prod_beta u_def t_def Let_def)
  moreover have "snapshot (set_gpr RSP (fr_rsp f) u) = a"
    by (simp add: snapshot_def set_gpr_def u t(2) restored_def xmm_loaded_def xmm_restored)
  ultimately show ?thesis by (auto simp: set_gpr_def)
qed
lemma bytes_at_prefix: "bytes_at m a (xs @ ys) \<Longrightarrow> bytes_at m a xs"
  unfolding bytes_at_def by (auto simp: nth_append split: if_splits)

lemma length_all_regs [simp]: "length (all_regs_bytes a) = 376"
  by (simp add: all_regs_bytes_def all_regs_xmm_def all_regs_gpr_def)

lemma sp_aligned: "(w AND NOT 0xf) AND (0xf :: u64) = 0"
  by (rule bit_word_eqI) (simp only: bit_and_iff bit_not_iff, auto)

subsection \<open>Property\<close>

text \<open>C32: the entry code of every interrupt vector. The processor has pushed a frame \<open>f\<close>, and an error code
  for the vectors that have one. The handler is called with the vector, the error code or zero, a
  pointer to the frame and a pointer to a structure with all registers as they were at the
  interrupt, on an aligned stack. When it returns, having kept the registers the calling convention
  reserves and the return address, execution continues with exactly the registers and the frame it
  left in the two structures, for every value of the other registers and of memory.\<close>

theorem interrupt_stub_correct:
  assumes "bytes_at (ram s) (gpr s RSP) (quads ((if has_error_code n then [e] else []) @ frame_quads f))"
    and "handler_left n ra (stub_call n ra s) a f' (handler (stub_call n ra s))"
  shows "(let c = stub_call n ra s in gpr c RCX = word_of_nat n \<and> gpr c R8 = (if has_error_code n then e else 0) \<and>
      bytes_at (ram c) (gpr c RDX) (quads (frame_quads f)) \<and> bytes_at (ram c) (gpr c R9) (all_regs_bytes (snapshot s)) \<and>
      gpr c RSP AND 0xf = 0) \<and>
    (\<exists>s'. vec_interrupt n ra handler s = Some (f', s') \<and> snapshot s' = a \<and> gpr s' RSP = fr_rsp f')"
proof -
  define es where "es = (if has_error_code n then [e] else [])"
  define c where "c = stub_call n ra s"
  have "at_stack s (quads (es @ frame_quads f))" using assms(1) by (simp only: at_stack_def es_def)
  from stub_call_ok [OF this _ es_def, of ra] obtain pad where pad: "length pad = length es"
    and c: "called_with n ra s pad es (frame_quads f) c" by (auto simp: frame_quads_def c_def)
  let ?p = "gpr s RSP - word_of_nat (416 + 8 * length es)"
  have b: "bytes_at (ram c) ?p ((all_regs_bytes (snapshot s) @ quads ([ra] @ pad @ stub_slots s @ es)) @ quads (frame_quads f))"
    using c by (simp add: called_with_def Let_def)
  have "bytes_at (ram c) (gpr c RDX) (quads (frame_quads f))"
    using c pad by (intro bytes_at_drop [OF b]) (simp add: called_with_def Let_def stub_slots_def)
  moreover have "bytes_at (ram c) (gpr c R9) (all_regs_bytes (snapshot s))"
    using c bytes_at_prefix [OF bytes_at_prefix [OF b]] by (simp add: called_with_def Let_def)
  moreover have "gpr c RCX = word_of_nat n" "gpr c R8 = (if has_error_code n then e else 0)" "gpr c RSP AND 0xf = 0"
    using c sp_aligned by (simp_all add: called_with_def Let_def es_def)
  moreover have "length es = (if has_error_code n then 1 else 0)" by (simp add: es_def)
  ultimately show ?thesis
    using stub_return_ok [OF c _ assms(2) [folded c_def]] by (simp add: vec_interrupt_def c_def)
qed

definition sample_frame :: InterruptFrame where
  "sample_frame = \<lparr>fr_rip = 0x401000, fr_cs = 0x28, fr_rflags = 0x202, fr_rsp = 0x9000, fr_ss = 0\<rparr>"

definition sample_cpu :: Cpu86 where
  "sample_cpu = \<lparr>gpr = (\<lambda>r. if r = RSP then 0x8000 else if r = RAX then 5 else 7), xmm = (\<lambda>i. word_of_nat i),
     ram = store_bytes (\<lambda>_. 0) 0x8000 (quads ([2] @ frame_quads sample_frame))\<rparr>"

theorem interrupt_stub_correct_witness:
  "\<exists>s'. vec_interrupt 14 0xabc (\<lambda>c. c\<lparr>gpr := (gpr c)(RAX := 0, R10 := 1)\<rparr>) sample_cpu = Some (sample_frame, s') \<and>
    snapshot s' = snapshot sample_cpu \<and> gpr s' RSP = 0x9000"
proof -
  let ?h = "\<lambda>c :: Cpu86. c\<lparr>gpr := (gpr c)(RAX := 0, R10 := 1)\<rparr>"
  have e: "has_error_code 14" by (simp add: has_error_code_def)
  have "bytes_at (ram sample_cpu) 0x8000 (quads ([2] @ frame_quads sample_frame) @ [])"
    unfolding sample_cpu_def Cpu86.simps by (rule bytes_at_push [where a = "0x8030"]) (simp_all add: bytes_at_def frame_quads_def)
  then have b: "bytes_at (ram sample_cpu) (gpr sample_cpu RSP) (quads ((if has_error_code 14 then [2] else []) @ frame_quads sample_frame))"
    using e by (simp add: sample_cpu_def)
  then have "at_stack sample_cpu (quads ([2] @ frame_quads sample_frame))" using e by (simp add: at_stack_def)
  from stub_call_ok [OF this, of 14 2 "0xabc"] e obtain pad where pad: "length pad = 1"
    and c: "called_with 14 0xabc sample_cpu pad [2] (frame_quads sample_frame) (stub_call 14 0xabc sample_cpu)"
    by (auto simp: frame_quads_def)
  have "handler_left 14 0xabc (stub_call 14 0xabc sample_cpu) (snapshot sample_cpu) sample_frame (?h (stub_call 14 0xabc sample_cpu))"
    unfolding handler_left_def
  proof (intro conjI exI)
    show "bytes_at (ram (?h (stub_call 14 0xabc sample_cpu))) (gpr (stub_call 14 0xabc sample_cpu) R9)
      (all_regs_bytes (snapshot sample_cpu) @ quads ([0xabc] @ pad @ stub_slots sample_cpu @ [2] @ frame_quads sample_frame))"
      using c by (simp add: called_with_def Let_def)
  qed (use pad e in \<open>simp_all add: stub_slots_def\<close>)
  from interrupt_stub_correct [where handler = ?h, OF b this] show ?thesis by (auto simp: sample_frame_def)
qed

end
