(* ===== verification/Pxe.thy ===== *)
theory Pxe
  imports BootMm PageTable
begin

text \<open>
  The download of a file over the 16-bit PXE interface, \<open>bootloader/src/pxe.rs\<close>. The BIOS is a
  parameter: software interrupts and PXE calls change the memory and a state of the BIOS. The
  structures of the calls are bytes in memory at the addresses of local variables, which are
  parameters too; the BIOS is given the low 16 bits of those addresses.
\<close>

unbundle bit_operations_syntax

subsection \<open>The BIOS\<close>

type_synonym 'b bios_state = "64 memory \<times> 'b"

text \<open>\<open>invoke_realmode\<close> with and without an entry buffer, and \<open>pxecall\<close>.\<close>

record 'b Bios =
  bi_e820 :: "'b bios_state realmode"
  bi_int :: "u8 \<Rightarrow> RegisterState \<Rightarrow> 'b bios_state \<Rightarrow> RegisterState \<times> 'b bios_state"
  bi_call :: "u16 \<Rightarrow> u16 \<Rightarrow> u16 \<Rightarrow> u16 \<Rightarrow> u16 \<Rightarrow> 'b bios_state \<Rightarrow> 'b bios_state"

text \<open>The addresses of the local variables whose addresses are passed to the BIOS.\<close>

record PxeFrame =
  pf_cached :: u64
  pf_size :: u64
  pf_open :: u64
  pf_read :: u64
  pf_buf :: u64
  pf_status :: u64

definition segoff_to_linear :: "u16 \<Rightarrow> u16 \<Rightarrow> u64" where
  "segoff_to_linear seg off = push_bit 4 (ucast seg) + ucast off"

definition le16 :: "bytes \<Rightarrow> nat \<Rightarrow> u16" where
  "le16 b off = from_le (take 2 (drop off b))"

text \<open>A call whose parameter is a structure at the address \<open>p\<close>, and the structure afterwards.\<close>

definition call_struct :: "'b Bios \<Rightarrow> u16 \<times> u16 \<Rightarrow> u16 \<Rightarrow> u64 \<Rightarrow> bytes \<Rightarrow> 'b bios_state \<Rightarrow> bytes \<times> 'b bios_state" where
  "call_struct bios ep opcode p st s =
     (let s' = bi_call bios (fst ep) (snd ep) opcode 0 (ucast p) (store_bytes (fst s) p st, snd s)
      in (read_bytes (fst s') p (length st), s'))"

subsection \<open>The installation check\<close>

definition byte_string :: "string \<Rightarrow> bytes" where
  "byte_string = map (\<lambda>c. word_of_nat (of_char c))"

definition pxe_entry_point :: "'b Bios \<Rightarrow> 'b bios_state \<Rightarrow> (u16 \<times> u16) option \<times> 'b bios_state" where
  "pxe_entry_point bios s =
     (let (regs, s) = bi_int bios 0x1a (regs_default\<lparr>eax := 0x5650\<rparr>) s in
      if (ucast (eax regs) :: u16) \<noteq> 0x564e \<or> efl regs AND 1 \<noteq> 0 then (None, s)
      else
        let pxenv = read_bytes (fst s) (segoff_to_linear (reg_es regs) (ucast (ebx regs))) 0x2c in
        if take 6 pxenv \<noteq> byte_string ''PXENV+'' \<or> pxenv ! 0x8 \<noteq> 0x2c \<or> foldl (+) 0 pxenv \<noteq> 0 then (None, s)
        else
          let off = le16 pxenv 0x28;
              seg = le16 pxenv 0x2a;
              pxe = read_bytes (fst s) (segoff_to_linear seg off) 0x58 in
          if take 4 pxe \<noteq> byte_string ''!PXE'' \<or> pxe ! 4 \<noteq> 0x58 \<or> foldl (+) 0 pxe \<noteq> 0 then (None, s)
          else
            let ep_off = le16 pxe 0x10;
                ep_seg = le16 pxe 0x12 in
            if ep_seg = 0 then (None, s) else (Some (ep_seg, ep_off), s))"

subsection \<open>The calls\<close>

record GetCachedInfo =
  gc_status :: u16
  gc_packet_type :: u16
  gc_buffer_size :: u16
  gc_buffer_off :: u16
  gc_buffer_seg :: u16
  gc_buffer_limit :: u16

definition cached_bytes :: "GetCachedInfo \<Rightarrow> bytes" where
  "cached_bytes st = concat (map (to_le 2) [gc_status st, gc_packet_type st, gc_buffer_size st, gc_buffer_off st,
     gc_buffer_seg st, gc_buffer_limit st])"

definition cached_read :: "bytes \<Rightarrow> GetCachedInfo" where
  "cached_read b = \<lparr>gc_status = le16 b 0, gc_packet_type = le16 b 2, gc_buffer_size = le16 b 4, gc_buffer_off = le16 b 6,
     gc_buffer_seg = le16 b 8, gc_buffer_limit = le16 b 10\<rparr>"

definition pxe_server_ip :: "'b Bios \<Rightarrow> PxeFrame \<Rightarrow> u16 \<times> u16 \<Rightarrow> 'b bios_state \<Rightarrow> (bytes option \<times> 'b bios_state) res" where
  "pxe_server_ip bios fr ep s =
     (let st = \<lparr>gc_status = 0, gc_packet_type = 2, gc_buffer_size = 0, gc_buffer_off = 0, gc_buffer_seg = 0, gc_buffer_limit = 0\<rparr>;
          (b, s) = call_struct bios ep 0x71 (pf_cached fr) (cached_bytes st) s;
          st = cached_read b in
      if gc_status st \<noteq> 0 then Ok (None, s)
      else
        let pkt_buf = read_bytes (fst s) (segoff_to_linear (gc_buffer_seg st) (gc_buffer_off st)) (unat (gc_buffer_size st)) in
        bindR (slice pkt_buf 0x14 0x18) (\<lambda>ip. Ok (Some ip, s)))"

record GetFileSize =
  gf_status :: u16
  gf_server_ip :: bytes
  gf_gateway_ip :: bytes
  gf_filename :: bytes
  gf_file_size :: u32

definition file_size_bytes :: "GetFileSize \<Rightarrow> bytes" where
  "file_size_bytes st = to_le 2 (gf_status st) @ gf_server_ip st @ gf_gateway_ip st @ gf_filename st @ to_le 4 (gf_file_size st)"

definition file_size_read :: "bytes \<Rightarrow> GetFileSize" where
  "file_size_read b = \<lparr>gf_status = le16 b 0, gf_server_ip = take 4 (drop 2 b), gf_gateway_ip = take 4 (drop 6 b),
     gf_filename = take 128 (drop 10 b), gf_file_size = from_le (take 4 (drop 138 b))\<rparr>"

text \<open>The array of 128 bytes that begins with the name, when there is room for a zero byte.\<close>

definition name_field :: "bytes \<Rightarrow> bytes option" where
  "name_field filename =
     (if length filename + 1 > 128 then None else Some (filename @ drop (length filename) (replicate 128 0)))"

definition pxe_file_size ::
  "'b Bios \<Rightarrow> PxeFrame \<Rightarrow> u16 \<times> u16 \<Rightarrow> bytes \<Rightarrow> bytes \<Rightarrow> 'b bios_state \<Rightarrow> nat option \<times> 'b bios_state" where
  "pxe_file_size bios fr ep server_ip filename s =
     (case name_field filename of
        None \<Rightarrow> (None, s)
      | Some name \<Rightarrow>
          let st = \<lparr>gf_status = 0, gf_server_ip = server_ip, gf_gateway_ip = replicate 4 0, gf_filename = name, gf_file_size = 0\<rparr>;
              (b, s) = call_struct bios ep 0x25 (pf_size fr) (file_size_bytes st) s;
              st = file_size_read b
          in (if gf_status st \<noteq> 0 then None else Some (unat (gf_file_size st)), s))"

record TftpOpen =
  to_status :: u16
  to_server_ip :: bytes
  to_gateway_ip :: bytes
  to_filename :: bytes
  to_tftp_port :: u16
  to_packet_size :: u16

definition open_bytes :: "TftpOpen \<Rightarrow> bytes" where
  "open_bytes st = to_le 2 (to_status st) @ to_server_ip st @ to_gateway_ip st @ to_filename st @
     to_le 2 (to_tftp_port st) @ to_le 2 (to_packet_size st)"

definition open_read :: "bytes \<Rightarrow> TftpOpen" where
  "open_read b = \<lparr>to_status = le16 b 0, to_server_ip = take 4 (drop 2 b), to_gateway_ip = take 4 (drop 6 b),
     to_filename = take 128 (drop 10 b), to_tftp_port = le16 b 138, to_packet_size = le16 b 140\<rparr>"

definition pxe_open ::
  "'b Bios \<Rightarrow> PxeFrame \<Rightarrow> u16 \<times> u16 \<Rightarrow> bytes \<Rightarrow> bytes \<Rightarrow> 'b bios_state \<Rightarrow> bool \<times> 'b bios_state" where
  "pxe_open bios fr ep server_ip filename s =
     (case name_field filename of
        None \<Rightarrow> (False, s)
      | Some name \<Rightarrow>
          let st = \<lparr>to_status = 0, to_server_ip = server_ip, to_gateway_ip = replicate 4 0, to_filename = name,
                to_tftp_port = from_be (to_le 2 (69 :: u16)), to_packet_size = 512\<rparr>;
              (b, s) = call_struct bios ep 0x20 (pf_open fr) (open_bytes st) s;
              st = open_read b
          in (\<not> (to_status st \<noteq> 0 \<or> to_packet_size st \<noteq> 512), s))"

record TftpRead =
  tr_status :: u16
  tr_packet_number :: u16
  tr_bytes_read :: u16
  tr_buffer_off :: u16
  tr_buffer_seg :: u16

definition read_request :: "TftpRead \<Rightarrow> bytes" where
  "read_request st = concat (map (to_le 2) [tr_status st, tr_packet_number st, tr_bytes_read st, tr_buffer_off st, tr_buffer_seg st])"

definition read_answer :: "bytes \<Rightarrow> TftpRead" where
  "read_answer b = \<lparr>tr_status = le16 b 0, tr_packet_number = le16 b 2, tr_bytes_read = le16 b 4, tr_buffer_off = le16 b 6,
     tr_buffer_seg = le16 b 8\<rparr>"

text \<open>One read: the status, the number of bytes and the buffer of 512 bytes.\<close>

definition pxe_read :: "'b Bios \<Rightarrow> PxeFrame \<Rightarrow> u16 \<times> u16 \<Rightarrow> 'b bios_state \<Rightarrow> (u16 \<times> nat \<times> bytes) \<times> 'b bios_state" where
  "pxe_read bios fr ep s =
     (let s = (store_bytes (fst s) (pf_buf fr) (replicate 512 0), snd s);
          st = \<lparr>tr_status = 0, tr_packet_number = 0, tr_bytes_read = 0, tr_buffer_off = ucast (pf_buf fr), tr_buffer_seg = 0\<rparr>;
          (b, s) = call_struct bios ep 0x22 (pf_read fr) (read_request st) s;
          st = read_answer b
      in ((tr_status st, unat (tr_bytes_read st), read_bytes (fst s) (pf_buf fr) 512), s))"

text \<open>
  The loop: the vector holds at most \<open>cap\<close> bytes, so the number of full packets is bounded whatever
  the BIOS answers.
\<close>

function pxe_read_all ::
  "'b Bios \<Rightarrow> PxeFrame \<Rightarrow> u16 \<times> u16 \<Rightarrow> nat \<Rightarrow> bytes \<Rightarrow> 'b bios_state \<Rightarrow> bytes option \<times> 'b bios_state" where
  "pxe_read_all bios fr ep cap download s =
     (let ((status, bread, read_buf), s) = pxe_read bios fr ep s in
      if status \<noteq> 0 \<or> bread > 512 then (None, s)
      else if length download + bread > cap then (None, s)
      else
        let download = download @ take bread read_buf in
        if bread < 512 then (Some download, s) else pxe_read_all bios fr ep cap download s)"
  by pat_completeness auto

termination
  by (relation "measure (\<lambda>(bios, fr, ep, cap, download, s). cap + 1 - length download)")
    (auto simp: pxe_read_def Let_def read_bytes_def split: prod.splits)

declare pxe_read_all.simps [simp del]

definition pxe_close :: "'b Bios \<Rightarrow> PxeFrame \<Rightarrow> u16 \<times> u16 \<Rightarrow> 'b bios_state \<Rightarrow> bool \<times> 'b bios_state" where
  "pxe_close bios fr ep s =
     (let (b, s) = call_struct bios ep 0x21 (pf_status fr) (to_le 2 (0 :: u16)) s in (le16 b 0 = 0, s))"

subsection \<open>The download\<close>

text \<open>A vector of bytes with room for \<open>n\<close> elements on the heap of the bootloader.\<close>

definition vec_with_capacity :: "nat \<Rightarrow> RangeSet option \<Rightarrow> (u64 \<times> RangeSet option) res" where
  "vec_with_capacity n pmem =
     (if n > 0x7fffffff then Panic ''capacity overflow''
      else if n = 0 then Ok (1, pmem)
      else bindR (boot_alloc pmem \<lparr>l_size = word_of_nat n, l_align = 1\<rparr>) (\<lambda>(p, pmem).
        if p = 0 then Panic ''Out of memory'' else Ok (p, pmem)))"

definition vec_drop :: "u64 \<Rightarrow> nat \<Rightarrow> RangeSet option \<Rightarrow> RangeSet option res" where
  "vec_drop p n pmem = (if n = 0 then Ok pmem else boot_dealloc pmem p \<lparr>l_size = word_of_nat n, l_align = 1\<rparr>)"

text \<open>The vector is its address, its capacity and its bytes.\<close>

type_synonym byte_vec = "u64 \<times> nat \<times> bytes"

definition pxe_download ::
  "'b Bios \<Rightarrow> PxeFrame \<Rightarrow> bytes \<Rightarrow> RangeSet option \<Rightarrow> 'b bios_state \<Rightarrow> (byte_vec option \<times> RangeSet option \<times> 'b bios_state) res" where
  "pxe_download bios fr filename pmem s =
     (case pxe_entry_point bios s of
        (None, s) \<Rightarrow> Ok (None, pmem, s)
      | (Some ep, s) \<Rightarrow>
          bindR (pxe_server_ip bios fr ep s) (\<lambda>(ip, s).
          case ip of
            None \<Rightarrow> Ok (None, pmem, s)
          | Some server_ip \<Rightarrow>
              (case pxe_file_size bios fr ep server_ip filename s of
                 (None, s) \<Rightarrow> Ok (None, pmem, s)
               | (Some file_size, s) \<Rightarrow>
                   (case pxe_open bios fr ep server_ip filename s of
                      (False, s) \<Rightarrow> Ok (None, pmem, s)
                    | (True, s) \<Rightarrow>
                        bindR (vec_with_capacity file_size pmem) (\<lambda>(p, pmem).
                        case pxe_read_all bios fr ep file_size [] s of
                          (None, s) \<Rightarrow> bindR (vec_drop p file_size pmem) (\<lambda>pmem. Ok (None, pmem, s))
                        | (Some download, s) \<Rightarrow>
                            (case pxe_close bios fr ep s of
                               (False, s) \<Rightarrow> bindR (vec_drop p file_size pmem) (\<lambda>pmem. Ok (None, pmem, s))
                             | (True, s) \<Rightarrow> Ok (Some (p, file_size, download), pmem, s)))))))"

end
