(* ===== verification/BootMain.thy ===== *)
theory BootMain
  imports Pxe BootPhys BootArgs PeParser
begin

text \<open>
  The entry point of the bootloader, \<open>bootloader/src/main.rs\<close>: the serial port, the free memory, the
  download of the kernel, the two page tables, and the stack of the core that enters the kernel.
  The locks of the shared arguments are taken and released inside the entry point by one core at a
  time; here their contents are passed as state.
\<close>

unbundle bit_operations_syntax

subsection \<open>State\<close>

record 'b Boot =
  bt_args :: BootArgs
  bt_mem :: "64 memory"
  bt_io :: Io
  bt_bios :: 'b
  bt_core_id :: u32

definition BOOT_ARGS :: BootArgs where
  "BOOT_ARGS = \<lparr>ba_free_memory = None, ba_serial = None, ba_page_table = None, ba_trampoline_page_table = 0,
     ba_kernel_entry = None, ba_stack_vaddr = KERNEL_STACKS_BASE, ba_soft_reboot_addr = 0\<rparr>"

text \<open>The arguments of the jump into the kernel.\<close>

record Enter64 =
  en_entry_point :: u64
  en_stack :: u64
  en_param :: u64
  en_cr3 :: u32
  en_tramp_cr3 :: u32
  en_phys_window_base :: u64
  en_core_id :: u32

subsection \<open>The serial port\<close>

text \<open>The words of the BIOS data area at \<open>0x400\<close>.\<close>

definition bda_word :: "64 memory \<Rightarrow> nat \<Rightarrow> u16" where
  "bda_word m i = from_le (read_bytes m (0x400 + word_of_nat (2 * i)) 2)"

definition boot_serial_init :: "io_env \<Rightarrow> 'b Boot \<Rightarrow> 'b Boot option" where
  "boot_serial_init env st =
     (if ba_serial (bt_args st) = None then
        Option.bind (serial_new env (bda_word (bt_mem st)) (bt_io st)) (\<lambda>(driver, io).
        Option.bind (foldN (\<lambda>io _. serial_write env io driver [10]) io [0..<100]) (\<lambda>io.
        Option.bind (serial_write env io driver (byte_string ''Chocolate Milk bootloader starting...'' @ [10])) (\<lambda>io.
          Some (st\<lparr>bt_io := io, bt_args := (bt_args st)\<lparr>ba_serial := Some driver\<rparr>\<rparr>))))
      else Some st)"

definition boot_print :: "io_env \<Rightarrow> bytes \<Rightarrow> 'b Boot \<Rightarrow> 'b Boot res option" where
  "boot_print env msg st =
     bindD (Some (unwrapR (ba_serial (bt_args st)))) (\<lambda>serial.
       map_option (\<lambda>io. Ok (st\<lparr>bt_io := io\<rparr>)) (serial_write env (bt_io st) serial msg))"

subsection \<open>The download\<close>

definition download_once :: "'b Bios \<Rightarrow> PxeFrame \<Rightarrow> 'b Boot \<Rightarrow> (byte_vec option \<times> 'b Boot) res" where
  "download_once bios fr st =
     bindR (pxe_download bios fr (byte_string ''chocolate_milk.kern'') (ba_free_memory (bt_args st)) (bt_mem st, bt_bios st))
       (\<lambda>(kern, pmem, m, b).
         Ok (kern, st\<lparr>bt_mem := m, bt_bios := b, bt_args := (bt_args st)\<lparr>ba_free_memory := pmem\<rparr>\<rparr>))"

partial_function (option) download_kernel :: "'b Bios \<Rightarrow> io_env \<Rightarrow> PxeFrame \<Rightarrow> 'b Boot \<Rightarrow> (byte_vec \<times> 'b Boot) res option" where
  "download_kernel bios env fr st =
     bindD (Some (download_once bios fr st)) (\<lambda>(kern, st).
     case kern of
       Some kern \<Rightarrow> Some (Ok (kern, st))
     | None \<Rightarrow>
         bindD (boot_print env (byte_string ''Kernel download failed, retrying'' @ [10]) st) (\<lambda>st.
           download_kernel bios env fr st))"

declare download_kernel.simps [simp del]

subsection \<open>The page tables\<close>

type_synonym boot_mem = "RangeSet \<times> 64 memory"

text \<open>\<open>map_raw(...).unwrap()\<close>\<close>

definition map_page :: "PageTable \<Rightarrow> u64 \<Rightarrow> PageType \<Rightarrow> u64 \<Rightarrow> boot_mem \<Rightarrow> boot_mem res" where
  "map_page pt vaddr page_type raw s =
     bindR (map_raw boot_phys pt s vaddr page_type raw) (\<lambda>(r, s). bindR (unwrapR r) (\<lambda>_. Ok s))"

text \<open>The iteration \<open>(0..n).step_by(step)\<close>.\<close>

definition steps_below :: "u64 \<Rightarrow> u64 \<Rightarrow> u64 list" where
  "steps_below n step = map (\<lambda>i. word_of_nat i * step) [0..<(unat n + unat step - 1) div unat step]"

definition map_trampoline :: "PageTable \<Rightarrow> u64 \<Rightarrow> boot_mem \<Rightarrow> boot_mem res" where
  "map_trampoline pt bootloader_end s =
     foldR (\<lambda>s paddr.
       bindR (map_page pt paddr Page4K (paddr OR PAGE_WRITE OR PAGE_PRESENT) s) (\<lambda>s.
         map_page pt (KERNEL_PHYS_WINDOW_BASE + paddr) Page4K (paddr OR PAGE_WRITE OR PAGE_PRESENT) s))
       s (steps_below bootloader_end 4096)"

text \<open>The largest page size of the processor, and the bits of its entries.\<close>

definition window_page :: "CPUFeatures \<Rightarrow> PageType" where
  "window_page f = (if gbyte_pages f then Page1G else if pse f then Page2M else Page4K)"

definition window_size_bit :: "PageType \<Rightarrow> u64" where
  "window_size_bit ty = (if ty = Page4K then 0 else PAGE_SIZE)"

definition map_window :: "CPUFeatures \<Rightarrow> PageTable \<Rightarrow> boot_mem \<Rightarrow> boot_mem res" where
  "map_window f pt s =
     (let ty = window_page f; MAX_PAGE_SIZE = page_bytes ty in
      if KERNEL_PHYS_WINDOW_SIZE mod MAX_PAGE_SIZE \<noteq> 0 then Panic ''KERNEL_PHYS_WINDOW_SIZE not mod page size''
      else
        foldR (\<lambda>s paddr. map_page pt (KERNEL_PHYS_WINDOW_BASE + paddr) ty
            (paddr OR window_size_bit ty OR PAGE_WRITE OR PAGE_PRESENT) s)
          s (steps_below KERNEL_PHYS_WINDOW_SIZE MAX_PAGE_SIZE))"

text \<open>The sections of the kernel; the result of \<open>map_init\<close> is ignored.\<close>

definition section_byte :: "bytes \<Rightarrow> u64 \<Rightarrow> u8" where
  "section_byte raw off = (let i = unat (ucast off :: u32) in if i < length raw then raw ! i else 0)"

definition load_section :: "PageTable \<Rightarrow> Section \<Rightarrow> boot_mem \<Rightarrow> boot_mem res option" where
  "load_section pt sec s =
     bindD (map_init boot_phys pt s (s_vaddr sec) Page4K (ucast (s_vsize sec)) (s_read sec) (s_write sec) (s_exec sec)
       (Some (section_byte (s_raw sec)))) (\<lambda>(_, s). Some (Ok s))"

text \<open>\<open>PeParser::sections\<close> with a closure that may not return and always returns \<open>Some\<close>.\<close>

fun load_sections :: "PeParser \<Rightarrow> PageTable \<Rightarrow> nat list \<Rightarrow> boot_mem \<Rightarrow> boot_mem option res option" where
  "load_sections pe pt [] s = Some (Ok (Some s))"
| "load_sections pe pt (i # ixs) s =
     bindD (Some (section_at 32 pe i)) (\<lambda>sec.
     case sec of
       None \<Rightarrow> Some (Ok None)
     | Some sec \<Rightarrow> bindD (load_section pt sec s) (\<lambda>s. load_sections pe pt ixs s))"

definition build_tables :: "CPUFeatures \<Rightarrow> u64 \<Rightarrow> PeParser \<Rightarrow> boot_mem \<Rightarrow> (PageTable \<times> PageTable \<times> boot_mem) res option" where
  "build_tables f bootloader_end pe s =
     bindD (Some (page_table_new boot_phys s)) (\<lambda>(trampoline_table, s).
     bindD (Some (map_trampoline trampoline_table bootloader_end s)) (\<lambda>s.
     bindD (Some (page_table_new boot_phys s)) (\<lambda>(tab, s).
     bindD (Some (map_window f tab s)) (\<lambda>s.
     bindD (load_sections pe tab [0..<num_sections pe] s) (\<lambda>r.
     bindD (Some (unwrapR r)) (\<lambda>s. Some (Ok (trampoline_table, tab, s))))))))"

text \<open>From the downloaded file to the tables; the vector of the file is dropped at the end.\<close>

definition load_kernel :: "CPUFeatures \<Rightarrow> u64 \<Rightarrow> byte_vec \<Rightarrow> 'b Boot \<Rightarrow> 'b Boot res option" where
  "load_kernel f bootloader_end kern st =
     (case kern of (p, cap, bs) \<Rightarrow>
        bindD (Some (bindR (pe_parse 32 bs) (expectR ''Failed to parse PE''))) (\<lambda>pe.
        bindD (Some (expectR ''Whoa, physical memory not initialized yet'' (ba_free_memory (bt_args st)))) (\<lambda>pmem.
        bindD (build_tables f bootloader_end pe (pmem, bt_mem st)) (\<lambda>(trampoline_table, tab, pmem, m).
        bindD (Some (vec_drop p cap (Some pmem))) (\<lambda>pmem.
          Some (Ok (st\<lparr>bt_mem := m, bt_args := (bt_args st)\<lparr>ba_free_memory := pmem, ba_kernel_entry := Some (entry_point pe),
            ba_page_table := Some tab, ba_trampoline_page_table := table trampoline_table\<rparr>\<rparr>)))))))"

definition kernel_image :: "'b Bios \<Rightarrow> io_env \<Rightarrow> CPUFeatures \<Rightarrow> PxeFrame \<Rightarrow> u64 \<Rightarrow> 'b Boot \<Rightarrow> 'b Boot res option" where
  "kernel_image bios env f fr bootloader_end st =
     (if ba_kernel_entry (bt_args st) \<noteq> None then Some (Ok st)
      else if \<not> (ba_page_table (bt_args st) = None \<and> ba_trampoline_page_table (bt_args st) = 0) then
        Some (Panic ''Page tables set up before kernel!?'')
      else
        bindD (boot_print env (byte_string ''Downloading kernel...'' @ [10]) st) (\<lambda>st.
        bindD (download_kernel bios env fr st) (\<lambda>(kern, st).
        bindD (boot_print env (byte_string ''Kernel download complete!'' @ [10]) st) (\<lambda>st.
          load_kernel f bootloader_end kern st))))"

subsection \<open>The stack of the core\<close>

definition core_stack :: "'b Boot \<Rightarrow> ((u64 \<times> u64 \<times> u32 \<times> u32) \<times> 'b Boot) res option" where
  "core_stack st =
     bindD (Some (expectR ''Whoa, physical memory not initialized yet'' (ba_free_memory (bt_args st)))) (\<lambda>pmem.
     bindD (Some (unwrapR (ba_page_table (bt_args st)))) (\<lambda>pt.
     let stack_addr = ba_stack_vaddr (bt_args st);
         args = (bt_args st)\<lparr>ba_stack_vaddr := stack_addr + (KERNEL_STACK_SIZE + KERNEL_STACK_PAD)\<rparr> in
     bindD (pt_map boot_phys pt (pmem, bt_mem st) stack_addr Page4K KERNEL_STACK_SIZE True True False) (\<lambda>(r, pmem, m).
     bindD (Some (unwrapR r)) (\<lambda>_.
     bindD (Some (unwrapR (ba_kernel_entry args))) (\<lambda>entry.
       Some (Ok ((entry, stack_addr + KERNEL_STACK_SIZE, ucast (table pt), ucast (ba_trampoline_page_table args)),
         st\<lparr>bt_mem := m, bt_args := args\<lparr>ba_free_memory := Some pmem\<rparr>\<rparr>)))))))"

subsection \<open>The entry point\<close>

text \<open>The parameters are the BIOS, the ports, the processor, the addresses of locals and of the shared
  arguments, and the arguments of the function.\<close>

definition boot_entry ::
  "'b Bios \<Rightarrow> io_env \<Rightarrow> (u32 \<Rightarrow> u32 \<Rightarrow> u32 \<times> u32 \<times> u32 \<times> u32) \<Rightarrow> PxeFrame \<Rightarrow> u32 \<Rightarrow> u64 \<Rightarrow> u64 \<Rightarrow> u64 \<Rightarrow> 'b Boot
    \<Rightarrow> (Enter64 \<times> 'b Boot) res option" where
  "boot_entry bios env cpuid fr e820_ptr args_addr bootloader_end soft_reboot_entry st =
     bindD (map_option Ok (boot_serial_init env st)) (\<lambda>st.
     let st = st\<lparr>bt_args := (bt_args st)\<lparr>ba_soft_reboot_addr := soft_reboot_entry\<rparr>\<rparr> in
     bindD (mm_init (bi_e820 bios) e820_ptr (ba_free_memory (bt_args st)) (bt_mem st, bt_bios st)) (\<lambda>(pmem, m, b).
     let st = st\<lparr>bt_mem := m, bt_bios := b, bt_args := (bt_args st)\<lparr>ba_free_memory := pmem\<rparr>\<rparr> in
     bindD (kernel_image bios env (get_cpu_features cpuid) fr bootloader_end st) (\<lambda>st.
     bindD (core_stack st) (\<lambda>((entry, stack, cr3, tramp_cr3), st).
     let core_id = bt_core_id st in
       Some (Ok (\<lparr>en_entry_point = entry, en_stack = stack, en_param = args_addr, en_cr3 = cr3, en_tramp_cr3 = tramp_cr3,
         en_phys_window_base = KERNEL_PHYS_WINDOW_BASE, en_core_id = core_id\<rparr>, st\<lparr>bt_core_id := core_id + 1\<rparr>))))))"

end
