(* ===== verification/Pxe_Correct.thy ===== *)
theory Pxe_Correct
  imports Pxe BootPhys
begin

text \<open>
  Correctness of the PXE download: with a BIOS that keeps to the PXE specification and a server that
  has the file, the download returns the bytes of the file.
\<close>

unbundle bit_operations_syntax

subsection \<open>Structures in memory\<close>

lemma read_store_same: "length bs < 2 ^ 64 \<Longrightarrow> n = length bs \<Longrightarrow> read_bytes (store_bytes m p bs) p n = bs"
  by (auto intro!: nth_equalityI simp: read_bytes_def store_bytes_def unat_of_nat)

lemma read_store_other:
  assumes "unat p + length bs \<le> unat q \<or> unat q + n \<le> unat p" "unat p + length bs < 2 ^ 64" "unat q + n < 2 ^ 64"
  shows "read_bytes (store_bytes m p bs) q n = read_bytes m q n"
proof -
  have "\<not> unat (q + word_of_nat i - p) < length bs" if "i < n" for i
  proof -
    have e: "unat (q + word_of_nat i) = unat q + i"
      using that assms(3) by (simp add: unat_word_ariths unat_of_nat)
    show ?thesis
    proof (cases "p \<le> q + word_of_nat i")
      case True
      then have "unat (q + word_of_nat i - p) = unat q + i - unat p" by (simp add: unat_sub e)
      then show ?thesis using assms(1) that True e by (auto simp: word_le_nat_alt)
    next
      case False
      then have l: "unat q + i < unat p" by (simp add: word_le_nat_alt e)
      have "unat (q + word_of_nat i - p) = 2 ^ 64 + (unat q + i) - unat p"
        using l unsigned_less [of p, where 'a = nat] by (simp add: unat_sub_if_size word_size word_le_nat_alt e)
      then show ?thesis using assms(2) l by simp
    qed
  qed
  then show ?thesis by (simp add: read_bytes_def store_bytes_def)
qed

lemma length_read_bytes [simp]: "length (read_bytes m p n) = n"
  by (simp add: read_bytes_def)

lemma le16_to_le [simp]: "le16 (to_le 2 v @ b) 0 = v"
  by (simp add: le16_def from_le_to_le)

lemma le16_skip [simp]: "length a \<le> k \<Longrightarrow> le16 (a @ b) k = le16 b (k - length a)"
  by (simp add: le16_def)

lemma le16_last [simp]: "le16 (to_le 2 v) 0 = v"
  using le16_to_le [of v "[]"] by simp

lemma cached_read_bytes: "cached_read (cached_bytes st) = st"
  by (simp add: cached_read_def cached_bytes_def)

lemma read_answer_request: "read_answer (read_request st) = st"
  by (simp add: read_answer_def read_request_def)

lemma file_size_read_bytes:
  assumes "length (gf_server_ip st) = 4" "length (gf_gateway_ip st) = 4" "length (gf_filename st) = 128"
  shows "file_size_read (file_size_bytes st) = st"
  using assms by (simp add: file_size_read_def file_size_bytes_def from_le_to_le)

lemma open_read_bytes:
  assumes "length (to_server_ip st) = 4" "length (to_gateway_ip st) = 4" "length (to_filename st) = 128"
  shows "open_read (open_bytes st) = st"
  using assms by (simp add: open_read_def open_bytes_def)

subsection \<open>What is assumed of the BIOS\<close>

text \<open>The installation check succeeds, and the two structures it leads to are valid.\<close>

definition pxe_installed :: "'b Bios \<Rightarrow> u16 \<times> u16 \<Rightarrow> 'b bios_state \<Rightarrow> bool" where
  "pxe_installed bios ep s \<longleftrightarrow>
     (let (regs, m, b) = bi_int bios 0x1a (regs_default\<lparr>eax := 0x5650\<rparr>) s;
          pxenv = read_bytes m (segoff_to_linear (reg_es regs) (ucast (ebx regs))) 0x2c;
          pxe = read_bytes m (segoff_to_linear (le16 pxenv 0x2a) (le16 pxenv 0x28)) 0x58
      in (ucast (eax regs) :: u16) = 0x564e \<and> efl regs AND 1 = 0 \<and>
         take 6 pxenv = byte_string ''PXENV+'' \<and> pxenv ! 8 = 0x2c \<and> foldl (+) 0 pxenv = 0 \<and>
         take 4 pxe = byte_string ''!PXE'' \<and> pxe ! 4 = 0x58 \<and> foldl (+) 0 pxe = 0 \<and>
         ep = (le16 pxe 0x12, le16 pxe 0x10) \<and> fst ep \<noteq> 0)"

text \<open>
  The calls of the specification: the DHCP acknowledgement with the address of the server, the size
  of a file, opening it, reading the next packet of at most 512 bytes into a buffer that does not
  overlap the request, and closing. \<open>rest\<close> is what has not been read of the file that is open.
\<close>

definition ack_call :: "'b Bios \<Rightarrow> u16 \<times> u16 \<Rightarrow> bytes \<Rightarrow> bool" where
  "ack_call bios ep ip \<longleftrightarrow> (\<forall>m b (off :: u16).
     gc_packet_type (cached_read (read_bytes m (ucast off) 12)) = 2 \<longrightarrow>
     (let (m', b') = bi_call bios (fst ep) (snd ep) 0x71 0 off (m, b);
          st = cached_read (read_bytes m' (ucast off) 12)
      in gc_status st = 0 \<and> gc_buffer_size st \<ge> 0x18 \<and>
         take 4 (drop 0x14 (read_bytes m' (segoff_to_linear (gc_buffer_seg st) (gc_buffer_off st)) (unat (gc_buffer_size st)))) = ip))"

definition size_call :: "'b Bios \<Rightarrow> u16 \<times> u16 \<Rightarrow> bytes \<Rightarrow> bytes \<Rightarrow> bytes \<Rightarrow> bool" where
  "size_call bios ep ip name file \<longleftrightarrow> (\<forall>m b (off :: u16).
     let st = file_size_read (read_bytes m (ucast off) 142);
         (m', b') = bi_call bios (fst ep) (snd ep) 0x25 0 off (m, b);
         st' = file_size_read (read_bytes m' (ucast off) 142)
     in gf_server_ip st = ip \<longrightarrow> gf_filename st = name \<longrightarrow> gf_status st' = 0 \<and> unat (gf_file_size st') = length file)"

definition open_call :: "'b Bios \<Rightarrow> u16 \<times> u16 \<Rightarrow> bytes \<Rightarrow> bytes \<Rightarrow> bytes \<Rightarrow> ('b \<Rightarrow> bytes) \<Rightarrow> bool" where
  "open_call bios ep ip name file rest \<longleftrightarrow> (\<forall>m b (off :: u16).
     let st = open_read (read_bytes m (ucast off) 142);
         (m', b') = bi_call bios (fst ep) (snd ep) 0x20 0 off (m, b);
         st' = open_read (read_bytes m' (ucast off) 142)
     in to_server_ip st = ip \<longrightarrow> to_filename st = name \<longrightarrow> to_tftp_port st = 0x4500 \<longrightarrow> to_packet_size st = 512 \<longrightarrow>
        to_status st' = 0 \<and> to_packet_size st' = 512 \<and> rest b' = file)"

definition read_call :: "'b Bios \<Rightarrow> u16 \<times> u16 \<Rightarrow> ('b \<Rightarrow> bytes) \<Rightarrow> bool" where
  "read_call bios ep rest \<longleftrightarrow> (\<forall>m b (off :: u16).
     let st = read_answer (read_bytes m (ucast off) 10);
         buf = segoff_to_linear (tr_buffer_seg st) (tr_buffer_off st);
         (m', b') = bi_call bios (fst ep) (snd ep) 0x22 0 off (m, b);
         st' = read_answer (read_bytes m' (ucast off) 10);
         n = min 512 (length (rest b))
     in unat buf + 512 \<le> unat off \<or> unat off + 10 \<le> unat buf \<longrightarrow>
        tr_status st' = 0 \<and> unat (tr_bytes_read st') = n \<and> read_bytes m' buf n = take 512 (rest b) \<and> rest b' = drop 512 (rest b))"

definition close_call :: "'b Bios \<Rightarrow> u16 \<times> u16 \<Rightarrow> bool" where
  "close_call bios ep \<longleftrightarrow> (\<forall>m b (off :: u16).
     le16 (read_bytes (fst (bi_call bios (fst ep) (snd ep) 0x21 0 off (m, b))) (ucast off) 2) 0 = 0)"

text \<open>The local variables lie in the first 64 KiB, and the buffer does not overlap the request.\<close>

definition frame_ok :: "PxeFrame \<Rightarrow> bool" where
  "frame_ok fr \<longleftrightarrow> (\<forall>p \<in> {pf_cached fr, pf_size fr, pf_open fr, pf_read fr, pf_buf fr, pf_status fr}. p < 0x10000) \<and>
     (unat (pf_buf fr) + 512 \<le> unat (pf_read fr) \<or> unat (pf_read fr) + 10 \<le> unat (pf_buf fr))"

lemma low_pointer: "p < 0x10000 \<Longrightarrow> ucast (ucast p :: u16) = (p :: u64)"
  by (simp add: word_unat_eq_iff unsigned_ucast_eq take_bit_eq_mod word_less_nat_alt unat_mod_distrib)

subsection \<open>Each call\<close>

lemma call_struct_low:
  assumes "p < 0x10000" "length st < 2 ^ 16"
  shows "\<exists>m b. call_struct bios ep opcode p st s =
      (read_bytes (fst (bi_call bios (fst ep) (snd ep) opcode 0 (ucast p) (m, b))) (ucast (ucast p :: u16)) (length st),
       bi_call bios (fst ep) (snd ep) opcode 0 (ucast p) (m, b)) \<and> b = snd s \<and> m = store_bytes (fst s) p st \<and>
    read_bytes m (ucast (ucast p :: u16)) (length st) = st"
  using assms read_store_same [of st "length st" "fst s" p] by (simp add: call_struct_def low_pointer Let_def)
lemma entry_point_ok:
  "pxe_installed bios ep s \<Longrightarrow> \<exists>s'. pxe_entry_point bios s = (Some ep, s')"
  by (auto simp: pxe_installed_def pxe_entry_point_def Let_def split: prod.splits)

lemma server_ip_ok:
  assumes "ack_call bios ep ip" "frame_ok fr"
  shows "\<exists>s'. pxe_server_ip bios fr ep s = Ok (Some ip, s')"
proof -
  define st where "st = \<lparr>gc_status = 0, gc_packet_type = 2, gc_buffer_size = 0, gc_buffer_off = 0, gc_buffer_seg = 0, gc_buffer_limit = 0\<rparr>"
  have p: "pf_cached fr < 0x10000" using assms(2) by (simp add: frame_ok_def)
  have l: "length (cached_bytes st) = 12" by (simp add: cached_bytes_def)
  from call_struct_low [OF p, of "cached_bytes st" bios ep "0x71" s] l obtain m b where
    c: "call_struct bios ep 0x71 (pf_cached fr) (cached_bytes st) s =
      (read_bytes (fst (bi_call bios (fst ep) (snd ep) 0x71 0 (ucast (pf_cached fr)) (m, b))) (ucast (ucast (pf_cached fr) :: u16)) 12,
       bi_call bios (fst ep) (snd ep) 0x71 0 (ucast (pf_cached fr)) (m, b))"
      "read_bytes m (ucast (ucast (pf_cached fr) :: u16)) 12 = cached_bytes st" by auto
  have "gc_packet_type (cached_read (read_bytes m (ucast (ucast (pf_cached fr) :: u16)) 12)) = 2"
    by (simp only: c(2) cached_read_bytes) (simp add: st_def)
  with assms(1) [unfolded ack_call_def, rule_format, of m "ucast (pf_cached fr)" b] show ?thesis
    unfolding pxe_server_ip_def Let_def st_def [symmetric] c(1)
    by (auto simp: word_le_nat_alt split: prod.splits)
qed

lemma name_field_some: "length filename < 128 \<Longrightarrow> \<exists>name. name_field filename = Some name \<and> length name = 128"
  by (simp add: name_field_def)

lemma file_size_ok:
  assumes "size_call bios ep ip name file" "frame_ok fr" "name_field filename = Some name" "length ip = 4" "length name = 128"
  shows "\<exists>s'. pxe_file_size bios fr ep ip filename s = (Some (length file), s')"
proof -
  define st where "st = \<lparr>gf_status = 0, gf_server_ip = ip, gf_gateway_ip = replicate 4 0, gf_filename = name, gf_file_size = 0\<rparr>"
  have p: "pf_size fr < 0x10000" using assms(2) by (simp add: frame_ok_def)
  have l: "length (file_size_bytes st) = 142" using assms(4,5) by (simp add: file_size_bytes_def st_def)
  from call_struct_low [OF p, of "file_size_bytes st" bios ep "0x25" s] l obtain m b where
    c: "call_struct bios ep 0x25 (pf_size fr) (file_size_bytes st) s =
      (read_bytes (fst (bi_call bios (fst ep) (snd ep) 0x25 0 (ucast (pf_size fr)) (m, b))) (ucast (ucast (pf_size fr) :: u16)) 142,
       bi_call bios (fst ep) (snd ep) 0x25 0 (ucast (pf_size fr)) (m, b))"
      "read_bytes m (ucast (ucast (pf_size fr) :: u16)) 142 = file_size_bytes st" by auto
  have r: "file_size_read (read_bytes m (ucast (ucast (pf_size fr) :: u16)) 142) = st"
    unfolding c(2) by (rule file_size_read_bytes) (use assms(4,5) in \<open>simp_all add: st_def\<close>)
  from assms(1) [unfolded size_call_def, rule_format, of m "ucast (pf_size fr)" b] show ?thesis
    unfolding pxe_file_size_def assms(3) option.case Let_def st_def [symmetric] c(1) r
    by (auto simp: st_def split: prod.splits)
qed

lemma open_ok:
  assumes "open_call bios ep ip name file rest" "frame_ok fr" "name_field filename = Some name" "length ip = 4" "length name = 128"
  shows "\<exists>s'. pxe_open bios fr ep ip filename s = (True, s') \<and> rest (snd s') = file"
proof -
  define st where "st = \<lparr>to_status = 0, to_server_ip = ip, to_gateway_ip = replicate 4 0, to_filename = name,
    to_tftp_port = from_be (to_le 2 (69 :: u16)), to_packet_size = 512\<rparr>"
  have port: "from_be (to_le 2 (69 :: u16)) = (0x4500 :: u16)" by code_simp
  have p: "pf_open fr < 0x10000" using assms(2) by (simp add: frame_ok_def)
  have l: "length (open_bytes st) = 142" using assms(4,5) by (simp add: open_bytes_def st_def)
  from call_struct_low [OF p, of "open_bytes st" bios ep "0x20" s] l obtain m b where
    c: "call_struct bios ep 0x20 (pf_open fr) (open_bytes st) s =
      (read_bytes (fst (bi_call bios (fst ep) (snd ep) 0x20 0 (ucast (pf_open fr)) (m, b))) (ucast (ucast (pf_open fr) :: u16)) 142,
       bi_call bios (fst ep) (snd ep) 0x20 0 (ucast (pf_open fr)) (m, b))"
      "read_bytes m (ucast (ucast (pf_open fr) :: u16)) 142 = open_bytes st" by auto
  have r: "open_read (read_bytes m (ucast (ucast (pf_open fr) :: u16)) 142) = st"
    unfolding c(2) by (rule open_read_bytes) (use assms(4,5) in \<open>simp_all add: st_def\<close>)
  from assms(1) [unfolded open_call_def, rule_format, of m "ucast (pf_open fr)" b] show ?thesis
    unfolding pxe_open_def assms(3) option.case Let_def st_def [symmetric] c(1) r
    by (auto simp: st_def port split: prod.splits)
qed

lemma read_ok:
  assumes "read_call bios ep rest" "frame_ok fr"
  shows "\<exists>buf s'. pxe_read bios fr ep s = ((0, min 512 (length (rest (snd s))), buf), s') \<and>
    take (min 512 (length (rest (snd s)))) buf = take 512 (rest (snd s)) \<and> rest (snd s') = drop 512 (rest (snd s))"
proof -
  define st where "st = \<lparr>tr_status = 0, tr_packet_number = 0, tr_bytes_read = 0, tr_buffer_off = ucast (pf_buf fr), tr_buffer_seg = 0\<rparr>"
  define s0 where "s0 = (store_bytes (fst s) (pf_buf fr) (replicate 512 0), snd s)"
  have p: "pf_read fr < 0x10000" "pf_buf fr < 0x10000" using assms(2) by (simp_all add: frame_ok_def)
  have l: "length (read_request st) = 10" by (simp add: read_request_def)
  from call_struct_low [OF p(1), of "read_request st" bios ep "0x22" s0] l obtain m b where
    c: "call_struct bios ep 0x22 (pf_read fr) (read_request st) s0 =
      (read_bytes (fst (bi_call bios (fst ep) (snd ep) 0x22 0 (ucast (pf_read fr)) (m, b))) (ucast (ucast (pf_read fr) :: u16)) 10,
       bi_call bios (fst ep) (snd ep) 0x22 0 (ucast (pf_read fr)) (m, b))" "b = snd s"
      "read_bytes m (ucast (ucast (pf_read fr) :: u16)) 10 = read_request st" by (auto simp: s0_def)
  have r: "read_answer (read_bytes m (ucast (ucast (pf_read fr) :: u16)) 10) = st" unfolding c(3) by (rule read_answer_request)
  have q: "segoff_to_linear (tr_buffer_seg st) (tr_buffer_off st) = pf_buf fr"
    using low_pointer [OF p(2)] by (simp add: st_def segoff_to_linear_def)
  have o: "unat (ucast (pf_read fr) :: u16) = unat (pf_read fr)"
    using p(1) by (simp add: unsigned_ucast_eq take_bit_eq_mod word_less_nat_alt)
  have t: "take (min 512 k) (read_bytes m' a 512) = read_bytes m' a (min 512 k)" for m' :: "64 memory" and a k
    by (simp add: read_bytes_def take_map min_def)
  show ?thesis
    using assms(1) [unfolded read_call_def, rule_format, of m "ucast (pf_read fr)" b] assms(2)
    unfolding pxe_read_def s0_def [symmetric] st_def [symmetric] Let_def c(1) r q o
    by (auto simp: frame_ok_def c(2) t split: prod.splits)
qed

lemma read_all_ok:
  assumes "read_call bios ep rest" "frame_ok fr" "download @ rest (snd s) = file"
  shows "\<exists>s'. pxe_read_all bios fr ep (length file) download s = (Some file, s')"
  using assms(3)
proof (induction "length (rest (snd s))" arbitrary: download s rule: less_induct)
  case less
  from read_ok [OF assms(1,2), of s] obtain buf s' where
    r: "pxe_read bios fr ep s = ((0, min 512 (length (rest (snd s))), buf), s')"
      "take (min 512 (length (rest (snd s)))) buf = take 512 (rest (snd s))" "rest (snd s') = drop 512 (rest (snd s))" by blast
  have len: "length file = length download + length (rest (snd s))" using less.prems by auto
  show ?case
  proof (cases "length (rest (snd s)) < 512")
    case True
    then show ?thesis using r less.prems len by (simp add: pxe_read_all.simps)
  next
    case False
    have "length (rest (snd s')) < length (rest (snd s))" using False r(3) by simp
    from less.hyps [OF this, of "download @ take 512 (rest (snd s))"] less.prems r(3)
    obtain s'' where "pxe_read_all bios fr ep (length file) (download @ take 512 (rest (snd s))) s' = (Some file, s'')" by auto
    then show ?thesis using r False len by (simp add: pxe_read_all.simps [of _ _ _ _ download])
  qed
qed

lemma close_ok:
  assumes "close_call bios ep" "frame_ok fr"
  shows "\<exists>s'. pxe_close bios fr ep s = (True, s')"
proof -
  have p: "pf_status fr < 0x10000" using assms(2) by (simp add: frame_ok_def)
  show ?thesis
    using assms(1) call_struct_low [OF p, of "to_le 2 (0 :: u16)" bios ep "0x21" s]
    unfolding pxe_close_def close_call_def by (auto simp: Let_def)
qed

text \<open>C34: with a BIOS that keeps to the PXE specification and a server that has the file, the download returns
  every byte of the file, in order and in a vector of exactly its size; it panics only if the
  vector cannot be allocated. This holds for every size, multiples of the packet size
  included. (The loop ends on every BIOS: it is a total function.)\<close>

theorem pxe_download_file:
  assumes "pxe_installed bios ep s" "frame_ok fr" "length filename < 128" "name_field filename = Some name" "length ip = 4"
    and "ack_call bios ep ip" "size_call bios ep ip name file" "open_call bios ep ip name file rest"
    and "read_call bios ep rest" "close_call bios ep"
  shows "case vec_with_capacity (length file) pmem of
      Panic msg \<Rightarrow> pxe_download bios fr filename pmem s = Panic msg
    | Ok (p, pmem') \<Rightarrow> \<exists>s'. pxe_download bios fr filename pmem s = Ok (Some (p, length file, file), pmem', s')"
proof -
  have n: "length name = 128" using name_field_some [OF assms(3)] assms(4) by simp
  obtain s1 where 1: "pxe_entry_point bios s = (Some ep, s1)" using entry_point_ok [OF assms(1)] by blast
  obtain s2 where 2: "pxe_server_ip bios fr ep s1 = Ok (Some ip, s2)" using server_ip_ok [OF assms(6,2)] by blast
  obtain s3 where 3: "pxe_file_size bios fr ep ip filename s2 = (Some (length file), s3)"
    using file_size_ok [OF assms(7,2,4,5) n] by blast
  obtain s4 where 4: "pxe_open bios fr ep ip filename s3 = (True, s4)" "rest (snd s4) = file"
    using open_ok [OF assms(8,2,4,5) n] by blast
  obtain s5 where 5: "pxe_read_all bios fr ep (length file) [] s4 = (Some file, s5)"
    using read_all_ok [OF assms(9,2), where download = "[]" and s = s4] 4(2) by auto
  obtain s6 where 6: "pxe_close bios fr ep s5 = (True, s6)" using close_ok [OF assms(10,2)] by blast
  show ?thesis using 1 2 3 4 5 6 by (auto simp: pxe_download_def split: res.splits)
qed
subsection \<open>A BIOS with a server\<close>

definition sample_pxenv :: bytes where
  "sample_pxenv = byte_string ''PXENV+'' @ [0, 2, 0x2c, 133] @ replicate 30 0 @ [0x00, 0x01, 0x00, 0x90]"

definition sample_pxe :: bytes where
  "sample_pxe = byte_string ''!PXE'' @ [0x58, 196] @ replicate 10 0 @ [0x34, 0x12, 0x00, 0x90] @ replicate 68 0"

definition sample_file :: bytes where
  "sample_file = replicate 512 7 @ [1, 2, 3]"

definition sample_bios :: "bytes Bios" where
  "sample_bios = \<lparr>bi_e820 = (\<lambda>i r e s. (r, e, s)),
     bi_int = (\<lambda>i r (m, b). (regs_default\<lparr>eax := 0x564e, reg_es := 0x9000\<rparr>,
       (store_bytes (store_bytes m 0x90000 sample_pxenv) 0x90100 sample_pxe, b))),
     bi_call = (\<lambda>seg off opcode pseg poff (m, b).
       let p = ucast poff in
       if opcode = 0x71 then
         (store_bytes (store_bytes m 0x20014 [192, 168, 0, 1]) p (cached_bytes \<lparr>gc_status = 0, gc_packet_type = 2,
            gc_buffer_size = 0x18, gc_buffer_off = 0, gc_buffer_seg = 0x2000, gc_buffer_limit = 0\<rparr>), b)
       else if opcode = 0x25 then
         (store_bytes m p (file_size_bytes \<lparr>gf_status = 0, gf_server_ip = replicate 4 0, gf_gateway_ip = replicate 4 0,
            gf_filename = replicate 128 0, gf_file_size = 515\<rparr>), b)
       else if opcode = 0x20 then
         (store_bytes m p (open_bytes \<lparr>to_status = 0, to_server_ip = replicate 4 0, to_gateway_ip = replicate 4 0,
            to_filename = replicate 128 0, to_tftp_port = 0, to_packet_size = 512\<rparr>), sample_file)
       else if opcode = 0x22 then
         (let st = read_answer (read_bytes m p 10);
              buf = segoff_to_linear (tr_buffer_seg st) (tr_buffer_off st)
          in (store_bytes (store_bytes m buf (take 512 b)) p
                (read_request (st\<lparr>tr_status := 0, tr_bytes_read := word_of_nat (min 512 (length b))\<rparr>)), drop 512 b))
       else (store_bytes m p [0, 0], b))\<rparr>"

lemma read_bytes_part:
  "j + k \<le> n \<Longrightarrow> take k (drop j (read_bytes m p n)) = read_bytes m (p + word_of_nat j) k"
  by (auto intro!: nth_equalityI simp: read_bytes_def algebra_simps)

lemma sample_lengths:
  "length (cached_bytes st) = 12" "length (read_request rq) = 10" "length sample_pxenv = 0x2c" "length sample_pxe = 0x58"
  by (simp_all add: cached_bytes_def read_request_def sample_pxenv_def sample_pxe_def byte_string_def)

lemma low_address: "unat (ucast (off :: u16) :: u64) < 0x10000" "unat (ucast off :: u64) = unat off"
  using unsigned_less [of off, where 'a = nat] by (simp_all add: unsigned_ucast_eq take_bit_nat_eq_self)

lemma sample_installed: "pxe_installed sample_bios (0x9000, 0x1234) s"
proof -
  obtain m b where s: "s = (m, b)" by (cases s)
  define m1 where "m1 = store_bytes (store_bytes m 0x90000 sample_pxenv) 0x90100 sample_pxe"
  have 1: "read_bytes m1 0x90000 44 = sample_pxenv" unfolding m1_def
    by (subst read_store_other) (simp_all add: sample_lengths read_store_same)
  have 2: "read_bytes m1 0x90100 88 = sample_pxe" unfolding m1_def by (simp add: sample_lengths read_store_same)
  have 3: "le16 sample_pxenv 0x2a = 0x9000" "le16 sample_pxenv 0x28 = 0x100" "le16 sample_pxe 0x12 = 0x9000" "le16 sample_pxe 0x10 = 0x1234"
    "take 6 sample_pxenv = byte_string ''PXENV+''" "sample_pxenv ! 8 = 0x2c" "foldl (+) 0 sample_pxenv = 0"
    "take 4 sample_pxe = byte_string ''!PXE''" "sample_pxe ! 4 = 0x58" "foldl (+) 0 sample_pxe = 0"
    by code_simp+
  have 4: "segoff_to_linear 0x9000 0 = 0x90000" "segoff_to_linear 0x9000 0x100 = 0x90100" by (simp_all add: segoff_to_linear_def)
  show ?thesis
    using 1 2 3 4 by (simp add: pxe_installed_def sample_bios_def s m1_def [symmetric] regs_default_def Let_def)
qed

lemma sample_ack: "ack_call sample_bios ep [192, 168, 0, 1]"
proof -
  have 1: "drop 20 (read_bytes (store_bytes (store_bytes m 0x20014 [192, 168, 0, 1]) p (cached_bytes st)) 0x20000 24) = [192, 168, 0, 1]"
    if "unat p < 0x10000" for m :: "64 memory" and p :: u64 and st
  proof -
    have "read_bytes (store_bytes (store_bytes m 0x20014 [192, 168, 0, 1]) p (cached_bytes st)) 0x20014 4 = [192, 168, 0, 1]"
      by (subst read_store_other) (use that in \<open>simp_all add: sample_lengths read_store_same\<close>)
    then show ?thesis using read_bytes_part [of 20 4 24 "store_bytes (store_bytes m 0x20014 [192, 168, 0, 1]) p (cached_bytes st)" "0x20000"]
      by simp
  qed
  show ?thesis
    unfolding ack_call_def sample_bios_def
    by (simp add: read_store_same sample_lengths cached_read_bytes segoff_to_linear_def 1 [OF low_address(1)] Let_def)
qed

lemma sample_size: "size_call sample_bios ep ip name sample_file"
  unfolding size_call_def sample_bios_def
  by (simp add: read_store_same file_size_bytes_def file_size_read_def from_le_to_le sample_file_def Let_def)

lemma sample_open: "open_call sample_bios ep ip name sample_file (\<lambda>b. b)"
  unfolding open_call_def sample_bios_def
  by (simp add: read_store_same open_bytes_def open_read_def Let_def)

lemma sample_close: "close_call sample_bios ep"
  unfolding close_call_def sample_bios_def
  by (simp add: read_store_same le16_def Let_def)

lemma segoff_bound: "unat (segoff_to_linear seg off) < 0x110000"
proof -
  have "unat (push_bit 4 (ucast seg :: u64)) = 16 * unat seg"
    using unsigned_less [of seg, where 'a = nat] by (simp add: push_bit_eq_mult unat_word_ariths low_address)
  then show ?thesis using unsigned_less [of seg, where 'a = nat] unsigned_less [of off, where 'a = nat]
    by (simp add: segoff_to_linear_def unat_word_ariths low_address)
qed

lemma sample_read: "read_call sample_bios ep (\<lambda>b. b)"
proof -
  have 1: "read_bytes (store_bytes (store_bytes m (segoff_to_linear seg o1) bs) (ucast off) (read_request rq)) (segoff_to_linear seg o1) n = bs"
    if "unat (segoff_to_linear seg o1) + 512 \<le> unat off \<or> unat off + 10 \<le> unat (segoff_to_linear seg o1)" "n = length bs" "n \<le> 512"
    for m :: "64 memory" and off :: u16 and seg o1 bs rq n
    by (subst read_store_other) (use that low_address [of off] segoff_bound [of seg o1] in \<open>auto simp: sample_lengths read_store_same\<close>)
  have 2: "unat (word_of_nat (min k 512) :: u16) = min k 512" for k by (simp add: unat_of_nat min_def)
  show ?thesis
    unfolding read_call_def sample_bios_def
    by (simp add: read_store_same sample_lengths read_answer_request 1 2 Let_def min.commute)
qed

theorem pxe_download_file_witness:
  "\<exists>p pmem s'. pxe_download sample_bios \<lparr>pf_cached = 0x7000, pf_size = 0x7100, pf_open = 0x7200, pf_read = 0x7300, pf_buf = 0x7400,
     pf_status = 0x7600\<rparr> (byte_string ''chocolate_milk.kern'') (Some sample_free) (\<lambda>_. 0, []) =
       Ok (Some (p, 515, replicate 512 7 @ [1, 2, 3]), pmem, s')"
proof -
  have l: "live sample_free = [\<lparr>r_start = 0x100000, r_end = 0x1fffff\<rparr>]" by (simp add: sample_free_def live_def)
  have c: "count_ones (1 :: u64) = 1" unfolding count_ones_1 pow2_def by (rule exI [of _ 0]) simp
  have "\<exists>p rs'. rs_allocate 32 sample_free 515 1 = Ok (Some p, rs')"
    by (rule allocate_complete [OF sample_free_inv(1) _ c]) (simp_all add: l suits_def no_wrap_def align_fix_def mask_eq_exp_minus_1)
  then obtain p rs' where a: "rs_allocate 32 sample_free 515 1 = Ok (Some p, rs')" by blast
  have "p \<in> rs_addrs sample_free"
    using allocate_prefer_sound [OF sample_free_inv(1) a [unfolded rs_allocate_def]] by (auto simp: block_def)
  then have "p \<noteq> 0" by (auto simp: sample_free_inv)
  with a have v: "vec_with_capacity 515 (Some sample_free) = Ok (p, Some rs')" by (simp add: vec_with_capacity_def boot_alloc_def)
  let ?fr = "\<lparr>pf_cached = 0x7000, pf_size = 0x7100, pf_open = 0x7200, pf_read = 0x7300, pf_buf = 0x7400, pf_status = 0x7600\<rparr>"
  have f: "frame_ok ?fr" by (simp add: frame_ok_def)
  have n: "length (byte_string ''chocolate_milk.kern'') < 128" by (simp add: byte_string_def)
  then obtain name where name: "name_field (byte_string ''chocolate_milk.kern'') = Some name" using name_field_some by blast
  have "length sample_file = 515" by (simp add: sample_file_def)
  with pxe_download_file [OF sample_installed f n name _ sample_ack sample_size sample_open sample_read sample_close, of "Some sample_free" "(\<lambda>_. 0, [])"] v
  show ?thesis by (auto simp: sample_file_def)
qed

end
