(* ===== verification/BootMain_Correct.thy ===== *)
theory BootMain_Correct
  imports BootMain Pxe_Correct
begin

text \<open>
  What the page tables of the bootloader map: the window onto physical memory at every page size, the
  identity map of the trampoline, and the sections of the kernel with their bytes.
\<close>

unbundle bit_operations_syntax

subsection \<open>Addresses\<close>

lemma unat_drop_bit: "unat (drop_bit n (v :: u64)) = unat v div 2 ^ n"
  using unsigned_less [of v, where 'a = nat] by (simp only: unsigned_drop_bit_eq) (simp add: drop_bit_eq_div take_bit_nat_eq_self)

lemma canonical_high: "0xffff800000000000 \<le> v \<Longrightarrow> canonicalize_address v = v"
proof -
  assume "0xffff800000000000 \<le> v"
  then have "unat v div 2 ^ 47 = 131071" using unsigned_less [of v, where 'a = nat] by (simp add: word_le_nat_alt)
  then have d: "drop_bit 47 v = mask 17" by (simp only: word_unat_eq_iff unat_drop_bit) (simp add: mask_eq_exp_minus_1)
  have "bit v i" if "47 \<le> i" "i < 64" for i
    using that arg_cong [OF d, of "\<lambda>w. bit w (i - 47)"] by (simp only: bit_drop_bit_eq bit_mask_iff o_def) auto
  then show ?thesis by (intro bit_word_eqI) (auto simp: bit_canonicalize min_def)
qed

lemma canonical_low: "v < 0x800000000000 \<Longrightarrow> canonicalize_address v = v"
proof -
  assume "v < 0x800000000000"
  then have "unat v div 2 ^ 47 = 0" by (simp add: word_less_nat_alt)
  then have d: "drop_bit 47 v = 0" by (simp only: word_unat_eq_iff unat_drop_bit) simp
  have "\<not> bit v i" if "47 \<le> i" for i
    using that arg_cong [OF d, of "\<lambda>w. bit w (i - 47)"] by (simp only: bit_drop_bit_eq o_def) simp
  then show ?thesis by (intro bit_word_eqI) (auto simp: bit_canonicalize min_def)
qed

lemma same_page_div:
  assumes "canonicalize_address v = v" "canonicalize_address w = w"
  shows "same_page ty (indicies v) (indicies w) \<longleftrightarrow> unat v div 2 ^ page_bits ty = unat w div 2 ^ page_bits ty"
proof -
  have d: "unat v div 2 ^ page_bits ty = unat w div 2 ^ page_bits ty \<longleftrightarrow> drop_bit (page_bits ty) v = drop_bit (page_bits ty) w"
    by (simp only: word_unat_eq_iff unat_drop_bit)
  have f: "same_page ty (indicies v) (indicies w) \<longleftrightarrow> (\<forall>n \<in> {39, 30, 21, 12}. page_bits ty \<le> n \<longrightarrow> field n v = field n w)"
    by (cases ty) (auto simp: same_page_def indicies_fields page_bits_def numeral_2_eq_2 numeral_3_eq_3)
  show ?thesis
  proof
    assume "same_page ty (indicies v) (indicies w)"
    then have e: "field n v = field n w" if "n \<in> {39, 30, 21, 12}" "page_bits ty \<le> n" for n using f that by blast
    have "bit v i = bit w i" if "page_bits ty \<le> i" "i \<le> 47" for i
    proof -
      define n :: nat where "n = (if i < 21 then 12 else if i < 30 then 21 else if i < 39 then 30 else 39)"
      have "n \<in> {39, 30, 21, 12}" "n \<le> i" "i < n + 9" "page_bits ty \<le> n" using that page_bits_in [of ty] by (auto simp: n_def)
      then show ?thesis using e [of n] bit_field [of n v i] bit_field [of n w i] that by simp
    qed
    moreover have "page_bits ty \<le> 30" by (cases ty) (simp_all add: page_bits_def)
    ultimately have "bit v (min i 47) = bit w (min i 47)" if "page_bits ty \<le> i" for i using that by simp
    then have "bit v i = bit w i" if "page_bits ty \<le> i" "i < 64" for i
      unfolding canonical_bit [OF assms(1) that(2)] canonical_bit [OF assms(2) that(2)] using that(1) by blast
    then have "bit v i = bit w i" if "page_bits ty \<le> i" for i
      using that bit_imp_le_length [of v i] bit_imp_le_length [of w i] by (cases "i < 64") auto
    then have "drop_bit (page_bits ty) v = drop_bit (page_bits ty) w" by (intro bit_word_eqI) (simp add: bit_drop_bit_eq)
    then show "unat v div 2 ^ page_bits ty = unat w div 2 ^ page_bits ty" using d by blast
  next
    assume "unat v div 2 ^ page_bits ty = unat w div 2 ^ page_bits ty"
    then have "drop_bit (page_bits ty) v = drop_bit (page_bits ty) w" using d by blast
    then have "drop_bit n v = drop_bit n w" if "page_bits ty \<le> n" for n
      using that by (metis drop_bit_drop_bit le_add_diff_inverse2)
    then show "same_page ty (indicies v) (indicies w)" using f by (simp add: field_def)
  qed
qed

subsection \<open>Mapping a list of entries\<close>

abbreviation oom_panic :: "string \<Rightarrow> bool" where
  "oom_panic msg \<equiv> msg = ''Failed to allocate physical memory''"

definition wf_tables :: "boot_mem \<Rightarrow> u64 \<Rightarrow> bool" where
  "wf_tables s root \<longleftrightarrow> boot_ok s \<and> tree_ok (snd s) (boot_pages s) root"

text \<open>
  From \<open>s\<close> to \<open>s'\<close> the tables at \<open>root\<close> have come to represent \<open>L\<close>, and no page that was in use and was not
  one of the tables has changed.
\<close>

definition remapped :: "boot_mem \<Rightarrow> u64 \<Rightarrow> (u64 list \<Rightarrow> (PageType \<times> u64) option) \<Rightarrow> boot_mem \<Rightarrow> bool" where
  "remapped s root L s' \<longleftrightarrow> boot_ok s' \<and> boot_pages s \<subseteq> boot_pages s' \<and>
     keeps (data_pages (snd s) (boot_pages s) root) L (snd s) (snd s') (boot_pages s') root"

lemma remappedD:
  assumes "remapped s root L s'"
  shows "wf_tables s' root" "q \<in> addr_indices \<Longrightarrow> lookup (snd s') root q = L q"
  using assms by (auto simp: remapped_def wf_tables_def keeps_def)

lemma remapped_refl: "wf_tables s root \<Longrightarrow> remapped s root (lookup (snd s) root) s"
  by (simp add: remapped_def wf_tables_def keeps_start)

lemma remapped_trans:
  assumes "remapped s root L s1" "remapped s1 root L1 s2"
  shows "remapped s root L1 s2"
proof -
  let ?D = "data_pages (snd s) (boot_pages s) root" and ?D1 = "data_pages (snd s1) (boot_pages s1) root"
  have D: "?D \<subseteq> ?D1" "agree ?D (snd s) (snd s1)" "agree ?D1 (snd s1) (snd s2)"
    using assms by (auto simp: remapped_def keeps_def)
  then have "agree ?D (snd s) (snd s2)" by (auto simp: agree_def)
  with D assms show ?thesis by (auto simp: remapped_def keeps_def)
qed

lemma map_page_ok:
  assumes "wf_tables s root" "mappable (snd s) root v ty raw"
  shows "sat oom_panic (\<lambda>s'. remapped s root (\<lambda>q. if same_page ty q (indicies v) then Some (ty, raw) else lookup (snd s) root q) s' \<and>
      shallow (type_depth ty) (snd s) (snd s') root) (map_page \<lparr>table = root\<rparr> v ty raw s)"
proof -
  have I: "boot_ok s" and T: "tree_ok (pview boot_phys 0 s) (boot_pages s) root" using assms(1) by (simp_all add: wf_tables_def)
  from bmem.map_raw_ok [OF I T, of v ty raw, unfolded pview_boot] assms(2) boot_oom show ?thesis
    by (cases "map_raw boot_phys \<lparr>table = root\<rparr> s v ty raw") (auto simp: map_page_def unwrapR_def remapped_def)
qed

definition entry_map :: "PageType \<Rightarrow> (u64 \<times> u64) list \<Rightarrow> (u64 list \<Rightarrow> (PageType \<times> u64) option) \<Rightarrow> u64 list \<Rightarrow> (PageType \<times> u64) option" where
  "entry_map ty es L q = (case map_of (map (\<lambda>(v, raw). (take (type_depth ty) (indicies v), (ty, raw))) es) (take (type_depth ty) q) of
     Some e \<Rightarrow> Some e | None \<Rightarrow> L q)"

lemma map_entries_ok:
  assumes "wf_tables s root" "\<And>v raw. (v, raw) \<in> set es \<Longrightarrow> mappable (snd s) root v ty raw"
    and "distinct (map (\<lambda>(v, raw). take (type_depth ty) (indicies v)) es)"
  shows "sat oom_panic (remapped s root (entry_map ty es (lookup (snd s) root)))
    (foldR (\<lambda>s (v, raw). map_page \<lparr>table = root\<rparr> v ty raw s) s es)"
  using assms
proof (induction es arbitrary: s)
  case Nil
  then show ?case using remapped_refl by (auto simp: entry_map_def [abs_def])
next
  case (Cons e es)
  obtain v raw where e: "e = (v, raw)" by (cases e)
  let ?L = "\<lambda>q. if same_page ty q (indicies v) then Some (ty, raw) else lookup (snd s) root q"
  have m: "mappable (snd s) root v ty raw" using Cons.prems(2) e by simp
  have "sat oom_panic (remapped s root (entry_map ty (e # es) (lookup (snd s) root)))
      (bindR (map_page \<lparr>table = root\<rparr> v ty raw s) (\<lambda>s. foldR (\<lambda>s (v, raw). map_page \<lparr>table = root\<rparr> v ty raw s) s es))"
  proof (rule sat_bind [OF map_page_ok [OF Cons.prems(1) m]], erule conjE)
    fix s1 assume r: "remapped s root ?L s1" and sh: "shallow (type_depth ty) (snd s) (snd s1) root"
    have ne: "take (type_depth ty) (indicies w) \<noteq> take (type_depth ty) (indicies v)" if "(w, raw') \<in> set es" for w raw'
      using Cons.prems(3) that e by force
    have m1: "mappable (snd s1) root w ty raw'" if "(w, raw') \<in> set es" for w raw'
    proof -
      have w: "mappable (snd s) root w ty raw'" using Cons.prems(2) that by simp
      have "tbl (snd s1) root (take (type_depth ty) (indicies w)) = None" if "ty \<noteq> Page4K"
        using w that sh take_prefix [OF indicies_in, of "type_depth ty" w] type_depth_cases(4) [of ty]
        by (auto simp: mappable_def shallow_def indicies_def)
      moreover have "lookup (snd s1) root (indicies w) = None"
        using w remappedD(2) [OF r indicies_in] ne [OF that] by (simp add: mappable_def same_page_def)
      ultimately show ?thesis using w by (cases "ty = Page4K") (simp_all add: mappable_def)
    qed
    have "sat oom_panic (remapped s1 root (entry_map ty es (lookup (snd s1) root)))
        (foldR (\<lambda>s (v, raw). map_page \<lparr>table = root\<rparr> v ty raw s) s1 es)"
      using Cons.IH [OF remappedD(1) [OF r] m1] Cons.prems(3) by simp
    then show "sat oom_panic (remapped s root (entry_map ty (e # es) (lookup (snd s) root)))
        (foldR (\<lambda>s (v, raw). map_page \<lparr>table = root\<rparr> v ty raw s) s1 es)"
    proof (rule sat_mono)
      fix s2 assume r2: "remapped s1 root (entry_map ty es (lookup (snd s1) root)) s2"
      have k: "map_of (map (\<lambda>(v, raw). (take (type_depth ty) (indicies v), (ty, raw))) es) (take (type_depth ty) (indicies v)) = None"
        using ne by (fastforce simp: map_of_eq_None_iff)
      have "entry_map ty es (lookup (snd s1) root) q = entry_map ty (e # es) (lookup (snd s) root) q" if "q \<in> addr_indices" for q
        using remappedD(2) [OF r that] k e by (auto simp: entry_map_def same_page_def split: option.split)
      with remapped_trans [OF r r2] show "remapped s root (entry_map ty (e # es) (lookup (snd s) root)) s2"
        by (simp add: remapped_def keeps_def)
    qed
  qed
  then show ?case using e by simp
qed

subsection \<open>What an address is mapped to\<close>

definition maps_to :: "boot_mem \<Rightarrow> PageTable \<Rightarrow> u64 \<Rightarrow> u64 \<Rightarrow> bool" where
  "maps_to s pt v p \<longleftrightarrow> (\<exists>mp b o1. pt_translate boot_phys pt s v = Ok (Some mp) \<and> page mp = Some (b, o1) \<and> b + o1 = p)"

lemma maps_to_lookup:
  assumes "wf_tables s root" "canonicalize_address v = v" "lookup (snd s) root (indicies v) = Some (ty, raw)"
  shows "maps_to s \<lparr>table = root\<rparr> v ((eaddr raw AND NOT (page_bytes ty - 1)) + (v AND (page_bytes ty - 1)))"
proof -
  have I: "boot_ok s" and T: "tree_ok (pview boot_phys 0 s) (boot_pages s) root" using assms(1) by (simp_all add: wf_tables_def)
  show ?thesis using bmem.translate_mapping [OF I T, of v] assms(2,3) by (simp add: maps_to_def mapping_of_def page_of_def)
qed

lemma unat_take_bit: "unat (take_bit n (v :: u64)) = unat v mod 2 ^ n"
  unfolding unsigned_take_bit_eq by (simp add: take_bit_eq_mod)

lemma page_base_bits:
  assumes "unat (p0 :: u64) mod 2 ^ b = 0" "unat p0 < 2 ^ 52" "bit p0 i"
  shows "b \<le> i" "i < 52"
proof -
  have z: "take_bit b p0 = 0" by (simp only: word_unat_eq_iff unat_take_bit) (use assms(1) in simp)
  show "b \<le> i" using assms(3) arg_cong [OF z, of "\<lambda>w. bit w i"] by (simp only: bit_take_bit_iff) auto
  have h: "drop_bit 52 p0 = 0" by (simp only: word_unat_eq_iff unat_drop_bit) (use assms(2) in simp)
  show "i < 52"
  proof (rule ccontr)
    assume "\<not> i < 52"
    then show False using assms(3) arg_cong [OF h, of "\<lambda>w. bit w (i - 52)"] by (simp only: bit_drop_bit_eq o_def) auto
  qed
qed

text \<open>An entry with flags in its low bits leads back to the address of its page.\<close>

lemma entry_address:
  assumes p0: "unat p0 = k * 2 ^ page_bits ty" "unat p0 < 2 ^ 52" and fl: "\<And>i. bit fl i \<Longrightarrow> i < 12"
    and p: "unat p = unat p0 + r" "r < 2 ^ page_bits ty" and B: "unat (B + p) = unat B + unat p" "unat B mod 2 ^ page_bits ty = 0"
  shows "(eaddr (p0 OR fl) AND NOT (page_bytes ty - 1)) + ((B + p) AND (page_bytes ty - 1)) = (p :: u64)"
proof -
  let ?b = "page_bits ty"
  have b: "12 \<le> ?b" by (cases ty) (simp_all add: page_bits_def)
  have z: "unat p0 mod 2 ^ ?b = 0" by (simp add: p0(1))
  note bits = page_base_bits [OF z p0(2)]
  have 1: "eaddr (p0 OR fl) AND NOT (page_bytes ty - 1) = p0"
  proof (rule bit_word_eqI)
    fix i :: nat assume "i < LENGTH(64)"
    then show "bit (eaddr (p0 OR fl) AND NOT (page_bytes ty - 1)) i = bit p0 i"
      unfolding page_bytes_mask(1) using bits [of i] fl [of i] b by (auto simp: bit_and_iff bit_or_iff bit_not_iff bit_eaddr bit_mask_iff)
  qed
  have "unat ((B + p) AND (page_bytes ty - 1)) = (unat B + unat p) mod 2 ^ ?b"
    unfolding page_bytes_mask(1) take_bit_eq_mask [symmetric] unat_take_bit B(1) ..
  also have "\<dots> = unat p mod 2 ^ ?b" using B(2) by (metis add.left_neutral mod_add_left_eq)
  also have "\<dots> = r" using p by (simp add: p0(1))
  finally have 2: "unat ((B + p) AND (page_bytes ty - 1)) = r" .
  have "unat (p0 + ((B + p) AND (page_bytes ty - 1))) = unat p"
    using p(1) 2 unsigned_less [of p, where 'a = nat] by (simp add: unat_word_ariths)
  then show ?thesis unfolding 1 by (simp add: word_unat_eq_iff)
qed

subsection \<open>Lists of pages\<close>

lemma entry_map_mem:
  assumes "distinct (map (\<lambda>(v, raw). take (type_depth ty) (indicies v)) es)" "(v, raw) \<in> set es" "same_page ty q (indicies v)"
  shows "entry_map ty es L q = Some (ty, raw)"
proof -
  have "map_of (map (\<lambda>(v, raw). (take (type_depth ty) (indicies v), (ty, raw))) es) (take (type_depth ty) (indicies v)) = Some (ty, raw)"
    by (rule map_of_is_SomeI) (use assms(1,2) in \<open>force simp: o_def case_prod_unfold\<close>)+
  then show ?thesis using assms(3) by (simp add: entry_map_def same_page_def)
qed

lemma entry_map_other:
  assumes "\<And>v raw. (v, raw) \<in> set es \<Longrightarrow> \<not> same_page ty q (indicies v)"
  shows "entry_map ty es L q = L q"
proof -
  have "map_of (map (\<lambda>(v, raw). (take (type_depth ty) (indicies v), (ty, raw))) es) (take (type_depth ty) q) = None"
    using assms by (force simp: map_of_eq_None_iff same_page_def)
  then show ?thesis by (simp add: entry_map_def)
qed

lemma keys_distinct:
  assumes "distinct (map fst es)" "\<And>v. v \<in> fst ` set es \<Longrightarrow> canonicalize_address v = v \<and> unat v mod 2 ^ page_bits ty = 0"
  shows "distinct (map (\<lambda>(v, raw). take (type_depth ty) (indicies v)) es)"
proof -
  have "inj_on (\<lambda>v. take (type_depth ty) (indicies v)) (fst ` set es)"
  proof (rule inj_onI)
    fix v w assume v: "v \<in> fst ` set es" "w \<in> fst ` set es" and e: "take (type_depth ty) (indicies v) = take (type_depth ty) (indicies w)"
    have "unat v div 2 ^ page_bits ty = unat w div 2 ^ page_bits ty"
      using same_page_div [of v w ty] assms(2) v e by (simp add: same_page_def)
    then have "unat v = unat w" using assms(2) [OF v(1)] assms(2) [OF v(2)] by (metis mult_div_mod_eq)
    then show "v = w" by (simp add: word_unat_eq_iff)
  qed
  then have "distinct (map (\<lambda>v. take (type_depth ty) (indicies v)) (map fst es))"
    using assms(1) by (simp only: distinct_map set_map)
  then show ?thesis by (simp add: o_def case_prod_unfold)
qed
lemma page_bits_36: "page_bits ty \<le> 30" "12 \<le> page_bits ty" "unat (page_bytes ty) = 2 ^ page_bits ty"
  by (cases ty; simp add: page_bits_def)+

lemma step_unat: "i * 2 ^ page_bits ty < 2 ^ 36 \<Longrightarrow> unat (word_of_nat i * page_bytes ty) = i * 2 ^ page_bits ty"
proof -
  assume a: "i * 2 ^ page_bits ty < 2 ^ 36"
  have "i \<le> i * 2 ^ page_bits ty" by simp
  then have "i < 2 ^ 36" using a by (rule le_less_trans)
  then have "i < 2 ^ 64" by simp
  then have "unat (word_of_nat i :: u64) = i" by (simp add: unat_of_nat take_bit_nat_eq_self)
  then show ?thesis using a page_bits_36(3) [of ty] by (simp add: unat_word_ariths)
qed

lemma below_ceiling: "0 < (q :: nat) \<Longrightarrow> k < (n + q - Suc 0) div q \<longleftrightarrow> k * q < n"
proof -
  assume q: "0 < q"
  have "k < (n + q - 1) div q \<longleftrightarrow> (k + 1) * q \<le> n + q - 1"
    using less_eq_div_iff_mult_less_eq [OF q, of "k + 1" "n + q - 1"] by (simp only: Suc_eq_plus1 [symmetric] Suc_le_eq)
  also have "\<dots> \<longleftrightarrow> k * q < n" using q by (simp only: distrib_right) linarith
  finally show ?thesis by simp
qed

lemma set_steps: "set (steps_below n (page_bytes ty)) = {word_of_nat i * page_bytes ty | i. i * 2 ^ page_bits ty < unat n}"
proof -
  have "{0..<(unat n + 2 ^ page_bits ty - Suc 0) div 2 ^ page_bits ty} = {i. i * 2 ^ page_bits ty < unat n}"
    by (auto simp: below_ceiling)
  then show ?thesis by (auto simp: steps_below_def page_bits_36(3))
qed

lemma steps_in:
  assumes "p \<in> set (steps_below n (page_bytes ty))" "unat n \<le> 2 ^ 36"
  shows "\<exists>i. unat p = i * 2 ^ page_bits ty \<and> unat p < unat n"
  using assms step_unat [of _ ty] unfolding set_steps by fastforce

lemma steps_cover:
  assumes "x < unat n" "unat n \<le> 2 ^ 36"
  shows "\<exists>p \<in> set (steps_below n (page_bytes ty)). unat p = x div 2 ^ page_bits ty * 2 ^ page_bits ty"
proof -
  let ?i = "x div 2 ^ page_bits ty"
  have "?i * 2 ^ page_bits ty \<le> x" by simp
  then have "?i * 2 ^ page_bits ty < unat n" "?i * 2 ^ page_bits ty < 2 ^ 36" using assms by linarith+
  then show ?thesis using step_unat [of ?i ty] unfolding set_steps by blast
qed

lemma steps_distinct:
  assumes "unat n \<le> 2 ^ 36"
  shows "distinct (steps_below n (page_bytes ty))"
proof -
  have "inj_on (\<lambda>i. word_of_nat i * page_bytes ty) {0..<(unat n + 2 ^ page_bits ty - 1) div 2 ^ page_bits ty}"
  proof (rule inj_onI)
    fix i j assume ij: "i \<in> {0..<(unat n + 2 ^ page_bits ty - 1) div 2 ^ page_bits ty}" "j \<in> {0..<(unat n + 2 ^ page_bits ty - 1) div 2 ^ page_bits ty}"
      and e: "word_of_nat i * page_bytes ty = word_of_nat j * page_bytes ty"
    have "i * 2 ^ page_bits ty < 2 ^ 36" "j * 2 ^ page_bits ty < 2 ^ 36" using ij assms by (auto simp: below_ceiling)
    note u = step_unat [OF this(1)] step_unat [OF this(2)]
    have "i * 2 ^ page_bits ty = j * 2 ^ page_bits ty" using arg_cong [OF e, of unat] unfolding u .
    then show "i = j" by simp
  qed
  then show ?thesis by (simp add: steps_below_def page_bits_36(3) distinct_map)
qed

subsection \<open>The window and the trampoline\<close>

text \<open>The addresses from \<open>B\<close> on are mapped to the first \<open>n\<close> bytes of physical memory.\<close>

definition covers :: "(u64 list \<Rightarrow> (PageType \<times> u64) option) \<Rightarrow> u64 \<Rightarrow> nat \<Rightarrow> PageType \<Rightarrow> bool" where
  "covers L B n ty \<longleftrightarrow> (\<forall>p. unat p < n \<longrightarrow> (\<exists>p0. unat p0 = unat p div 2 ^ page_bits ty * 2 ^ page_bits ty \<and>
     L (indicies (B + p)) = Some (ty, p0 OR window_size_bit ty OR PAGE_WRITE OR PAGE_PRESENT)))"

definition window_base :: "u64 \<Rightarrow> bool" where
  "window_base B \<longleftrightarrow> B = 0 \<or> B = KERNEL_PHYS_WINDOW_BASE"

lemma window_address:
  assumes "window_base B" "unat p < 2 ^ 36"
  shows "unat (B + p) = unat B + unat p" "canonicalize_address (B + p) = B + p" "unat B mod 2 ^ page_bits ty = 0"
proof -
  show u: "unat (B + p) = unat B + unat p"
    using assms by (auto simp: window_base_def KERNEL_PHYS_WINDOW_BASE_def unat_word_ariths)
  show "canonicalize_address (B + p) = B + p"
  proof (cases "B = 0")
    case True
    then show ?thesis using assms(2) by (intro canonical_low) (simp add: word_less_nat_alt)
  next
    case False
    then have "B = 0xffffcafe00000000" using assms(1) by (simp add: window_base_def KERNEL_PHYS_WINDOW_BASE_def)
    then show ?thesis using u by (intro canonical_high) (simp add: word_le_nat_alt)
  qed
  show "unat B mod 2 ^ page_bits ty = 0"
    using assms(1) by (cases ty) (auto simp: window_base_def KERNEL_PHYS_WINDOW_BASE_def page_bits_def)
qed

lemma window_flags: "bit (window_size_bit ty OR PAGE_WRITE OR PAGE_PRESENT) i \<Longrightarrow> i < 12"
  unfolding window_size_bit_def PAGE_SIZE_def PAGE_WRITE_def PAGE_PRESENT_def
  by (cases "ty = Page4K") (simp_all only: bit_or_iff push_bit_of_1 bit_exp_iff if_True if_False bit_0_eq bot_apply bot_bool_def, auto)

lemma covers_maps:
  assumes "wf_tables s root" "\<And>q. q \<in> addr_indices \<Longrightarrow> lookup (snd s) root q = L q" "covers L B n ty" "window_base B"
    and "unat p < n" "n \<le> 2 ^ 36"
  shows "maps_to s \<lparr>table = root\<rparr> (B + p) p"
proof -
  from assms(3,5) obtain p0 where p0: "unat p0 = unat p div 2 ^ page_bits ty * 2 ^ page_bits ty"
    "L (indicies (B + p)) = Some (ty, p0 OR window_size_bit ty OR PAGE_WRITE OR PAGE_PRESENT)" by (auto simp: covers_def)
  have p: "unat p < 2 ^ 36" using assms(5,6) by simp
  note a = window_address [OF assms(4) p]
  have "unat p0 \<le> unat p" unfolding p0(1) by simp
  then have m1: "unat p0 < 2 ^ 52" using p by simp
  have m2: "unat p = unat p0 + unat p mod 2 ^ page_bits ty" unfolding p0(1) by (rule div_mult_mod_eq [symmetric])
  have m3: "unat p mod 2 ^ page_bits ty < 2 ^ page_bits ty" by simp
  have "(eaddr (p0 OR (window_size_bit ty OR PAGE_WRITE OR PAGE_PRESENT)) AND NOT (page_bytes ty - 1)) + ((B + p) AND (page_bytes ty - 1)) = p"
    by (rule entry_address [OF p0(1) m1 _ m2 m3 a(1) a(3)]) (rule window_flags)
  then show ?thesis
    using maps_to_lookup [OF assms(1) a(2), of ty "p0 OR window_size_bit ty OR PAGE_WRITE OR PAGE_PRESENT"] assms(2) [OF indicies_in] p0(2)
    by (simp add: or.assoc)
qed
lemma covers_entries:
  assumes d: "distinct (map (\<lambda>(v, raw). take (type_depth ty) (indicies v)) es)"
    and m: "\<And>p. p \<in> set (steps_below n (page_bytes ty)) \<Longrightarrow> (B + p, p OR window_size_bit ty OR PAGE_WRITE OR PAGE_PRESENT) \<in> set es"
    and B: "window_base B" "unat n \<le> 2 ^ 36"
  shows "covers (entry_map ty es L) B (unat n) ty"
  unfolding covers_def
proof (intro allI impI)
  fix p :: u64 assume p: "unat p < unat n"
  from steps_cover [OF p B(2), of ty] obtain p0 where
    p0: "p0 \<in> set (steps_below n (page_bytes ty))" "unat p0 = unat p div 2 ^ page_bits ty * 2 ^ page_bits ty" by blast
  have l: "unat p < 2 ^ 36" "unat p0 < 2 ^ 36" using p B(2) steps_in [OF p0(1) B(2)] by auto
  note a = window_address [OF B(1) l(1)] and a0 = window_address [OF B(1) l(2)]
  obtain c where c: "unat B = c * 2 ^ page_bits ty" using a(3) [of ty] by (metis add_0_right div_mult_mod_eq)
  have "unat (B + p) div 2 ^ page_bits ty = unat (B + p0) div 2 ^ page_bits ty" unfolding a(1) a0(1) p0(2) c by simp
  then have "same_page ty (indicies (B + p)) (indicies (B + p0))" using same_page_div [OF a(2) a0(2)] by blast
  from entry_map_mem [OF d m [OF p0(1)] this] p0(2)
  show "\<exists>p0. unat p0 = unat p div 2 ^ page_bits ty * 2 ^ page_bits ty \<and>
      entry_map ty es L (indicies (B + p)) = Some (ty, p0 OR window_size_bit ty OR PAGE_WRITE OR PAGE_PRESENT)" by blast
qed

definition fresh_tables :: "boot_mem \<Rightarrow> u64 \<Rightarrow> bool" where
  "fresh_tables s root \<longleftrightarrow> wf_tables s root \<and> (\<forall>q \<in> addr_indices. lookup (snd s) root q = None) \<and>
     (\<forall>p \<in> prefixes. p \<noteq> [] \<longrightarrow> tbl (snd s) root p = None)"

lemma fresh_mappable:
  assumes "fresh_tables s root" "canonicalize_address v = v"
  shows "mappable (snd s) root v ty (p OR window_size_bit ty OR PAGE_WRITE OR PAGE_PRESENT)"
proof -
  have "tbl (snd s) root (take (type_depth ty) (indicies v)) = None" if "ty \<noteq> Page4K"
    using that assms(1) take_prefix [OF indicies_in, of "type_depth ty" v] by (cases ty) (auto simp: fresh_tables_def indicies_def)
  moreover have "present (p OR window_size_bit ty OR PAGE_WRITE OR PAGE_PRESENT)"
    unfolding present_bit PAGE_PRESENT_def by (simp only: bit_or_iff push_bit_of_1 bit_exp_iff) simp
  moreover have "ty = Page4K \<or> large (p OR window_size_bit ty OR PAGE_WRITE OR PAGE_PRESENT)"
    unfolding large_bit window_size_bit_def PAGE_SIZE_def by (cases "ty = Page4K") (simp_all only: bit_or_iff push_bit_of_1 bit_exp_iff if_False, auto)
  ultimately show ?thesis using assms by (cases "ty = Page4K") (simp_all add: mappable_def fresh_tables_def)
qed

lemma foldR_map: "foldR f s (map g xs) = foldR (\<lambda>s x. f s (g x)) s xs"
  by (induction xs arbitrary: s) simp_all

lemma in_window:
  assumes "window_base B" "unat p < 2 ^ 36" "unat p = i * 2 ^ page_bits ty"
    and "unat w div 2 ^ page_bits ty = unat (B + p) div 2 ^ page_bits ty"
  shows "unat B \<le> unat w" "unat w < unat B + 2 ^ 36"
proof -
  let ?P = "2 ^ page_bits ty :: nat"
  note a = window_address [OF assms(1,2)]
  obtain c where c: "unat B = c * ?P" using a(3) [of ty] by (metis add_0_right div_mult_mod_eq)
  have "unat w div ?P = c + i" using assms(4) unfolding a(1) c assms(3) by simp
  then have w: "unat w = (c + i) * ?P + unat w mod ?P" by (metis div_mult_mod_eq)
  then show "unat B \<le> unat w" unfolding c by (simp add: distrib_right)
  have M: "2 ^ 36 = 2 ^ (36 - page_bits ty) * ?P" using page_bits_36(1) [of ty] by (simp flip: power_add)
  have "i * ?P < 2 ^ (36 - page_bits ty) * ?P" using assms(2) unfolding assms(3) M .
  then have "i < 2 ^ (36 - page_bits ty)" by (simp only: mult_less_cancel2)
  then have "(i + 1) * ?P \<le> 2 ^ 36" unfolding M by (intro mult_le_mono1) simp
  moreover have "unat w mod ?P < ?P" by simp
  ultimately show "unat w < unat B + 2 ^ 36" using w unfolding c distrib_right mult_1 by linarith
qed

lemma window_ok:
  assumes "fresh_tables s root"
  shows "sat oom_panic (\<lambda>s'. \<exists>L. remapped s root L s' \<and> covers L KERNEL_PHYS_WINDOW_BASE (2 ^ 36) (window_page f) \<and>
      (\<forall>w. canonicalize_address w = w \<longrightarrow> \<not> (KERNEL_PHYS_WINDOW_BASE \<le> w \<and> w < KERNEL_PHYS_WINDOW_BASE + KERNEL_PHYS_WINDOW_SIZE) \<longrightarrow>
        L (indicies w) = None)) (map_window f \<lparr>table = root\<rparr> s)"
proof -
  let ?ty = "window_page f" and ?W = KERNEL_PHYS_WINDOW_BASE and ?N = KERNEL_PHYS_WINDOW_SIZE
  let ?g = "\<lambda>p. (?W + p, p OR window_size_bit ?ty OR PAGE_WRITE OR PAGE_PRESENT)"
  define es where "es = map ?g (steps_below ?N (page_bytes ?ty))"
  have N: "unat ?N = 2 ^ 36" by (simp add: KERNEL_PHYS_WINDOW_SIZE_def)
  have W: "window_base ?W" by (simp add: window_base_def)
  have e: "\<exists>p i. v = ?W + p \<and> unat p = i * 2 ^ page_bits ?ty \<and> unat p < 2 ^ 36" if "v \<in> fst ` set es" for v
    using that steps_in [of _ ?N ?ty] by (auto simp: es_def N)
  have ec: "canonicalize_address v = v \<and> unat v mod 2 ^ page_bits ?ty = 0" if "v \<in> fst ` set es" for v
  proof -
    from e [OF that] obtain p i where p: "v = ?W + p" "unat p = i * 2 ^ page_bits ?ty" "unat p < 2 ^ 36" by blast
    note a = window_address [OF W p(3)]
    have "unat v mod 2 ^ page_bits ?ty = (unat ?W mod 2 ^ page_bits ?ty + unat p mod 2 ^ page_bits ?ty) mod 2 ^ page_bits ?ty"
      unfolding p(1) a(1) by (rule mod_add_eq [symmetric])
    then show ?thesis using a(2) a(3) [of ?ty] p(1,2) by simp
  qed
  have "distinct (map fst es)"
    using steps_distinct [of ?N ?ty] by (simp add: es_def N o_def distinct_map inj_on_def)
  from keys_distinct [OF this ec] have d: "distinct (map (\<lambda>(v, raw). take (type_depth ?ty) (indicies v)) es)" .
  have m: "mappable (snd s) root v ?ty raw" if "(v, raw) \<in> set es" for v raw
    using that ec [of v] fresh_mappable [OF assms] by (auto simp: es_def image_iff)
  have F: "map_window f \<lparr>table = root\<rparr> s = foldR (\<lambda>s (v, raw). map_page \<lparr>table = root\<rparr> v ?ty raw s) s es"
    unfolding es_def foldR_map map_window_def
    by (cases ?ty) (simp_all add: KERNEL_PHYS_WINDOW_SIZE_def Let_def)
  have c: "covers (entry_map ?ty es (lookup (snd s) root)) ?W (2 ^ 36) ?ty"
    using covers_entries [OF d _ W, of ?N "lookup (snd s) root"] N by (auto simp: es_def)
  have o: "entry_map ?ty es (lookup (snd s) root) (indicies w) = None"
    if w: "canonicalize_address w = w" "\<not> (?W \<le> w \<and> w < ?W + ?N)" for w
  proof -
    have "\<not> same_page ?ty (indicies w) (indicies v)" if vr: "(v, raw) \<in> set es" for v raw
    proof
      assume sp: "same_page ?ty (indicies w) (indicies v)"
      have v: "v \<in> fst ` set es" using vr by force
      from e [OF v] obtain p i where p: "v = ?W + p" "unat p = i * 2 ^ page_bits ?ty" "unat p < 2 ^ 36" by blast
      have "unat w div 2 ^ page_bits ?ty = unat (?W + p) div 2 ^ page_bits ?ty"
        using sp ec [OF v] same_page_div [OF w(1)] p(1) by blast
      from in_window [OF W p(3,2) this] w(2) show False
        by (simp add: word_le_nat_alt word_less_nat_alt KERNEL_PHYS_WINDOW_BASE_def KERNEL_PHYS_WINDOW_SIZE_def)
    qed
    from entry_map_other [OF this] assms show ?thesis by (simp add: fresh_tables_def)
  qed
  show ?thesis unfolding F
    by (rule sat_mono [OF map_entries_ok [OF _ m d]]) (use assms c o in \<open>auto simp: fresh_tables_def\<close>)
qed
lemma distinct_pairs:
  "distinct xs \<Longrightarrow> inj_on g (set xs) \<Longrightarrow> (\<And>x y. x \<in> set xs \<Longrightarrow> y \<in> set xs \<Longrightarrow> x \<noteq> g y) \<Longrightarrow>
    distinct (concat (map (\<lambda>p. [p, g p]) xs))"
  by (induction xs) (auto simp: inj_on_def)

lemma foldR_pairs:
  "foldR (\<lambda>s p. bindR (h s (a p)) (\<lambda>s. h s (b p))) s xs = foldR h s (concat (map (\<lambda>p. [a p, b p]) xs))"
  by (induction xs arbitrary: s) (auto simp: bindR_def split: res.splits)

lemma trampoline_ok:
  assumes "fresh_tables s root" "unat bootloader_end \<le> 2 ^ 32"
  shows "sat oom_panic (\<lambda>s'. \<exists>L. remapped s root L s' \<and> covers L 0 (unat bootloader_end) Page4K \<and>
      covers L KERNEL_PHYS_WINDOW_BASE (unat bootloader_end) Page4K) (map_trampoline \<lparr>table = root\<rparr> bootloader_end s)"
proof -
  let ?W = KERNEL_PHYS_WINDOW_BASE
  let ?raw = "\<lambda>p. p OR window_size_bit Page4K OR PAGE_WRITE OR PAGE_PRESENT"
  let ?xs = "steps_below bootloader_end (page_bytes Page4K)"
  define es where "es = concat (map (\<lambda>p. [(p, ?raw p), (?W + p, ?raw p)]) ?xs)"
  have n: "unat bootloader_end \<le> 2 ^ 36" using assms(2) by simp
  have B: "window_base 0" "window_base ?W" by (simp_all add: window_base_def)
  have x: "unat p < 2 ^ 36 \<and> unat p mod 2 ^ page_bits Page4K = 0" if "p \<in> set ?xs" for p using steps_in [OF that n] n by auto
  have e: "\<exists>B p. v = B + p \<and> window_base B \<and> p \<in> set ?xs" if "v \<in> fst ` set es" for v
    using that B by (auto simp: es_def) (metis add_0)+
  have ec: "canonicalize_address v = v \<and> unat v mod 2 ^ page_bits Page4K = 0" if "v \<in> fst ` set es" for v
  proof -
    from e [OF that] obtain b p where p: "v = b + p" "window_base b" "p \<in> set ?xs" by blast
    note a = window_address [OF p(2) x [OF p(3), THEN conjunct1]]
    have "unat v mod 2 ^ page_bits Page4K = (unat b mod 2 ^ page_bits Page4K + unat p mod 2 ^ page_bits Page4K) mod 2 ^ page_bits Page4K"
      unfolding p(1) a(1) by (rule mod_add_eq [symmetric])
    then show ?thesis using a(2) a(3) [of Page4K] p(1) x [OF p(3)] by simp
  qed
  have "map fst es = concat (map (\<lambda>p. [p, ?W + p]) ?xs)" by (simp add: es_def map_concat o_def)
  moreover have "distinct (concat (map (\<lambda>p. [p, ?W + p]) ?xs))"
  proof (rule distinct_pairs [OF steps_distinct [OF n]])
    fix p r assume "p \<in> set ?xs" "r \<in> set ?xs"
    then have "unat p < 2 ^ 36" "unat (?W + r) = unat ?W + unat r" using x window_address(1) [OF B(2)] by blast+
    then show "p \<noteq> ?W + r" by (auto simp: KERNEL_PHYS_WINDOW_BASE_def)
  qed (simp add: inj_on_def)
  ultimately have "distinct (map fst es)" by simp
  from keys_distinct [OF this ec] have d: "distinct (map (\<lambda>(v, raw). take (type_depth Page4K) (indicies v)) es)" .
  have m: "mappable (snd s) root v Page4K raw" if "(v, raw) \<in> set es" for v raw
  proof -
    have "canonicalize_address v = v" using that ec [of v] by force
    then show ?thesis using that fresh_mappable [OF assms(1)] by (auto simp: es_def)
  qed
  have F: "map_trampoline \<lparr>table = root\<rparr> bootloader_end s = foldR (\<lambda>s (v, raw). map_page \<lparr>table = root\<rparr> v Page4K raw s) s es"
    unfolding es_def foldR_pairs [symmetric] map_trampoline_def by (simp add: window_size_bit_def)
  have c: "covers (entry_map Page4K es (lookup (snd s) root)) b (unat bootloader_end) Page4K" if "window_base b" for b
    by (rule covers_entries [OF d _ that n]) (use that in \<open>auto simp: es_def window_base_def simp del: page_bytes.simps intro!: bexI\<close>)
  show ?thesis unfolding F
    by (rule sat_mono [OF map_entries_ok [OF _ m d]]) (use assms c B in \<open>auto simp: fresh_tables_def\<close>)
qed

lemma table_new_ok:
  assumes "boot_ok s"
  shows "sat oom_panic (\<lambda>(pt, s'). \<exists>root. pt = \<lparr>table = root\<rparr> \<and> fresh_tables s' root \<and> root \<notin> boot_pages s \<and> boot_pages s \<subseteq> boot_pages s' \<and>
      agree (boot_pages s) (snd s) (snd s')) (page_table_new boot_phys s)"
proof (cases "alloc_phys_zeroed boot_phys s (page_layout 4096)")
  case (Panic msg)
  with bmem.alloc_zeroed_ok [OF assms] assms have "bmem.oom msg" unfolding bmem.oom_def by (intro exI [of _ s]) simp
  with Panic boot_oom show ?thesis by (simp add: page_table_new_def)
next
  case (Ok r)
  obtain f s1 where r: "r = (f, s1)" by (cases r)
  have a: "boot_ok s1" "f \<notin> boot_pages s" "insert f (boot_pages s) \<subseteq> boot_pages s1" "agree (boot_pages s) (snd s) (snd s1)"
    "\<And>a. frame a = f \<Longrightarrow> snd s1 a = 0" using bmem.alloc_zeroed_ok [OF assms] unfolding Ok r by auto
  have "f \<in> boot_pages s1" "aligned f" using a(1,3) bmem.owned_page by auto
  from empty_tree [OF this a(5)] show ?thesis using Ok r a by (simp add: page_table_new_def fresh_tables_def wf_tables_def)
qed

subsection \<open>The sections of the kernel\<close>

abbreviation section_pages :: "Section \<Rightarrow> u64 list" where
  "section_pages sec \<equiv> page_addrs (s_vaddr sec) (ucast (s_vsize sec))"

text \<open>A section that can be loaded: not empty, on a page boundary, within canonical addresses.\<close>

definition section_ok :: "Section \<Rightarrow> bool" where
  "section_ok sec \<longleftrightarrow> s_vsize sec \<noteq> 0 \<and> aligned (s_vaddr sec) \<and> s_vaddr sec \<le> s_vaddr sec + (ucast (s_vsize sec) - 1) \<and>
     (\<forall>w \<in> set (section_pages sec). canonicalize_address w = w)"

text \<open>Every page of a section is mapped with its rights to a page that holds its bytes.\<close>

definition loaded :: "boot_mem \<Rightarrow> u64 \<Rightarrow> Section \<Rightarrow> bool" where
  "loaded s root sec \<longleftrightarrow> (\<forall>w \<in> set (section_pages sec). \<exists>fr. fr \<in> data_pages (snd s) (boot_pages s) root \<and>
     lookup (snd s) root (indicies w) = Some (Page4K, page_entry fr Page4K (s_write sec) (s_exec sec)) \<and>
     filled (snd s) (Some (section_byte (s_raw sec))) (w - s_vaddr sec) fr)"

lemma size_positive: "v \<noteq> 0 \<Longrightarrow> (ucast (v :: u32) :: u64) > 0"
proof -
  assume "v \<noteq> 0"
  then have "0 < unat v" by (simp add: unat_gt_0)
  then show ?thesis by (simp add: word_less_nat_alt unsigned_ucast_eq take_bit_nat_eq_self unsigned_less [of v, THEN order.strict_trans2])
qed

lemma load_section_ok:
  assumes "wf_tables s root" "section_ok sec" "\<forall>w \<in> set (section_pages sec). lookup (snd s) root (indicies w) = None"
  shows "\<exists>r. load_section \<lparr>table = root\<rparr> sec s = Some r \<and> sat oom_panic (\<lambda>s'. \<exists>L. remapped s root L s' \<and> loaded s' root sec \<and>
      (\<forall>q. q \<notin> indicies ` set (section_pages sec) \<longrightarrow> L q = lookup (snd s) root q)) r"
proof -
  let ?vs = "section_pages sec" and ?sz = "ucast (s_vsize sec) :: u64" and ?init = "Some (section_byte (s_raw sec))"
  have I: "boot_ok s" and T: "tree_ok (pview boot_phys 0 s) (boot_pages s) root" using assms(1) by (simp_all add: wf_tables_def)
  have ok: "?sz > 0" "s_vaddr sec \<le> s_vaddr sec + (?sz - 1)" "aligned (s_vaddr sec)" "\<And>w. w \<in> set ?vs \<Longrightarrow> canonicalize_address w = w"
    using assms(2) size_positive by (auto simp: section_ok_def)
  have dist: "distinct (map indicies ?vs)" by (rule page_addrs_distinct [OF ok])
  obtain r where r: "map_init boot_phys \<lparr>table = root\<rparr> s (s_vaddr sec) Page4K ?sz (s_read sec) (s_write sec) (s_exec sec) ?init = Some r"
    "sat bmem.oom (\<lambda>(x, s'). x = Some () \<and> boot_ok s' \<and> (\<exists>fs. mapped_range (s_write sec) (s_exec sec) ?init (s_vaddr sec) ?vs fs root
      (snd s) (boot_pages s) (snd s') (boot_pages s'))) r"
    using bmem.map_init_ok [OF I T ok(1-3), of "s_read sec" "s_write sec" "s_exec sec" ?init] ok(4) assms(3) by auto
  have "sat oom_panic (\<lambda>s'. \<exists>L. remapped s root L s' \<and> loaded s' root sec \<and>
      (\<forall>q. q \<notin> indicies ` set ?vs \<longrightarrow> L q = lookup (snd s) root q)) (bindR r (\<lambda>(_, s). Ok s))"
  proof (cases r)
    case (Panic msg)
    then show ?thesis using r(2) boot_oom by simp
  next
    case (Ok x)
    obtain y s' where x: "x = (y, s')" by (cases x)
    from r(2) [unfolded Ok x] obtain fs where s': "boot_ok s'" and mr: "mapped_range (s_write sec) (s_exec sec) ?init (s_vaddr sec) ?vs fs root
      (snd s) (boot_pages s) (snd s') (boot_pages s')" by auto
    let ?L = "new_mappings (s_write sec) (s_exec sec) ?vs fs (lookup (snd s) root)"
    note mr = mr [unfolded mapped_range_def]
    have rm: "remapped s root ?L s'" using s' mr by (simp add: remapped_def)
    have "loaded s' root sec"
      unfolding loaded_def
    proof
      fix w assume "w \<in> set ?vs"
      then obtain k where k: "k < length ?vs" "w = ?vs ! k" by (auto simp: in_set_conv_nth)
      have l: "length fs = length ?vs" using mr by blast
      have z: "(indicies w, fs ! k) \<in> set (zip (map indicies ?vs) fs)"
        unfolding set_zip using k l by (auto intro!: exI [of _ k])
      have "map_of (zip (map indicies ?vs) fs) (indicies w) = Some (fs ! k)"
        by (rule map_of_is_SomeI [OF _ z]) (use dist l in simp)
      then have "lookup (snd s') root (indicies w) = Some (Page4K, page_entry (fs ! k) Page4K (s_write sec) (s_exec sec))"
        using remappedD(2) [OF rm indicies_in] by (simp add: new_mappings_def)
      moreover have "fs ! k \<in> data_pages (snd s') (boot_pages s') root" using mr k(1) l nth_mem [of k fs] by auto
      moreover have "filled (snd s') ?init (w - s_vaddr sec) (fs ! k)"
        using list_all2_nthD [OF mr [THEN conjunct2, THEN conjunct2, THEN conjunct2, THEN conjunct2, THEN conjunct2, THEN conjunct2] k(1)]
        unfolding k(2) .
      ultimately show "\<exists>fr. fr \<in> data_pages (snd s') (boot_pages s') root \<and>
        lookup (snd s') root (indicies w) = Some (Page4K, page_entry fr Page4K (s_write sec) (s_exec sec)) \<and>
        filled (snd s') ?init (w - s_vaddr sec) fr" by blast
    qed
    moreover have "?L q = lookup (snd s) root q" if "q \<notin> indicies ` set ?vs" for q
    proof -
      have "map_of (zip (map indicies ?vs) fs) q = None" using that by (auto simp: map_of_eq_None_iff dest: set_zip_leftD)
      then show ?thesis by (simp add: new_mappings_def)
    qed
    ultimately show ?thesis using rm Ok x by auto
  qed
  moreover have "load_section \<lparr>table = root\<rparr> sec s = Some (bindR r (\<lambda>(_, s). Ok s))"
    using r(1) by (cases r) (auto simp: load_section_def)
  ultimately show ?thesis by blast
qed
lemma loaded_keep:
  assumes "loaded s root sec" "remapped s root L s'" "\<forall>w \<in> set (section_pages sec). L (indicies w) = lookup (snd s) root (indicies w)"
  shows "loaded s' root sec"
  unfolding loaded_def
proof
  fix w assume w: "w \<in> set (section_pages sec)"
  from assms(1) w obtain fr where fr: "fr \<in> data_pages (snd s) (boot_pages s) root"
     "lookup (snd s) root (indicies w) = Some (Page4K, page_entry fr Page4K (s_write sec) (s_exec sec))"
     "filled (snd s) (Some (section_byte (s_raw sec))) (w - s_vaddr sec) fr" by (auto simp: loaded_def)
  have k: "agree (data_pages (snd s) (boot_pages s) root) (snd s) (snd s')" "data_pages (snd s) (boot_pages s) root \<subseteq> data_pages (snd s') (boot_pages s') root"
    using assms(2) by (simp_all add: remapped_def keeps_def)
  show "\<exists>fr. fr \<in> data_pages (snd s') (boot_pages s') root \<and>
     lookup (snd s') root (indicies w) = Some (Page4K, page_entry fr Page4K (s_write sec) (s_exec sec)) \<and>
     filled (snd s') (Some (section_byte (s_raw sec))) (w - s_vaddr sec) fr"
    using fr k filled_agree [OF fr(3) k(1) fr(1)] remappedD(2) [OF assms(2) indicies_in] assms(3) w by (intro exI [of _ fr]) auto
qed

lemma section_pages_aligned: "section_ok sec \<Longrightarrow> w \<in> set (section_pages sec) \<Longrightarrow> aligned w \<and> canonicalize_address w = w"
proof -
  assume ok: "section_ok sec" and w: "w \<in> set (section_pages sec)"
  have s: "(ucast (s_vsize sec) :: u64) > 0" "s_vaddr sec \<le> s_vaddr sec + (ucast (s_vsize sec) - 1)"
    using ok size_positive by (auto simp: section_ok_def)
  from w obtain k where k: "k < unat ((ucast (s_vsize sec) - 1 :: u64) div 4096) + 1" "w = s_vaddr sec + word_of_nat k * 4096"
    by (auto simp: page_addrs_def simp del: upt_Suc)
  show ?thesis using page_addrs_nth [OF s k(1)] ok w k(2) by (simp add: aligned_unat section_ok_def)
qed

text \<open>Sections that do not share a page.\<close>

definition apart :: "Section list \<Rightarrow> bool" where
  "apart ss \<longleftrightarrow> (\<forall>i j. i < j \<and> j < length ss \<longrightarrow> set (section_pages (ss ! i)) \<inter> set (section_pages (ss ! j)) = {})"

lemma apart_Cons: "apart (sec # ss) \<Longrightarrow> apart ss \<and> (\<forall>sec' \<in> set ss. set (section_pages sec) \<inter> set (section_pages sec') = {})"
proof (intro conjI ballI)
  assume a: "apart (sec # ss)"
  show "apart ss" unfolding apart_def
  proof (intro allI impI)
    fix i j assume "i < j \<and> j < length ss"
    then show "set (section_pages (ss ! i)) \<inter> set (section_pages (ss ! j)) = {}"
      using a [unfolded apart_def, rule_format, of "Suc i" "Suc j"] by simp
  qed
  fix sec' assume "sec' \<in> set ss"
  then obtain j where "j < length ss" "sec' = ss ! j" by (auto simp: in_set_conv_nth)
  then show "set (section_pages sec) \<inter> set (section_pages sec') = {}"
    using a [unfolded apart_def, rule_format, of 0 "Suc j"] by simp
qed

lemma load_list_ok:
  assumes "wf_tables s root" "\<forall>sec \<in> set ss. section_ok sec" "apart ss"
    and "\<forall>sec \<in> set ss. \<forall>w \<in> set (section_pages sec). lookup (snd s) root (indicies w) = None"
  shows "\<exists>r. foldD (\<lambda>s sec. load_section \<lparr>table = root\<rparr> sec s) s ss = Some r \<and>
    sat oom_panic (\<lambda>s'. \<exists>L. remapped s root L s' \<and> (\<forall>sec \<in> set ss. loaded s' root sec) \<and>
      (\<forall>q. (\<forall>sec \<in> set ss. q \<notin> indicies ` set (section_pages sec)) \<longrightarrow> L q = lookup (snd s) root q)) r"
  using assms
proof (induction ss arbitrary: s)
  case Nil
  then show ?case using remapped_refl [of s root] by (auto intro!: exI [of _ "lookup (snd s) root"])
next
  case (Cons sec ss)
  note ap = apart_Cons [OF Cons.prems(3)]
  have ok: "section_ok sec" using Cons.prems(2) by simp
  have ne: "indicies w \<notin> indicies ` set (section_pages sec')" if "sec' \<in> set ss" "w \<in> set (section_pages sec)" for w sec'
  proof
    assume "indicies w \<in> indicies ` set (section_pages sec')"
    then obtain w' where w': "w' \<in> set (section_pages sec')" "indicies w = indicies w'" by blast
    have "section_ok sec'" using Cons.prems(2) that(1) by simp
    from section_pages_aligned [OF this w'(1)] section_pages_aligned [OF ok that(2)] have "w = w'"
      using indicies_inj [OF _ _ _ _ w'(2)] by blast
    then show False using ap that w'(1) by blast
  qed
  from load_section_ok [OF Cons.prems(1) ok] Cons.prems(4) obtain r where
    r: "load_section \<lparr>table = root\<rparr> sec s = Some r" "sat oom_panic (\<lambda>s'. \<exists>L. remapped s root L s' \<and> loaded s' root sec \<and>
      (\<forall>q. q \<notin> indicies ` set (section_pages sec) \<longrightarrow> L q = lookup (snd s) root q)) r" by auto
  show ?case
  proof (cases r)
    case (Panic msg)
    then show ?thesis using r by auto
  next
    case (Ok s1)
    from r(2) [unfolded Ok] obtain L1 where L1: "remapped s root L1 s1" "loaded s1 root sec"
      "\<And>q. q \<notin> indicies ` set (section_pages sec) \<Longrightarrow> L1 q = lookup (snd s) root q" by auto
    have "\<forall>sec' \<in> set ss. \<forall>w \<in> set (section_pages sec'). lookup (snd s1) root (indicies w) = None"
    proof (intro ballI)
      fix sec' w assume w: "sec' \<in> set ss" "w \<in> set (section_pages sec')"
      have "indicies w \<notin> indicies ` set (section_pages sec)"
      proof
        assume "indicies w \<in> indicies ` set (section_pages sec)"
        then obtain x where "x \<in> set (section_pages sec)" "indicies w = indicies x" by (rule imageE)
        with ne [OF w(1), of x] imageI [OF w(2), of indicies] show False by simp
      qed
      then show "lookup (snd s1) root (indicies w) = None"
        using L1(3) remappedD(2) [OF L1(1) indicies_in] Cons.prems(4) w by simp
    qed
    from Cons.IH [OF remappedD(1) [OF L1(1)] _ _ this] Cons.prems(2) ap obtain r2 where
      r2: "foldD (\<lambda>s sec. load_section \<lparr>table = root\<rparr> sec s) s1 ss = Some r2"
        "sat oom_panic (\<lambda>s'. \<exists>L. remapped s1 root L s' \<and> (\<forall>sec \<in> set ss. loaded s' root sec) \<and>
          (\<forall>q. (\<forall>sec \<in> set ss. q \<notin> indicies ` set (section_pages sec)) \<longrightarrow> L q = lookup (snd s1) root q)) r2" by auto
    show ?thesis
    proof (intro exI conjI)
      show "foldD (\<lambda>s sec. load_section \<lparr>table = root\<rparr> sec s) s (sec # ss) = Some r2" using r(1) Ok r2(1) by simp
      show "sat oom_panic (\<lambda>s'. \<exists>L. remapped s root L s' \<and> (\<forall>sec \<in> set (sec # ss). loaded s' root sec) \<and>
          (\<forall>q. (\<forall>sec \<in> set (sec # ss). q \<notin> indicies ` set (section_pages sec)) \<longrightarrow> L q = lookup (snd s) root q)) r2"
      proof (rule sat_mono [OF r2(2)], elim exE conjE)
        fix s2 L assume L: "remapped s1 root L s2" "\<forall>sec \<in> set ss. loaded s2 root sec"
          "\<forall>q. (\<forall>sec \<in> set ss. q \<notin> indicies ` set (section_pages sec)) \<longrightarrow> L q = lookup (snd s1) root q"
        have "loaded s2 root sec" by (rule loaded_keep [OF L1(2) L(1)]) (use L(3) ne in blast)
        moreover define L' where "L' q = (if q \<in> addr_indices then L q else lookup (snd s) root q)" for q
        have "remapped s root L' s2" using remapped_trans [OF L1(1) L(1)] by (simp add: L'_def remapped_def keeps_def)
        moreover have "L' q = lookup (snd s) root q" if "\<forall>sec \<in> set (sec # ss). q \<notin> indicies ` set (section_pages sec)" for q
          using that L(3) L1(3) [of q] remappedD(2) [OF L1(1), of q] by (simp add: L'_def)
        ultimately show "\<exists>L. remapped s root L s2 \<and> (\<forall>sec \<in> set (sec # ss). loaded s2 root sec) \<and>
          (\<forall>q. (\<forall>sec \<in> set (sec # ss). q \<notin> indicies ` set (section_pages sec)) \<longrightarrow> L q = lookup (snd s) root q)"
          using L(2) by (intro exI [of _ L']) simp
      qed
    qed
  qed
qed
lemma canonical_same_page:
  assumes "canonicalize_address w = w" "unat v div 4096 = unat w div 4096"
  shows "canonicalize_address v = v"
proof -
  have d: "drop_bit 12 v = drop_bit 12 w" by (simp only: word_unat_eq_iff unat_drop_bit) (use assms(2) in simp)
  have b: "bit v i = bit w i" if "12 \<le> i" for i
    using that arg_cong [OF d, of "\<lambda>x. bit x (i - 12)"] by (simp only: bit_drop_bit_eq o_def) simp
  show ?thesis unfolding canonical_iff
  proof (intro allI impI)
    fix i :: nat assume i: "47 < i \<and> i < 64"
    then show "bit v i = bit v 47" using b [of i] b [of 47] assms(1) [unfolded canonical_iff, rule_format, of i] by simp
  qed
qed

lemma eaddr_page_entry:
  assumes "aligned f" "f < 2 ^ 52"
  shows "eaddr (page_entry f Page4K wr ex) AND NOT (page_bytes Page4K - 1) = f"
proof (rule bit_word_eqI)
  fix i :: nat assume "i < LENGTH(64)"
  have u: "unat f mod 2 ^ 12 = 0" "unat f < 2 ^ 52" using assms by (simp_all add: aligned_unat word_less_nat_alt)
  note bits = page_base_bits [OF u]
  have fl: "bit (page_entry f Page4K wr ex) i \<longleftrightarrow> bit f i" if "12 \<le> i" "i < 52"
    unfolding page_entry_def PAGE_PRESENT_def PAGE_WRITE_def PAGE_NX_def
    using that by (cases wr; cases ex) (simp_all only: bit_or_iff push_bit_of_1 bit_exp_iff if_True if_False simp_thms, auto)
  show "bit (eaddr (page_entry f Page4K wr ex) AND NOT (page_bytes Page4K - 1)) i = bit f i"
    unfolding page_bytes_mask(1) using bits [of i] fl \<open>i < LENGTH(64)\<close>
    by (auto simp: bit_and_iff bit_not_iff bit_mask_iff bit_eaddr page_bits_def)
qed

lemma loaded_byte:
  assumes W: "wf_tables s root" and ok: "section_ok sec" and l: "loaded s root sec" and o1: "unat o1 < unat (s_vsize sec)"
  shows "\<exists>fr. lookup (snd s) root (indicies (s_vaddr sec + o1)) = Some (Page4K, page_entry fr Page4K (s_write sec) (s_exec sec)) \<and>
    maps_to s \<lparr>table = root\<rparr> (s_vaddr sec + o1) (fr + take_bit 12 o1) \<and> snd s (fr + take_bit 12 o1) = section_byte (s_raw sec) o1"
proof -
  let ?sz = "ucast (s_vsize sec) :: u64" and ?v = "s_vaddr sec + o1"
  have usz: "unat ?sz = unat (s_vsize sec)" using unsigned_less [of "s_vsize sec", where 'a = nat] by (simp add: unsigned_ucast_eq take_bit_nat_eq_self)
  have sz: "?sz > 0" "s_vaddr sec \<le> s_vaddr sec + (?sz - 1)" "aligned (s_vaddr sec)" using ok size_positive by (auto simp: section_ok_def)
  have um: "unat (?sz - 1) = unat (s_vsize sec) - 1" using sz(1) by (simp add: unat_sub word_less_nat_alt word_le_nat_alt usz)
  have nw: "unat (s_vaddr sec) + unat (?sz - 1) < 2 ^ 64" using sz(2) no_overflow_iff [of "s_vaddr sec" "?sz - 1"] by simp
  have uv: "unat ?v = unat (s_vaddr sec) + unat o1" using nw um o1 by (simp add: unat_word_ariths)
  define k where "k = unat o1 div 4096"
  have "k \<le> unat (?sz - 1) div 4096" unfolding k_def by (rule div_le_mono) (use um o1 in simp)
  then have k: "k < unat ((?sz - 1) div 4096) + 1" by (simp add: unat_div)
  define w where "w = s_vaddr sec + word_of_nat k * 4096"
  have w: "w \<in> set (section_pages sec)" using k unfolding page_addrs_def w_def by (auto simp del: upt_Suc)
  have uw: "unat w = unat (s_vaddr sec) + k * 4096" unfolding w_def by (rule page_addrs_nth [OF sz(1,2) k])
  have al: "unat (s_vaddr sec) mod 4096 = 0" using sz(3) by (simp add: aligned_unat)
  have dv: "unat ?v div 4096 = unat w div 4096" unfolding uv uw k_def using al by (auto simp: mod_eq_0_iff_dvd elim!: dvdE)
  have cw: "canonicalize_address w = w" using section_pages_aligned [OF ok w] by blast
  have cv: "canonicalize_address ?v = ?v" by (rule canonical_same_page [OF cw dv])
  have "same_page Page4K (indicies ?v) (indicies w)" using same_page_div [OF cv cw, of Page4K] dv by (simp add: page_bits_def)
  then have iv: "indicies ?v = indicies w" using same_page_4K by simp
  from l w obtain fr where fr: "fr \<in> data_pages (snd s) (boot_pages s) root"
     "lookup (snd s) root (indicies w) = Some (Page4K, page_entry fr Page4K (s_write sec) (s_exec sec))"
     "filled (snd s) (Some (section_byte (s_raw sec))) (w - s_vaddr sec) fr" by (auto simp: loaded_def)
  have f: "aligned fr" "fr < 2 ^ 52" using fr(1) W bmem.owned_page [of s fr] by (auto simp: data_pages_def wf_tables_def)
  have tb: "?v AND (page_bytes Page4K - 1) = take_bit 12 o1"
    unfolding page_bytes_mask(1) take_bit_eq_mask [symmetric]
    by (simp only: word_unat_eq_iff unat_take_bit uv page_bits_def PageType.case) (use al in \<open>auto simp: mod_eq_0_iff_dvd elim!: dvdE\<close>)
  have m: "maps_to s \<lparr>table = root\<rparr> ?v (fr + take_bit 12 o1)"
    using maps_to_lookup [OF W cv fr(2) [folded iv]] unfolding eaddr_page_entry [OF f] tb .
  have t12: "unat (take_bit 12 o1) < 4096" by (simp only: unat_take_bit) simp
  have "snd s (fr + take_bit 12 o1) = section_byte (s_raw sec) ((w - s_vaddr sec) + take_bit 12 o1)"
    using fr(3) frame_add [OF f(1) t12] by (simp add: filled_def)
  also have "(w - s_vaddr sec) + take_bit 12 o1 = o1"
  proof -
    have "unat (w - s_vaddr sec) = k * 4096" using uw by (simp add: unat_sub word_le_nat_alt)
    then have "unat ((w - s_vaddr sec) + take_bit 12 o1) = unat o1"
      using unsigned_less [of o1, where 'a = nat] by (simp add: unat_word_ariths unat_take_bit k_def)
    then show ?thesis by (simp add: word_unat_eq_iff)
  qed
  finally show ?thesis using m fr(2) iv by auto
qed

lemma load_sections_list:
  assumes "list_all2 (\<lambda>i sec. section_at 32 pe i = Ok (Some sec)) ixs ss"
  shows "load_sections pe pt ixs s = bindD (foldD (\<lambda>s sec. load_section pt sec s) s ss) (\<lambda>s. Some (Ok (Some s)))"
  using assms
proof (induction arbitrary: s rule: list_all2_induct)
  case (Cons i ixs sec ss)
  show ?case
  proof (cases "load_section pt sec s")
    case (Some r)
    then show ?thesis using Cons by (cases r) auto
  qed (use Cons in simp)
qed simp


text \<open>
  The pages in use before the kernel's tables were made are not tables of theirs, so the tables of the
  trampoline stay as they are.
\<close>

lemma other_tables_keep:
  assumes t: "wf_tables s0 r0" and f: "fresh_tables s1 root" "root \<notin> boot_pages s0" "boot_pages s0 \<subseteq> boot_pages s1"
      "agree (boot_pages s0) (snd s0) (snd s1)" and r: "remapped s1 root L s2"
  shows "wf_tables s2 r0" "q \<in> addr_indices \<Longrightarrow> lookup (snd s2) r0 q = lookup (snd s0) r0 q"
proof -
  have tb: "tbl (snd s1) root p = (if p = [] then Some root else None)" if "p \<in> prefixes" for p
    using f(1) that by (cases "p = []") (auto simp: fresh_tables_def)
  have "boot_pages s0 \<subseteq> data_pages (snd s1) (boot_pages s1) root" using f(2,3) tb by (auto simp: data_pages_def split: if_splits)
  then have ag: "agree (boot_pages s0) (snd s0) (snd s2)" using f(4) r by (auto simp: agree_def remapped_def keeps_def)
  have T: "tree_ok (snd s0) (boot_pages s0) r0" using t by (simp add: wf_tables_def)
  have "boot_pages s0 \<subseteq> boot_pages s2" using f(3) r by (auto simp: remapped_def)
  from tree_agree [OF T ag this] r show "wf_tables s2 r0" by (simp add: wf_tables_def remapped_def)
  show "q \<in> addr_indices \<Longrightarrow> lookup (snd s2) r0 q = lookup (snd s0) r0 q" by (rule lookup_agree [OF T ag])
qed

subsection \<open>Both tables\<close>

definition satD :: "(string \<Rightarrow> bool) \<Rightarrow> ('a \<Rightarrow> bool) \<Rightarrow> 'a res option \<Rightarrow> bool" where
  "satD P Q a \<longleftrightarrow> (\<exists>r. a = Some r \<and> sat P Q r)"

lemma satD_bind: "satD P Q a \<Longrightarrow> (\<And>x. Q x \<Longrightarrow> satD P R (f x)) \<Longrightarrow> satD P R (bindD a f)"
  unfolding satD_def by (elim exE conjE, rename_tac r, case_tac r) auto

lemma satD_Some: "sat P Q r \<Longrightarrow> satD P Q (Some r)"
  by (simp add: satD_def)

text \<open>What the two tables map when the bootloader is done with them.\<close>

definition tables_done :: "u64 \<Rightarrow> Section list \<Rightarrow> PageTable \<Rightarrow> PageTable \<Rightarrow> boot_mem \<Rightarrow> bool" where
  "tables_done bootloader_end ss tramp tab s \<longleftrightarrow>
     (\<forall>p < bootloader_end. maps_to s tramp p p \<and> maps_to s tramp (KERNEL_PHYS_WINDOW_BASE + p) p) \<and>
     (\<forall>p < KERNEL_PHYS_WINDOW_SIZE. maps_to s tab (KERNEL_PHYS_WINDOW_BASE + p) p) \<and>
     (\<forall>sec \<in> set ss. \<forall>o1. unat o1 < unat (s_vsize sec) \<longrightarrow> (\<exists>fr.
        lookup (snd s) (table tab) (indicies (s_vaddr sec + o1)) = Some (Page4K, page_entry fr Page4K (s_write sec) (s_exec sec)) \<and>
        maps_to s tab (s_vaddr sec + o1) (fr + take_bit 12 o1) \<and> snd s (fr + take_bit 12 o1) = section_byte (s_raw sec) o1))"

text \<open>Sections outside the window onto physical memory.\<close>

definition outside_window :: "Section \<Rightarrow> bool" where
  "outside_window sec \<longleftrightarrow> (\<forall>w \<in> set (section_pages sec).
     \<not> (KERNEL_PHYS_WINDOW_BASE \<le> w \<and> w < KERNEL_PHYS_WINDOW_BASE + KERNEL_PHYS_WINDOW_SIZE))"

lemma sections_loaded:
  assumes "header_ok 32 pe" "all_sections 32 pe = Some ss" "\<forall>sec \<in> set ss. section_ok sec \<and> outside_window sec" "apart ss"
    and w: "fresh_tables s1 root" "remapped s1 root L s2"
      "\<forall>w. canonicalize_address w = w \<longrightarrow> \<not> (KERNEL_PHYS_WINDOW_BASE \<le> w \<and> w < KERNEL_PHYS_WINDOW_BASE + KERNEL_PHYS_WINDOW_SIZE) \<longrightarrow> L (indicies w) = None"
  shows "satD oom_panic (\<lambda>r. \<exists>s3 L3. r = Some s3 \<and> remapped s1 root L3 s3 \<and> (\<forall>sec \<in> set ss. loaded s3 root sec) \<and>
      (\<forall>q \<in> addr_indices. (\<forall>sec \<in> set ss. q \<notin> indicies ` set (section_pages sec)) \<longrightarrow> L3 q = L q))
    (load_sections pe \<lparr>table = root\<rparr> [0..<num_sections pe] s2)"
proof -
  note a = all_sections_Some(1,2) [OF assms(1,2)]
  have la: "list_all2 (\<lambda>i sec. section_at 32 pe i = Ok (Some sec)) [0..<num_sections pe] ss"
    using a(1,2) by (simp add: list_all2_conv_all_nth)
  have n: "\<forall>sec \<in> set ss. \<forall>w \<in> set (section_pages sec). lookup (snd s2) root (indicies w) = None"
    using assms(3) w(3) remappedD(2) [OF w(2) indicies_in] by (auto simp: outside_window_def section_ok_def)
  have s: "\<forall>sec \<in> set ss. section_ok sec" using assms(3) by blast
  show ?thesis
    unfolding load_sections_list [OF la]
  proof (rule satD_bind [OF load_list_ok [OF remappedD(1) [OF w(2)] s assms(4) n, folded satD_def]], rule satD_Some, elim exE conjE)
    fix s3 L3 assume l: "remapped s2 root L3 s3" "\<forall>sec \<in> set ss. loaded s3 root sec"
      "\<forall>q. (\<forall>sec \<in> set ss. q \<notin> indicies ` set (section_pages sec)) \<longrightarrow> L3 q = lookup (snd s2) root q"
    have "\<forall>q \<in> addr_indices. (\<forall>sec \<in> set ss. q \<notin> indicies ` set (section_pages sec)) \<longrightarrow> L3 q = L q"
      using l(3) remappedD(2) [OF w(2)] by simp
    with l(2) remapped_trans [OF w(2) l(1)]
    show "sat oom_panic (\<lambda>r. \<exists>s3 L3. r = Some s3 \<and> remapped s1 root L3 s3 \<and> (\<forall>sec \<in> set ss. loaded s3 root sec) \<and>
      (\<forall>q \<in> addr_indices. (\<forall>sec \<in> set ss. q \<notin> indicies ` set (section_pages sec)) \<longrightarrow> L3 q = L q)) (Ok (Some s3))"
      unfolding sat_simps by (intro exI [of _ s3] exI [of _ L3] conjI refl)
  qed
qed

lemma page_floor: "(a :: nat) mod 4096 = 0 \<Longrightarrow> w mod 4096 = 0 \<Longrightarrow> (a + p) div 4096 = w div 4096 \<Longrightarrow> a \<le> w \<and> w \<le> a + p"
proof -
  assume "a mod 4096 = 0" "w mod 4096 = 0" and d: "(a + p) div 4096 = w div 4096"
  then obtain k j where e: "a = 4096 * k" "w = 4096 * j" unfolding mod_eq_0_iff_dvd dvd_def by blast
  have "j = k + p div 4096" using d unfolding e by simp
  then have "w = a + 4096 * (p div 4096)" unfolding e by simp
  then show ?thesis using mult_div_mod_eq [of 4096 p] by linarith
qed

lemma section_not_window:
  assumes "section_ok sec" "outside_window sec" "unat p < 2 ^ 36"
  shows "indicies (KERNEL_PHYS_WINDOW_BASE + p) \<notin> indicies ` set (section_pages sec)"
proof
  let ?W = KERNEL_PHYS_WINDOW_BASE
  note a = window_address [OF _ assms(3), of ?W, unfolded window_base_def, simplified]
  assume "indicies (?W + p) \<in> indicies ` set (section_pages sec)"
  then obtain w where w: "w \<in> set (section_pages sec)" "indicies (?W + p) = indicies w" by blast
  have "canonicalize_address w = w" using assms(1) w(1) by (simp add: section_ok_def)
  from same_page_div [OF a(2) this, of Page4K] w(2) have d: "unat (?W + p) div 4096 = unat w div 4096"
    by (simp add: same_page_def page_bits_def)
  have w0: "unat w mod 4096 = 0" using section_pages_aligned [OF assms(1) w(1)] unat_take_bit [of 12 w] by (simp add: aligned_def)
  have "unat ?W mod 4096 = 0" by (simp add: KERNEL_PHYS_WINDOW_BASE_def)
  from page_floor [OF this w0 d [unfolded a(1)]] assms(3) have "unat ?W \<le> unat w \<and> unat w < unat ?W + 2 ^ 36" by simp
  moreover have "unat (?W + KERNEL_PHYS_WINDOW_SIZE) = unat ?W + 2 ^ 36"
    by (simp add: KERNEL_PHYS_WINDOW_BASE_def KERNEL_PHYS_WINDOW_SIZE_def)
  ultimately show False using assms(2) w(1) by (auto simp: outside_window_def word_le_nat_alt word_less_nat_alt)
qed

lemma tables_done_ok:
  assumes t: "remapped s0 r0 L1 s1" "covers L1 0 (unat bootloader_end) Page4K" "covers L1 KERNEL_PHYS_WINDOW_BASE (unat bootloader_end) Page4K"
      "unat bootloader_end \<le> 2 ^ 32"
    and f: "fresh_tables s2 root" "root \<notin> boot_pages s1" "boot_pages s1 \<subseteq> boot_pages s2" "agree (boot_pages s1) (snd s1) (snd s2)"
    and w: "covers L3 KERNEL_PHYS_WINDOW_BASE (2 ^ 36) ty"
    and l: "remapped s2 root L4 s4" "\<forall>sec \<in> set ss. loaded s4 root sec"
      "\<forall>q \<in> addr_indices. (\<forall>sec \<in> set ss. q \<notin> indicies ` set (section_pages sec)) \<longrightarrow> L4 q = L3 q"
    and ok: "\<forall>sec \<in> set ss. section_ok sec \<and> outside_window sec"
  shows "tables_done bootloader_end ss \<lparr>table = r0\<rparr> \<lparr>table = root\<rparr> s4"
proof -
  let ?W = KERNEL_PHYS_WINDOW_BASE
  have B: "window_base 0" "window_base ?W" by (simp_all add: window_base_def)
  have n: "unat bootloader_end \<le> 2 ^ 36" using t(4) by simp
  note o = other_tables_keep [OF remappedD(1) [OF t(1)] f l(1)]
  have L1: "lookup (snd s4) r0 q = L1 q" if "q \<in> addr_indices" for q
    using o(2) [OF that] remappedD(2) [OF t(1) that] by simp
  have c4: "covers L4 ?W (2 ^ 36) ty" unfolding covers_def
  proof (intro allI impI)
    fix p :: u64 assume p: "unat p < 2 ^ 36"
    have "L4 (indicies (?W + p)) = L3 (indicies (?W + p))"
      using l(3) indicies_in section_not_window [OF _ _ p] ok by blast
    then show "\<exists>p0. unat p0 = unat p div 2 ^ page_bits ty * 2 ^ page_bits ty \<and>
        L4 (indicies (?W + p)) = Some (ty, p0 OR window_size_bit ty OR PAGE_WRITE OR PAGE_PRESENT)"
      using w p by (simp add: covers_def)
  qed
  note W4 = remappedD(1) [OF l(1)]
  show ?thesis unfolding tables_done_def PageTable.simps
  proof (intro conjI allI ballI impI)
    fix p assume "p < bootloader_end"
    then have p: "unat p < unat bootloader_end" by (simp add: word_less_nat_alt)
    show "maps_to s4 \<lparr>table = r0\<rparr> p p" using covers_maps [OF o(1) L1 t(2) B(1) p n] by simp
    show "maps_to s4 \<lparr>table = r0\<rparr> (?W + p) p" by (rule covers_maps [OF o(1) L1 t(3) B(2) p n])
  next
    fix p assume "p < KERNEL_PHYS_WINDOW_SIZE"
    then have "unat p < 2 ^ 36" by (simp add: word_less_nat_alt KERNEL_PHYS_WINDOW_SIZE_def)
    from covers_maps [OF W4 remappedD(2) [OF l(1)] c4 B(2) this] show "maps_to s4 \<lparr>table = root\<rparr> (?W + p) p" by simp
  next
    fix sec and o1 :: u64 assume "sec \<in> set ss" "unat o1 < unat (s_vsize sec)"
    then show "\<exists>fr. lookup (snd s4) root (indicies (s_vaddr sec + o1)) = Some (Page4K, page_entry fr Page4K (s_write sec) (s_exec sec)) \<and>
        maps_to s4 \<lparr>table = root\<rparr> (s_vaddr sec + o1) (fr + take_bit 12 o1) \<and> snd s4 (fr + take_bit 12 o1) = section_byte (s_raw sec) o1"
      using ok l(2) by (intro loaded_byte [OF W4]) auto
  qed
qed


text \<open>A kernel of one section.\<close>

definition sample_kernel :: bytes where
  "sample_kernel = [0x4d, 0x5a] @ replicate 58 0 @ [0x40, 0, 0, 0] @
     [0x50, 0x45, 0, 0, 0x64, 0x86, 1, 0] @ replicate 12 0 @ [0x20, 0, 0, 0] @
     replicate 16 0 @ [0, 0x10, 0, 0, 0, 0, 0, 0] @ [0, 0, 0, 0x37, 0x13, 0, 0, 0] @
     replicate 8 0 @ [8, 0, 0, 0, 0, 0x10, 0, 0, 4, 0, 0, 0, 0xa0, 0, 0, 0] @ replicate 12 0 @ [0x20, 0, 0, 0x60] @
     [1, 2, 3, 4]"

definition sample_kernel_pe :: PeParser where
  "sample_kernel_pe = \<lparr>pe_bytes = sample_kernel, num_sections = 1, section_off = 0x78, image_base = 0x1337000000, entry_point = 0x1337001000\<rparr>"

lemma sample_kernel_parsed: "pe_parse 32 sample_kernel = Ok (Some sample_kernel_pe)"
  by code_simp

definition sample_kernel_section :: Section where
  "sample_kernel_section = \<lparr>s_vaddr = 0x1337001000, s_vsize = 8, s_raw = [1, 2, 3, 4], s_read = True, s_write = False, s_exec = True\<rparr>"

lemma sample_kernel_sections: "all_sections 32 sample_kernel_pe = Some [sample_kernel_section]"
  by code_simp

lemma sample_section_ok: "section_ok sample_kernel_section \<and> outside_window sample_kernel_section"
proof -
  have "section_pages sample_kernel_section = [0x1337001000]" by code_simp
  then show ?thesis
    by (simp add: section_ok_def outside_window_def aligned_def sample_kernel_section_def KERNEL_PHYS_WINDOW_BASE_def canonicalize_address_def)
qed


end
