(* ===== verification/Smp.thy ===== *)
theory Smp
  imports Acpi
begin

text \<open>
  The start of all cores of the machine, at the granularity of their accesses to shared memory. Every core runs
  \<open>stage0.asm\<close>, the bootloader and \<open>entry\<close> of the kernel up to \<open>acpi::core_checkin\<close>; the first one also
  runs \<open>acpi::init\<close>, which starts the others. Shared are the flag \<open>stack_avail\<close> that guards the early
  boot stack, the counter \<open>CORE_ID\<close> of the bootloader, and the statics of \<open>acpi.rs\<close>. The cores are
  named by their APIC identifiers.
\<close>

unbundle bit_operations_syntax

subsection \<open>State\<close>

text \<open>
  Where a core is in the program. The identifier of the core is known from the moment it has been
  taken from the counter of the bootloader.
\<close>

datatype Place =
    Parked \<comment> \<open>not started\<close>
  | WaitSipi \<comment> \<open>reset, waiting for a start-up interrupt\<close>
  | Elsewhere u32 \<comment> \<open>started at another address\<close>
  | WaitForStack \<comment> \<open>the loop in \<open>pm_entry\<close>\<close>
  | Booting \<comment> \<open>the bootloader\<close>
  | Entering u32 \<comment> \<open>\<open>enter64\<close> and \<open>entry\<close> of the kernel, on the early boot stack\<close>
  | Starting u32 \<comment> \<open>\<open>entry\<close> after \<open>release_early_stack\<close>\<close>
  | Launching "u32 list" \<comment> \<open>the loop of \<open>acpi::init\<close>\<close>
  | Sending u32 "u32 list" "u32 list" \<comment> \<open>before sending the interrupts of the first list\<close>
  | WaitOnline u32 "u32 list" \<comment> \<open>waiting for a core to come online\<close>
  | Ready u32 \<comment> \<open>before \<open>core_checkin\<close>\<close>
  | CheckedIn u32 \<comment> \<open>online, not yet counted\<close>
  | WaitAll u32 \<comment> \<open>waiting for all cores\<close>
  | Running u32 \<comment> \<open>after \<open>core_checkin\<close>\<close>
  | Panicked string

record Smp =
  stack_avail :: u8
  next_core :: u32
  sm_acpi :: AcpiState
  places :: "u32 \<Rightarrow> Place"

definition smp_start :: "u32 \<Rightarrow> Smp" where
  "smp_start bsp = \<lparr>stack_avail = 1, next_core = 0, sm_acpi = acpi_start, places = (\<lambda>_. Parked)(bsp := WaitForStack)\<rparr>"

definition at :: "u32 \<Rightarrow> Place \<Rightarrow> Smp \<Rightarrow> Smp" where
  "at c p s = s\<lparr>places := (places s)(c := p)\<rparr>"

text \<open>The rest of a core whose access may panic.\<close>

definition goes_on :: "u32 \<Rightarrow> 'a res \<Rightarrow> ('a \<Rightarrow> Smp) \<Rightarrow> Smp \<Rightarrow> Smp" where
  "goes_on c r f s = (case r of Panic msg \<Rightarrow> at c (Panicked msg) s | Ok x \<Rightarrow> f x)"

subsection \<open>The early boot stack\<close>

text \<open>One round of \<open>.wait_for_stack\<close>: exchange the flag with zero.\<close>

definition take_stack :: "u32 \<Rightarrow> Smp \<Rightarrow> Smp" where
  "take_stack c s =
     (let al = stack_avail s; s = s\<lparr>stack_avail := 0\<rparr> in if al = 0 then s else at c Booting s)"

text \<open>The bootloader gives the core its identifier just before it enters the kernel.\<close>

definition fetch_core_id :: "u32 \<Rightarrow> Smp \<Rightarrow> Smp" where
  "fetch_core_id c s = at c (Entering (next_core s)) (s\<lparr>next_core := next_core s + 1\<rparr>)"

definition release_early_stack :: "u32 \<Rightarrow> u32 \<Rightarrow> Smp \<Rightarrow> Smp" where
  "release_early_stack c i s = at c (Starting i) (s\<lparr>stack_avail := 1\<rparr>)"

subsection \<open>Launching the other cores\<close>

text \<open>The core locals as far as the accesses of this theory use them.\<close>

definition smp_locals :: "u32 \<Rightarrow> u32 \<Rightarrow> CoreLocals" where
  "smp_locals i c = \<lparr>address = 0, core_id = i, interrupt_depth = auto_new 0, exception_depth = auto_new 0,
     interrupt_disable_outstanding = 1, apic_id_cell = c, interrupt_flag = False\<rparr>"

text \<open>The initialisation of the kernel: core 0 also registers the APICs that were found.\<close>

definition init_core :: "u32 list option \<Rightarrow> u32 \<Rightarrow> u32 \<Rightarrow> Smp \<Rightarrow> Smp" where
  "init_core found c i s =
     (if i = 0 then
        goes_on c (register_apics found (smp_locals i c) (sm_acpi s)) (\<lambda>a.
          at c (case found of Some valid_apics \<Rightarrow> Launching valid_apics | None \<Rightarrow> Ready i) (s\<lparr>sm_acpi := a\<rparr>)) s
      else at c (Ready i) s)"

text \<open>
  What an inter-processor interrupt does to a core: INIT resets it, a start-up interrupt starts a core that was
  reset at the page its vector names. \<open>ap_entry\<close> at \<open>0x8000\<close> jumps to the first stage.
\<close>

definition receive :: "u32 \<Rightarrow> Place \<Rightarrow> Place" where
  "receive icr p =
     (let mode = drop_bit 8 icr AND 7 in
      if mode = 5 then WaitSipi
      else if mode = 6 \<and> p = WaitSipi then
        if push_bit 12 (icr AND 0xff) = 0x8000 then WaitForStack else Elsewhere (push_bit 12 (icr AND 0xff))
      else p)"

fun launch_next :: "u32 \<Rightarrow> u32 list \<Rightarrow> Smp \<Rightarrow> Smp" where
  "launch_next c [] s = at c (Ready 0) s"
| "launch_next c (x # xs) s =
     (if c = x then at c (Launching xs) s
      else goes_on c (set_core_state x Launched (sm_acpi s)) (\<lambda>a.
        at c (Sending x [0x4500, 0x4608, 0x4608] xs) (s\<lparr>sm_acpi := a\<rparr>)) s)"

fun send_next :: "u32 \<Rightarrow> u32 \<Rightarrow> u32 list \<Rightarrow> u32 list \<Rightarrow> Smp \<Rightarrow> Smp" where
  "send_next c x [] xs s = at c (WaitOnline x xs) s"
| "send_next c x (icr # icrs) xs s = at c (Sending x icrs xs) (at x (receive icr (places s x)) s)"

definition wait_online :: "u32 \<Rightarrow> u32 \<Rightarrow> u32 list \<Rightarrow> Smp \<Rightarrow> Smp" where
  "wait_online c x xs s =
     goes_on c (core_state (sm_acpi s) x) (\<lambda>st. if st \<noteq> Online then s else at c (Launching xs) s) s"

subsection \<open>Checking in\<close>

definition check_in :: "u32 \<Rightarrow> u32 \<Rightarrow> Smp \<Rightarrow> Smp" where
  "check_in c i s = goes_on c (checkin_online (smp_locals i c) (sm_acpi s)) (\<lambda>a. at c (CheckedIn i) (s\<lparr>sm_acpi := a\<rparr>)) s"

definition count_in :: "u32 \<Rightarrow> u32 \<Rightarrow> Smp \<Rightarrow> Smp" where
  "count_in c i s = at c (WaitAll i) (s\<lparr>sm_acpi := checkin_count (sm_acpi s)\<rparr>)"

definition wait_all :: "u32 \<Rightarrow> u32 \<Rightarrow> Smp \<Rightarrow> Smp" where
  "wait_all c i s = goes_on c (checkin_done (sm_acpi s)) (\<lambda>b. if b then at c (Running i) s else s) s"

subsection \<open>Steps\<close>

inductive smp_step :: "u32 list option \<Rightarrow> Smp \<Rightarrow> Smp \<Rightarrow> bool" for found where
  TakeStack: "places s c = WaitForStack \<Longrightarrow> smp_step found s (take_stack c s)"
| FetchId: "places s c = Booting \<Longrightarrow> smp_step found s (fetch_core_id c s)"
| Release: "places s c = Entering i \<Longrightarrow> smp_step found s (release_early_stack c i s)"
| InitCore: "places s c = Starting i \<Longrightarrow> smp_step found s (init_core found c i s)"
| Launch: "places s c = Launching xs \<Longrightarrow> smp_step found s (launch_next c xs s)"
| Send: "places s c = Sending x icrs xs \<Longrightarrow> smp_step found s (send_next c x icrs xs s)"
| Online: "places s c = WaitOnline x xs \<Longrightarrow> smp_step found s (wait_online c x xs s)"
| CheckIn: "places s c = Ready i \<Longrightarrow> smp_step found s (check_in c i s)"
| CountIn: "places s c = CheckedIn i \<Longrightarrow> smp_step found s (count_in c i s)"
| AllIn: "places s c = WaitAll i \<Longrightarrow> smp_step found s (wait_all c i s)"

inductive smp_reach :: "u32 list option \<Rightarrow> u32 \<Rightarrow> Smp \<Rightarrow> bool" for found bsp where
  Start: "smp_reach found bsp (smp_start bsp)"
| Step: "smp_reach found bsp s \<Longrightarrow> smp_step found s t \<Longrightarrow> smp_reach found bsp t"

end
