(* ===== verification/Smp_Correct.thy ===== *)
theory Smp_Correct
  imports Smp
begin

text \<open>
  The early boot stack has one owner, the identifiers of the cores are unique, no core passes \<open>core_checkin\<close>
  before all have checked in, and all cores can always finish starting.
\<close>

unbundle bit_operations_syntax

subsection \<open>The invariant\<close>

text \<open>The APICs that are to be started: without a table only that of the first core.\<close>

definition apics_of :: "u32 list option \<Rightarrow> u32 \<Rightarrow> u32 list" where
  "apics_of found bsp = (case found of Some vs \<Rightarrow> vs | None \<Rightarrow> [bsp])"

definition smp_config :: "u32 list option \<Rightarrow> u32 \<Rightarrow> bool" where
  "smp_config found bsp \<longleftrightarrow> distinct (apics_of found bsp) \<and> bsp \<in> set (apics_of found bsp) \<and>
     (\<forall>c \<in> set (apics_of found bsp). unat c < MAX_CORES)"

fun holds_stack :: "Place \<Rightarrow> bool" where
  "holds_stack Booting = True"
| "holds_stack (Entering _) = True"
| "holds_stack _ = False"

text \<open>The identifier of a core; the places only core 0 can be at are without it.\<close>

fun ident :: "Place \<Rightarrow> u32 option" where
  "ident (Entering i) = Some i"
| "ident (Starting i) = Some i"
| "ident (Launching _) = Some 0"
| "ident (Sending _ _ _) = Some 0"
| "ident (WaitOnline _ _) = Some 0"
| "ident (Ready i) = Some i"
| "ident (CheckedIn i) = Some i"
| "ident (WaitAll i) = Some i"
| "ident (Running i) = Some i"
| "ident _ = None"

fun counted :: "Place \<Rightarrow> bool" where
  "counted (WaitAll _) = True"
| "counted (Running _) = True"
| "counted _ = False"

fun settled :: "Place \<Rightarrow> bool" where
  "settled (CheckedIn _) = True"
| "settled p = counted p"

fun rising :: "Place \<Rightarrow> bool" where
  "rising WaitForStack = True"
| "rising Booting = True"
| "rising (Entering _) = True"
| "rising (Starting _) = True"
| "rising (Ready _) = True"
| "rising _ = False"

fun early :: "Place \<Rightarrow> bool" where
  "early (Ready _) = False"
| "early p = rising p"

text \<open>How far core 0 has brought a core, and what holds of the core then.\<close>

datatype Stage = NotLaunched | Marked | ResetDone | Started | IsOnline

fun stage :: "Place \<Rightarrow> u32 \<Rightarrow> Stage" where
  "stage (Launching xs) c = (if c \<in> set xs then NotLaunched else IsOnline)"
| "stage (Sending x icrs xs) c =
     (if c = x then if length icrs = 3 then Marked else if length icrs = 2 then ResetDone else Started
      else if c \<in> set xs then NotLaunched else IsOnline)"
| "stage (WaitOnline x xs) c = (if c = x then Started else if c \<in> set xs then NotLaunched else IsOnline)"
| "stage p c = (if early p then NotLaunched else IsOnline)"

fun stage_ok :: "Stage \<Rightarrow> Place \<Rightarrow> u8 \<Rightarrow> bool" where
  "stage_ok NotLaunched p k = (p = Parked)"
| "stage_ok Marked p k = (p = Parked \<and> k = apic_state_code Launched)"
| "stage_ok ResetDone p k = (p = WaitSipi \<and> k = apic_state_code Launched)"
| "stage_ok Started p k = (rising p \<and> k = apic_state_code Launched \<or> settled p \<and> k = apic_state_code Online)"
| "stage_ok IsOnline p k = (settled p \<and> k = apic_state_code Online)"

fun bsp_ok :: "u32 list \<Rightarrow> u32 \<Rightarrow> Place \<Rightarrow> bool" where
  "bsp_ok vs bsp (Launching xs) = (distinct xs \<and> set xs \<subseteq> set vs)"
| "bsp_ok vs bsp (Sending x icrs xs) =
     (distinct (x # xs) \<and> set (x # xs) \<subseteq> set vs \<and> x \<noteq> bsp \<and> icrs \<in> {[0x4500, 0x4608, 0x4608], [0x4608, 0x4608], [0x4608], []})"
| "bsp_ok vs bsp (WaitOnline x xs) = (distinct (x # xs) \<and> set (x # xs) \<subseteq> set vs \<and> x \<noteq> bsp)"
| "bsp_ok vs bsp p = (rising p \<or> settled p)"

definition numbered :: "Smp \<Rightarrow> u32 set" where
  "numbered s = {c. ident (places s c) \<noteq> None}"

definition counted_in :: "Smp \<Rightarrow> u32 set" where
  "counted_in s = {c. counted (places s c)}"

definition places_ok :: "u32 list \<Rightarrow> u32 \<Rightarrow> Smp \<Rightarrow> bool" where
  "places_ok vs bsp s \<longleftrightarrow> bsp_ok vs bsp (places s bsp) \<and> (\<forall>c. c \<notin> set vs \<longrightarrow> places s c = Parked) \<and>
     (\<forall>c \<in> set vs - {bsp}. stage_ok (stage (places s bsp) c) (places s c) (apics (sm_acpi s) ! unat c))"

definition stack_ok :: "Smp \<Rightarrow> bool" where
  "stack_ok s \<longleftrightarrow> (stack_avail s = 0 \<longleftrightarrow> (\<exists>c. holds_stack (places s c))) \<and>
     (\<forall>c d. holds_stack (places s c) \<longrightarrow> holds_stack (places s d) \<longrightarrow> c = d)"

definition ids_ok :: "u32 \<Rightarrow> Smp \<Rightarrow> bool" where
  "ids_ok bsp s \<longleftrightarrow> unat (next_core s) = card (numbered s) \<and>
     (\<forall>c i. ident (places s c) = Some i \<longrightarrow> i < next_core s \<and> (i = 0 \<longleftrightarrow> c = bsp)) \<and>
     (\<forall>c d. ident (places s c) \<noteq> None \<longrightarrow> ident (places s c) = ident (places s d) \<longrightarrow> c = d)"

definition acpi_ok :: "u32 list \<Rightarrow> u32 \<Rightarrow> Smp \<Rightarrow> bool" where
  "acpi_ok vs bsp s \<longleftrightarrow> length (apics (sm_acpi s)) = MAX_CORES \<and> unat (cores_checked_in (sm_acpi s)) = card (counted_in s) \<and>
     (if early (places s bsp) then sm_acpi s = acpi_start
      else unat (total_cores (sm_acpi s)) = length vs \<and> apics (sm_acpi s) ! unat bsp = apic_state_code Online) \<and>
     (\<forall>c i. places s c = Running i \<longrightarrow> counted_in s = set vs)"

definition smp_inv :: "u32 list \<Rightarrow> u32 \<Rightarrow> Smp \<Rightarrow> bool" where
  "smp_inv vs bsp s \<longleftrightarrow> places_ok vs bsp s \<and> stack_ok s \<and> ids_ok bsp s \<and> acpi_ok vs bsp s"


subsection \<open>What a change of place keeps\<close>

lemma at_simps [simp]:
  "stack_avail (at c p s) = stack_avail s" "next_core (at c p s) = next_core s" "sm_acpi (at c p s) = sm_acpi s"
  "places (at c p s) = (places s)(c := p)"
  by (simp_all add: at_def)

lemma stack_keep:
  assumes "stack_ok s" "stack_avail s' = stack_avail s" "\<And>c. holds_stack (places s' c) = holds_stack (places s c)"
  shows "stack_ok s'"
  using assms(1) unfolding stack_ok_def assms(2,3) .

lemma ids_keep:
  assumes "ids_ok bsp s" "next_core s' = next_core s" "\<And>c. ident (places s' c) = ident (places s c)"
  shows "ids_ok bsp s'"
  using assms(1) unfolding ids_ok_def numbered_def assms(2,3) .

lemma acpi_keep:
  assumes "acpi_ok vs bsp s" "length (apics (sm_acpi s')) = length (apics (sm_acpi s))" "cores_checked_in (sm_acpi s') = cores_checked_in (sm_acpi s)"
    and "\<And>c. counted (places s' c) = counted (places s c)" "early (places s' bsp) = early (places s bsp)"
    and "early (places s bsp) \<Longrightarrow> sm_acpi s' = sm_acpi s"
    and "\<not> early (places s bsp) \<Longrightarrow> total_cores (sm_acpi s') = total_cores (sm_acpi s) \<and> apics (sm_acpi s') ! unat bsp = apics (sm_acpi s) ! unat bsp"
    and "\<And>c i. places s' c = Running i \<Longrightarrow> \<exists>d j. places s d = Running j"
  shows "acpi_ok vs bsp s'"
proof -
  have "counted_in s' = counted_in s" by (simp add: counted_in_def assms(4))
  with assms show ?thesis unfolding acpi_ok_def by (metis (no_types, lifting))
qed

lemma places_ap:
  assumes "places_ok vs bsp s" "c \<noteq> bsp" "c \<in> set vs" "places s' = (places s)(c := p)"
    and "\<And>d. d \<in> set vs \<Longrightarrow> d \<noteq> c \<Longrightarrow> apics (sm_acpi s') ! unat d = apics (sm_acpi s) ! unat d"
    and "stage_ok (stage (places s bsp) c) p (apics (sm_acpi s') ! unat c)"
  shows "places_ok vs bsp s'"
  using assms by (auto simp: places_ok_def)

lemma places_bsp:
  assumes "places_ok vs bsp s" "bsp \<in> set vs" "places s' = (places s)(bsp := p)" "bsp_ok vs bsp p"
    and "\<And>c k. c \<in> set vs \<Longrightarrow> c \<noteq> bsp \<Longrightarrow> stage_ok (stage (places s bsp) c) (places s c) (apics (sm_acpi s) ! unat c) \<Longrightarrow>
      stage_ok (stage p c) (places s c) (apics (sm_acpi s') ! unat c)"
  shows "places_ok vs bsp s'"
  using assms by (auto simp: places_ok_def)

text \<open>Where a core other than the first can be.\<close>

lemma ap_place:
  assumes "places_ok vs bsp s" "c \<noteq> bsp"
  shows "places s c \<in> {Parked, WaitSipi} \<or> rising (places s c) \<or> settled (places s c)" "places s c \<noteq> Parked \<Longrightarrow> c \<in> set vs"
    "rising (places s c) \<Longrightarrow> stage (places s bsp) c = Started \<and> apics (sm_acpi s) ! unat c = apic_state_code Launched"
    "settled (places s c) \<Longrightarrow> stage (places s bsp) c \<in> {Started, IsOnline} \<and> apics (sm_acpi s) ! unat c = apic_state_code Online"
proof -
  have *: "c \<in> set vs \<Longrightarrow> stage_ok (stage (places s bsp) c) (places s c) (apics (sm_acpi s) ! unat c)" "c \<notin> set vs \<Longrightarrow> places s c = Parked"
    using assms by (auto simp: places_ok_def)
  have r: "rising p \<Longrightarrow> \<not> settled p" for p by (cases p) auto
  show "places s c \<in> {Parked, WaitSipi} \<or> rising (places s c) \<or> settled (places s c)" "places s c \<noteq> Parked \<Longrightarrow> c \<in> set vs"
    "rising (places s c) \<Longrightarrow> stage (places s bsp) c = Started \<and> apics (sm_acpi s) ! unat c = apic_state_code Launched"
    "settled (places s c) \<Longrightarrow> stage (places s bsp) c \<in> {Started, IsOnline} \<and> apics (sm_acpi s) ! unat c = apic_state_code Online"
    using * r by (cases "c \<in> set vs"; cases "stage (places s bsp) c"; auto)+
qed
lemma places_move:
  assumes "places_ok vs bsp s" "bsp \<in> set vs" "sm_acpi s' = sm_acpi s" "places s' = (places s)(c := p)"
    and "rising (places s c) \<and> rising p \<and> (c = bsp \<longrightarrow> early p = early (places s c)) \<or> settled (places s c) \<and> settled p"
  shows "places_ok vs bsp s'"
proof (cases "c = bsp")
  case True
  have "stage p d = stage (places s bsp) d" for d
    using assms(5) True by (cases p; cases "places s bsp"; auto)
  moreover have "bsp_ok vs bsp p" using assms(5) by (cases p) auto
  ultimately show ?thesis using places_bsp [OF assms(1,2) assms(4) [unfolded True]] assms(3) by auto
next
  case False
  have "places s c \<noteq> Parked" using assms(5) by auto
  note a = ap_place(3,4) [OF assms(1) False] ap_place(2) [OF assms(1) False this]
  from assms(5) show ?thesis
    by (elim disjE; intro places_ap [OF assms(1) False a(3) assms(4)]) (use a(1,2) in \<open>auto simp: assms(3)\<close>)
qed

subsection \<open>The steps keep the invariant\<close>

lemma invI: "places_ok vs bsp s \<Longrightarrow> stack_ok s \<Longrightarrow> ids_ok bsp s \<Longrightarrow> acpi_ok vs bsp s \<Longrightarrow> smp_inv vs bsp s"
  by (simp add: smp_inv_def)

lemma invD:
  assumes "smp_inv vs bsp s"
  shows "places_ok vs bsp s" "stack_ok s" "ids_ok bsp s" "acpi_ok vs bsp s"
  using assms by (simp_all add: smp_inv_def)

lemma take_stack_inv:
  assumes "smp_inv vs bsp s" "bsp \<in> set vs" "places s c = WaitForStack"
  shows "smp_inv vs bsp (take_stack c s)"
proof (cases "stack_avail s = 0")
  case True
  then have "take_stack c s = s" by (simp add: take_stack_def)
  with assms(1) show ?thesis by simp
next
  case False
  note i = invD [OF assms(1)]
  have t: "take_stack c s = at c Booting (s\<lparr>stack_avail := 0\<rparr>)" using False by (simp add: take_stack_def Let_def)
  show ?thesis unfolding t
  proof (rule invI)
    show "places_ok vs bsp (at c Booting (s\<lparr>stack_avail := 0\<rparr>))" by (rule places_move [OF i(1) assms(2), where c = c and p = Booting]) (use assms(3) in auto)
    show "stack_ok (at c Booting (s\<lparr>stack_avail := 0\<rparr>))" using i(2) False by (auto simp: stack_ok_def)
    show "ids_ok bsp (at c Booting (s\<lparr>stack_avail := 0\<rparr>))" by (rule ids_keep [OF i(3)]) (simp_all add: assms(3))
    show "acpi_ok vs bsp (at c Booting (s\<lparr>stack_avail := 0\<rparr>))" by (rule acpi_keep [OF i(4)]) (auto simp: assms(3) split: if_splits)
  qed
qed

lemma release_inv:
  assumes "smp_inv vs bsp s" "bsp \<in> set vs" "places s c = Entering i"
  shows "smp_inv vs bsp (release_early_stack c i s)"
  unfolding release_early_stack_def
proof (rule invI)
  let ?s = "at c (Starting i) (s\<lparr>stack_avail := 1\<rparr>)"
  note i = invD [OF assms(1)]
  show "places_ok vs bsp ?s" by (rule places_move [OF i(1) assms(2), where c = c and p = "Starting i"]) (use assms(3) in auto)
  have "\<not> holds_stack (places s d)" if "d \<noteq> c" for d using i(2) that assms(3) unfolding stack_ok_def by (metis holds_stack.simps(2))
  then show "stack_ok ?s" by (auto simp: stack_ok_def)
  show "ids_ok bsp ?s" by (rule ids_keep [OF i(3)]) (simp_all add: assms(3))
  show "acpi_ok vs bsp ?s" by (rule acpi_keep [OF i(4)]) (auto simp: assms(3) split: if_splits)
qed

lemma numbered_valid:
  assumes "places_ok vs bsp s" "bsp \<in> set vs"
  shows "numbered s \<subseteq> set vs" "counted_in s \<subseteq> set vs"
  using assms by (auto simp: numbered_def counted_in_def places_ok_def)

lemma config_small:
  assumes "smp_config found bsp"
  shows "length (apics_of found bsp) \<le> MAX_CORES"
proof -
  let ?V = "set (apics_of found bsp)"
  have "card (unat ` ?V) = card ?V" by (rule card_image) (simp add: inj_on_def word_unat_eq_iff)
  moreover have "unat ` ?V \<subseteq> {..<MAX_CORES}" "card ?V = length (apics_of found bsp)"
    using assms by (auto simp: smp_config_def distinct_card)
  ultimately show ?thesis using card_mono [of "{..<MAX_CORES}" "unat ` ?V"] by simp
qed

lemma fetch_inv:
  assumes "smp_inv vs bsp s" "bsp \<in> set vs" "distinct vs" "length vs \<le> MAX_CORES" "places s c = Booting"
  shows "smp_inv vs bsp (fetch_core_id c s)"
  unfolding fetch_core_id_def
proof (rule invI)
  let ?s = "at c (Entering (next_core s)) (s\<lparr>next_core := next_core s + 1\<rparr>)"
  note i = invD [OF assms(1)]
  show "places_ok vs bsp ?s" by (rule places_move [OF i(1) assms(2), where c = c and p = "Entering (next_core s)"]) (use assms(5) in auto)
  show "stack_ok ?s" by (rule stack_keep [OF i(2)]) (auto simp: assms(5))
  show "acpi_ok vs bsp ?s" by (rule acpi_keep [OF i(4)]) (auto simp: assms(5) split: if_splits)
  have n: "numbered ?s = insert c (numbered s)" "c \<notin> numbered s" by (auto simp: numbered_def assms(5))
  have f: "finite (numbered s)" using numbered_valid(1) [OF i(1) assms(2)] finite_subset by blast
  have "card (insert c (numbered s)) \<le> card (set vs)"
    using numbered_valid(1) [OF i(1) assms(2)] ap_place(2) [OF i(1), of c] assms(2,5) by (intro card_mono) auto
  then have k: "Suc (card (numbered s)) \<le> 1024" using n(2) f assms(3,4) by (simp add: distinct_card MAX_CORES_def)
  have nc: "unat (next_core s) = card (numbered s)" using i(3) by (simp add: ids_ok_def)
  have u: "unat (next_core s + 1) = Suc (card (numbered s))"
    using k nc by (simp add: unat_word_ariths)
  have z: "next_core s = 0 \<longleftrightarrow> c = bsp"
  proof
    assume "next_core s = 0"
    then have "ident (places s bsp) = None" using nc f by (auto simp: numbered_def)
    moreover have "c \<noteq> bsp \<Longrightarrow> stage (places s bsp) c = Started" using ap_place(3) [OF i(1), of c] assms(5) by simp
    ultimately show "c = bsp" by (cases "places s bsp") (auto split: if_splits)
  next
    assume c: "c = bsp"
    have "ident (places s d) = None" for d
      using i(1) assms(5) c by (cases "d \<in> set vs"; cases "d = bsp") (auto simp: places_ok_def)
    then show "next_core s = 0" using nc by (simp add: numbered_def unat_eq_0)
  qed
  have lt: "next_core s < next_core s + 1" using u nc by (simp add: word_less_nat_alt)
  show "ids_ok bsp ?s" unfolding ids_ok_def
  proof (intro conjI allI impI)
    show "unat (next_core ?s) = card (numbered ?s)" using n f u by simp
  next
    fix d j assume j: "ident (places ?s d) = Some j"
    show "j < next_core ?s" using j i(3) lt by (auto simp: ids_ok_def split: if_splits) (meson order.strict_trans)
    show "(j = 0) = (d = bsp)" using j i(3) z by (auto simp: ids_ok_def split: if_splits)
  next
    fix d e assume "ident (places ?s d) \<noteq> None" "ident (places ?s d) = ident (places ?s e)"
    then show "d = e" using i(3) by (auto simp: ids_ok_def split: if_splits)
  qed
qed


lemma id_zero: "ids_ok bsp s \<Longrightarrow> ident (places s c) = Some i \<Longrightarrow> i = 0 \<longleftrightarrow> c = bsp"
  unfolding ids_ok_def by blast

lemma register_ok:
  assumes "smp_config found bsp"
  shows "\<exists>a. register_apics found (smp_locals 0 bsp) acpi_start = Ok a \<and> length (apics a) = MAX_CORES \<and> cores_checked_in a = 0 \<and>
    unat (total_cores a) = length (apics_of found bsp) \<and> apics a ! unat bsp = apic_state_code Online"
proof -
  have b: "unat bsp < MAX_CORES" using assms by (simp add: smp_config_def)
  then have bi: "apic_id (smp_locals 0 bsp) = Some bsp" by (auto simp: apic_id_def smp_locals_def MAX_CORES_def)
  have fold: "\<exists>a'. foldR (\<lambda>a i. set_core_state i Offline a) a xs = Ok a' \<and> length (apics a') = MAX_CORES \<and> total_cores a' = total_cores a \<and>
      cores_checked_in a' = cores_checked_in a"
    if "length (apics a) = MAX_CORES" "\<forall>x \<in> set xs. unat x < MAX_CORES" for a xs
    using that foldR_invariant [where I = "\<lambda>a'. length (apics a') = MAX_CORES \<and> total_cores a' = total_cores a \<and> cores_checked_in a' = cores_checked_in a"
      and f = "\<lambda>a i. set_core_state i Offline a" and s = a and xs = xs] by (auto simp: set_core_state_def)
  let ?a = "acpi_start\<lparr>total_cores := (case found of Some x \<Rightarrow> word_of_nat (length x) | None \<Rightarrow> 1)\<rparr>"
  have t: "unat (total_cores ?a) = length (apics_of found bsp)"
    using config_small [OF assms] by (cases found) (auto simp: apics_of_def unat_of_nat MAX_CORES_def)
  have "\<exists>a'. (case found of Some x \<Rightarrow> foldR (\<lambda>a i. set_core_state i Offline a) ?a x | None \<Rightarrow> Ok ?a) = Ok a' \<and> length (apics a') = MAX_CORES \<and>
      total_cores a' = total_cores ?a \<and> cores_checked_in a' = 0"
    using fold [of ?a] assms by (cases found) (auto simp: acpi_start_def smp_config_def apics_of_def)
  then show ?thesis using b t by (auto simp: register_apics_def Let_def bi unwrapR_def set_core_state_def)
qed

lemma init_inv:
  assumes "smp_inv (apics_of found bsp) bsp s" "smp_config found bsp" "places s c = Starting i"
  shows "smp_inv (apics_of found bsp) bsp (init_core found c i s)"
proof (cases "i = 0")
  case True
  let ?vs = "apics_of found bsp"
  note i = invD [OF assms(1)]
  have c: "c = bsp" using id_zero [OF i(3), of c i] assms(3) True by simp
  have a0: "sm_acpi s = acpi_start" using i(4) assms(3) c by (simp add: acpi_ok_def)
  from register_ok [OF assms(2)] obtain a where a: "register_apics found (smp_locals 0 bsp) acpi_start = Ok a" "length (apics a) = MAX_CORES" "cores_checked_in a = 0"
    "unat (total_cores a) = length ?vs" "apics a ! unat bsp = apic_state_code Online" by blast
  define p where "p = (case found of Some valid_apics \<Rightarrow> Launching valid_apics | None \<Rightarrow> Ready 0)"
  have t: "init_core found c i s = at bsp p (s\<lparr>sm_acpi := a\<rparr>)" using True c a(1) a0 by (simp add: init_core_def goes_on_def p_def)
  have p: "\<not> holds_stack p" "ident p = Some 0" "\<not> counted p" "\<not> early p" "bsp_ok ?vs bsp p" "\<And>d. d \<in> set ?vs \<Longrightarrow> d \<noteq> bsp \<Longrightarrow> stage p d = NotLaunched"
    using assms(2) by (cases found; auto simp: p_def apics_of_def smp_config_def)+
  have B: "bsp \<in> set ?vs" using assms(2) by (simp add: smp_config_def)
  show ?thesis unfolding t
  proof (rule invI)
    show "places_ok ?vs bsp (at bsp p (s\<lparr>sm_acpi := a\<rparr>))"
      by (rule places_bsp [OF i(1) B, where p = p]) (use p(5,6) assms(3) c in auto)
    show "stack_ok (at bsp p (s\<lparr>sm_acpi := a\<rparr>))" by (rule stack_keep [OF i(2)]) (use p(1) assms(3) c in auto)
    show "ids_ok bsp (at bsp p (s\<lparr>sm_acpi := a\<rparr>))" by (rule ids_keep [OF i(3)]) (use p(2) assms(3) c True in auto)
    have k: "counted_in (at bsp p (s\<lparr>sm_acpi := a\<rparr>)) = counted_in s" using p(3) assms(3) c by (auto simp: counted_in_def)
    have "places s d = Running j" if "places (at bsp p (s\<lparr>sm_acpi := a\<rparr>)) d = Running j" for d j using that p(3) by (auto split: if_splits)
    then show "acpi_ok ?vs bsp (at bsp p (s\<lparr>sm_acpi := a\<rparr>))"
      using i(4) a(2-5) p(3,4) assms(3) c unfolding acpi_ok_def k by (auto simp: acpi_start_def)
  qed
next
  case False
  let ?vs = "apics_of found bsp"
  note i = invD [OF assms(1)]
  have c: "c \<noteq> bsp" using id_zero [OF i(3), of c i] assms(3) False by simp
  have t: "init_core found c i s = at c (Ready i) s" using False by (simp add: init_core_def)
  have B: "bsp \<in> set ?vs" using assms(2) by (simp add: smp_config_def)
  show ?thesis unfolding t
  proof (rule invI)
    show "places_ok ?vs bsp (at c (Ready i) s)" by (rule places_move [OF i(1) B, where c = c and p = "Ready i"]) (use assms(3) c in auto)
    show "stack_ok (at c (Ready i) s)" by (rule stack_keep [OF i(2)]) (use assms(3) in auto)
    show "ids_ok bsp (at c (Ready i) s)" by (rule ids_keep [OF i(3)]) (use assms(3) in auto)
    show "acpi_ok ?vs bsp (at c (Ready i) s)" by (rule acpi_keep [OF i(4)]) (use assms(3) c in \<open>auto split: if_splits\<close>)
  qed
qed


lemma launch_inv:
  assumes "smp_inv vs bsp s" "bsp \<in> set vs" "\<forall>c \<in> set vs. unat c < MAX_CORES" "places s c = Launching xs"
  shows "smp_inv vs bsp (launch_next c xs s)"
proof -
  note i = invD [OF assms(1)]
  have c: "c = bsp" using id_zero [OF i(3), of c 0] assms(4) by simp
  have b: "distinct xs" "set xs \<subseteq> set vs" using i(1) assms(4) c by (auto simp: places_ok_def)
  have keep: "smp_inv vs bsp (at bsp p s)"
    if "bsp_ok vs bsp p" "\<And>d. d \<noteq> bsp \<Longrightarrow> stage p d = stage (Launching xs) d" "ident p = Some 0" "\<not> counted p" "\<not> early p" "\<not> holds_stack p" for p
  proof (rule invI)
    show "places_ok vs bsp (at bsp p s)" by (rule places_bsp [OF i(1) assms(2), where p = p]) (use that assms(4) c in auto)
    show "stack_ok (at bsp p s)" by (rule stack_keep [OF i(2)]) (use that assms(4) c in auto)
    show "ids_ok bsp (at bsp p s)" by (rule ids_keep [OF i(3)]) (use that assms(4) c in auto)
    show "acpi_ok vs bsp (at bsp p s)" by (rule acpi_keep [OF i(4)]) (use that assms(4) c in \<open>auto split: if_splits\<close>)
  qed
  show ?thesis
  proof (cases xs)
    case Nil
    then show ?thesis using keep [of "Ready 0"] c by simp
  next
    case (Cons x ys)
    show ?thesis
    proof (cases "c = x")
      case True
      then show ?thesis using keep [of "Launching ys"] b c Cons by auto
    next
      case False
      let ?a = "(sm_acpi s)\<lparr>apics := (apics (sm_acpi s))[unat x := apic_state_code Launched]\<rparr>"
      let ?s = "at bsp (Sending x [0x4500, 0x4608, 0x4608] ys) (s\<lparr>sm_acpi := ?a\<rparr>)"
      have L: "length (apics (sm_acpi s)) = MAX_CORES" using i(4) by (simp add: acpi_ok_def)
      have x: "unat x < MAX_CORES" "x \<in> set vs" "x \<noteq> bsp" using b assms(3) Cons False c by auto
      have n: "unat d \<noteq> unat x" if "d \<noteq> x" for d using that by (simp add: word_unat_eq_iff)
      have t: "launch_next c xs s = ?s" using False c Cons x L by (simp add: set_core_state_def goes_on_def)
      show ?thesis unfolding t
      proof (rule invI)
        show "places_ok vs bsp ?s"
        proof (rule places_bsp [OF i(1) assms(2), where p = "Sending x [0x4500, 0x4608, 0x4608] ys"])
          show "bsp_ok vs bsp (Sending x [0x4500, 0x4608, 0x4608] ys)" using b x Cons by auto
          fix d assume "d \<in> set vs" "d \<noteq> bsp" "stage_ok (stage (places s bsp) d) (places s d) (apics (sm_acpi s) ! unat d)"
          then show "stage_ok (stage (Sending x [0x4500, 0x4608, 0x4608] ys) d) (places s d) (apics (sm_acpi ?s) ! unat d)"
            using assms(4) c Cons n [of d] x L by (cases "d = x") auto
        qed simp
        show "stack_ok ?s" by (rule stack_keep [OF i(2)]) (use assms(4) c in auto)
        show "ids_ok bsp ?s" by (rule ids_keep [OF i(3)]) (use assms(4) c in auto)
        show "acpi_ok vs bsp ?s" by (rule acpi_keep [OF i(4)]) (use assms(4) c n [of bsp] x in \<open>auto split: if_splits\<close>)
      qed
    qed
  qed
qed

lemma receive_simps: "receive 0x4500 p = WaitSipi" "receive 0x4608 WaitSipi = WaitForStack" "p \<noteq> WaitSipi \<Longrightarrow> receive 0x4608 p = p"
  by (simp_all add: receive_def)

lemma send_inv:
  assumes "smp_inv vs bsp s" "bsp \<in> set vs" "places s c = Sending x icrs xs"
  shows "smp_inv vs bsp (send_next c x icrs xs s)"
proof -
  note i = invD [OF assms(1)]
  have c: "c = bsp" using id_zero [OF i(3), of c 0] assms(3) by simp
  have b: "x \<noteq> bsp" "x \<in> set vs" "icrs \<in> {[0x4500, 0x4608, 0x4608], [0x4608, 0x4608], [0x4608], []}" "bsp_ok vs bsp (places s bsp)"
    using i(1) assms(3) c by (auto simp: places_ok_def)
  have so: "stage_ok (stage (places s bsp) x) (places s x) (apics (sm_acpi s) ! unat x)" using i(1) b by (auto simp: places_ok_def)
  define p where "p = (case icrs of [] \<Rightarrow> WaitOnline x xs | _ # r \<Rightarrow> Sending x r xs)"
  define q where "q = (case icrs of [] \<Rightarrow> places s x | icr # _ \<Rightarrow> receive icr (places s x))"
  have t: "send_next c x icrs xs s = at bsp p (at x q s)"
    by (cases icrs) (simp_all add: p_def q_def c at_def)
  have p: "bsp_ok vs bsp p" "ident p = Some 0" "\<not> counted p" "\<not> early p" "\<not> holds_stack p" "\<And>d. d \<noteq> x \<Longrightarrow> stage p d = stage (places s bsp) d"
    using b assms(3) c by (auto simp: p_def)
  have ns: "settled w \<Longrightarrow> w \<noteq> WaitSipi" "rising w \<Longrightarrow> w \<noteq> WaitSipi" for w by auto
  have q: "stage_ok (stage p x) q (apics (sm_acpi s) ! unat x)" "ident q = ident (places s x)" "counted q = counted (places s x)"
      "holds_stack q = holds_stack (places s x)" "q = Running j \<Longrightarrow> places s x = Running j" for j
    using b(3) so assms(3) c ns by (auto simp: q_def p_def receive_simps)
  show ?thesis unfolding t
  proof (rule invI)
    show "places_ok vs bsp (at bsp p (at x q s))" using i(1) p(1,6) q(1) b(1,2) assms(2) by (auto simp: places_ok_def)
    show "stack_ok (at bsp p (at x q s))" by (rule stack_keep [OF i(2)]) (use p q assms(3) c in auto)
    show "ids_ok bsp (at bsp p (at x q s))" by (rule ids_keep [OF i(3)]) (use p q assms(3) c in auto)
    show "acpi_ok vs bsp (at bsp p (at x q s))" by (rule acpi_keep [OF i(4)]) (use p q assms(3) c in \<open>auto split: if_splits\<close>)
  qed
qed
lemma online_inv:
  assumes "smp_inv vs bsp s" "bsp \<in> set vs" "\<forall>c \<in> set vs. unat c < MAX_CORES" "places s c = WaitOnline x xs"
  shows "smp_inv vs bsp (wait_online c x xs s)"
proof -
  note i = invD [OF assms(1)]
  have c: "c = bsp" using id_zero [OF i(3), of c 0] assms(4) by simp
  have b: "x \<noteq> bsp" "x \<in> set vs" "distinct (x # xs)" "set xs \<subseteq> set vs" using i(1) assms(4) c by (auto simp: places_ok_def)
  have "stage_ok (stage (places s bsp) x) (places s x) (apics (sm_acpi s) ! unat x)" using i(1) b by (auto simp: places_ok_def)
  then have so: "stage_ok Started (places s x) (apics (sm_acpi s) ! unat x)" using assms(4) c by simp
  have st: "core_state (sm_acpi s) x = apic_state_from (apics (sm_acpi s) ! unat x)"
    using i(4) assms(3) b(2) by (simp add: core_state_def acpi_ok_def)
  show ?thesis
  proof (cases "apics (sm_acpi s) ! unat x = apic_state_code Online")
    case True
    then have t: "wait_online c x xs s = at bsp (Launching xs) s" using c by (simp add: wait_online_def goes_on_def st apic_state_from_def)
    show ?thesis unfolding t
    proof (rule invI)
      show "places_ok vs bsp (at bsp (Launching xs) s)"
        by (rule places_bsp [OF i(1) assms(2), where p = "Launching xs"]) (use so True b assms(4) c in \<open>auto split: if_splits\<close>)
      show "stack_ok (at bsp (Launching xs) s)" by (rule stack_keep [OF i(2)]) (use assms(4) c in auto)
      show "ids_ok bsp (at bsp (Launching xs) s)" by (rule ids_keep [OF i(3)]) (use assms(4) c in auto)
      show "acpi_ok vs bsp (at bsp (Launching xs) s)" by (rule acpi_keep [OF i(4)]) (use assms(4) c in \<open>auto split: if_splits\<close>)
    qed
  next
    case False
    then have "wait_online c x xs s = s" using so by (auto simp: wait_online_def goes_on_def st apic_state_from_def)
    then show ?thesis using assms(1) by simp
  qed
qed

lemma check_in_inv:
  assumes "smp_inv vs bsp s" "bsp \<in> set vs" "\<forall>c \<in> set vs. unat c < MAX_CORES" "places s c = Ready i"
  shows "smp_inv vs bsp (check_in c i s)"
proof -
  note i = invD [OF assms(1)]
  have z: "i = 0 \<longleftrightarrow> c = bsp" using id_zero [OF i(3), of c i] assms(4) by simp
  have cv: "c \<in> set vs" using ap_place(2) [OF i(1), of c] assms(2,4) by (cases "c = bsp") auto
  then have u: "unat c < MAX_CORES" using assms(3) by blast
  then have ci: "apic_id (smp_locals i c) = Some c" "core_id (smp_locals i c) = i" by (auto simp: apic_id_def smp_locals_def MAX_CORES_def)
  have L: "length (apics (sm_acpi s)) = MAX_CORES" using i(4) by (simp add: acpi_ok_def)
  have n: "unat c \<noteq> unat d" if "d \<noteq> c" for d using that by (simp add: word_unat_eq_iff)
  define a where "a = (if c = bsp then sm_acpi s else (sm_acpi s)\<lparr>apics := (apics (sm_acpi s))[unat c := apic_state_code Online]\<rparr>)"
  have "apics (sm_acpi s) ! unat c = (if c = bsp then apic_state_code Online else apic_state_code Launched)"
    using i(4) assms(4) ap_place(3) [OF i(1), of c] by (auto simp: acpi_ok_def)
  then have t: "check_in c i s = at c (CheckedIn i) (s\<lparr>sm_acpi := a\<rparr>)"
    using z u L by (auto simp: check_in_def goes_on_def checkin_online_def checkin_swap_def ci unwrapR_def a_def)
  show ?thesis unfolding t
  proof (rule invI)
    let ?s = "at c (CheckedIn i) (s\<lparr>sm_acpi := a\<rparr>)"
    show "places_ok vs bsp ?s"
    proof (cases "c = bsp")
      case True
      then show ?thesis by (intro places_bsp [OF i(1) assms(2), where p = "CheckedIn i"]) (use assms(4) in \<open>auto simp: a_def\<close>)
    next
      case False
      then show ?thesis
        by (intro places_ap [OF i(1) False cv, where p = "CheckedIn i"]) (use assms(4) ap_place(3) [OF i(1) False] n L u in \<open>auto simp: a_def\<close>)
    qed
    show "stack_ok ?s" by (rule stack_keep [OF i(2)]) (use assms(4) in auto)
    show "ids_ok bsp ?s" by (rule ids_keep [OF i(3)]) (use assms(4) in auto)
    have "early (places s bsp) \<Longrightarrow> c = bsp" using ap_place(3) [OF i(1), of c] assms(4) by (cases "places s bsp") auto
    then have "early (places s bsp) \<Longrightarrow> False" using assms(4) by auto
    then show "acpi_ok vs bsp ?s"
      by (intro acpi_keep [OF i(4)]) (use assms(4) n [of bsp] in \<open>auto simp: a_def split: if_splits\<close>)
  qed
qed

text \<open>A core that has checked in is online after core 0 has registered the APICs.\<close>

lemma settled_registered:
  assumes "places_ok vs bsp s" "settled (places s c)"
  shows "\<not> early (places s bsp)"
proof (cases "c = bsp")
  case True
  then show ?thesis using assms(2) by (cases "places s bsp") auto
next
  case False
  then show ?thesis using ap_place(4) [OF assms(1) False assms(2)] by (cases "places s bsp") auto
qed

lemma count_inv:
  assumes "smp_inv vs bsp s" "bsp \<in> set vs" "distinct vs" "length vs \<le> MAX_CORES" "places s c = CheckedIn i"
  shows "smp_inv vs bsp (count_in c i s)"
  unfolding count_in_def
proof (rule invI)
  let ?s = "at c (WaitAll i) (s\<lparr>sm_acpi := checkin_count (sm_acpi s)\<rparr>)"
  note i = invD [OF assms(1)]
  have e: "\<not> early (places s bsp)" using settled_registered [OF i(1), of c] assms(5) by simp
  have cv: "c \<in> set vs" using ap_place(2) [OF i(1), of c] assms(2,5) by (cases "c = bsp") auto
  have "places_ok vs bsp (at c (WaitAll i) s)" by (rule places_move [OF i(1) assms(2), where c = c and p = "WaitAll i"]) (use assms(5) in auto)
  then show "places_ok vs bsp ?s" by (simp add: places_ok_def checkin_count_def)
  show "stack_ok ?s" by (rule stack_keep [OF i(2)]) (use assms(5) in auto)
  show "ids_ok bsp ?s" by (rule ids_keep [OF i(3)]) (use assms(5) in auto)
  have n: "counted_in ?s = insert c (counted_in s)" "c \<notin> counted_in s" by (auto simp: counted_in_def assms(5))
  have f: "finite (counted_in s)" using numbered_valid(2) [OF i(1) assms(2)] finite_subset by blast
  have "card (insert c (counted_in s)) \<le> card (set vs)" using numbered_valid(2) [OF i(1) assms(2)] cv by (intro card_mono) auto
  then have k: "Suc (card (counted_in s)) \<le> 1024" using n(2) f assms(3,4) by (simp add: distinct_card MAX_CORES_def)
  have u: "unat (cores_checked_in (sm_acpi s) + 1) = Suc (card (counted_in s))"
    using k i(4) by (simp add: unat_word_ariths acpi_ok_def)
  have "places s d \<noteq> Running j" for d j using i(4) n(2) cv by (auto simp: acpi_ok_def)
  then have "places ?s d \<noteq> Running j" for d j by simp
  moreover have "early (places ?s bsp) = early (places s bsp)" using assms(5) by auto
  ultimately show "acpi_ok vs bsp ?s" using i(4) e f n u unfolding acpi_ok_def by (simp add: checkin_count_def)
qed

lemma wait_all_inv:
  assumes "smp_inv vs bsp s" "bsp \<in> set vs" "distinct vs" "places s c = WaitAll i"
  shows "smp_inv vs bsp (wait_all c i s)"
proof -
  note i = invD [OF assms(1)]
  have e: "\<not> early (places s bsp)" using settled_registered [OF i(1), of c] assms(4) by simp
  have T: "unat (total_cores (sm_acpi s)) = card (set vs)" using i(4) e assms(3) by (simp add: acpi_ok_def distinct_card)
  have "card (set vs) > 0" using assms(2) by (auto simp: card_gt_0_iff)
  then have "total_cores (sm_acpi s) > 0" using T by (simp add: word_less_nat_alt)
  then have d: "checkin_done (sm_acpi s) = Ok (cores_checked_in (sm_acpi s) = total_cores (sm_acpi s))" by (simp add: checkin_done_def num_cores_def Let_def)
  show ?thesis
  proof (cases "cores_checked_in (sm_acpi s) = total_cores (sm_acpi s)")
    case True
    have t: "wait_all c i s = at c (Running i) s" using True by (simp add: wait_all_def goes_on_def d)
    have all: "counted_in s = set vs"
      by (rule card_subset_eq) (use numbered_valid(2) [OF i(1) assms(2)] T True i(4) in \<open>auto simp: acpi_ok_def\<close>)
    have k: "counted_in (at c (Running i) s) = counted_in s" by (auto simp: counted_in_def assms(4))
    show ?thesis unfolding t
    proof (rule invI)
      show "places_ok vs bsp (at c (Running i) s)" by (rule places_move [OF i(1) assms(2), where c = c and p = "Running i"]) (use assms(4) in auto)
      show "stack_ok (at c (Running i) s)" by (rule stack_keep [OF i(2)]) (use assms(4) in auto)
      show "ids_ok bsp (at c (Running i) s)" by (rule ids_keep [OF i(3)]) (use assms(4) in auto)
      have "early (places (at c (Running i) s) bsp) = early (places s bsp)" using assms(4) by auto
      then show "acpi_ok vs bsp (at c (Running i) s)" using i(4) e all unfolding acpi_ok_def k by simp
    qed
  next
    case False
    then have "wait_all c i s = s" by (simp add: wait_all_def goes_on_def d)
    then show ?thesis using assms(1) by simp
  qed
qed

lemma start_inv: "smp_config found bsp \<Longrightarrow> smp_inv (apics_of found bsp) bsp (smp_start bsp)"
proof -
  assume "smp_config found bsp"
  then have b: "bsp \<in> set (apics_of found bsp)" by (simp add: smp_config_def)
  have "ident (places (smp_start bsp) c) = None" "counted (places (smp_start bsp) c) = False" "holds_stack (places (smp_start bsp) c) = False" for c
    by (auto simp: smp_start_def)
  then have "stack_ok (smp_start bsp)" "ids_ok bsp (smp_start bsp)" "acpi_ok (apics_of found bsp) bsp (smp_start bsp)"
    by (auto simp: stack_ok_def ids_ok_def numbered_def counted_in_def acpi_ok_def smp_start_def acpi_start_def)
  moreover have "places_ok (apics_of found bsp) bsp (smp_start bsp)" using b by (auto simp: places_ok_def smp_start_def)
  ultimately show ?thesis by (intro invI)
qed

lemma smp_step_inv:
  assumes "smp_config found bsp" "smp_step found s t" "smp_inv (apics_of found bsp) bsp s"
  shows "smp_inv (apics_of found bsp) bsp t"
proof -
  have c: "bsp \<in> set (apics_of found bsp)" "distinct (apics_of found bsp)" "\<forall>c \<in> set (apics_of found bsp). unat c < MAX_CORES"
    using assms(1) by (auto simp: smp_config_def)
  note l = config_small [OF assms(1)]
  from assms(2,3) show ?thesis
    by (cases rule: smp_step.cases)
      (simp_all add: take_stack_inv [OF _ c(1)] release_inv [OF _ c(1)] fetch_inv [OF _ c(1,2) l] init_inv [OF _ assms(1)]
        launch_inv [OF _ c(1,3)] send_inv [OF _ c(1)] online_inv [OF _ c(1,3)] check_in_inv [OF _ c(1,3)] count_inv [OF _ c(1,2) l] wait_all_inv [OF _ c(1,2)])
qed

lemma reach_inv: "smp_reach found bsp s \<Longrightarrow> smp_config found bsp \<Longrightarrow> smp_inv (apics_of found bsp) bsp s"
  by (induction rule: smp_reach.induct) (auto intro: start_inv smp_step_inv)
subsection \<open>Progress\<close>

text \<open>An upper bound on the number of changes of place still to come.\<close>

fun rank :: "nat \<Rightarrow> Place \<Rightarrow> nat" where
  "rank n Parked = 10 * n + 25"
| "rank n WaitSipi = 10 * n + 24"
| "rank n WaitForStack = 10 * n + 23"
| "rank n Booting = 10 * n + 22"
| "rank n (Entering _) = 10 * n + 21"
| "rank n (Starting _) = 10 * n + 20"
| "rank n (Launching xs) = 10 * length xs + 4"
| "rank n (Sending _ icrs xs) = 10 * length xs + 6 + length icrs"
| "rank n (WaitOnline _ xs) = 10 * length xs + 5"
| "rank n (Ready _) = 3"
| "rank n (CheckedIn _) = 2"
| "rank n (WaitAll _) = 1"
| "rank n _ = 0"

definition smp_work :: "u32 list \<Rightarrow> Smp \<Rightarrow> nat" where
  "smp_work vs s = (\<Sum>c \<in> set vs. rank (length vs) (places s c))"

lemma work_less:
  assumes "\<And>d. rank (length vs) (places t d) \<le> rank (length vs) (places s d)" "c \<in> set vs" "rank (length vs) (places t c) < rank (length vs) (places s c)"
  shows "smp_work vs t < smp_work vs s"
  unfolding smp_work_def by (rule sum_strict_mono_ex1) (use assms in auto)

lemma not_panicked: "smp_inv vs bsp s \<Longrightarrow> places s c \<noteq> Panicked msg"
proof
  assume "smp_inv vs bsp s" and p: "places s c = Panicked msg"
  note i = invD [OF this(1)]
  show False
  proof (cases "c = bsp")
    case True
    then show False using i(1) p by (simp add: places_ok_def)
  next
    case False
    then show False using ap_place(1) [OF i(1) False] p by simp
  qed
qed

lemma active_valid: "smp_inv vs bsp s \<Longrightarrow> bsp \<in> set vs \<Longrightarrow> places s c \<noteq> Parked \<Longrightarrow> c \<in> set vs"
  using ap_place(2) [OF invD(1), of vs bsp s c] by (cases "c = bsp") auto

lemma send_target:
  assumes "smp_inv vs bsp s" "bsp \<in> set vs" "places s c = Sending x icrs xs"
  shows "x \<noteq> c" "icrs = icr # r \<Longrightarrow> rank n (receive icr (places s x)) \<le> rank n (places s x)"
proof -
  note i = invD [OF assms(1)]
  have c: "c = bsp" using id_zero [OF i(3), of c 0] assms(3) by simp
  have b: "x \<noteq> bsp" "x \<in> set vs" "icrs \<in> {[0x4500, 0x4608, 0x4608], [0x4608, 0x4608], [0x4608], []}"
    using i(1) assms(3) c by (auto simp: places_ok_def)
  have so: "stage_ok (stage (places s bsp) x) (places s x) (apics (sm_acpi s) ! unat x)" using i(1) b by (auto simp: places_ok_def)
  have ns: "settled w \<Longrightarrow> w \<noteq> WaitSipi" "rising w \<Longrightarrow> w \<noteq> WaitSipi" for w by auto
  show "x \<noteq> c" using b(1) c by simp
  show "icrs = icr # r \<Longrightarrow> rank n (receive icr (places s x)) \<le> rank n (places s x)"
    using b(3) so assms(3) c ns [of "places s x"] by (auto simp: receive_simps)
qed

text \<open>A step changes nothing, as a round of a loop that waits does, or there is less to do.\<close>

lemma step_work:
  assumes "smp_config found bsp" "smp_inv (apics_of found bsp) bsp s" "smp_step found s t"
  shows "t = s \<or> smp_work (apics_of found bsp) t < smp_work (apics_of found bsp) s"
proof -
  let ?vs = "apics_of found bsp"
  have B: "bsp \<in> set ?vs" using assms(1) by (simp add: smp_config_def)
  note np = not_panicked [OF smp_step_inv [OF assms(1,3,2)]]
  have one: "smp_work ?vs t < smp_work ?vs s"
    if "places t = (places s)(c := p)" "places s c \<noteq> Parked" "rank (length ?vs) p < rank (length ?vs) (places s c)" for c p
    by (rule work_less [of _ _ _ c]) (use that active_valid [OF assms(2) B, of c] in auto)
  from assms(3) show ?thesis
  proof (cases rule: smp_step.cases)
    case (TakeStack c)
    then show ?thesis using one [of c Booting] by (auto simp: take_stack_def Let_def split: if_splits)
  next
    case (FetchId c)
    then show ?thesis using one [of c "Entering (next_core s)"] by (auto simp: fetch_core_id_def)
  next
    case (Release c i)
    then show ?thesis using one [of c "Starting i"] by (auto simp: release_early_stack_def)
  next
    case (InitCore c i)
    then show ?thesis
      using one [of c "Ready i"] one [of c "Launching ?vs"] np [of c]
      by (auto simp: init_core_def goes_on_def apics_of_def split: if_splits res.splits option.splits)
  next
    case (Launch c xs)
    then show ?thesis
      using one [of c "Ready 0"] one [of c "Launching (tl xs)"] one [of c "Sending (hd xs) [0x4500, 0x4608, 0x4608] (tl xs)"] np [of c]
      by (cases xs) (auto simp: goes_on_def split: if_splits res.splits)
  next
    case (Send c x icrs xs)
    note q = send_target [OF assms(2) B Send(2)]
    show ?thesis
    proof (cases icrs)
      case Nil
      then show ?thesis using Send one [of c "WaitOnline x xs"] by auto
    next
      case (Cons icr r)
      have "smp_work ?vs t < smp_work ?vs s"
        by (rule work_less [of _ _ _ c]) (use Send Cons q(1) q(2) [OF Cons] active_valid [OF assms(2) B, of c] in auto)
      then show ?thesis by simp
    qed
  next
    case (Online c x xs)
    then show ?thesis using one [of c "Launching xs"] np [of c] by (auto simp: wait_online_def goes_on_def split: if_splits res.splits)
  next
    case (CheckIn c i)
    then show ?thesis using one [of c "CheckedIn i"] np [of c] by (auto simp: check_in_def goes_on_def split: if_splits res.splits)
  next
    case (CountIn c i)
    then show ?thesis using one [of c "WaitAll i"] by (auto simp: count_in_def)
  next
    case (AllIn c i)
    then show ?thesis using one [of c "Running i"] np [of c] by (auto simp: wait_all_def goes_on_def split: if_splits res.splits)
  qed
qed


lemma rising_step:
  assumes "smp_config found bsp" "smp_inv (apics_of found bsp) bsp s" "rising (places s c)"
  shows "\<exists>t. smp_step found s t \<and> t \<noteq> s"
proof -
  have holder: "\<exists>t. smp_step found s t \<and> t \<noteq> s" if "holds_stack (places s d)" for d
  proof (cases "places s d")
    case Booting
    then show ?thesis using FetchId [OF Booting, of found] by (intro exI [of _ "fetch_core_id d s"]) (auto simp: fetch_core_id_def at_def fun_upd_def dest!: arg_cong [where f = "\<lambda>s. places s d"])
  next
    case (Entering i)
    then show ?thesis using Release [OF Entering, of found] by (intro exI [of _ "release_early_stack d i s"]) (auto simp: release_early_stack_def at_def dest!: arg_cong [where f = "\<lambda>s. places s d"])
  qed (use that in auto)
  have differs: "t \<noteq> s" if "places t c \<noteq> places s c" for t using that by auto
  show ?thesis
  proof (cases "places s c")
    case WaitForStack
    show ?thesis
    proof (cases "stack_avail s = 0")
      case True
      then show ?thesis using holder invD(2) [OF assms(2)] by (auto simp: stack_ok_def)
    next
      case False
      then have "places (take_stack c s) c = Booting" by (simp add: take_stack_def Let_def)
      then show ?thesis using TakeStack [OF WaitForStack] differs [of "take_stack c s"] WaitForStack by auto
    qed
  next
    case (Starting i)
    let ?t = "init_core found c i s"
    have st: "smp_step found s ?t" by (rule InitCore [OF Starting])
    have "places ?t c \<noteq> Starting i" by (auto simp: init_core_def goes_on_def split: res.splits option.splits)
    then show ?thesis using st differs [of ?t] Starting by auto
  next
    case (Ready i)
    let ?t = "check_in c i s"
    have st: "smp_step found s ?t" by (rule CheckIn [OF Ready])
    have "places ?t c \<noteq> Ready i" by (auto simp: check_in_def goes_on_def split: res.splits)
    then show ?thesis using st differs [of ?t] Ready by auto
  qed (use assms(3) holder [of c] in auto)
qed

lemma settled_step:
  assumes "smp_config found bsp" "smp_inv (apics_of found bsp) bsp s" "c \<in> set (apics_of found bsp)" "\<forall>i. places s c \<noteq> Running i"
    and "settled (places s bsp)"
  shows "\<exists>t. smp_step found s t \<and> t \<noteq> s"
proof -
  let ?vs = "apics_of found bsp"
  note i = invD [OF assms(2)]
  have B: "bsp \<in> set ?vs" "distinct ?vs" using assms(1) by (auto simp: smp_config_def)
  have differs: "\<exists>t. smp_step found s t \<and> t \<noteq> s" if "smp_step found s t" "places t d \<noteq> places s d" for t d using that by auto
  have all: "settled (places s d)" if "d \<in> set ?vs" for d
    using i(1) that assms(5) by (cases "d = bsp"; cases "places s bsp") (auto simp: places_ok_def)
  show ?thesis
  proof (cases "\<exists>d j. places s d = CheckedIn j")
    case True
    then obtain d j where d: "places s d = CheckedIn j" by blast
    then show ?thesis using differs [OF CountIn [OF d], of d] by (simp add: count_in_def)
  next
    case False
    have cn: "counted (places s d)" if "d \<in> set ?vs" for d using all [OF that] False by (cases "places s d") auto
    then have "counted_in s = set ?vs" using numbered_valid(2) [OF i(1) B(1)] by (auto simp: counted_in_def)
    moreover have "\<not> early (places s bsp)" by (rule settled_registered [OF i(1) assms(5)])
    ultimately have "cores_checked_in (sm_acpi s) = total_cores (sm_acpi s)"
      using i(4) distinct_card [OF B(2)] by (simp add: acpi_ok_def word_unat_eq_iff)
    moreover have "total_cores (sm_acpi s) > 0"
      using i(4) \<open>\<not> early (places s bsp)\<close> B(1) by (auto simp: acpi_ok_def word_less_nat_alt intro: length_pos_if_in_set)
    ultimately have dn: "checkin_done (sm_acpi s) = Ok True" by (simp add: checkin_done_def num_cores_def Let_def)
    obtain j where w: "places s c = WaitAll j" using cn [OF assms(3)] assms(4) by (cases "places s c") auto
    then show ?thesis using differs [OF AllIn [OF w], of c] dn by (simp add: wait_all_def goes_on_def)
  qed
qed

lemma can_step:
  assumes "smp_config found bsp" "smp_inv (apics_of found bsp) bsp s" "c \<in> set (apics_of found bsp)" "\<forall>i. places s c \<noteq> Running i"
  shows "\<exists>t. smp_step found s t \<and> t \<noteq> s"
proof -
  let ?vs = "apics_of found bsp"
  note i = invD [OF assms(2)]
  have B: "bsp \<in> set ?vs" "distinct ?vs" using assms(1) by (auto simp: smp_config_def)
  have differs: "\<exists>t. smp_step found s t \<and> t \<noteq> s" if "smp_step found s t" "places t d \<noteq> places s d" for t d using that by auto
  have bo: "bsp_ok ?vs bsp (places s bsp)" using i(1) by (simp add: places_ok_def)
  show ?thesis
  proof (cases "places s bsp")
    case (Launching xs)
    have "places (launch_next bsp xs s) bsp \<noteq> Launching xs"
      by (cases xs) (auto simp: goes_on_def split: res.splits)
    then show ?thesis using differs [OF Launch [OF Launching], of bsp] Launching by simp
  next
    case (Sending x icrs xs)
    have "places (send_next bsp x icrs xs s) bsp \<noteq> Sending x icrs xs" by (cases icrs) auto
    then show ?thesis using differs [OF Send [OF Sending], of bsp] Sending by simp
  next
    case (WaitOnline x xs)
    have x: "x \<noteq> bsp" "x \<in> set ?vs" using bo WaitOnline by auto
    then have "stage_ok (stage (places s bsp) x) (places s x) (apics (sm_acpi s) ! unat x)" using i(1) by (auto simp: places_ok_def)
    then consider "rising (places s x)" | "apics (sm_acpi s) ! unat x = apic_state_code Online" using WaitOnline by auto
    then show ?thesis
    proof cases
      case 1
      then show ?thesis by (rule rising_step [OF assms(1,2)])
    next
      case 2
      have "core_state (sm_acpi s) x = Ok Online"
        using i(4) assms(1) x(2) 2 by (auto simp: core_state_def acpi_ok_def smp_config_def apic_state_from_def)
      then have "places (wait_online bsp x xs s) bsp = Launching xs" by (simp add: wait_online_def goes_on_def)
      then show ?thesis using differs [OF Online [OF WaitOnline], of bsp] WaitOnline by simp
    qed
  next
    case Parked
    then show ?thesis using bo by simp
  next
    case WaitSipi
    then show ?thesis using bo by simp
  next
    case (Elsewhere a)
    then show ?thesis using bo by simp
  next
    case (Panicked msg)
    then show ?thesis using bo by simp
  qed (use rising_step [OF assms(1,2), of bsp] settled_step [OF assms] in auto)
qed


lemma completes:
  assumes "smp_config found bsp" "smp_inv (apics_of found bsp) bsp s"
  shows "\<exists>t. (smp_step found)\<^sup>*\<^sup>* s t \<and> (\<forall>c \<in> set (apics_of found bsp). \<exists>i. places t c = Running i)"
  using assms(2)
proof (induction "smp_work (apics_of found bsp) s" arbitrary: s rule: less_induct)
  case less
  show ?case
  proof (cases "\<forall>c \<in> set (apics_of found bsp). \<exists>i. places s c = Running i")
    case False
    then obtain c where "c \<in> set (apics_of found bsp)" "\<forall>i. places s c \<noteq> Running i" by blast
    from can_step [OF assms(1) less(2) this] obtain t where t: "smp_step found s t" "t \<noteq> s" by blast
    with step_work [OF assms(1) less(2)] have "smp_work (apics_of found bsp) t < smp_work (apics_of found bsp) s" by blast
    from less(1) [OF this smp_step_inv [OF assms(1) t(1) less(2)]] show ?thesis using t(1) by (meson converse_rtranclp_into_rtranclp)
  qed blast
qed

text \<open>When all cores have identifiers, one of them has the last.\<close>

lemma all_numbered:
  assumes "ids_ok bsp s" "numbered s = set vs" "0 < next_core s"
  shows "\<exists>!d. ident (places s d) = Some (next_core s - 1)"
proof -
  let ?n = "unat (next_core s)"
  define f where "f d = unat (the (ident (places s d)))" for d
  have id: "ident (places s d) \<noteq> None" if "d \<in> set vs" for d using assms(2) that by (auto simp: numbered_def)
  have n: "?n = card (set vs)" using assms(1,2) by (simp add: ids_ok_def)
  have inj: "inj_on f (set vs)"
  proof (rule inj_onI)
    fix d e assume d: "d \<in> set vs" "e \<in> set vs" "f d = f e"
    then have "ident (places s d) = ident (places s e)" using id [OF d(1)] id [OF d(2)] by (auto simp: f_def word_unat_eq_iff)
    with id [OF d(1)] show "d = e" using assms(1) unfolding ids_ok_def by blast
  qed
  have "f d < ?n" if d: "d \<in> set vs" for d
  proof -
    obtain j where "ident (places s d) = Some j" using id [OF d] by auto
    moreover from this have "j < next_core s" using assms(1) unfolding ids_ok_def by blast
    ultimately show ?thesis by (simp add: f_def word_less_nat_alt)
  qed
  then have "f ` set vs = {..<?n}" using card_image [OF inj] n by (intro card_subset_eq) auto
  moreover have u: "unat (next_core s - 1) = ?n - 1" "?n - 1 < ?n"
    using assms(3) by (simp_all add: unat_sub word_le_nat_alt word_less_nat_alt)
  ultimately obtain d where d: "d \<in> set vs" "f d = ?n - 1" by (metis (no_types, lifting) imageE lessThan_iff)
  then obtain j where j: "ident (places s d) = Some j" using id [OF d(1)] by auto
  then have "j = next_core s - 1" using d(2) u(1) by (simp add: f_def word_unat_eq_iff)
  then show ?thesis using j assms(1) unfolding ids_ok_def by (metis option.distinct(1))
qed

subsection \<open>Claims\<close>

text \<open>C36: while the cores start, in every interleaving: the early boot stack, on which the bootloader runs, is used by
  at most one core at a time, no two cores get the same identifier, every identifier is
  below the number of cores, and no assertion of the registration or of \<open>core_checkin\<close>
  fails.\<close>

theorem smp_boot_safe:
  assumes "smp_config found bsp" "smp_reach found bsp s"
  shows "(\<forall>c d. holds_stack (places s c) \<and> holds_stack (places s d) \<longrightarrow> c = d) \<and>
    (\<forall>c d i. ident (places s c) = Some i \<and> ident (places s d) = Some i \<longrightarrow> c = d) \<and>
    (\<forall>c i. ident (places s c) = Some i \<longrightarrow> unat i < length (apics_of found bsp)) \<and> (\<forall>c msg. places s c \<noteq> Panicked msg)"
proof -
  let ?vs = "apics_of found bsp"
  have I: "smp_inv ?vs bsp s" by (rule reach_inv [OF assms(2,1)])
  note i = invD [OF I]
  have B: "bsp \<in> set ?vs" "distinct ?vs" using assms(1) by (auto simp: smp_config_def)
  have "unat (next_core s) \<le> length ?vs"
    using i(3) card_mono [OF _ numbered_valid(1) [OF i(1) B(1)]] distinct_card [OF B(2)] by (simp add: ids_ok_def)
  moreover have "i < next_core s" if "ident (places s c) = Some i" for c i using i(3) that unfolding ids_ok_def by blast
  ultimately have "unat i < length ?vs" if "ident (places s c) = Some i" for c i
    using that by (meson order.strict_trans2 word_less_nat_alt)
  moreover have "c = d" if "ident (places s c) = Some i" "ident (places s d) = Some i" for c d i
    using i(3) that unfolding ids_ok_def by (metis option.distinct(1))
  ultimately show ?thesis using i(2) not_panicked [OF I] unfolding stack_ok_def by blast
qed

lemma sample_config: "smp_config (Some [0, 1]) 0" "apics_of (Some [0, 1]) 0 = [0, 1]"
  by (simp_all add: smp_config_def apics_of_def MAX_CORES_def)

lemma reach_steps: "(smp_step found)\<^sup>*\<^sup>* s t \<Longrightarrow> smp_reach found bsp s \<Longrightarrow> smp_reach found bsp t"
  by (induction rule: rtranclp_induct) (auto intro: smp_reach.Step)

lemma sample_running: "\<exists>s i. smp_reach (Some [0, 1]) 0 s \<and> places s 1 = Running i"
  using completes [OF sample_config(1) start_inv [OF sample_config(1)]] reach_steps [OF _ Start] unfolding sample_config(2)
  by (metis list.set_intros)

theorem smp_boot_safe_witness:
  "\<exists>s i. smp_reach (Some [0, 1]) 0 s \<and> places s 1 = Running i \<and> unat i < 2 \<and> ident (places s 0) \<noteq> Some i \<and> (\<forall>c msg. places s c \<noteq> Panicked msg)"
proof -
  obtain s i where s: "smp_reach (Some [0, 1]) 0 s" "places s 1 = Running i" using sample_running by blast
  note w = smp_boot_safe [OF sample_config(1) s(1)]
  have "ident (places s 1) = Some i" using s(2) by simp
  then have "unat i < 2" "ident (places s 0) \<noteq> Some i" using w unfolding sample_config(2) by (fastforce, force)
  then show ?thesis using s w by blast
qed

text \<open>C37: \<open>core_checkin\<close> is a barrier: when a core has passed it, every core of the system is online and has checked in.
  Their identifiers are then exactly those below the number of cores, so one core prints
  the message that all cores are online.\<close>

theorem smp_barrier:
  assumes "smp_config found bsp" "smp_reach found bsp s" "places s c = Running i"
  shows "(\<forall>d \<in> set (apics_of found bsp). counted (places s d) \<and> core_state (sm_acpi s) d = Ok Online) \<and>
    num_cores (sm_acpi s) = Ok (next_core s) \<and> (\<exists>!d. ident (places s d) = Some (next_core s - 1))"
proof -
  let ?vs = "apics_of found bsp"
  have I: "smp_inv ?vs bsp s" by (rule reach_inv [OF assms(2,1)])
  note i = invD [OF I]
  have B: "bsp \<in> set ?vs" "distinct ?vs" "\<forall>d \<in> set ?vs. unat d < MAX_CORES" using assms(1) by (auto simp: smp_config_def)
  have k: "counted_in s = set ?vs" using i(4) assms(3) unfolding acpi_ok_def by blast
  then have cn: "counted (places s d)" if "d \<in> set ?vs" for d using that by (auto simp: counted_in_def)
  have ce: "\<not> early p" "settled p" if "counted p" for p using that by (cases p; simp)+
  have on: "apics (sm_acpi s) ! unat d = apic_state_code Online" if "d \<in> set ?vs" for d
    using i(4) ap_place(4) [OF i(1), of d] ce [OF cn [OF that]] ce(1) [OF cn [OF B(1)]] by (cases "d = bsp") (auto simp: acpi_ok_def)
  have st: "core_state (sm_acpi s) d = Ok Online" if "d \<in> set ?vs" for d
    using on [OF that] B(3) that i(4) by (simp add: core_state_def acpi_ok_def apic_state_from_def)
  have cid: "ident p \<noteq> None" if "counted p" for p using that by (cases p) auto
  have nu: "numbered s = set ?vs" using numbered_valid(1) [OF i(1) B(1)] cn cid by (auto simp: numbered_def)
  have nc: "unat (next_core s) = length ?vs" using i(3) nu distinct_card [OF B(2)] by (simp add: ids_ok_def)
  have tc: "total_cores (sm_acpi s) = next_core s" using i(4) ce(1) [OF cn [OF B(1)]] nc by (simp add: acpi_ok_def word_unat_eq_iff)
  have pos: "0 < next_core s" using nc B(1) by (auto simp: word_less_nat_alt intro: length_pos_if_in_set)
  show ?thesis using cn st tc pos all_numbered [OF i(3) nu pos] by (simp add: num_cores_def Let_def)
qed

theorem smp_barrier_witness:
  "\<exists>s i. smp_reach (Some [0, 1]) 0 s \<and> places s 1 = Running i \<and> counted (places s 0) \<and> core_state (sm_acpi s) 0 = Ok Online"
proof -
  obtain s i where s: "smp_reach (Some [0, 1]) 0 s" "places s 1 = Running i" using sample_running by blast
  then show ?thesis using smp_barrier [OF sample_config(1) s] unfolding sample_config(2) by auto
qed




end
