(* ===== verification/Panic.thy ===== *)
theory Panic
  imports Apic E1000
begin

text \<open>
  Panics and soft reboots of the kernel, \<open>kernel/src/panic.rs\<close>. A panic inside the handler enters the handler
  again, so every operation here returns the state in which it panicked. What the other cores
  do while this core waits for them is a parameter.
\<close>

unbundle bit_operations_syntax

subsection \<open>State\<close>

record Location =
  loc_file :: bytes
  loc_line :: u32
  loc_column :: u32

record PanicInfo =
  location :: "Location option"
  message :: "bytes option"

text \<open>
  The machine as this core sees it, with the statics of the module and the list of devices. The clock
  counts the polls of the states of the other cores.
\<close>

record ('h, 'd) System =
  sy_machine :: "'h Machine"
  sy_pending :: "PanicInfo option"
  sy_devices :: "'d NetDevice list"
  sy_clock :: nat

text \<open>
  The ports, the processor, the interrupt handlers, the other cores, and where in the source a
  message is the argument of a panic.
\<close>

record 'h Surroundings =
  su_io :: io_env
  su_hw :: "'h CpuHw"
  su_call :: "'h dispatcher"
  su_cores :: "nat \<Rightarrow> 'h \<Rightarrow> AcpiState \<Rightarrow> AcpiState"
  su_where :: "string \<Rightarrow> Location"

text \<open>Code that may not return, or panics in a state, or returns a value.\<close>

type_synonym ('a, 's) run = "((string + 'a) \<times> 's) option"

definition bindP :: "('a, 's) run \<Rightarrow> ('a \<Rightarrow> 's \<Rightarrow> ('b, 's) run) \<Rightarrow> ('b, 's) run" where
  "bindP m f = Option.bind m (\<lambda>(r, s). case r of Inl msg \<Rightarrow> Some (Inl msg, s) | Inr x \<Rightarrow> f x s)"

lemma bindP_simps [simp]:
  "bindP None f = None" "bindP (Some (Inl msg, s)) f = Some (Inl msg, s)" "bindP (Some (Inr x, s)) f = f x s"
  by (simp_all add: bindP_def)

fun foldP :: "('a \<Rightarrow> 's \<Rightarrow> (unit, 's) run) \<Rightarrow> 'a list \<Rightarrow> 's \<Rightarrow> (unit, 's) run" where
  "foldP f [] s = Some (Inr (), s)"
| "foldP f (x # xs) s = bindP (f x s) (\<lambda>_. foldP f xs)"

definition machine :: "('h Machine \<Rightarrow> 'h Machine res) \<Rightarrow> ('h, 'd) System \<Rightarrow> (unit, ('h, 'd) System) run" where
  "machine f s = (case f (sy_machine s) of Ok m \<Rightarrow> Some (Inr (), s\<lparr>sy_machine := m\<rparr>) | Panic msg \<Rightarrow> Some (Inl msg, s))"

definition ports :: "(Io \<Rightarrow> Io option) \<Rightarrow> ('h, 'd) System \<Rightarrow> (unit, ('h, 'd) System) run" where
  "ports f s = map_option (\<lambda>io. (Inr (), s\<lparr>sy_machine := (sy_machine s)\<lparr>m_io := io\<rparr>\<rparr>)) (f (m_io (sy_machine s)))"

abbreviation core_locals :: "('h, 'd) System \<Rightarrow> CoreLocals" where
  "core_locals s \<equiv> k_core (m_kernel (sy_machine s))"

subsection \<open>Requests\<close>

text \<open>The byte \<open>Z\<close> on the serial port requests a soft reboot; the request panics.\<close>

definition attempt_soft_reboot :: "io_env \<Rightarrow> 'h Machine \<Rightarrow> (string + unit) \<times> 'h Machine" where
  "attempt_soft_reboot env m =
     (if m_serial_locked m then (Inr (), m)
      else
        (case ba_serial (k_args (m_kernel m)) of
           None \<Rightarrow> (Inl ''called `Option::unwrap()` on a `None` value'', m)
         | Some s \<Rightarrow>
             let (byte, io) = read_byte env (m_io m) s; m = m\<lparr>m_io := io\<rparr> in
             if byte = Some 0x5a then (Inl ''Soft reboot requested from timer'', m\<lparr>m_reboot_requested := True\<rparr>)
             else (Inr (), m)))"

definition timer_interrupt :: "io_env \<Rightarrow> 'h Machine \<Rightarrow> (bool \<times> 'h Machine) res" where
  "timer_interrupt env m =
     (case attempt_soft_reboot env m of (Inl msg, _) \<Rightarrow> Panic msg | (Inr _, m) \<Rightarrow> Ok (True, m))"

subsection \<open>Disabling the other cores\<close>

text \<open>The command of an NMI: asserted, delivery mode 4.\<close>

definition NMI :: u32 where "NMI = push_bit 14 1 OR push_bit 8 4"

text \<open>The loop that waits for a core to check in as halted.\<close>

partial_function (option) wait_halted :: "'h Surroundings \<Rightarrow> u32 \<Rightarrow> ('h, 'd) System \<Rightarrow> (unit, ('h, 'd) System) run" where
  "wait_halted su ident s =
     (let m = sy_machine s;
          a = su_cores su (sy_clock s) (m_hw m) (m_acpi m);
          s = s\<lparr>sy_machine := m\<lparr>m_acpi := a\<rparr>, sy_clock := sy_clock s + 1\<rparr> in
      case core_state a ident of
        Panic msg \<Rightarrow> Some (Inl msg, s)
      | Ok st \<Rightarrow> if st \<noteq> Halted then wait_halted su ident s else Some (Inr (), s))"

declare wait_halted.simps [simp del]

definition halt_core :: "'h Surroundings \<Rightarrow> Apic \<Rightarrow> u32 \<Rightarrow> u32 \<Rightarrow> ('h, 'd) System \<Rightarrow> (unit, ('h, 'd) System) run" where
  "halt_core su a our_apic_id ident s =
     (if ident = our_apic_id then Some (Inr (), s)
      else
        (case core_state (m_acpi (sy_machine s)) ident of
           Panic msg \<Rightarrow> Some (Inl msg, s)
         | Ok state \<Rightarrow>
             if state = Online then
               bindP (machine (on_hw (ipi (su_hw su) a ident NMI)) s) (\<lambda>_ s. wait_halted su ident s)
             else Some (Inr (), s)))"

definition disable_all_cores :: "'h Surroundings \<Rightarrow> Apic \<Rightarrow> ('h, 'd) System \<Rightarrow> (unit, ('h, 'd) System) run" where
  "disable_all_cores su a s =
     (if core_id (core_locals s) \<noteq> 0 then Some (Inl ''Disable all cores only allowed on BSP'', s)
      else
        (case apic_id (core_locals s) of
           None \<Rightarrow> Some (Inr (), s)
         | Some our_apic_id \<Rightarrow> foldP (halt_core su a our_apic_id) (map word_of_nat [0..<MAX_CORES]) s))"

subsection \<open>The soft reboot\<close>

text \<open>How the handler ends: a jump to an address with the trampoline table as its argument, or a halt.\<close>

datatype panic_end = Rebooted u64 u64 | CoreHalted

text \<open>Dropping the core locals drops the APIC.\<close>

definition drop_core :: "'h Surroundings \<Rightarrow> ('h, 'd) System \<Rightarrow> (unit, ('h, 'd) System) run" where
  "drop_core su s =
     (case m_apic (sy_machine s) of
        None \<Rightarrow> Some (Inr (), s)
      | Some a \<Rightarrow>
          Option.bind (apic_drop (su_hw su) (su_call su) a (sy_machine s)) (\<lambda>r. machine (\<lambda>_. r) s))"

definition soft_reboot :: "'h Surroundings \<Rightarrow> Apic \<Rightarrow> ('h, 'd) System \<Rightarrow> (panic_end, ('h, 'd) System) run" where
  "soft_reboot su a s =
     (let soft_reboot = ba_soft_reboot_addr (k_args (m_kernel (sy_machine s)));
          trampoline_cr3 = ba_trampoline_page_table (k_args (m_kernel (sy_machine s)));
          vaddr = KERNEL_PHYS_WINDOW_BASE + soft_reboot in
      bindP (disable_all_cores su a s) (\<lambda>_ s.
      bindP (case destroy_devices nd_purge (sy_devices s) of
          Panic msg \<Rightarrow> Some (Inl msg, s)
        | Ok ds \<Rightarrow> Some (Inr (), s\<lparr>sy_devices := ds\<rparr>)) (\<lambda>_ s.
      bindP (drop_core su s) (\<lambda>_ s. Some (Inr (Rebooted vaddr trampoline_cr3), s)))))"

subsection \<open>The panic handler\<close>

fun dec :: "nat \<Rightarrow> bytes" where
  "dec n = (if n < 10 then [word_of_nat (48 + n)] else dec (n div 10) @ [word_of_nat (48 + n mod 10)])"

declare dec.simps [simp del]

text \<open>What is printed for one of the two panics.\<close>

definition panic_text :: "string \<Rightarrow> PanicInfo \<Rightarrow> bytes" where
  "panic_text title info =
     ascii (''=== PANIC | '' @ title @ '' ============='') @ [10] @
     (case location info of
        None \<Rightarrow> []
      | Some loc \<Rightarrow> ascii ''At '' @ loc_file loc @ ascii '':'' @ dec (unat (loc_line loc)) @ ascii '':'' @ dec (unat (loc_column loc)) @ [10]) @
     (case message info of None \<Rightarrow> [] | Some msg \<Rightarrow> msg @ [10])"

text \<open>The loop that waits for the request to reboot.\<close>

partial_function (option) wait_request :: "'h Surroundings \<Rightarrow> SerialPort \<Rightarrow> ('h, 'd) System \<Rightarrow> (unit, ('h, 'd) System) run" where
  "wait_request su serial s =
     (if m_reboot_requested (sy_machine s) then Some (Inr (), s)
      else
        let m = sy_machine s; (byte, io) = read_byte (su_io su) (m_io m) serial;
            m = m\<lparr>m_io := io\<rparr>;
            m = (if byte = Some 0x5a then m\<lparr>m_reboot_requested := True\<rparr> else m)
        in wait_request su serial (s\<lparr>sy_machine := m\<rparr>))"

declare wait_request.simps [simp del]

text \<open>The words of the BIOS data area, read through the window onto physical memory.\<close>

definition window_bda :: "Kernel \<Rightarrow> nat \<Rightarrow> u16" where
  "window_bda k i = from_le (read_bytes (k_mem k) (KERNEL_PHYS_WINDOW_BASE + 0x400 + word_of_nat (2 * i)) 2)"

definition emergency_serial :: "'h Surroundings \<Rightarrow> ('h, 'd) System \<Rightarrow> (SerialPort, ('h, 'd) System) run" where
  "emergency_serial su s =
     (let s = s\<lparr>sy_machine := (sy_machine s)\<lparr>m_serial_locked := True\<rparr>\<rparr>; m = sy_machine s in
      map_option (\<lambda>(serial, io). (Inr serial, s\<lparr>sy_machine := m\<lparr>m_io := io\<rparr>\<rparr>))
        (serial_new (su_io su) (window_bda (m_kernel m)) (m_io m)))"

definition panic_bsp :: "'h Surroundings \<Rightarrow> PanicInfo \<Rightarrow> ('h, 'd) System \<Rightarrow> (panic_end, ('h, 'd) System) run" where
  "panic_bsp su info s =
     (let other_info = sy_pending s in
      case m_apic (sy_machine s) of
        None \<Rightarrow> Some (Inl ''called `Option::unwrap()` on a `None` value'', s)
      | Some a \<Rightarrow>
          bindP (disable_all_cores su a s) (\<lambda>_ s.
          bindP (emergency_serial su s) (\<lambda>eserial s.
          bindP (ports (\<lambda>io. serial_write (su_io su) io eserial ([10, 10, 10] @
              (case other_info of None \<Rightarrow> [] | Some i \<Rightarrow> panic_text ''Panic reported by other core'' i) @
              panic_text ''Local panic'' info)) s) (\<lambda>_ s.
          bindP (wait_request su eserial s) (\<lambda>_ s.
          bindP (ports (\<lambda>io. serial_write (su_io su) io eserial (ascii ''Starting soft reboot...'' @ [10])) s) (\<lambda>_ s.
            soft_reboot su a s))))))"

definition panic_other :: "'h Surroundings \<Rightarrow> PanicInfo \<Rightarrow> ('h, 'd) System \<Rightarrow> (panic_end, ('h, 'd) System) run" where
  "panic_other su info s =
     (let s = s\<lparr>sy_pending := Some info\<rparr> in
      case m_apic (sy_machine s) of
        None \<Rightarrow> Some (Inl ''called `Option::unwrap()` on a `None` value'', s)
      | Some a \<Rightarrow> bindP (machine (on_hw (ipi (su_hw su) a 0 NMI)) s) (\<lambda>_ s. Some (Inr CoreHalted, s)))"

definition panic_once :: "'h Surroundings \<Rightarrow> PanicInfo \<Rightarrow> ('h, 'd) System \<Rightarrow> (panic_end, ('h, 'd) System) run" where
  "panic_once su info s =
     bindP (machine (on_core disable_interrupts) s) (\<lambda>_ s.
     if core_id (core_locals s) = 0 then panic_bsp su info s else panic_other su info s)"

text \<open>A panic in the handler runs the handler for the new panic.\<close>

partial_function (option) panic_handler :: "'h Surroundings \<Rightarrow> PanicInfo \<Rightarrow> ('h, 'd) System \<Rightarrow> (panic_end \<times> ('h, 'd) System) option" where
  "panic_handler su info s =
     Option.bind (panic_once su info s) (\<lambda>(r, s).
     case r of
       Inl msg \<Rightarrow> panic_handler su \<lparr>location = Some (su_where su msg), message = Some (ascii msg)\<rparr> s
     | Inr e \<Rightarrow> Some (e, s))"

declare panic_handler.simps [simp del]

end
