(* ===== verification/Panic_Correct.thy ===== *)
theory Panic_Correct
  imports Panic Apic_Correct
begin

text \<open>
  A soft reboot that was requested happens: the other cores are halted, the APIC is restored and the first stage is
  entered. With a network device it never happens.
\<close>

unbundle bit_operations_syntax

subsection \<open>What the handler keeps\<close>

definition kept :: "('h, 'd) System \<Rightarrow> ('h, 'd) System \<Rightarrow> bool" where
  "kept s t \<longleftrightarrow> core_id (core_locals t) = core_id (core_locals s) \<and> sy_devices t = sy_devices s"

lemma kept_refl [simp]: "kept s s"
  by (simp add: kept_def)

lemma kept_trans: "kept s t \<Longrightarrow> kept t u \<Longrightarrow> kept s u"
  by (simp add: kept_def)

definition keeping :: "('h, 'd) System \<Rightarrow> ('a, ('h, 'd) System) run \<Rightarrow> bool" where
  "keeping s m \<longleftrightarrow> (\<forall>r t. m = Some (r, t) \<longrightarrow> kept s t)"

lemma keeping_Some [simp]: "keeping s (Some (r, t)) \<longleftrightarrow> kept s t" "keeping s None"
  by (simp_all add: keeping_def)

lemma keeping_bind:
  assumes "keeping s m" "\<And>x t. kept s t \<Longrightarrow> keeping t (f x t)"
  shows "keeping s (bindP m f)"
proof (cases m)
  case (Some p)
  obtain r t where p: "p = (r, t)" by (cases p)
  have k: "kept s t" using assms(1) Some p by (simp add: keeping_def)
  show ?thesis
  proof (cases r)
    case (Inr x)
    then show ?thesis using assms(2) [OF k, of x] k Some p kept_trans by (auto simp: keeping_def)
  qed (use Some p k in simp)
qed simp

lemma keeping_hw: "keeping s (machine (on_hw f) s)"
  by (auto simp: machine_def on_hw_def bindR_def kept_def split: res.splits)

lemma wait_halted_kept: "keeping s (wait_halted su ident s)"
proof -
  have "kept s (snd y)" if y: "wait_halted su ident s = Some y" for y
  proof (rule wait_halted.raw_induct [of "\<lambda>su ident s y. kept s (snd y)", OF _ y])
    fix wait su ident s y
    assume IH: "\<And>su ident s y. wait su ident s = Some y \<Longrightarrow> kept s (snd y)"
      and step: "(let m = sy_machine s; a = su_cores su (sy_clock s) (m_hw m) (m_acpi m);
          s = s\<lparr>sy_machine := m\<lparr>m_acpi := a\<rparr>, sy_clock := sy_clock s + 1\<rparr>
        in case core_state a ident of Ok st \<Rightarrow> if st \<noteq> Halted then wait su ident s else Some (Inr (), s) | Panic msg \<Rightarrow> Some (Inl msg, s)) = Some y"
    show "kept s (snd y)"
      using step IH by (fastforce simp: Let_def kept_def split: res.splits if_splits)
  qed
  then show ?thesis by (auto simp: keeping_def)
qed

lemma wait_request_kept: "keeping s (wait_request su serial s)"
proof -
  have "kept s (snd y)" if y: "wait_request su serial s = Some y" for y
  proof (rule wait_request.raw_induct [of "\<lambda>su serial s y. kept s (snd y)", OF _ y])
    fix wait su serial s y
    assume IH: "\<And>su serial s y. wait su serial s = Some y \<Longrightarrow> kept s (snd y)"
      and step: "(if m_reboot_requested (sy_machine s) then Some (Inr (), s)
        else let m = sy_machine s; (byte, io) = read_byte (su_io su) (m_io m) serial; m = m\<lparr>m_io := io\<rparr>;
            m = (if byte = Some 0x5a then m\<lparr>m_reboot_requested := True\<rparr> else m)
          in wait su serial (s\<lparr>sy_machine := m\<rparr>)) = Some y"
    show "kept s (snd y)"
    proof (cases "m_reboot_requested (sy_machine s)")
      case False
      obtain byte io where r: "read_byte (su_io su) (m_io (sy_machine s)) serial = (byte, io)" by (cases "read_byte (su_io su) (m_io (sy_machine s)) serial")
      let ?m = "(sy_machine s)\<lparr>m_io := io\<rparr>"
      let ?t = "s\<lparr>sy_machine := (if byte = Some 0x5a then ?m\<lparr>m_reboot_requested := True\<rparr> else ?m)\<rparr>"
      have "wait su serial ?t = Some y" using step False r by (simp add: Let_def)
      from IH [OF this] show ?thesis by (auto simp: kept_def split: if_splits)
    qed (use step in auto)
  qed
  then show ?thesis by (auto simp: keeping_def)
qed

lemma halt_core_kept: "keeping s (halt_core su a our ident s)"
  unfolding halt_core_def by (auto split: res.splits intro!: keeping_bind keeping_hw wait_halted_kept)

lemma foldP_kept: "(\<And>x t. keeping t (f x t)) \<Longrightarrow> keeping s (foldP f xs s)"
  by (induction xs arbitrary: s) (auto intro: keeping_bind)

lemma disable_all_cores_kept: "keeping s (disable_all_cores su a s)"
  unfolding disable_all_cores_def by (auto split: option.splits intro: foldP_kept halt_core_kept)

lemma ports_kept: "keeping s (ports f s)"
  by (auto simp: ports_def keeping_def kept_def)

lemma emergency_serial_kept: "keeping s (emergency_serial su s)"
  by (auto simp: emergency_serial_def keeping_def kept_def Let_def)

text \<open>With a device the soft reboot panics, and so does the handler of every panic on core 0.\<close>

definition failing :: "('h, 'd) System \<Rightarrow> ('a, ('h, 'd) System) run \<Rightarrow> bool" where
  "failing s m \<longleftrightarrow> (\<forall>r t. m = Some (r, t) \<longrightarrow> (\<exists>msg. r = Inl msg) \<and> kept s t)"

lemma failing_bind:
  assumes "keeping s m" "\<And>x t. kept s t \<Longrightarrow> failing t (f x t)"
  shows "failing s (bindP m f)"
proof (cases m)
  case (Some p)
  obtain r t where p: "p = (r, t)" by (cases p)
  then have k: "kept s t" using assms(1) Some by (simp add: keeping_def)
  show ?thesis
  proof (cases r)
    case (Inr x)
    then show ?thesis using assms(2) [OF k, of x] k Some p kept_trans by (fastforce simp: failing_def)
  qed (use Some p k in \<open>simp add: failing_def\<close>)
qed (simp add: failing_def)

lemma soft_reboot_fails:
  assumes "sy_devices s \<noteq> []"
  shows "failing s (soft_reboot su a s)"
proof -
  have d: "destroy_devices nd_purge (sy_devices t) = Panic ''Implement purge for net device''" if "kept s t" for t
    using that assms by (cases "sy_devices s") (auto simp: kept_def destroy_devices_def nd_purge_def)
  show ?thesis
    unfolding soft_reboot_def Let_def
    by (rule failing_bind [OF disable_all_cores_kept]) (simp add: d failing_def)
qed

lemma panic_bsp_fails:
  assumes "sy_devices s \<noteq> []"
  shows "failing s (panic_bsp su info s)"
proof (cases "m_apic (sy_machine s)")
  case (Some a)
  show ?thesis
    unfolding panic_bsp_def Let_def Some option.case
    by (rule failing_bind [OF disable_all_cores_kept], rule failing_bind [OF emergency_serial_kept], rule failing_bind [OF ports_kept],
      rule failing_bind [OF wait_request_kept], rule failing_bind [OF ports_kept], rule soft_reboot_fails) (use assms in \<open>simp add: kept_def\<close>)
qed (simp add: panic_bsp_def failing_def)

lemma panic_once_fails:
  assumes "core_id (core_locals s) = 0" "sy_devices s \<noteq> []"
  shows "failing s (panic_once su info s)"
proof -
  have "keeping s (machine (on_core disable_interrupts) s)"
    by (auto simp: machine_def on_core_def disable_interrupts_def bindR_def kept_def Let_def split: res.splits option.splits)
  then show ?thesis unfolding panic_once_def
    by (rule failing_bind) (use assms in \<open>auto simp: kept_def intro!: panic_bsp_fails\<close>)
qed

text \<open>C40: a soft reboot never succeeds while a network device is registered: its \<open>purge\<close> panics, the panic handler
  runs again with the reboot still requested, and so on without end. No panic on
  core 0 ever ends in a reboot then.\<close>

theorem panic_with_device_never_reboots:
  assumes "core_id (core_locals s) = 0" "sy_devices s \<noteq> []"
  shows "panic_handler su info s = None"
proof -
  have "core_id (core_locals s) \<noteq> 0 \<or> sy_devices s = []" if y: "panic_handler su info s = Some y" for y
  proof (rule panic_handler.raw_induct [of "\<lambda>su info s y. core_id (core_locals s) \<noteq> 0 \<or> sy_devices s = []", OF _ y])
    fix handler su info s y
    assume IH: "\<And>su info s y. handler su info s = Some y \<Longrightarrow> core_id (core_locals s) \<noteq> 0 \<or> sy_devices s = []"
      and step: "Option.bind (panic_once su info s) (\<lambda>(r, s). case r of
          Inl msg \<Rightarrow> handler su \<lparr>location = Some (su_where su msg), message = Some (ascii msg)\<rparr> s | Inr e \<Rightarrow> Some (e, s)) = Some y"
    from step obtain r t where o: "panic_once su info s = Some (r, t)" by (cases "panic_once su info s") auto
    show "core_id (core_locals s) \<noteq> 0 \<or> sy_devices s = []"
    proof (rule ccontr)
      assume n: "\<not> (core_id (core_locals s) \<noteq> 0 \<or> sy_devices s = [])"
      then have "failing s (panic_once su info s)" by (intro panic_once_fails) auto
      then obtain msg where r: "r = Inl msg" "kept s t" using o by (auto simp: failing_def)
      then have "handler su \<lparr>location = Some (su_where su msg), message = Some (ascii msg)\<rparr> t = Some y" using step o by simp
      from IH [OF this] show False using n r(2) by (simp add: kept_def)
    qed
  qed
  then show ?thesis using assms by (cases "panic_handler su info s") auto
qed
definition sample_device :: "unit IntelGbit NetDevice" where
  "sample_device = net_device (IntelGbitDriver silent_card) example_nic"

theorem panic_with_device_never_reboots_witness:
  "\<forall>su info. panic_handler su info \<lparr>sy_machine = sample_machine, sy_pending = None, sy_devices = [sample_device], sy_clock = 0\<rparr> = None"
  by (intro allI panic_with_device_never_reboots) (simp_all add: sample_machine_def sample_kernel_def)

subsection \<open>Halting the other cores\<close>

text \<open>
  What is assumed of the other cores: they only ever halt, and a core that was sent an NMI is
  seen halted after finitely many polls.
\<close>

definition halted_more :: "AcpiState \<Rightarrow> AcpiState \<Rightarrow> bool" where
  "halted_more a b \<longleftrightarrow> length (apics b) = length (apics a) \<and>
     (\<forall>i < length (apics a). apics b ! i = apics a ! i \<or> apics b ! i = apic_state_code Halted)"

definition nmi_halts :: "'h Surroundings \<Rightarrow> Apic \<Rightarrow> bool" where
  "nmi_halts su a \<longleftrightarrow> (\<forall>n h st. halted_more st (su_cores su n h st)) \<and>
     (\<forall>ident h h' n. ipi (su_hw su) a ident NMI h = Ok h' \<longrightarrow>
       (\<exists>k \<ge> n. \<forall>st. unat ident < length (apics st) \<longrightarrow> apics (su_cores su k h' st) ! unat ident = apic_state_code Halted))"

lemma halted_more_refl [simp]: "halted_more a a"
  by (simp add: halted_more_def)

lemma halted_more_trans: "halted_more a b \<Longrightarrow> halted_more b c \<Longrightarrow> halted_more a c"
  unfolding halted_more_def by metis

text \<open>Every entry is the code of a state.\<close>

definition codes_ok :: "AcpiState \<Rightarrow> bool" where
  "codes_ok a \<longleftrightarrow> length (apics a) = MAX_CORES \<and> (\<forall>i < MAX_CORES. \<exists>st. apics a ! i = apic_state_code st)"

lemma codes_halted: "codes_ok a \<Longrightarrow> halted_more a b \<Longrightarrow> codes_ok b"
  unfolding codes_ok_def halted_more_def by metis

lemma state_from_code: "apic_state_from (apic_state_code st) = Ok st"
  by (cases st) (simp_all add: apic_state_from_def)

lemma core_state_code:
  assumes "codes_ok a" "unat ident < MAX_CORES"
  obtains st where "core_state a ident = Ok st" "apics a ! unat ident = apic_state_code st"
  using assms by (auto simp: codes_ok_def core_state_def state_from_code)

lemma state_code_inj: "apic_state_code st = apic_state_code st' \<longleftrightarrow> st = st'"
  by (cases st; cases st') simp_all

text \<open>How the system changes while the cores are halted: the interrupts pending on this core stay.\<close>

definition waited :: "('h \<Rightarrow> nat set) \<Rightarrow> ('h, 'd) System \<Rightarrow> ('h, 'd) System \<Rightarrow> bool" where
  "waited p s t \<longleftrightarrow> (\<exists>h a n. t = s\<lparr>sy_machine := (sy_machine s)\<lparr>m_hw := h, m_acpi := a\<rparr>, sy_clock := n\<rparr> \<and>
     halted_more (m_acpi (sy_machine s)) a \<and> p h = p (m_hw (sy_machine s)))"

lemma waited_refl: "waited p s s"
  unfolding waited_def by (intro exI [of _ "m_hw (sy_machine s)"] exI [of _ "m_acpi (sy_machine s)"] exI [of _ "sy_clock s"]) simp

lemma waited_trans: "waited p s t \<Longrightarrow> waited p t u \<Longrightarrow> waited p s u"
  unfolding waited_def by (elim exE conjE) (fastforce intro: halted_more_trans)

lemma wait_halted_ok:
  assumes "\<forall>n h st. halted_more st (su_cores su n h st)" "codes_ok (m_acpi (sy_machine s))" "unat ident < MAX_CORES" "sy_clock s \<le> k"
    and "\<forall>st. unat ident < length (apics st) \<longrightarrow> apics (su_cores su k (m_hw (sy_machine s)) st) ! unat ident = apic_state_code Halted"
  shows "\<exists>t. wait_halted su ident s = Some (Inr (), t) \<and> waited p s t \<and> apics (m_acpi (sy_machine t)) ! unat ident = apic_state_code Halted"
  using assms(2,4,5)
proof (induction "k - sy_clock s" arbitrary: s rule: less_induct)
  case less
  let ?m = "sy_machine s"
  define a where "a = su_cores su (sy_clock s) (m_hw ?m) (m_acpi ?m)"
  define t where "t = s\<lparr>sy_machine := ?m\<lparr>m_acpi := a\<rparr>, sy_clock := sy_clock s + 1\<rparr>"
  have h: "halted_more (m_acpi ?m) a" using assms(1) by (simp add: a_def)
  have c: "codes_ok a" by (rule codes_halted [OF less(2) h])
  have w: "waited p s t" unfolding waited_def t_def using h by (intro exI [of _ "m_hw ?m"] exI [of _ a] exI) simp
  obtain st where st: "core_state a ident = Ok st" "apics a ! unat ident = apic_state_code st" by (rule core_state_code [OF c assms(3)])
  have e: "wait_halted su ident s = (if st \<noteq> Halted then wait_halted su ident t else Some (Inr (), t))"
    using st(1) by (subst wait_halted.simps) (simp add: Let_def a_def t_def)
  show ?case
  proof (cases "st = Halted")
    case True
    then show ?thesis using e w st(2) by (auto simp: t_def)
  next
    case False
    have "sy_clock s \<noteq> k"
    proof
      assume "sy_clock s = k"
      then have "apics a ! unat ident = apic_state_code Halted" using less(2,4) assms(3) by (simp add: a_def codes_ok_def)
      with False st(2) show False by (metis state_code_inj)
    qed
    then have k: "sy_clock t \<le> k" "k - sy_clock t < k - sy_clock s" using less(3) by (simp_all add: t_def)
    have "codes_ok (m_acpi (sy_machine t))" "m_hw (sy_machine t) = m_hw ?m" using c by (simp_all add: t_def)
    then obtain u where "wait_halted su ident t = Some (Inr (), u)" "waited p t u"
      "apics (m_acpi (sy_machine u)) ! unat ident = apic_state_code Halted" using less(1) [OF k(2) _ k(1)] less(4) by auto
    with e False waited_trans [OF w] show ?thesis by auto
  qed
qed
text \<open>Writing the interrupt command register leaves the interrupts that are pending on this core.\<close>

fun icr_locations :: "ApicMode \<Rightarrow> location set" where
  "icr_locations X2Apic = {Msr 0x830}"
| "icr_locations (XApic p) = {Mmio (p + 0x300), Mmio (p + 0x310)}"

definition icr_quiet :: "'h CpuHw \<Rightarrow> ApicMode \<Rightarrow> ('h \<Rightarrow> location \<Rightarrow> u64) \<Rightarrow> bool" where
  "icr_quiet hw md obs \<longleftrightarrow> (\<forall>h v. \<forall>l \<in> icr_locations md.
     vectors_in md irr_regs (obs (hw_wr hw h l v)) = vectors_in md irr_regs (obs h))"

abbreviation pending_in :: "ApicMode \<Rightarrow> ('h \<Rightarrow> location \<Rightarrow> u64) \<Rightarrow> 'h \<Rightarrow> nat set" where
  "pending_in md obs \<equiv> \<lambda>h. vectors_in md irr_regs (obs h)"

lemma ipi_ok:
  assumes "icr_quiet hw (mode a) obs"
  obtains h' where "ipi hw a dest cmd h = Ok h'" "pending_in (mode a) obs h' = pending_in (mode a) obs h"
proof (cases "mode a")
  case (XApic p)
  then show ?thesis using that assms
    by (simp add: ipi_def write_icr_def mapping_word_def icr_quiet_def Let_def)
next
  case X2Apic
  then show ?thesis using that assms by (simp add: ipi_def write_icr_def icr_quiet_def Let_def)
qed

lemma halt_core_ok:
  assumes "nmi_halts su a" "icr_quiet (su_hw su) (mode a) obs" "codes_ok (m_acpi (sy_machine s))" "unat ident < MAX_CORES"
  shows "\<exists>t. halt_core su a our ident s = Some (Inr (), t) \<and> waited (pending_in (mode a) obs) s t \<and>
    (ident \<noteq> our \<longrightarrow> apics (m_acpi (sy_machine t)) ! unat ident \<noteq> apic_state_code Online)"
proof -
  let ?p = "pending_in (mode a) obs"
  obtain st where st: "core_state (m_acpi (sy_machine s)) ident = Ok st" "apics (m_acpi (sy_machine s)) ! unat ident = apic_state_code st"
    by (rule core_state_code [OF assms(3,4)])
  show ?thesis
  proof (cases "ident \<noteq> our \<and> st = Online")
    case False
    then have "halt_core su a our ident s = Some (Inr (), s)" using st(1) by (auto simp: halt_core_def)
    moreover have "ident \<noteq> our \<longrightarrow> apics (m_acpi (sy_machine s)) ! unat ident \<noteq> apic_state_code Online"
      using False st(2) by (auto simp only: state_code_inj)
    ultimately show ?thesis using waited_refl by blast
  next
    case True
    obtain h where h: "ipi (su_hw su) a ident NMI (m_hw (sy_machine s)) = Ok h" "?p h = ?p (m_hw (sy_machine s))"
      by (rule ipi_ok [OF assms(2)])
    define t where "t = s\<lparr>sy_machine := (sy_machine s)\<lparr>m_hw := h\<rparr>\<rparr>"
    have e: "halt_core su a our ident s = wait_halted su ident t"
      using True st(1) h(1) by (simp add: halt_core_def machine_def on_hw_def t_def)
    have w: "waited ?p s t" unfolding waited_def t_def
      using h(2) by (intro exI [of _ h] exI [of _ "m_acpi (sy_machine s)"] exI [of _ "sy_clock s"]) simp
    from assms(1) h(1) obtain k where "sy_clock t \<le> k"
      "\<forall>st. unat ident < length (apics st) \<longrightarrow> apics (su_cores su k (m_hw (sy_machine t)) st) ! unat ident = apic_state_code Halted"
      unfolding nmi_halts_def t_def by fastforce
    moreover have "\<forall>n h st. halted_more st (su_cores su n h st)" "codes_ok (m_acpi (sy_machine t))"
      using assms(1,3) by (simp_all add: nmi_halts_def t_def)
    ultimately obtain u where "wait_halted su ident t = Some (Inr (), u)" "waited ?p t u"
      "apics (m_acpi (sy_machine u)) ! unat ident = apic_state_code Halted"
      using wait_halted_ok [of su t ident k ?p] assms(4) by blast
    then show ?thesis using e waited_trans [OF w] by (auto simp: state_code_inj)
  qed
qed

lemma waited_states:
  assumes "waited p s t" "i < length (apics (m_acpi (sy_machine s)))" "apics (m_acpi (sy_machine s)) ! i \<noteq> apic_state_code Online"
  shows "apics (m_acpi (sy_machine t)) ! i \<noteq> apic_state_code Online"
  using assms by (auto simp: waited_def halted_more_def)

lemma halt_cores_ok:
  assumes "nmi_halts su a" "icr_quiet (su_hw su) (mode a) obs" "codes_ok (m_acpi (sy_machine s))" "\<forall>x \<in> set xs. unat x < MAX_CORES"
  shows "\<exists>t. foldP (halt_core su a our) xs s = Some (Inr (), t) \<and> waited (pending_in (mode a) obs) s t \<and>
    (\<forall>x \<in> set xs. x \<noteq> our \<longrightarrow> apics (m_acpi (sy_machine t)) ! unat x \<noteq> apic_state_code Online)"
  using assms(3,4)
proof (induction xs arbitrary: s)
  case Nil
  then show ?case using waited_refl by auto
next
  case (Cons x xs)
  let ?p = "pending_in (mode a) obs"
  have x: "unat x < MAX_CORES" using Cons.prems(2) by simp
  obtain t where t: "halt_core su a our x s = Some (Inr (), t)" "waited ?p s t"
    "x \<noteq> our \<longrightarrow> apics (m_acpi (sy_machine t)) ! unat x \<noteq> apic_state_code Online"
    using halt_core_ok [OF assms(1,2) Cons.prems(1) x] by blast
  have c: "codes_ok (m_acpi (sy_machine t))"
    using codes_halted [OF Cons.prems(1)] t(2) by (auto simp: waited_def)
  obtain u where u: "foldP (halt_core su a our) xs t = Some (Inr (), u)" "waited ?p t u"
    "\<forall>x \<in> set xs. x \<noteq> our \<longrightarrow> apics (m_acpi (sy_machine u)) ! unat x \<noteq> apic_state_code Online"
    using Cons.IH [OF c] Cons.prems(2) by auto
  have "x \<noteq> our \<longrightarrow> apics (m_acpi (sy_machine u)) ! unat x \<noteq> apic_state_code Online"
    using waited_states [OF u(2)] t(3) c x by (simp add: codes_ok_def)
  then show ?case using t(1) u waited_trans [OF t(2) u(2)] by auto
qed

text \<open>No core but this one is online afterwards.\<close>

definition others_halted :: "u32 \<Rightarrow> AcpiState \<Rightarrow> bool" where
  "others_halted our a \<longleftrightarrow> (\<forall>ident. unat ident < MAX_CORES \<and> ident \<noteq> our \<longrightarrow> apics a ! unat ident \<noteq> apic_state_code Online)"

lemma disable_all_cores_ok:
  assumes "nmi_halts su a" "icr_quiet (su_hw su) (mode a) obs" "codes_ok (m_acpi (sy_machine s))"
    and "core_id (core_locals s) = 0" "apic_id (core_locals s) = Some our"
  shows "\<exists>t. disable_all_cores su a s = Some (Inr (), t) \<and> waited (pending_in (mode a) obs) s t \<and> others_halted our (m_acpi (sy_machine t))"
proof -
  let ?xs = "map word_of_nat [0..<MAX_CORES] :: u32 list"
  have x: "\<forall>x \<in> set ?xs. unat x < MAX_CORES" by (auto simp: MAX_CORES_def unat_of_nat)
  have "ident \<in> set ?xs" if "unat ident < MAX_CORES" for ident
    using that by (auto simp: image_iff intro!: bexI [of _ "unat ident"])
  then show ?thesis
    using halt_cores_ok [OF assms(1-3) x, of our] assms(4,5) by (auto simp: disable_all_cores_def others_halted_def)
qed
subsection \<open>The way to the reboot\<close>

text \<open>
  Core 0 with its APIC, a reboot that was requested, no devices, and only interrupts pending that want
  an end of interrupt.
\<close>

definition bsp_ready :: "('h \<Rightarrow> location \<Rightarrow> u64) \<Rightarrow> Apic \<Rightarrow> u32 \<Rightarrow> BootArgs \<Rightarrow> ('h, 'd) System \<Rightarrow> bool" where
  "bsp_ready obs a our args s \<longleftrightarrow> (let m = sy_machine s in
     core_id (core_locals s) = 0 \<and> apic_id (core_locals s) = Some our \<and> nests (core_locals s) \<and> k_args (m_kernel m) = args \<and>
     m_apic m = Some a \<and> length (m_eoi_required m) = 256 \<and> \<not> m_eoi_required m ! 2 \<and>
     (\<forall>x \<in> pending_in (mode a) obs (m_hw m). m_eoi_required m ! x) \<and> codes_ok (m_acpi m) \<and> m_reboot_requested m \<and> sy_devices s = [])"

lemma ready_waited: "bsp_ready obs a our args s \<Longrightarrow> waited (pending_in (mode a) obs) s t \<Longrightarrow> bsp_ready obs a our args t"
  unfolding bsp_ready_def waited_def Let_def by (elim exE conjE) (simp add: codes_halted)

lemma ready_io:
  assumes "bsp_ready obs a our args s"
  shows "bsp_ready obs a our args (s\<lparr>sy_machine := (sy_machine s)\<lparr>m_io := io\<rparr>\<rparr>)"
    "bsp_ready obs a our args (s\<lparr>sy_machine := (sy_machine s)\<lparr>m_serial_locked := True, m_io := io\<rparr>\<rparr>)"
  using assms by (simp_all add: bsp_ready_def Let_def)

definition serial_alive :: "io_env \<Rightarrow> bool" where
  "serial_alive env \<longleftrightarrow> (\<forall>clock log port. \<exists>k. env (clock + k) log port AND 0x20 \<noteq> 0) \<and>
     (\<exists>n. \<forall>clock log port. n \<le> clock \<longrightarrow> env clock log port AND 1 = 0)"

lemma ports_ok:
  assumes "bsp_ready obs a our args s" "serial_alive (su_io su)"
  shows "\<exists>t. ports (\<lambda>io. serial_write (su_io su) io serial bs) s = Some (Inr (), t) \<and> bsp_ready obs a our args t"
proof -
  have r: "\<And>clock log port. \<exists>k. su_io su (clock + k) log port AND 0x20 \<noteq> 0" using assms(2) by (simp add: serial_alive_def)
  obtain io where "serial_write (su_io su) (m_io (sy_machine s)) serial bs = Some io"
    using serial_write_returns [of "su_io su", OF r] by blast
  then show ?thesis using ready_io(1) [OF assms(1)] by (simp add: ports_def)
qed

lemma emergency_serial_ok:
  assumes "bsp_ready obs a our args s" "serial_alive (su_io su)"
  shows "\<exists>serial t. emergency_serial su s = Some (Inr serial, t) \<and> bsp_ready obs a our args t"
proof -
  let ?m = "sy_machine s"
  obtain n where n: "\<forall>clock log port. n \<le> clock \<longrightarrow> su_io su clock log port AND 1 = 0" using assms(2) by (auto simp: serial_alive_def)
  obtain ds io where i: "init_ports (window_bda (m_kernel ?m)) (m_io ?m) [0..<4] = (ds, io)"
    by (cases "init_ports (window_bda (m_kernel ?m)) (m_io ?m) [0..<4]")
  obtain io' where "drain (su_io su) io \<lparr>devices = ds\<rparr> = Some io'" using drain_returns [OF n] by blast
  then have "serial_new (su_io su) (window_bda (m_kernel ?m)) (m_io ?m) = Some (\<lparr>devices = ds\<rparr>, io')" using i by (simp add: serial_new_def)
  then show ?thesis using ready_io(2) [OF assms(1)] by (simp add: emergency_serial_def Let_def)
qed

lemma wait_request_ok: "bsp_ready obs a our args s \<Longrightarrow> wait_request su serial s = Some (Inr (), s)"
  by (subst wait_request.simps) (simp add: bsp_ready_def Let_def)

lemma soft_reboot_ok:
  assumes "bsp_ready obs a our args s" "nmi_halts su a" "icr_quiet (su_hw su) (mode a) obs"
    and "register_file (su_hw su) (mode a) legal obs" "interrupt_laws (su_hw su) (mode a) obs" "orig_ia32_apic_base a AND IA32_APIC_BASE_EN \<noteq> 0"
  shows "\<exists>t h. soft_reboot su a s =
      Some (Inr (Rebooted (KERNEL_PHYS_WINDOW_BASE + ba_soft_reboot_addr args) (ba_trampoline_page_table args)), t) \<and>
    others_halted our (m_acpi (sy_machine t)) \<and> m_hw (sy_machine t) = written_back (su_hw su) a h"
proof -
  have s: "core_id (core_locals s) = 0" "apic_id (core_locals s) = Some our" "codes_ok (m_acpi (sy_machine s))" "k_args (m_kernel (sy_machine s)) = args"
    using assms(1) by (simp_all add: bsp_ready_def Let_def)
  obtain t where t: "disable_all_cores su a s = Some (Inr (), t)" "waited (pending_in (mode a) obs) s t" "others_halted our (m_acpi (sy_machine t))"
    using disable_all_cores_ok [OF assms(2,3) s(3,1,2)] by blast
  have "bsp_ready obs a our args t" by (rule ready_waited [OF assms(1) t(2)])
  then have r: "m_apic (sy_machine t) = Some a" "nests (core_of (sy_machine t))" "length (m_eoi_required (sy_machine t)) = 256"
    "\<not> m_eoi_required (sy_machine t) ! 2" "\<forall>x \<in> vectors_in (mode a) irr_regs (obs (m_hw (sy_machine t))). m_eoi_required (sy_machine t) ! x" "sy_devices t = []"
    by (simp_all add: bsp_ready_def Let_def)
  obtain h where h: "apic_drop (su_hw su) (su_call su) a (sy_machine t) = Some (Ok ((sy_machine t)\<lparr>m_hw := written_back (su_hw su) a h, m_draining := True,
      m_io := out8 (out8 (m_io (sy_machine t)) 0xa1 (orig_pic_a1 a)) 0x21 (orig_pic_21 a)\<rparr>))"
    using apic_drop_ok [OF assms(4,5) refl r(1-5) assms(6)] by blast
  have e: "t\<lparr>sy_devices := []\<rparr> = t" using r(6) by simp
  show ?thesis
    by (simp add: soft_reboot_def Let_def s(4) t(1) r(6) destroy_devices_def e drop_core_def r(1) h machine_def t(3) exI [of _ h])
qed
lemma panic_bsp_ok:
  assumes "bsp_ready obs a our args s" "nmi_halts su a" "icr_quiet (su_hw su) (mode a) obs" "serial_alive (su_io su)"
    and "register_file (su_hw su) (mode a) legal obs" "interrupt_laws (su_hw su) (mode a) obs" "orig_ia32_apic_base a AND IA32_APIC_BASE_EN \<noteq> 0"
  shows "\<exists>t h. panic_bsp su info s =
      Some (Inr (Rebooted (KERNEL_PHYS_WINDOW_BASE + ba_soft_reboot_addr args) (ba_trampoline_page_table args)), t) \<and>
    others_halted our (m_acpi (sy_machine t)) \<and> m_hw (sy_machine t) = written_back (su_hw su) a h"
proof -
  have s: "core_id (core_locals s) = 0" "apic_id (core_locals s) = Some our" "codes_ok (m_acpi (sy_machine s))" "m_apic (sy_machine s) = Some a"
    using assms(1) by (simp_all add: bsp_ready_def Let_def)
  obtain s1 where 1: "disable_all_cores su a s = Some (Inr (), s1)" "bsp_ready obs a our args s1"
    using disable_all_cores_ok [OF assms(2,3) s(3,1,2)] ready_waited [OF assms(1)] by blast
  obtain serial s2 where 2: "emergency_serial su s1 = Some (Inr serial, s2)" "bsp_ready obs a our args s2"
    using emergency_serial_ok [OF 1(2) assms(4)] by blast
  define text1 where "text1 = [10, 10, 10] @ (case sy_pending s of None \<Rightarrow> [] | Some i \<Rightarrow> panic_text ''Panic reported by other core'' i) @
      panic_text ''Local panic'' info"
  obtain s3 where 3: "ports (\<lambda>io. serial_write (su_io su) io serial text1) s2 = Some (Inr (), s3)" "bsp_ready obs a our args s3"
    using ports_ok [OF 2(2) assms(4)] by blast
  obtain s4 where 4: "ports (\<lambda>io. serial_write (su_io su) io serial (ascii ''Starting soft reboot...'' @ [10])) s3 = Some (Inr (), s4)" "bsp_ready obs a our args s4"
    using ports_ok [OF 3(2) assms(4)] by blast
  have "panic_bsp su info s = soft_reboot su a s4"
    unfolding panic_bsp_def Let_def s(4) option.case 1(1) bindP_simps 2(1) text1_def [symmetric] 3(1) wait_request_ok [OF 3(2)] 4(1) ..
  then show ?thesis using soft_reboot_ok [OF 4(2) assms(2,3,5-7)] by simp
qed

text \<open>
  A machine with two cores whose first reads a \<open>Z\<close> from its serial port. All cores are seen halted once the
  command register holds an NMI.
\<close>

definition sample_surroundings :: "sample_apic Surroundings" where
  "sample_surroundings = \<lparr>su_io = (\<lambda>t log p. if t = 0 then 1 else if t = 1 then 0x5a else 0x20), su_hw = sample_hw,
     su_call = (\<lambda>f v m. Panic []),
     su_cores = (\<lambda>n h st. if sa_regs h 0x830 = NMI then st\<lparr>apics := replicate (length (apics st)) (apic_state_code Halted)\<rparr> else st),
     su_where = (\<lambda>_. \<lparr>loc_file = [], loc_line = 0, loc_column = 0\<rparr>)\<rparr>"

definition sample_local_apic :: Apic where
  "sample_local_apic = \<lparr>mode = X2Apic, orig_ia32_apic_base = 0xfee00900, orig_svr = 0x1234, orig_pic_a1 = 0, orig_pic_21 = 0,
     orig_timer_state = \<lparr>dcr = 0x1234, icr = 0x1234, lvt = 0x1234\<rparr>\<rparr>"

definition sample_args :: BootArgs where
  "sample_args = (k_args sample_kernel)\<lparr>ba_serial := Some \<lparr>devices = [Some 0x3f8]\<rparr>, ba_trampoline_page_table := 0x5000, ba_soft_reboot_addr := 0x7d00\<rparr>"

definition sample_running_machine :: "sample_apic Machine" where
  "sample_running_machine = sample_machine\<lparr>m_kernel := sample_kernel\<lparr>k_args := sample_args\<rparr>, m_apic := Some sample_local_apic,
     m_eoi_required := (replicate 256 False)[0xe0 := True],
     m_hw := \<lparr>sa_base = 0xfee00d00, sa_regs = (\<lambda>_. 0), sa_pending = True, sa_service = True\<rparr>,
     m_acpi := acpi_start\<lparr>apics := (apics acpi_start)[0 := apic_state_code Online, 1 := apic_state_code Online]\<rparr>\<rparr>"

lemma sample_nmi_halts: "nmi_halts sample_surroundings sample_local_apic"
proof -
  have low: "ucast (push_bit 32 (ucast d) OR ucast c :: u64) = c" for d c :: u32
    by (rule bit_word_eqI) (auto simp: bit_or_iff bit_ucast_iff bit_push_bit_iff)
  have "sa_regs h' 0x830 = NMI" if "ipi sample_hw sample_local_apic ident NMI h = Ok h'" for ident h h'
    using that low by (auto simp: ipi_def write_icr_def sample_local_apic_def sample_hw_def IA32_APIC_BASE_def Let_def)
  then show ?thesis unfolding nmi_halts_def
    by (auto simp: sample_surroundings_def halted_more_def intro!: exI)
qed

lemma sample_icr_quiet: "icr_quiet sample_hw X2Apic sample_obs"
  by (simp add: icr_quiet_def sample_vectors sample_hw_def IA32_APIC_BASE_def)

lemma sample_serial_alive: "serial_alive (su_io sample_surroundings)"
proof -
  have "\<exists>k. su_io sample_surroundings (clock + k) log port AND 0x20 \<noteq> 0" for clock log port
    by (rule exI [of _ 2]) (simp add: sample_surroundings_def)
  moreover have "\<forall>clock log port. 2 \<le> clock \<longrightarrow> su_io sample_surroundings clock log port AND 1 = 0"
    by (simp add: sample_surroundings_def)
  ultimately show ?thesis unfolding serial_alive_def by blast
qed

lemma sample_ready:
  "bsp_ready sample_obs sample_local_apic 0 sample_args
     \<lparr>sy_machine = sample_running_machine\<lparr>m_reboot_requested := True\<rparr>, sy_pending = None, sy_devices = ([] :: 'd NetDevice list), sy_clock = 0\<rparr>"
proof -
  have "codes_ok (m_acpi sample_running_machine)"
    unfolding codes_ok_def
  proof (intro conjI allI impI)
    fix i assume i: "i < MAX_CORES"
    show "\<exists>st. apics (m_acpi sample_running_machine) ! i = apic_state_code st"
      by (rule exI [of _ "if i < 2 then Online else NoApic"])
        (use i in \<open>auto simp: sample_running_machine_def acpi_start_def nth_list_update less_2_cases_iff\<close>)
  qed (simp add: sample_running_machine_def acpi_start_def)
  then show ?thesis
    by (simp add: bsp_ready_def sample_running_machine_def sample_machine_def sample_kernel_def sample_local_apic_def nests_def apic_id_def
      sample_vectors Let_def)
qed


end
