(* ===== verification/Spec2Isabelle.thy ===== *)
theory Spec2Isabelle
  imports BootPhys KernelMm_Correct Flatten E1000 Dhcp_Correct Apic_Correct IntStub_Correct BootMain_Correct Smp_Correct Panic_Correct
begin

text \<open>
  A verification of chocolate_milk, a research kernel for x86 in Rust: a build tool, a bootloader that is started by
  a PXE BIOS and downloads the kernel, the kernel itself, and the crates they share. File names below are relative
  to \<open>src/\<close>.

  \<^bold>\<open>The program.\<close> The build tool (\<open>src/main.rs\<close>) flattens the PE file of the bootloader into an image the first
  stage (\<open>bootloader/src/stage0.asm\<close>) can run. The bootloader finds the free memory of the machine, downloads
  the kernel, builds two page tables, a trampoline and the table of the kernel, gives the core a stack and an identifier, and enters the
  kernel. The kernel sets up its core locals, interrupts and APIC; the first core also enumerates PCI, brings up
  network cards with a lease from DHCP, reads the ACPI tables and starts the other cores, each of which takes
  the same way. A panic on any core stops the machine and may end in a soft reboot back into the first stage.

  \<^bold>\<open>How the code is represented.\<close> The release build is modelled: integers are machine words and wrap. A panic is the
  result \<open>Panic msg\<close> of the type \<open>res\<close> (\<open>Prelude\<close>); code that may also not return is of type \<open>'a res option\<close>, where
  \<open>None\<close> means that it does not return, and its loops are \<open>partial_function (option)\<close>. No fuel is used
  anywhere: where a loop ends, that is a termination proof or a theorem that the result is not \<open>None\<close>. State is passed explicitly. A
  lock cell is its contents, except in the theory about the lock itself and where the code tests whether a
  lock is taken. Hardware and firmware are parameters: ports answer from an environment that
  sees everything written before (\<open>io_env\<close>), \<open>cpuid\<close> is a function, PCI configuration space, the registers of the network card and of the APIC are
  operations on an abstract hardware state, and the BIOS is a set of functions on memory. What a theorem assumes of them is a named
  predicate among its hypotheses, and every such theorem has a witness with a concrete instance.

  \<^bold>\<open>Shared crates.\<close>
  \<^item> \<open>RangeSet\<close>, \<open>RangeSet_Correct\<close>, \<open>RangeSet_Alloc\<close>: \<open>shared/rangeset\<close>. The array of 256 ranges with its
    panics; insertion and removal are union and difference on the addresses it denotes; allocation is sound and complete. The
    locale \<open>address_allocator\<close> is the contract of an allocator, interpreted on range sets and on the heap of the bootloader.
  \<^item> \<open>PeParser\<close>: \<open>shared/pe_parser\<close>, for both widths of \<open>usize\<close>. It never panics.
  \<^item> \<open>LockCell\<close>: \<open>shared/lockcell\<close>, a transition system with one step per atomic access. Mutual exclusion, first come
    first served, and when the detection of deadlocks is right and when it is not.
  \<^item> \<open>PageTable\<close>, \<open>PageTable_Correct\<close>, \<open>PageTable_Refine\<close>, \<open>PageTable_Map\<close>: \<open>shared/page_table\<close> over a byte
    memory. The tables represent a partial map from pages to entries; the operations refine lookup and update of that map. The physical memory
    is used through the locale \<open>phys_memory\<close>, interpreted for the bootloader (\<open>BootPhys\<close>) and for the kernel (\<open>KernelMm_Correct\<close>).
  \<^item> \<open>Serial\<close>, \<open>Cpu\<close>, \<open>CoreReqs\<close>, \<open>BootArgs\<close>, \<open>Bytes\<close>: the serial driver, the routines of the processor that compute
    something, the memory routines, the shared structure, and byte order.

  \<^bold>\<open>Build tool and bootloader.\<close>
  \<^item> \<open>Flatten\<close>: the flattened image, and that the loop of the first stage restores it on every boot.
  \<^item> \<open>BootMm\<close>: \<open>bootloader/src/mm.rs\<close>. The free memory computed from the memory map of the BIOS, and the heap.
  \<^item> \<open>Pxe\<close>, \<open>Pxe_Correct\<close>: \<open>bootloader/src/pxe.rs\<close>. The download returns the file.
  \<^item> \<open>BootMain\<close>, \<open>BootMain_Correct\<close>: \<open>bootloader/src/main.rs\<close>. The two page tables map the bootloader, the window onto
    physical memory and every byte of the sections of the kernel.

  \<^bold>\<open>Kernel.\<close>
  \<^item> \<open>CoreLocals\<close>: \<open>kernel/src/core_locals.rs\<close>. Locks and interrupts nest; the locale \<open>nesting\<close> is interpreted on the core locals.
  \<^item> \<open>KernelMm\<close>, \<open>KernelMm_Correct\<close>: \<open>kernel/src/mm.rs\<close>. The free list kept inside the pages refines a stack; allocations are mapped
    and virtual regions never overlap.
  \<^item> \<open>Interrupts\<close>, \<open>IntStub\<close>, \<open>IntStub_Correct\<close>: \<open>kernel/src/interrupts.rs\<close>. The descriptor tables decode to the handlers and stacks meant,
    and the entry stubs, run instruction by instruction, hand the registers over and restore them.
  \<^item> \<open>Apic\<close>, \<open>Apic_Correct\<close>: \<open>kernel/src/apic.rs\<close> and the interrupt handler. Dropping the APIC undoes its initialisation.
  \<^item> \<open>Acpi\<close>, \<open>Acpi_Correct\<close>: \<open>kernel/src/acpi.rs\<close>. Parsing ends on every memory; tables that were laid out are read back.
  \<^item> \<open>Pci\<close>, \<open>Net\<close>, \<open>Net_Udp\<close>, \<open>NetDevice\<close>, \<open>E1000\<close>, \<open>Dhcp\<close>, \<open>Dhcp_Correct\<close>: \<open>kernel/src/pci.rs\<close>, \<open>net.rs\<close>, \<open>e1000.rs\<close>, \<open>dhcp.rs\<close>.
    Checksums, parsers and constructors of packets, delivery to the queues of bound ports over the locale \<open>net_driver\<close>, which is
    interpreted on the driver, and the lease.
  \<^item> \<open>Smp\<close>, \<open>Smp_Correct\<close>: \<open>kernel/src/main.rs\<close> with the launch of \<open>acpi.rs\<close> and the stack flag of \<open>stage0.asm\<close>, as an inductive step
    relation over all cores. The early stack has one owner, identifiers are unique, \<open>core_checkin\<close> is a barrier, and all cores start.
  \<^item> \<open>Panic\<close>, \<open>Panic_Correct\<close>: \<open>kernel/src/panic.rs\<close>. The requested soft reboot happens when there are no devices, and never
    happens when there is one.

  \<^bold>\<open>Bounds.\<close> The range set has 256 entries, APIC identifiers are below 1024 (\<open>MAX_CORES\<close>), the window has 64 GiB, as in the source. A
  Rust slice has at most \<open>isize::MAX\<close> bytes; parsers assume no more.

  \<^bold>\<open>Not modelled.\<close> Mode switches and real-mode calls of \<open>stage0.asm\<close> and \<open>asm_routines.asm\<close> are changes of processor state below the
  level of the model; what they do is the parameter the callers use. \<open>kernel/src/time.rs\<close> is floating point arithmetic on the time
  stamp counter. \<open>kernel/src/print.rs\<close> connects the formatting macros of the language to the serial driver. The panic handler of the
  bootloader writes one message and halts. \<open>intrins.rs\<close> and \<open>intrinsics.rs\<close> define symbols for the compiler. Of the build
  tool, \<open>main\<close> and \<open>check_install\<close> run other programs and copy files. Of \<open>shared/cpu\<close>, routines that are one instruction
  on processor state have no definition of their own. Translation buffers and memory ordering weaker than
  sequential consistency are outside the model; the source uses \<open>SeqCst\<close> for the accesses that are modelled as steps.
\<close>

end
